(* ===== verification/Prelude.thy ===== *)
theory Prelude
  imports Main "HOL-Library.Word" "HOL-Library.Monad_Syntax"
begin

text \<open>
  Shared vocabulary of the development: the machine types of the LP64 Linux build the
  model follows (\<open>int\<close> is 32 bits, \<open>size_t\<close> and pointers are 64 bits), flag
  words, byte memories, little-endian encodings and doubly linked chains on a store.
  Everything here is generic; the components declare their own records on top of it.
\<close>

unbundle bit_operations_syntax

named_theorems flag_simps
named_theorems mem_simps

section \<open>Types\<close>

text \<open>
  A pointer is \<^term>\<open>None\<close> (NULL) or the address of a cell. Binding a pointer in the
  option monad is dereferencing it, so that a NULL dereference makes the whole
  computation \<^term>\<open>None\<close>.
\<close>

type_synonym ptr = "nat option"
type_synonym byte = "8 word"
type_synonym u32 = "32 word"
type_synonym mem = "nat \<Rightarrow> byte"

section \<open>Signed 32-bit arithmetic\<close>

text \<open>C's \<open>int\<close>: two's complement, written out on \<^typ>\<open>int\<close>.\<close>

definition wrap32 :: "int \<Rightarrow> int" where
  "wrap32 x = (x + 2147483648) mod 4294967296 - 2147483648"

definition in_int32 :: "int \<Rightarrow> bool" where
  "in_int32 x \<longleftrightarrow> - 2147483648 \<le> x \<and> x < 2147483648"

lemma wrap32_range: "in_int32 (wrap32 x)"
  by (simp add: wrap32_def in_int32_def)

lemma wrap32_id [simp]: "in_int32 x \<Longrightarrow> wrap32 x = x"
  by (simp add: wrap32_def in_int32_def)

lemma wrap32_idem [simp]: "wrap32 (wrap32 x) = wrap32 x"
  by (rule wrap32_id) (rule wrap32_range)

lemma wrap32_over:
  assumes "2147483648 \<le> x" and "x < 6442450944"
  shows "wrap32 x = x - 4294967296"
proof -
  have "x + 2147483648 = (x - 2147483648) + 4294967296" by simp
  then have "(x + 2147483648) mod 4294967296 = (x - 2147483648) mod 4294967296"
    by (metis mod_add_self2)
  with assms show ?thesis by (simp add: wrap32_def)
qed

text \<open>C's \<open>/\<close> and \<open>%\<close> on signed integers truncate towards zero.\<close>

definition c_div :: "int \<Rightarrow> int \<Rightarrow> int" where
  "c_div a b = sgn a * sgn b * (\<bar>a\<bar> div \<bar>b\<bar>)"

definition c_mod :: "int \<Rightarrow> int \<Rightarrow> int" where
  "c_mod a b = a - c_div a b * b"

lemma c_div_pos: "0 \<le> a \<Longrightarrow> 0 < b \<Longrightarrow> c_div a b = a div b"
  by (cases "a = 0") (auto simp: c_div_def sgn_if)

lemma c_mod_pos: "0 \<le> a \<Longrightarrow> 0 < b \<Longrightarrow> c_mod a b = a mod b"
  by (simp add: c_mod_def c_div_pos minus_div_mult_eq_mod)

text \<open>C's \<open>unsigned int\<close> on \<^typ>\<open>nat\<close>, reduced modulo \<open>2\<^sup>3\<^sup>2\<close>.\<close>

definition u32_add :: "nat \<Rightarrow> nat \<Rightarrow> nat" where
  "u32_add a b = (a + b) mod 4294967296"

definition u32_sub :: "nat \<Rightarrow> nat \<Rightarrow> nat" where
  "u32_sub a b = (a + 4294967296 - b) mod 4294967296"

definition u32_mul :: "nat \<Rightarrow> nat \<Rightarrow> nat" where
  "u32_mul a b = (a * b) mod 4294967296"

lemma u32_add_id [simp]: "a + b < 4294967296 \<Longrightarrow> u32_add a b = a + b"
  by (simp add: u32_add_def)

lemma u32_sub_id [simp]:
  assumes "b \<le> a" and "a < 4294967296"
  shows "u32_sub a b = a - b"
proof -
  have "a + 4294967296 - b = (a - b) + 4294967296" using assms(1) by linarith
  then have "u32_sub a b = ((a - b) + 4294967296) mod 4294967296"
    by (simp only: u32_sub_def)
  also have "\<dots> = a - b" using assms(2) by simp
  finally show ?thesis .
qed

lemma u32_mul_id [simp]: "a * b < 4294967296 \<Longrightarrow> u32_mul a b = a * b"
  by (simp add: u32_mul_def)

section \<open>Flag words\<close>

definition flag_on :: "'a::len word \<Rightarrow> 'a word \<Rightarrow> bool" where
  "flag_on f m \<longleftrightarrow> f AND m \<noteq> 0"

definition set_flag :: "'a::len word \<Rightarrow> 'a word \<Rightarrow> 'a word" where
  "set_flag f m = f OR m"

definition clr_flag :: "'a::len word \<Rightarrow> 'a word \<Rightarrow> 'a word" where
  "clr_flag f m = f AND NOT m"

lemma flag_on_bit: "flag_on f m \<longleftrightarrow> (\<exists>n. bit f n \<and> bit m n)"
  by (auto simp: flag_on_def bit_eq_iff bit_simps dest: bit_imp_le_length)

lemma flag_on_set_same [flag_simps]: "m \<noteq> 0 \<Longrightarrow> flag_on (set_flag f m) m"
  by (simp add: flag_on_def set_flag_def and.commute [of _ m] bit.conj_disj_distrib)

lemma flag_on_set_mono: "flag_on f m \<Longrightarrow> flag_on (set_flag f n) m"
  by (auto simp: flag_on_bit set_flag_def bit_simps)

lemma flag_on_set_other [flag_simps]: "n AND m = 0 \<Longrightarrow> flag_on (set_flag f n) m = flag_on f m"
  by (simp add: flag_on_def set_flag_def bit.conj_disj_distrib2)

lemma flag_on_clr_same [flag_simps]: "m AND NOT n = 0 \<Longrightarrow> \<not> flag_on (clr_flag f n) m"
  by (auto simp: flag_on_bit clr_flag_def bit_eq_iff bit_simps)

lemma flag_on_clr_other [flag_simps]: "NOT n AND m = m \<Longrightarrow> flag_on (clr_flag f n) m = flag_on f m"
  by (simp add: flag_on_def clr_flag_def and.assoc)

lemma flag_on_0 [flag_simps, simp]: "\<not> flag_on 0 m"
  by (simp add: flag_on_def)

text \<open>Setting a flag of one bit that is on already.\<close>

lemma set_flag_idem:
  assumes "m = push_bit k 1" and "flag_on f m"
  shows "set_flag f m = f"
proof (rule bit_word_eqI)
  fix n
  show "bit (set_flag f m) n = bit f n"
    using assms(2) by (auto simp: assms(1) set_flag_def flag_on_bit bit_simps)
qed

section \<open>Byte memories\<close>

text \<open>\<open>memcpy\<close> into a buffer and reading a run of bytes back.\<close>

definition write_bytes :: "mem \<Rightarrow> nat \<Rightarrow> byte list \<Rightarrow> mem" where
  "write_bytes m off bs =
     (\<lambda>i. if off \<le> i \<and> i < off + length bs then bs ! (i - off) else m i)"

definition read_bytes :: "mem \<Rightarrow> nat \<Rightarrow> nat \<Rightarrow> byte list" where
  "read_bytes m off n = map (\<lambda>i. m (off + i)) [0..<n]"

lemma length_read_bytes [simp, mem_simps]: "length (read_bytes m off n) = n"
  by (simp add: read_bytes_def)

lemma read_bytes_0 [simp, mem_simps]: "read_bytes m off 0 = []"
  by (simp add: read_bytes_def)

lemma nth_read_bytes [simp, mem_simps]: "i < n \<Longrightarrow> read_bytes m off n ! i = m (off + i)"
  by (simp add: read_bytes_def)

lemma read_bytes_cong:
  "(\<And>i. off \<le> i \<Longrightarrow> i < off + n \<Longrightarrow> m i = m' i) \<Longrightarrow> read_bytes m off n = read_bytes m' off n"
  by (simp add: read_bytes_def)

lemma read_write_same [simp, mem_simps]:
  "n = length bs \<Longrightarrow> read_bytes (write_bytes m off bs) off n = bs"
  by (auto simp: read_bytes_def write_bytes_def intro: nth_equalityI)

lemma read_write_disjoint [mem_simps]:
  "o1 + n \<le> o2 \<or> o2 + length bs \<le> o1 \<Longrightarrow>
   read_bytes (write_bytes m o2 bs) o1 n = read_bytes m o1 n"
  by (rule read_bytes_cong) (auto simp: write_bytes_def)

lemma read_bytes_add: "read_bytes m off (a + b) = read_bytes m off a @ read_bytes m (off + a) b"
  by (rule nth_equalityI) (auto simp: nth_append add.assoc)

lemma read_bytes_take: "k \<le> n \<Longrightarrow> take k (read_bytes m off n) = read_bytes m off k"
  by (rule nth_equalityI) auto

lemma read_bytes_drop: "drop k (read_bytes m off n) = read_bytes m (off + k) (n - k)"
  by (rule nth_equalityI) (auto simp: add.assoc)

section \<open>Little-endian encodings\<close>

text \<open>The object representation of an unsigned integer of \<open>k\<close> bytes.\<close>

fun le_bytes :: "nat \<Rightarrow> nat \<Rightarrow> byte list" where
  "le_bytes 0 v = []"
| "le_bytes (Suc k) v = word_of_nat (v mod 256) # le_bytes k (v div 256)"

fun le_val :: "byte list \<Rightarrow> nat" where
  "le_val [] = 0"
| "le_val (b # bs) = unat b + 256 * le_val bs"

lemma length_le_bytes [simp]: "length (le_bytes k v) = k"
  by (induction k arbitrary: v) auto

lemma unat_of_mod_256 [simp]: "unat (word_of_nat (v mod 256) :: byte) = v mod 256"
  by (simp add: unat_of_nat)

lemma le_val_le_bytes: "le_val (le_bytes k v) = v mod 256 ^ k"
proof (induction k arbitrary: v)
  case 0
  then show ?case by simp
next
  case (Suc k)
  then show ?case by (simp add: mod_mult2_eq)
qed

lemma le_val_le_bytes_id [simp]: "v < 256 ^ k \<Longrightarrow> le_val (le_bytes k v) = v"
  by (simp add: le_val_le_bytes)

lemma unat_less_helper_byte: "unat (b :: byte) < 256"
  by (rule order_less_le_trans [OF unsigned_less]) simp

lemma le_val_bound: "le_val bs < 256 ^ length bs"
proof (induction bs)
  case Nil
  then show ?case by simp
next
  case (Cons b bs)
  have "unat b < 256" by (rule unat_less_helper_byte)
  with Cons show ?case by simp
qed

lemma le_bytes_word64 [simp]: "word_of_nat (le_val (le_bytes 8 (unat x))) = (x :: 64 word)"
proof -
  have "unat x < 256 ^ 8"
    by (rule order_less_le_trans [OF unsigned_less]) simp
  then show ?thesis by (simp only: le_val_le_bytes_id) simp
qed

section \<open>Chains of cells\<close>

text \<open>
  A doubly linked list laid out on a store: \<open>nx\<close> and \<open>pv\<close> read the next and
  previous pointer of a cell. \<open>chain nx pv p xs q\<close> says that the cells \<open>xs\<close>
  are linked in this order, that \<open>p\<close> precedes the first and \<open>q\<close> follows the last.
\<close>

definition hdp :: "nat list \<Rightarrow> ptr \<Rightarrow> ptr" where
  "hdp xs q = (case xs of [] \<Rightarrow> q | x # _ \<Rightarrow> Some x)"

definition lastp :: "nat list \<Rightarrow> ptr \<Rightarrow> ptr" where
  "lastp xs p = (if xs = [] then p else Some (last xs))"

fun chain :: "(nat \<Rightarrow> ptr) \<Rightarrow> (nat \<Rightarrow> ptr) \<Rightarrow> ptr \<Rightarrow> nat list \<Rightarrow> ptr \<Rightarrow> bool" where
  "chain nx pv p [] q = True"
| "chain nx pv p (x # xs) q = (pv x = p \<and> nx x = hdp xs q \<and> chain nx pv (Some x) xs q)"

lemma hdp_simps [simp]: "hdp [] q = q" "hdp (x # xs) q = Some x" "hdp (xs @ ys) q = hdp xs (hdp ys q)"
  by (auto simp: hdp_def split: list.splits)

lemma lastp_simps [simp]:
  "lastp [] p = p" "lastp [x] p = Some x" "lastp (x # xs) p = lastp xs (Some x)"
  "lastp (xs @ ys) p = lastp ys (lastp xs p)"
  by (auto simp: lastp_def)

lemma hdp_hd: "xs \<noteq> [] \<Longrightarrow> hdp xs q = Some (hd xs)"
  by (cases xs) auto

lemma lastp_last: "xs \<noteq> [] \<Longrightarrow> lastp xs p = Some (last xs)"
  by (simp add: lastp_def)

lemma lastp_notin: "x \<notin> set xs \<Longrightarrow> Some x \<noteq> lastp xs None"
  using last_in_set [of xs] by (auto simp: lastp_def)

lemma hdp_notin: "x \<notin> set xs \<Longrightarrow> Some x \<noteq> hdp xs None"
  by (cases xs) auto

lemma chain_append [simp]:
  "chain nx pv p (xs @ ys) q \<longleftrightarrow>
   chain nx pv p xs (hdp ys q) \<and> chain nx pv (lastp xs p) ys q"
  by (induction xs arbitrary: p) auto

lemma chain_cong:
  "(\<And>x. x \<in> set xs \<Longrightarrow> nx x = nx' x \<and> pv x = pv' x) \<Longrightarrow>
   chain nx pv p xs q = chain nx' pv' p xs q"
  by (induction xs arbitrary: p) auto

text \<open>Both ends of a chain relinked, the inner links kept.\<close>

lemma chain_relink:
  assumes "chain nx pv p xs q" and "distinct xs"
    and "xs \<noteq> [] \<Longrightarrow> pv' (hd xs) = p'" and "xs \<noteq> [] \<Longrightarrow> nx' (last xs) = q'"
    and "\<And>x. x \<in> set xs \<Longrightarrow> x \<noteq> hd xs \<Longrightarrow> pv' x = pv x"
    and "\<And>x. x \<in> set xs \<Longrightarrow> x \<noteq> last xs \<Longrightarrow> nx' x = nx x"
  shows "chain nx' pv' p' xs q'"
  using assms
proof (induction xs arbitrary: p p')
  case Nil
  then show ?case by simp
next
  case (Cons y ys)
  show ?case
  proof (cases "ys = []")
    case True
    with Cons.prems show ?thesis by simp
  next
    case False
    have "chain nx' pv' (Some y) ys q'"
      by (rule Cons.IH [of "Some y"]) (use Cons.prems False in \<open>auto simp: neq_Nil_conv\<close>)
    moreover have "y \<noteq> last ys" using Cons.prems(2) False last_in_set [of ys] by auto
    then have "nx' y = nx y" using Cons.prems(6) [of y] False by simp
    ultimately show ?thesis using Cons.prems False by (simp add: hdp_hd)
  qed
qed

lemma chain_ends:
  "chain nx pv p xs q \<Longrightarrow> xs \<noteq> [] \<Longrightarrow> pv (hd xs) = p"
  "chain nx pv p xs q \<Longrightarrow> xs \<noteq> [] \<Longrightarrow> nx (last xs) = q"
  by (induction xs arbitrary: p) (auto split: if_splits)

text \<open>One end relinked.\<close>

lemma chain_relink_next:
  assumes "chain nx pv p xs q" and "distinct xs" and "xs \<noteq> [] \<Longrightarrow> nx' (last xs) = q'"
    and "\<And>x. x \<in> set xs \<Longrightarrow> pv' x = pv x"
    and "\<And>x. x \<in> set xs \<Longrightarrow> x \<noteq> last xs \<Longrightarrow> nx' x = nx x"
  shows "chain nx' pv' p xs q'"
  by (rule chain_relink [OF assms(1,2)]) (use assms chain_ends in auto)

lemma chain_relink_prev:
  assumes "chain nx pv p xs q" and "distinct xs" and "xs \<noteq> [] \<Longrightarrow> pv' (hd xs) = p'"
    and "\<And>x. x \<in> set xs \<Longrightarrow> nx' x = nx x"
    and "\<And>x. x \<in> set xs \<Longrightarrow> x \<noteq> hd xs \<Longrightarrow> pv' x = pv x"
  shows "chain nx' pv' p' xs q"
  by (rule chain_relink [OF assms(1,2)]) (use assms chain_ends in auto)

text \<open>Singly linked lists.\<close>

fun slist :: "(nat \<Rightarrow> ptr) \<Rightarrow> nat list \<Rightarrow> ptr \<Rightarrow> bool" where
  "slist nx [] q = True"
| "slist nx (x # xs) q = (nx x = hdp xs q \<and> slist nx xs q)"

lemma slist_append [simp]: "slist nx (xs @ ys) q \<longleftrightarrow> slist nx xs (hdp ys q) \<and> slist nx ys q"
  by (induction xs) auto

lemma slist_cong: "(\<And>x. x \<in> set xs \<Longrightarrow> nx x = nx' x) \<Longrightarrow> slist nx xs q = slist nx' xs q"
  by (induction xs) auto

lemma slist_if [simp]: "x \<notin> set xs \<Longrightarrow> slist (\<lambda>e. if e = x then y else f e) xs q = slist f xs q"
  by (rule slist_cong) auto

end
