(* ===== verification/Lua_Api.thy ===== *)
theory Lua_Api
  imports Prelude
begin

text \<open>
  What the C sources see of Lua: the dynamically typed values on a Lua stack, their type
  tags, and the errors a C function raises. The interpreter itself is not part of the
  repository. A C function of the library is modelled on the values that its argument
  decoding calls (\<open>lua_tointeger\<close>, \<open>lua_toboolean\<close>, \<open>luaL_opt\<dots>\<close>)
  return; a Lua callback it runs is a parameter of the definition.
\<close>

text \<open>
  A number is kept as the 64-bit pattern of a \<open>lua_Number\<close>; a light userdata is an
  address; a full userdata, function, table or coroutine is the address of its block.
\<close>

datatype lua_value =
    LNil
  | LBool bool
  | LLight nat
  | LNumber "64 word"
  | LString "byte list"
  | LTable nat
  | LFunction nat
  | LUserdata nat
  | LThread nat

text \<open>The tags \<open>LUA_TNIL\<close> \<dots> \<open>LUA_TTHREAD\<close> of the Lua headers.\<close>

fun lua_type :: "lua_value \<Rightarrow> nat" where
  "lua_type LNil = 0"
| "lua_type (LBool _) = 1"
| "lua_type (LLight _) = 2"
| "lua_type (LNumber _) = 3"
| "lua_type (LString _) = 4"
| "lua_type (LTable _) = 5"
| "lua_type (LFunction _) = 6"
| "lua_type (LUserdata _) = 7"
| "lua_type (LThread _) = 8"

text \<open>Errors: \<open>luaL_argerror\<close>, \<open>lua_error\<close> with a pending value.\<close>

datatype lua_error = ArgError nat string | Raised

text \<open>
  The stack operations the sources use, on a stack given from its bottom; positions are
  counted from 1 as in the interface of Lua.
\<close>

definition lua_settop :: "nat \<Rightarrow> lua_value list \<Rightarrow> lua_value list" where
  "lua_settop n st = take n st @ replicate (n - length st) LNil"

definition lua_insert :: "nat \<Rightarrow> lua_value list \<Rightarrow> lua_value list" where
  "lua_insert idx st = take (idx - 1) (butlast st) @ last st # drop (idx - 1) (butlast st)"

definition lua_remove :: "nat \<Rightarrow> lua_value list \<Rightarrow> lua_value list" where
  "lua_remove idx st = take (idx - 1) st @ drop idx st"

fun lua_touserdata :: "lua_value \<Rightarrow> ptr" where
  "lua_touserdata (LLight a) = Some a"
| "lua_touserdata (LUserdata a) = Some a"
| "lua_touserdata _ = None"

lemma length_lua_settop [simp]: "length (lua_settop n st) = n"
  by (simp add: lua_settop_def)

lemma lua_insert_snoc [simp]:
  "lua_insert idx (st @ [v]) = take (idx - 1) st @ v # drop (idx - 1) st"
  by (simp add: lua_insert_def)

end
