(* ===== verification/Pipe_Msg.thy ===== *)
theory Pipe_Msg
  imports Lua_Api
begin

text \<open>
  Messages of the inter-VM pipes (src/src/thread/thread_pipe.c): how a list of Lua values
  is packed into a \<open>struct message\<close> and unpacked again. The items area is a byte
  memory; a \<open>struct message_item\<close> is one byte of type, two bytes of length, padding up
  to offset 8 and then the value.
\<close>

section \<open>Layout\<close>

definition MSG_MAXSIZE :: nat where "MSG_MAXSIZE = 512"
definition MSG_ITEM_ALIGN :: nat where "MSG_ITEM_ALIGN = 4"

text \<open>\<open>offsetof(struct message_item, v)\<close> and \<open>sizeof(item->v)\<close>.\<close>

definition item_v_off :: nat where "item_v_off = 8"
definition item_v_size :: nat where "item_v_size = 8"

record message =
  msg_size :: nat
  msg_items :: mem

text \<open>\<open>offsetof(struct message, items)\<close>: the items follow the \<open>unsigned short\<close>.\<close>

definition msg_items_off :: nat where "msg_items_off = 2"

lemmas msg_layout = MSG_MAXSIZE_def MSG_ITEM_ALIGN_def item_v_off_def item_v_size_def
  msg_items_off_def

definition item_align :: "nat \<Rightarrow> nat" where
  "item_align len = (len + (MSG_ITEM_ALIGN - 1)) div MSG_ITEM_ALIGN * MSG_ITEM_ALIGN"

section \<open>Building a message\<close>

text \<open>The bytes stored at \<open>item->v\<close> for a value; \<open>None\<close> for a type that is refused.\<close>

fun item_value :: "lua_value \<Rightarrow> byte list option" where
  "item_value (LString s) = Some s"
| "item_value (LNumber n) = Some (le_bytes 8 (unat n))"
| "item_value (LBool b) = Some (le_bytes 1 (of_bool b))"
| "item_value LNil = Some []"
| "item_value (LLight p) = Some (le_bytes 8 p)"
| "item_value (LUserdata p) = Some (le_bytes 8 p)"
| "item_value _ = None"

text \<open>
  The loop of \<open>pipe_msg_build\<close>: \<open>idx\<close> is the stack index of the first value,
  \<open>cp\<close> the write position. The size test uses the string's length or
  \<open>sizeof(item->v)\<close> and comes before the type test.
\<close>

definition item_room :: "lua_value \<Rightarrow> nat" where
  "item_room v = (case v of LString s \<Rightarrow> length s | _ \<Rightarrow> item_v_size)"

definition item_store :: "mem \<Rightarrow> nat \<Rightarrow> lua_value \<Rightarrow> byte list \<Rightarrow> mem" where
  "item_store m cp v bs =
     (let m1 = write_bytes m (cp + item_v_off) bs;
          m2 = write_bytes m1 cp (le_bytes 1 (lua_type v))
      in write_bytes m2 (cp + 1) (le_bytes 2 (length bs)))"

fun msg_build_items ::
  "nat \<Rightarrow> lua_value list \<Rightarrow> nat \<Rightarrow> mem \<Rightarrow> lua_error + nat \<times> mem" where
  "msg_build_items idx [] cp m = Inr (cp, m)"
| "msg_build_items idx (v # vs) cp m =
     (let cpv = cp + item_v_off
      in if cpv + item_room v \<ge> MSG_MAXSIZE - MSG_ITEM_ALIGN
         then Inl (ArgError idx ''too big message'')
         else case item_value v of
             None \<Rightarrow> Inl (ArgError idx ''primitive type expected'')
           | Some bs \<Rightarrow>
               msg_build_items (Suc idx) vs (cpv + item_align (length bs))
                 (item_store m cp v bs))"

text \<open>
  \<open>pipe_msg_build\<close>: \<open>m0\<close> is the uninitialised items area of the caller's
  message variable.
\<close>

definition pipe_msg_build :: "lua_value list \<Rightarrow> nat \<Rightarrow> mem \<Rightarrow> lua_error + message" where
  "pipe_msg_build vs idx m0 =
     (case msg_build_items idx vs 0 m0 of
        Inl e \<Rightarrow> Inl e
      | Inr (cp, m) \<Rightarrow> Inr \<lparr>msg_size = (msg_items_off + cp) mod 65536, msg_items = m\<rparr>)"

section \<open>Parsing a message\<close>

text \<open>\<open>item->len\<close> is a signed 16-bit bit-field.\<close>

definition item_len :: "mem \<Rightarrow> nat \<Rightarrow> int" where
  "item_len m cp =
     (let v = le_val (read_bytes m (cp + 1) 2)
      in if v < 32768 then int v else int v - 65536)"

definition item_push :: "mem \<Rightarrow> nat \<Rightarrow> lua_value" where
  "item_push m cp =
     (let t = le_val (read_bytes m cp 1); v = cp + item_v_off
      in if t = lua_type (LString []) then LString (read_bytes m v (nat (item_len m cp)))
         else if t = lua_type (LNumber 0)
           then LNumber (word_of_nat (le_val (read_bytes m v 8)))
         else if t = lua_type (LBool False) then LBool (le_val (read_bytes m v 1) \<noteq> 0)
         else if t = lua_type LNil then LNil
         else LLight (le_val (read_bytes m v 8)))"

text \<open>
  The loop of \<open>pipe_msg_parse\<close>. Positions are signed, as pointer differences are; a
  position before the items area has no defined result. The Lua stack is assumed to grow
  when \<open>luaL_checkstack\<close> asks for it.
\<close>

partial_function (option) msg_parse_items ::
  "mem \<Rightarrow> int \<Rightarrow> int \<Rightarrow> lua_value list option" where
  "msg_parse_items m cp endp =
     (if cp < endp then
        (if cp < 0 then None
         else do {
           let len = item_len m (nat cp);
           rest \<leftarrow> msg_parse_items m
             (cp + int item_v_off + (len + (int MSG_ITEM_ALIGN - 1)) div int MSG_ITEM_ALIGN
                * int MSG_ITEM_ALIGN) endp;
           Some (item_push m (nat cp) # rest)
         })
      else Some [])"

definition pipe_msg_parse :: "message \<Rightarrow> lua_value list option" where
  "pipe_msg_parse msg =
     msg_parse_items (msg_items msg) 0 (int (msg_size msg) - int msg_items_off)"

section \<open>The bytes that travel\<close>

text \<open>\<open>memcpy(\<dots>, &msg, msg.size)\<close> and the copy into the receiver's message.\<close>

definition msg_bytes :: "message \<Rightarrow> byte list" where
  "msg_bytes msg = le_bytes 2 (msg_size msg)
     @ read_bytes (msg_items msg) 0 (msg_size msg - msg_items_off)"

definition msg_of_bytes :: "byte list \<Rightarrow> message" where
  "msg_of_bytes bs =
     \<lparr>msg_size = le_val (take 2 bs),
      msg_items = (\<lambda>i. if i + 2 < length bs then bs ! (i + 2) else 0)\<rparr>"

section \<open>Lemmas\<close>

text \<open>The value that arrives: userdata are shared as light userdata.\<close>

fun shared_value :: "lua_value \<Rightarrow> lua_value" where
  "shared_value (LUserdata p) = LLight p"
| "shared_value v = v"

text \<open>A value can be sent: a primitive type, and an address of 64 bits.\<close>

fun sendable :: "lua_value \<Rightarrow> bool" where
  "sendable (LLight p) = (p < 2 ^ 64)"
| "sendable (LUserdata p) = (p < 2 ^ 64)"
| "sendable _ = True"

lemma item_align_ge: "len \<le> item_align len" "item_align len \<le> len + 3" "4 dvd item_align len"
  by (auto simp: item_align_def msg_layout)

lemma item_align_int:
  "(int len + (int MSG_ITEM_ALIGN - 1)) div int MSG_ITEM_ALIGN * int MSG_ITEM_ALIGN
   = int (item_align len)"
  by (simp add: item_align_def msg_layout zdiv_int)

lemma item_value_room: "item_value v = Some bs \<Longrightarrow> length bs \<le> item_room v"
  by (cases v) (auto simp: item_room_def msg_layout)

lemma msg_build_Cons:
  "msg_build_items idx (v # vs) cp m = Inr r \<longleftrightarrow>
   (\<exists>bs. item_value v = Some bs \<and> cp + 8 + item_room v < 508 \<and>
      msg_build_items (Suc idx) vs (cp + 8 + item_align (length bs)) (item_store m cp v bs)
        = Inr r)"
  by (auto simp: Let_def msg_layout split: option.splits)

declare msg_build_items.simps(2) [simp del]

text \<open>Items below the write position are left alone by the rest of the loop.\<close>

lemma msg_build_items_frame:
  "msg_build_items idx vs cp m = Inr (cp', m') \<Longrightarrow> cp \<le> cp' \<and> (\<forall>i < cp. m' i = m i)"
proof (induction vs arbitrary: idx cp m)
  case Nil
  then show ?case by simp
next
  case (Cons v vs)
  from Cons.prems obtain bs where
    "msg_build_items (Suc idx) vs (cp + 8 + item_align (length bs)) (item_store m cp v bs)
      = Inr (cp', m')"
    by (auto simp: msg_build_Cons)
  from Cons.IH [OF this] show ?case
    by (auto simp: item_store_def write_bytes_def Let_def)
qed

lemma msg_build_items_bound:
  "msg_build_items idx vs cp m = Inr (cp', m') \<Longrightarrow> 4 dvd cp \<Longrightarrow> cp \<le> 508 \<Longrightarrow>
   4 dvd cp' \<and> cp' \<le> 508"
proof (induction vs arbitrary: idx cp m)
  case Nil
  then show ?case by simp
next
  case (Cons v vs)
  from Cons.prems(1) obtain bs where v: "item_value v = Some bs" "cp + 8 + item_room v < 508"
    and rest: "msg_build_items (Suc idx) vs (cp + 8 + item_align (length bs))
      (item_store m cp v bs) = Inr (cp', m')"
    by (auto simp: msg_build_Cons)
  have "cp + 8 + item_align (length bs) \<le> 508"
    using v item_value_room [OF v(1)] item_align_ge [of "length bs"] \<open>4 dvd cp\<close>
    by presburger
  with Cons.IH [OF rest] Cons.prems(2) item_align_ge [of "length bs"] show ?case
    by simp
qed

lemma lua_type_small: "lua_type v < 256"
  by (cases v) auto

text \<open>What an item holds, as the three reads of the parser.\<close>

definition item_holds :: "mem \<Rightarrow> nat \<Rightarrow> lua_value \<Rightarrow> byte list \<Rightarrow> bool" where
  "item_holds m cp v bs \<longleftrightarrow>
     read_bytes m cp 1 = le_bytes 1 (lua_type v) \<and>
     read_bytes m (cp + 1) 2 = le_bytes 2 (length bs) \<and>
     read_bytes m (cp + item_v_off) (length bs) = bs"

lemma item_holds_store: "item_holds (item_store m cp v bs) cp v bs"
  by (simp add: item_holds_def item_store_def Let_def read_write_disjoint msg_layout)

lemma item_holds_cong:
  assumes "item_holds m cp v bs"
    and "\<And>i. cp \<le> i \<Longrightarrow> i < cp + 8 + length bs \<Longrightarrow> m' i = m i"
  shows "item_holds m' cp v bs"
proof -
  have "read_bytes m' cp 1 = read_bytes m cp 1"
    and "read_bytes m' (cp + 1) 2 = read_bytes m (cp + 1) 2"
    and "read_bytes m' (cp + item_v_off) (length bs) = read_bytes m (cp + item_v_off) (length bs)"
    using assms(2) by (auto intro!: read_bytes_cong simp: msg_layout)
  with assms(1) show ?thesis by (simp add: item_holds_def)
qed

lemma item_holds_len: "item_holds m cp v bs \<Longrightarrow> length bs < 32768 \<Longrightarrow> item_len m cp = int (length bs)"
  by (simp add: item_holds_def item_len_def del: le_bytes.simps)

lemma item_holds_push:
  assumes "item_holds m cp v bs" and "item_value v = Some bs" and "length bs < 32768"
    and "sendable v"
  shows "item_push m cp = shared_value v"
proof -
  have "le_val (read_bytes m cp 1) = lua_type v"
    using assms(1) lua_type_small [of v] by (simp add: item_holds_def del: le_bytes.simps One_nat_def)
  moreover have "read_bytes m (cp + item_v_off) (length bs) = bs"
    using assms(1) by (simp add: item_holds_def)
  moreover note item_holds_len [OF assms(1,3)]
  ultimately show ?thesis
    using assms(2,4)
    by (cases v) (auto simp: item_push_def Let_def simp del: le_bytes.simps One_nat_def)
qed

lemma msg_parse_step:
  "0 \<le> cp \<Longrightarrow> cp < endp \<Longrightarrow> item_len m (nat cp) = int len \<Longrightarrow>
   msg_parse_items m cp endp =
     map_option ((#) (item_push m (nat cp)))
       (msg_parse_items m (cp + 8 + int (item_align len)) endp)"
  by (subst msg_parse_items.simps)
     (simp add: item_align_int msg_layout(3) map_conv_bind_option comp_def)

lemma msg_parse_end: "endp \<le> cp \<Longrightarrow> msg_parse_items m cp endp = Some []"
  by (subst msg_parse_items.simps) simp

lemma msg_parse_build:
  assumes "msg_build_items idx vs cp m = Inr (cp', m')" and "\<forall>v \<in> set vs. sendable v"
    and "\<And>i. i < cp' \<Longrightarrow> m'' i = m' i"
  shows "msg_parse_items m'' (int cp) (int cp') = Some (map shared_value vs)"
  using assms
proof (induction vs arbitrary: idx cp m)
  case Nil
  then show ?case by (simp add: msg_parse_end)
next
  case (Cons v vs)
  from Cons.prems(1) obtain bs where v: "item_value v = Some bs" "cp + 8 + item_room v < 508"
    and rest: "msg_build_items (Suc idx) vs (cp + 8 + item_align (length bs))
      (item_store m cp v bs) = Inr (cp', m')"
    by (auto simp: msg_build_Cons)
  note frame = msg_build_items_frame [OF rest]
  have len: "length bs < 32768" using v item_value_room [OF v(1)] by simp
  have "item_holds m'' cp v bs"
    by (rule item_holds_cong [OF item_holds_store [of m]])
       (use frame Cons.prems(3) item_align_ge [of "length bs"] in auto)
  note push = item_holds_push [OF this v(1) len] and ilen = item_holds_len [OF this len]
  have "msg_parse_items m'' (int (cp + 8 + item_align (length bs))) (int cp')
      = Some (map shared_value vs)"
    using Cons.IH [OF rest] Cons.prems by simp
  moreover have "int cp < int cp'" using frame by simp
  ultimately show ?case
    using push Cons.prems(2) by (subst msg_parse_step [where len = "length bs"])
      (auto simp: ilen ac_simps)
qed

lemma msg_of_bytes_bytes:
  assumes "2 \<le> msg_size msg" and "msg_size msg < 65536"
  shows "msg_size (msg_of_bytes (msg_bytes msg)) = msg_size msg"
    and "i + 2 < msg_size msg \<Longrightarrow> msg_items (msg_of_bytes (msg_bytes msg)) i = msg_items msg i"
  using assms by (auto simp: msg_of_bytes_def msg_bytes_def msg_layout nth_append
      simp del: le_bytes.simps)

lemma pipe_msg_build_size:
  assumes "pipe_msg_build vs idx m0 = Inr msg"
  shows "2 \<le> msg_size msg" and "msg_size msg \<le> 510"
proof -
  from assms obtain cp m where b: "msg_build_items idx vs 0 m0 = Inr (cp, m)"
    and "msg = \<lparr>msg_size = (2 + cp) mod 65536, msg_items = m\<rparr>"
    by (auto simp: pipe_msg_build_def msg_items_off_def split: sum.splits)
  with msg_build_items_bound [OF b] show "2 \<le> msg_size msg" and "msg_size msg \<le> 510"
    by auto
qed

lemma pipe_msg_parse_built:
  assumes "pipe_msg_build vs idx m0 = Inr msg" and "\<forall>v \<in> set vs. sendable v"
  shows "pipe_msg_parse (msg_of_bytes (msg_bytes msg)) = Some (map shared_value vs)"
proof -
  from assms(1) obtain cp m where b: "msg_build_items idx vs 0 m0 = Inr (cp, m)"
    and msg: "msg = \<lparr>msg_size = (2 + cp) mod 65536, msg_items = m\<rparr>"
    by (auto simp: pipe_msg_build_def msg_items_off_def split: sum.splits)
  note bound = msg_build_items_bound [OF b]
  note bytes = msg_of_bytes_bytes [of msg, OF pipe_msg_build_size(1) [OF assms(1)]]
  have "msg_parse_items (msg_items (msg_of_bytes (msg_bytes msg))) (int 0) (int cp)
      = Some (map shared_value vs)"
    by (rule msg_parse_build [OF b assms(2)]) (use bytes(2) bound msg in auto)
  with bytes(1) bound msg show ?thesis
    by (simp add: pipe_msg_parse_def msg_items_off_def)
qed

section \<open>Properties\<close>

text \<open>
  Claim C4: a message that \<open>pipe_msg_build\<close> accepts is parsed back by
  \<open>pipe_msg_parse\<close>, after travelling as \<open>msg.size\<close> bytes, into the same values in
  the same order, with full userdata arriving as light userdata. Parsing always returns.
\<close>

theorem pipe_msg_roundtrip:
  assumes "pipe_msg_build vs idx m0 = Inr msg" and "\<forall>v \<in> set vs. sendable v"
  shows "pipe_msg_parse (msg_of_bytes (msg_bytes msg)) = Some (map shared_value vs)"
  using assms by (rule pipe_msg_parse_built)

theorem pipe_msg_roundtrip_witness:
  "pipe_msg_parse (msg_of_bytes (msg_bytes
     (case pipe_msg_build [LString [104, 105], LBool True, LNil, LUserdata 4096] 2 (\<lambda>_. 0) of
        Inr msg \<Rightarrow> msg)))
   = Some [LString [104, 105], LBool True, LNil, LLight 4096]"
proof -
  obtain msg where
    msg: "pipe_msg_build [LString [104, 105], LBool True, LNil, LUserdata 4096] 2 (\<lambda>_. 0) = Inr msg"
    by (simp add: pipe_msg_build_def msg_build_items.simps Let_def msg_layout item_room_def
        item_align_def)
  from pipe_msg_roundtrip [OF msg] show ?thesis by (simp add: msg)
qed

text \<open>
  A built message never exceeds the \<open>struct message\<close> it is built in: its
  size, items and header together, stays within the 2 bytes of header and the
  \<open>MSG_MAXSIZE\<close> bytes of items, so the copy into a pipe buffer of the minimum size
  always fits.
\<close>

lemma pipe_msg_build_fits:
  assumes "pipe_msg_build vs idx m0 = Inr msg"
  shows "msg_items_off \<le> msg_size msg \<and> msg_size msg + 4 \<le> msg_items_off + MSG_MAXSIZE
    \<and> length (msg_bytes msg) = msg_size msg"
  using pipe_msg_build_size [OF assms] by (simp add: msg_layout msg_bytes_def)

lemma pipe_msg_build_fits_witness:
  "msg_items_off \<le> msg_size (case pipe_msg_build [LNil] 2 (\<lambda>_. 0) of Inr msg \<Rightarrow> msg)"
proof -
  obtain msg where msg: "pipe_msg_build [LNil] 2 (\<lambda>_. 0) = Inr msg"
    by (simp add: pipe_msg_build_def msg_build_items.simps Let_def msg_layout item_room_def
        item_align_def)
  from pipe_msg_build_fits [OF msg] show ?thesis by (simp add: msg)
qed

end
