(* ===== verification/Thread_Sync.thy ===== *)
theory Thread_Sync
  imports Lua_Api
begin

text \<open>
  The synchronisation primitives of src/src/thread/thread_sync.c in the pthread build, and
  the interruption check of src/src/thread/sys_thread.c. The pthread calls are parameters:
  a wait is a function from the number of the wait and the state to the state in which it
  wakes up (other threads ran meanwhile) and the code it returns.
\<close>

definition ETIMEDOUT :: int where "ETIMEDOUT = 110"
definition TIMEOUT_INFINITE :: int where "TIMEOUT_INFINITE = -1"

text \<open>\<open>thread_timespec\<close>: the absolute deadline, from the time of day in seconds and
  microseconds; the result is in seconds and nanoseconds.\<close>

definition thread_timespec :: "int \<times> int \<Rightarrow> int \<Rightarrow> int \<times> int" where
  "thread_timespec tv timeout =
     (let sec = fst tv + c_div timeout 1000;
          usec = snd tv + c_mod timeout 1000 * 1000;
          (sec', usec') = (if usec \<ge> 1000000 then (sec + 1, usec - 1000000) else (sec, usec))
      in (sec', usec' * 1000))"

text \<open>The result of a condition wait: 0 signalled, 1 timed out, -1 error.\<close>

definition cond_wait_res :: "int \<Rightarrow> int" where
  "cond_wait_res res = (if res \<noteq> 0 then (if res = ETIMEDOUT then 1 else -1) else 0)"

text \<open>\<open>thread_cond_wait_nolock\<close>: \<open>now\<close> is the time of day that is read for a
  bounded wait.\<close>

definition thread_cond_wait_nolock ::
  "('s \<Rightarrow> 's \<times> int) \<Rightarrow> (int \<times> int \<Rightarrow> 's \<Rightarrow> 's \<times> int) \<Rightarrow> int \<times> int \<Rightarrow> int \<Rightarrow> 's \<Rightarrow> 's \<times> int" where
  "thread_cond_wait_nolock cond_wait cond_timedwait now timeout s =
     (let (s', res) = (if timeout = TIMEOUT_INFINITE then cond_wait s
                       else cond_timedwait (thread_timespec now timeout) s)
      in (s', cond_wait_res res))"

section \<open>Events\<close>

text \<open>A \<open>thread_event_t\<close>; \<open>nsignals\<close> counts the calls of \<open>thread_cond_signal\<close>.\<close>

record thread_event =
  signalled :: nat
  nsignals :: nat

definition THREAD_EVENT_SIGNALLED :: nat where "THREAD_EVENT_SIGNALLED = 1"

definition thread_event_new :: thread_event where
  "thread_event_new = \<lparr>signalled = 0, nsignals = 0\<rparr>"

text \<open>
  \<open>thread_cond_wait_value\<close>: wait until \<open>*signalled\<close> has the tested value, then reset
  it if asked. \<open>wait k s\<close> is the \<open>k\<close>-th condition wait.
\<close>

partial_function (option) cond_wait_value_loop ::
  "(nat \<Rightarrow> thread_event \<Rightarrow> thread_event \<times> int) \<Rightarrow> nat \<Rightarrow> nat \<Rightarrow> thread_event
     \<Rightarrow> (thread_event \<times> int) option" where
  "cond_wait_value_loop wait k test s =
     (if signalled s \<noteq> test then
        (case wait k s of (s', res) \<Rightarrow>
           if res = 0 then cond_wait_value_loop wait (Suc k) test s' else Some (s', res))
      else Some (s, 0))"

definition thread_cond_wait_value ::
  "(nat \<Rightarrow> thread_event \<Rightarrow> thread_event \<times> int) \<Rightarrow> nat \<Rightarrow> bool \<Rightarrow> thread_event
     \<Rightarrow> (thread_event \<times> int) option" where
  "thread_cond_wait_value wait test reset s =
     do {
       (s', res) \<leftarrow> cond_wait_value_loop wait 0 test s;
       Some (if res = 0 \<and> reset then s'\<lparr>signalled := 0\<rparr> else s', cond_wait_res res)
     }"

definition thread_event_wait ::
  "(nat \<Rightarrow> thread_event \<Rightarrow> thread_event \<times> int) \<Rightarrow> thread_event \<Rightarrow> (thread_event \<times> int) option" where
  "thread_event_wait wait s = thread_cond_wait_value wait THREAD_EVENT_SIGNALLED True s"

definition thread_event_signal :: "thread_event \<Rightarrow> thread_event" where
  "thread_event_signal s =
     s\<lparr>signalled := THREAD_EVENT_SIGNALLED, nsignals := Suc (nsignals s)\<rparr>"

section \<open>Interruption and termination of a thread\<close>

definition SYS_THREAD_KILLED :: nat where "SYS_THREAD_KILLED = 1"
definition SYS_THREAD_TERMINATE :: nat where "SYS_THREAD_TERMINATE = 2"
definition SYS_THREAD_INTERRUPT :: nat where "SYS_THREAD_INTERRUPT = 4"

text \<open>
  \<open>sys_thread_check\<close>: the flags it leaves in the thread, and whether the caller goes on,
  the thread exits or the interrupt error is raised.
\<close>

datatype check_result = Continue | ThreadExit | InterruptError

definition sys_thread_check :: "nat \<Rightarrow> nat \<times> check_result" where
  "sys_thread_check flags =
     (if flags = SYS_THREAD_TERMINATE then (SYS_THREAD_KILLED, ThreadExit)
      else if flags = SYS_THREAD_INTERRUPT then (flags, InterruptError)
      else (flags, Continue))"

section \<open>Properties\<close>

lemma cond_wait_value_loop_result:
  assumes "cond_wait_value_loop wait k test s = Some r"
  shows "snd r = 0 \<longrightarrow> signalled (fst r) = test"
proof (rule cond_wait_value_loop.raw_induct
    [where P = "\<lambda>wait k test s r. snd r = 0 \<longrightarrow> signalled (fst r) = test", OF _ assms])
  fix f wait k test s r
  assume IH: "\<And>wait k test s r. f wait k test s = Some r \<Longrightarrow> snd r = 0 \<longrightarrow> signalled (fst r) = test"
    and eq: "(if signalled s \<noteq> test
        then case wait k s of (s', res) \<Rightarrow> if res = 0 then f wait (Suc k) test s' else Some (s', res)
        else Some (s, 0)) = Some r"
  then show "snd r = 0 \<longrightarrow> signalled (fst r) = test"
    by (cases "wait k s"; cases r) (fastforce split: if_splits)
qed

text \<open>
  The absolute deadline of a bounded wait is a valid \<open>timespec\<close>: for a
  non-negative timeout its nanoseconds are in range and it lies exactly the timeout after
  the time of day, in microseconds.
\<close>

lemma thread_timespec_valid:
  assumes "0 \<le> timeout" and "0 \<le> snd tv" and "snd tv < 1000000"
  shows "let ts = thread_timespec tv timeout in
    0 \<le> snd ts \<and> snd ts < 1000000000 \<and>
    fst ts * 1000000 + snd ts div 1000 = fst tv * 1000000 + snd tv + timeout * 1000"
proof -
  define q r where "q = timeout div 1000" and "r = timeout mod 1000"
  then have t: "timeout = 1000 * q + r" "0 \<le> r" "r < 1000" by auto
  have d: "c_div timeout 1000 = q" "c_mod timeout 1000 = r"
    using assms(1) by (simp_all add: c_div_pos c_mod_pos q_def r_def)
  have ts: "thread_timespec tv timeout =
      (if snd tv + r * 1000 \<ge> 1000000
       then (fst tv + q + 1, (snd tv + r * 1000 - 1000000) * 1000)
       else (fst tv + q, (snd tv + r * 1000) * 1000))"
    by (simp add: thread_timespec_def Let_def d)
  show ?thesis
    unfolding ts Let_def using assms(2,3) t by auto
qed

lemma thread_timespec_valid_witness:
  "thread_timespec (100, 999500) 1500 = (102, 499500000) \<and>
   (let ts = thread_timespec (100, 999500) 1500 in 0 \<le> snd ts \<and> snd ts < 1000000000)"
  using thread_timespec_valid [of 1500 "(100, 999500)"]
  by (simp add: Let_def thread_timespec_def c_div_def c_mod_def)

text \<open>
  \<open>thread_event_wait\<close> consumes exactly the signal it waited for: when it
  returns 0 the event was signalled and is reset, whatever the condition waits did in
  between, and it returns at once, without a wait, on an event that is already signalled.
\<close>

lemma thread_event_wait_consumes:
  assumes "thread_event_wait wait s = Some (s', res)"
  shows "(res = 0 \<longrightarrow> signalled s' = 0) \<and> res \<in> {0, 1, -1} \<and>
    (\<forall>w. thread_event_wait w (thread_event_signal s)
       = Some ((thread_event_signal s)\<lparr>signalled := 0\<rparr>, 0))"
  using assms
  by (auto simp: thread_event_wait_def thread_cond_wait_value_def cond_wait_res_def
      thread_event_signal_def cond_wait_value_loop.simps split: bind_splits if_splits)

lemma thread_event_wait_consumes_witness:
  "thread_event_wait (\<lambda>k s. if k = 0 then (s, 0) else (thread_event_signal s, 0)) thread_event_new
     = Some (\<lparr>signalled = 0, nsignals = 1\<rparr>, 0)
   \<and> (\<forall>w. thread_event_wait w (thread_event_signal thread_event_new)
       = Some (\<lparr>signalled = 0, nsignals = 1\<rparr>, 0))"
proof -
  have run: "thread_event_wait (\<lambda>k s. if k = 0 then (s, 0) else (thread_event_signal s, 0))
      thread_event_new = Some (\<lparr>signalled = 0, nsignals = 1\<rparr>, 0)"
    by (simp add: thread_event_wait_def thread_cond_wait_value_def cond_wait_value_loop.simps
        thread_event_new_def THREAD_EVENT_SIGNALLED_def thread_event_signal_def cond_wait_res_def)
  from thread_event_wait_consumes [OF run] run show ?thesis
    by (simp add: thread_event_new_def thread_event_signal_def)
qed

end
