(* ===== verification/Channel.thy ===== *)
theory Channel
  imports Prelude
begin

text \<open>
  The contract the two message channels of the library share: messages come out in the
  order they went in, each exactly once. A channel state stands for the list of messages
  it holds through a relation; the pipe buffers (theory \<open>Pipe\<close>) and the storage of a
  data pool (theory \<open>Dpool\<close>) are its two providers.
\<close>

datatype 'm chan_op = Put 'm | Get

text \<open>
  A run of operations, as the threads' calls are serialised by the channel's lock: the
  messages accepted, the messages delivered and the final state. A put that finds no room
  and a get that finds no message leave the channel alone (the caller waits or gives up).
\<close>

fun chan_run ::
  "('m \<Rightarrow> 'q \<Rightarrow> 'q option) \<Rightarrow> ('q \<Rightarrow> ('m \<times> 'q) option) \<Rightarrow> 'm chan_op list \<Rightarrow> 'q
     \<Rightarrow> 'm list \<times> 'm list \<times> 'q" where
  "chan_run put get [] q = ([], [], q)"
| "chan_run put get (Put m # ops) q =
     (case put m q of
        None \<Rightarrow> chan_run put get ops q
      | Some q' \<Rightarrow> (case chan_run put get ops q' of (ins, outs, r) \<Rightarrow> (m # ins, outs, r)))"
| "chan_run put get (Get # ops) q =
     (case get q of
        None \<Rightarrow> chan_run put get ops q
      | Some (m, q') \<Rightarrow> (case chan_run put get ops q' of (ins, outs, r) \<Rightarrow> (ins, m # outs, r)))"

text \<open>Every put of the run happens in a state where the provider promises to keep it.\<close>

fun chan_ok ::
  "('m \<Rightarrow> 'q \<Rightarrow> 'q option) \<Rightarrow> ('q \<Rightarrow> ('m \<times> 'q) option) \<Rightarrow> ('m \<Rightarrow> 'q \<Rightarrow> bool)
     \<Rightarrow> 'm chan_op list \<Rightarrow> 'q \<Rightarrow> bool" where
  "chan_ok put get ok [] q = True"
| "chan_ok put get ok (Put m # ops) q =
     (case put m q of
        None \<Rightarrow> chan_ok put get ok ops q
      | Some q' \<Rightarrow> ok m q \<and> chan_ok put get ok ops q')"
| "chan_ok put get ok (Get # ops) q =
     (case get q of
        None \<Rightarrow> chan_ok put get ok ops q
      | Some (m, q') \<Rightarrow> chan_ok put get ok ops q')"

locale fifo_channel =
  fixes rel :: "'q \<Rightarrow> 'm list \<Rightarrow> bool"
    and put :: "'m \<Rightarrow> 'q \<Rightarrow> 'q option"
    and get :: "'q \<Rightarrow> ('m \<times> 'q) option"
    and ok :: "'m \<Rightarrow> 'q \<Rightarrow> bool"
  assumes put_rel: "rel q ms \<Longrightarrow> ok m q \<Longrightarrow> put m q = Some q' \<Longrightarrow> rel q' (ms @ [m])"
    and get_rel: "rel q (m # ms) \<Longrightarrow> \<exists>q'. get q = Some (m, q') \<and> rel q' ms"
    and get_empty: "rel q [] \<Longrightarrow> get q = None"
begin

lemma get_SomeD:
  assumes "rel q ms" and "get q = Some (m, q')"
  shows "\<exists>ms'. ms = m # ms' \<and> rel q' ms'"
proof (cases ms)
  case Nil
  with assms get_empty [of q] show ?thesis by simp
next
  case (Cons a ms')
  with assms(1) obtain q'' where "get q = Some (a, q'')" and "rel q'' ms'"
    using get_rel [of q a ms'] by auto
  with assms(2) Cons show ?thesis by simp
qed

lemma run_fifo:
  "rel q ms \<Longrightarrow> chan_ok put get ok ops q \<Longrightarrow> chan_run put get ops q = (ins, outs, r) \<Longrightarrow>
   \<exists>ms'. rel r ms' \<and> ms @ ins = outs @ ms'"
proof (induction ops arbitrary: q ms ins outs)
  case Nil
  then show ?case by simp
next
  case (Cons op ops)
  show ?case
  proof (cases op)
    case (Put m)
    show ?thesis
    proof (cases "put m q")
      case None
      with Put Cons show ?thesis by simp
    next
      case (Some q')
      with Put Cons.prems have "rel q' (ms @ [m])" by (auto intro: put_rel)
      with Cons.IH [of q' "ms @ [m]"] Put Some Cons.prems show ?thesis
        by (auto split: prod.splits)
    qed
  next
    case Get
    show ?thesis
    proof (cases "get q")
      case None
      with Get Cons show ?thesis by simp
    next
      case (Some p)
      then obtain m q' where g: "get q = Some (m, q')" by (cases p) auto
      from get_SomeD [OF Cons.prems(1) g] obtain ms' where "ms = m # ms'" "rel q' ms'" by blast
      with Cons.IH [of q' ms'] Get g Cons.prems show ?thesis
        by (auto split: prod.splits)
    qed
  qed
qed

text \<open>From an empty channel, what was delivered is a prefix of what was accepted.\<close>

lemma run_prefix:
  "rel q [] \<Longrightarrow> chan_ok put get ok ops q \<Longrightarrow> chan_run put get ops q = (ins, outs, r) \<Longrightarrow>
   \<exists>rest. ins = outs @ rest"
  using run_fifo [of q "[]" ops ins outs r] by auto

end

end
