(* ===== verification/Pipe.thy ===== *)
theory Pipe
  imports Pipe_Msg Thread_Sync Channel
begin

text \<open>
  The inter-VM pipe of src/src/thread/thread_pipe.c: a circular list of ring buffers, each
  a byte area in which messages lie back to back, and the two loops that write and read
  messages under the pipe's critical section. \<open>malloc\<close> and the condition waits are
  parameters. A buffer's header and its byte area are one record, addressed by the buffer's
  address.
\<close>

section \<open>State\<close>

record pipe_buf =
  pb_begin :: nat
  pb_end :: nat
  pb_len :: nat
  next_buf :: nat
  pb_data :: mem

definition PIPE_BUF_EXTRASIZE :: nat where "PIPE_BUF_EXTRASIZE = 26"
definition PIPE_BUF_MINSIZE :: nat where "PIPE_BUF_MINSIZE = 8 * MSG_MAXSIZE"
definition PIPE_BUF_MAXSIZE :: nat where "PIPE_BUF_MAXSIZE = 2 * 1024 * 1024 * 1024"

text \<open>
  A \<open>struct pipe\<close>. \<open>put_signals\<close> and \<open>get_signals\<close> count the signals sent to
  the two condition variables.
\<close>

record pipe =
  nmsg :: nat
  rbuf :: nat
  wbuf :: nat
  bufs :: "nat \<Rightarrow> pipe_buf"
  signal_on_put :: nat
  signal_on_get :: nat
  buf_size :: nat
  buf_max_size :: nat
  nref :: nat
  put_signals :: nat
  get_signals :: nat

text \<open>A \<open>struct pipe_ref\<close>: one VM's handle on a pipe.\<close>

record pipe_ref =
  pr_open :: bool
  put_timeout :: int

datatype pipe_result =
    PipeSelf
  | PipeTimedOut
  | PipeSysError
  | PipeValues "lua_value list"
  | PipeFail lua_error
  | PipeThreadExit

section \<open>Operations\<close>

text \<open>The size test of \<open>pipe_new\<close>.\<close>

definition pipe_sizes_ok :: "nat \<Rightarrow> nat \<Rightarrow> bool" where
  "pipe_sizes_ok max_size min_size \<longleftrightarrow>
     \<not> (min_size > max_size
       \<or> min_size < PIPE_BUF_MINSIZE
       \<or> max_size > PIPE_BUF_MAXSIZE
       \<or> (max_size div min_size) AND (max_size div min_size - 1) \<noteq> 0)"

text \<open>
  \<open>pipe_new\<close>: \<open>calloc_ok\<close>, \<open>sync_ok\<close> and \<open>block\<close> are the outcomes of
  \<open>calloc\<close>, of the three initialisations of the lock and conditions, and of the
  \<open>malloc\<close> of the first buffer; \<open>garbage\<close> is what the fresh block holds.
\<close>

definition pipe_new ::
  "nat \<Rightarrow> nat \<Rightarrow> bool \<Rightarrow> bool \<Rightarrow> ptr \<Rightarrow> (nat \<Rightarrow> pipe_buf)
     \<Rightarrow> lua_error + (pipe_ref \<times> pipe) option" where
  "pipe_new max_size min_size calloc_ok sync_ok block garbage =
     (if \<not> pipe_sizes_ok max_size min_size then Inl (ArgError 1 ''invalid size'')
      else if \<not> calloc_ok \<or> \<not> sync_ok then Inr None
      else case block of
          None \<Rightarrow> Inr None
        | Some pb \<Rightarrow>
            Inr (Some (\<lparr>pr_open = True, put_timeout = TIMEOUT_INFINITE\<rparr>,
              \<lparr>nmsg = 0, rbuf = pb, wbuf = pb,
               bufs = garbage(pb := \<lparr>pb_begin = 0, pb_end = 0,
                 pb_len = u32_sub min_size PIPE_BUF_EXTRASIZE, next_buf = pb,
                 pb_data = pb_data (garbage pb)\<rparr>),
               signal_on_put = 0, signal_on_get = 0,
               buf_size = min_size, buf_max_size = max_size, nref = 0,
               put_signals = 0, get_signals = 0\<rparr>)))"

definition pipe_xdup :: "pipe_ref \<Rightarrow> pipe \<Rightarrow> pipe_ref \<times> pipe" where
  "pipe_xdup pr pp = (pr, pp\<lparr>nref := u32_add (nref pp) 1\<rparr>)"

definition pipe_put_timeout :: "int option \<Rightarrow> pipe_ref \<Rightarrow> pipe_ref" where
  "pipe_put_timeout arg pr =
     pr\<lparr>put_timeout := (case arg of None \<Rightarrow> TIMEOUT_INFINITE | Some t \<Rightarrow> t)\<rparr>"

text \<open>The loop of \<open>pipe_close\<close> that frees buffers: the addresses freed, in order.\<close>

partial_function (option) pipe_free_bufs :: "(nat \<Rightarrow> pipe_buf) \<Rightarrow> nat \<Rightarrow> nat \<Rightarrow> nat list option" where
  "pipe_free_bufs bs rpb wpb =
     (let pb = next_buf (bs rpb)
      in if pb \<noteq> wpb then do { rest \<leftarrow> pipe_free_bufs bs pb wpb; Some (rpb # rest) }
         else Some [rpb])"

text \<open>\<open>pipe_close\<close>: the handle, the pipe (\<open>None\<close> once freed) and the freed buffers.\<close>

definition pipe_close ::
  "pipe_ref \<Rightarrow> pipe \<Rightarrow> (pipe_ref \<times> pipe option \<times> nat list) option" where
  "pipe_close pr pp =
     (if pr_open pr then
        (if nref pp = 0 then do {
           freed \<leftarrow> pipe_free_bufs (bufs pp) (rbuf pp) (wbuf pp);
           Some (pr\<lparr>pr_open := False\<rparr>, None, freed)
         }
         else Some (pr\<lparr>pr_open := False\<rparr>, Some (pp\<lparr>nref := u32_sub (nref pp) 1\<rparr>), []))
      else Some (pr, Some pp, []))"

text \<open>The end of an iteration of \<open>pipe_put\<close>: copy the message, write the header back.\<close>

definition pipe_store :: "pipe \<Rightarrow> nat \<Rightarrow> pipe_buf \<Rightarrow> byte list \<Rightarrow> pipe" where
  "pipe_store pp pb buf msg =
     pp\<lparr>bufs := (bufs pp)(pb := buf\<lparr>
          pb_data := write_bytes (pb_data buf) (pb_end buf) msg,
          pb_end := u32_add (pb_end buf) (length msg)\<rparr>),
        nmsg := u32_add (nmsg pp) 1\<rparr>"

text \<open>
  One iteration of the loop of \<open>pipe_put\<close>, up to the point where the message is stored;
  \<open>None\<close> when the thread has to wait for a reader.
\<close>

definition pipe_put_write :: "(pipe \<Rightarrow> nat \<Rightarrow> ptr) \<Rightarrow> byte list \<Rightarrow> pipe \<Rightarrow> pipe option" where
  "pipe_put_write malloc msg pp =
     (let pb = wbuf pp;
          buf = bufs pp pb;
          wrapped = pb_end buf < pb_begin buf;
          len = u32_sub (if wrapped then pb_begin buf else pb_len buf) (pb_end buf)
      in if length msg > len then
           if \<not> wrapped \<and> pb_begin buf > length msg then
             Some (pipe_store pp pb
               (buf\<lparr>pb_data := write_bytes (pb_data buf) (pb_end buf) (le_bytes 2 0),
                    pb_end := 0\<rparr>) msg)
           else if pb \<noteq> next_buf buf \<and> pb_begin (bufs pp (next_buf buf)) = 0
                   \<and> pb_end (bufs pp (next_buf buf)) = 0 then
             Some (pipe_store (pp\<lparr>wbuf := next_buf buf\<rparr>) (next_buf buf)
               (bufs pp (next_buf buf)) msg)
           else
             (case (if u32_mul 2 (buf_size pp) \<le> buf_max_size pp
                    then malloc pp (buf_size pp) else None) of
                Some wpb \<Rightarrow>
                  Some (pipe_store
                    (pp\<lparr>bufs := (bufs pp)(pb := buf\<lparr>next_buf := wpb\<rparr>),
                        buf_size := u32_mul (buf_size pp) 2,
                        wbuf := wpb\<rparr>)
                    wpb
                    \<lparr>pb_begin = 0, pb_end = 0,
                     pb_len = u32_sub (buf_size pp) PIPE_BUF_EXTRASIZE,
                     next_buf = next_buf buf, pb_data = pb_data (bufs pp wpb)\<rparr> msg)
              | None \<Rightarrow> None)
         else Some (pipe_store pp pb buf msg))"

text \<open>
  The loop of \<open>pipe_put\<close> with its waits; \<open>wait k\<close> is the \<open>k\<close>-th call of
  \<open>pipe_cond_wait\<close>. The second component is 0 once the message is stored, else the
  wait's result.
\<close>

partial_function (option) pipe_put_loop ::
  "(pipe \<Rightarrow> nat \<Rightarrow> ptr) \<Rightarrow> (nat \<Rightarrow> pipe \<Rightarrow> pipe \<times> int) \<Rightarrow> nat \<Rightarrow> byte list \<Rightarrow> pipe
     \<Rightarrow> (pipe \<times> int) option" where
  "pipe_put_loop malloc wait k msg pp =
     (case pipe_put_write malloc msg pp of
        Some pp1 \<Rightarrow>
          Some (if signal_on_put pp1 \<noteq> 0
                then pp1\<lparr>put_signals := Suc (put_signals pp1)\<rparr> else pp1, 0)
      | None \<Rightarrow>
          (let (pp1, res) = wait k (pp\<lparr>signal_on_get := u32_add (signal_on_get pp) 1\<rparr>);
               pp2 = pp1\<lparr>signal_on_get := u32_sub (signal_on_get pp1) 1\<rparr>;
               pp3 = (if signal_on_get pp2 \<noteq> 0
                      then pp2\<lparr>get_signals := Suc (get_signals pp2)\<rparr> else pp2)
           in if res = 0 then pipe_put_loop malloc wait (Suc k) msg pp3
              else Some (pp3, res)))"

text \<open>What a wait that did not succeed makes of the call: interruption first.\<close>

definition pipe_wait_failed :: "nat \<Rightarrow> int \<Rightarrow> pipe_result" where
  "pipe_wait_failed td_flags res =
     (case snd (sys_thread_check td_flags) of
        ThreadExit \<Rightarrow> PipeThreadExit
      | InterruptError \<Rightarrow> PipeFail Raised
      | Continue \<Rightarrow> if res = 1 then PipeTimedOut else PipeSysError)"

text \<open>
  \<open>pipe_put\<close>: \<open>has_td\<close> says that threading is initialised, \<open>m0\<close> is the
  uninitialised message, \<open>td_flags\<close> the thread's flags after the wait.
\<close>

definition pipe_put ::
  "(pipe \<Rightarrow> nat \<Rightarrow> ptr) \<Rightarrow> (nat \<Rightarrow> pipe \<Rightarrow> pipe \<times> int) \<Rightarrow> bool \<Rightarrow> nat \<Rightarrow> mem
     \<Rightarrow> lua_value list \<Rightarrow> pipe \<Rightarrow> (pipe \<times> pipe_result) option" where
  "pipe_put malloc wait has_td td_flags m0 vs pp =
     (if \<not> has_td then Some (pp, PipeFail (ArgError 0 ''Threading not initialized''))
      else case pipe_msg_build vs 2 m0 of
          Inl e \<Rightarrow> Some (pp, PipeFail e)
        | Inr msg \<Rightarrow> do {
            (pp', res) \<leftarrow> pipe_put_loop malloc wait 0 (msg_bytes msg) pp;
            Some (pp', if res = 0 then PipeSelf else pipe_wait_failed td_flags res)
          })"

text \<open>The reading branch of \<open>pipe_get\<close>; \<open>None\<close> when there is no message.\<close>

definition pipe_get_read :: "pipe \<Rightarrow> (byte list \<times> pipe) option" where
  "pipe_get_read pp =
     (if nmsg pp \<noteq> 0 then
        (let pb = rbuf pp;
             buf = bufs pp pb;
             wrapped = le_val (read_bytes (pb_data buf) (pb_begin buf) 2) = 0;
             off = (if wrapped then 0 else pb_begin buf);
             size = le_val (read_bytes (pb_data buf) off 2);
             msg = read_bytes (pb_data buf) off size;
             beg = u32_add off size;
             pp1 = (if beg = pb_end buf \<and> nmsg pp > 1 then pp\<lparr>rbuf := next_buf buf\<rparr> else pp);
             buf1 = (if beg = pb_end buf then buf\<lparr>pb_begin := 0, pb_end := 0\<rparr>
                     else if beg = pb_len buf then buf\<lparr>pb_begin := 0\<rparr>
                     else buf\<lparr>pb_begin := beg\<rparr>);
             pp2 = pp1\<lparr>bufs := (bufs pp1)(pb := buf1), nmsg := u32_sub (nmsg pp1) 1\<rparr>
         in Some (msg, if nmsg pp2 \<noteq> 0 \<and> signal_on_put pp2 \<noteq> 0
                       then pp2\<lparr>put_signals := Suc (put_signals pp2)\<rparr> else pp2))
      else None)"

partial_function (option) pipe_get_loop ::
  "(nat \<Rightarrow> pipe \<Rightarrow> pipe \<times> int) \<Rightarrow> nat \<Rightarrow> pipe \<Rightarrow> (pipe \<times> (int + byte list)) option" where
  "pipe_get_loop wait k pp =
     (case pipe_get_read pp of
        Some (msg, pp1) \<Rightarrow>
          Some (if signal_on_get pp1 \<noteq> 0
                then pp1\<lparr>get_signals := Suc (get_signals pp1)\<rparr> else pp1, Inr msg)
      | None \<Rightarrow>
          (let (pp1, res) = wait k (pp\<lparr>signal_on_put := u32_add (signal_on_put pp) 1\<rparr>);
               pp2 = pp1\<lparr>signal_on_put := u32_sub (signal_on_put pp1) 1\<rparr>
           in if res = 0 then pipe_get_loop wait (Suc k) pp2 else Some (pp2, Inl res)))"

definition pipe_get ::
  "(nat \<Rightarrow> pipe \<Rightarrow> pipe \<times> int) \<Rightarrow> bool \<Rightarrow> nat \<Rightarrow> pipe \<Rightarrow> (pipe \<times> pipe_result) option" where
  "pipe_get wait has_td td_flags pp =
     (if \<not> has_td then Some (pp, PipeFail (ArgError 0 ''Threading not initialized''))
      else do {
        (pp', r) \<leftarrow> pipe_get_loop wait 0 pp;
        (case r of
           Inl res \<Rightarrow> Some (pp', pipe_wait_failed td_flags res)
         | Inr msg \<Rightarrow> do {
             vs \<leftarrow> pipe_msg_parse (msg_of_bytes msg);
             Some (pp', PipeValues vs)
           })
      })"

definition pipe_count :: "pipe \<Rightarrow> nat" where
  "pipe_count pp = nmsg pp"

section \<open>One ring buffer\<close>

text \<open>A message as it lies in a buffer: its first two bytes are its size.\<close>

definition msg_wf :: "byte list \<Rightarrow> bool" where
  "msg_wf x \<longleftrightarrow> 2 \<le> length x \<and> length x \<le> 510 \<and> le_val (take 2 x) = length x"

text \<open>Messages back to back from \<open>off\<close> up to \<open>stop\<close>.\<close>

fun seg :: "mem \<Rightarrow> nat \<Rightarrow> byte list list \<Rightarrow> nat \<Rightarrow> bool" where
  "seg m off [] stop = (off = stop)"
| "seg m off (x # xs) stop =
     (msg_wf x \<and> read_bytes m off (length x) = x \<and> seg m (off + length x) xs stop)"

lemma seg_le: "seg m off xs stop \<Longrightarrow> off + 2 * length xs \<le> stop"
  by (induction xs arbitrary: off) (fastforce simp: msg_wf_def)+

lemma seg_append:
  "seg m off (xs @ ys) stop \<longleftrightarrow> (\<exists>k. seg m off xs k \<and> seg m k ys stop)"
  by (induction xs arbitrary: off) auto

lemma seg_cong:
  "seg m off xs stop \<Longrightarrow> (\<And>i. off \<le> i \<Longrightarrow> i < stop \<Longrightarrow> m' i = m i) \<Longrightarrow> seg m' off xs stop"
proof (induction xs arbitrary: off)
  case Nil
  then show ?case by simp
next
  case (Cons x xs)
  from Cons.prems(1) have le: "off + length x \<le> stop" by (auto dest: seg_le)
  have "read_bytes m' off (length x) = read_bytes m off (length x)"
    by (rule read_bytes_cong) (use Cons.prems(2) le in simp)
  with Cons show ?case by simp
qed

lemma seg_write:
  "seg m off xs stop \<Longrightarrow> stop \<le> o2 \<or> o2 + length bs \<le> off \<Longrightarrow>
   seg (write_bytes m o2 bs) off xs stop"
  by (erule seg_cong) (auto simp: write_bytes_def)

lemma seg_snoc_write:
  assumes "seg m off xs stop" and "msg_wf x"
  shows "seg (write_bytes m stop x) off (xs @ [x]) (stop + length x)"
  unfolding seg_append using assms by (auto intro!: exI [of _ stop] seg_write)

text \<open>
  What a buffer holds. Either the messages lie from \<open>begin\<close> to \<open>end\<close>, or they go on
  from \<open>begin\<close> to a sentinel of size 0 and continue from 0 to \<open>end\<close>.
\<close>

definition ring_linear :: "pipe_buf \<Rightarrow> byte list list \<Rightarrow> bool" where
  "ring_linear b ms \<longleftrightarrow>
     pb_begin b \<le> pb_end b \<and> (pb_begin b = pb_end b \<longrightarrow> pb_end b = 0) \<and>
     seg (pb_data b) (pb_begin b) ms (pb_end b)"

definition ring_wrapped :: "pipe_buf \<Rightarrow> byte list list \<Rightarrow> bool" where
  "ring_wrapped b ms \<longleftrightarrow> pb_end b < pb_begin b \<and>
     (\<exists>xs ys k. ms = xs @ ys \<and> ys \<noteq> [] \<and> k \<le> pb_len b \<and>
        seg (pb_data b) (pb_begin b) xs k \<and>
        le_val (read_bytes (pb_data b) k 2) = 0 \<and>
        seg (pb_data b) 0 ys (pb_end b))"

definition ring_holds :: "pipe_buf \<Rightarrow> byte list list \<Rightarrow> bool" where
  "ring_holds b ms \<longleftrightarrow>
     510 \<le> pb_len b \<and> pb_len b < 4294966000 \<and> pb_end b \<le> pb_len b \<and>
     (ring_linear b ms \<or> ring_wrapped b ms)"

lemma ring_wrappedI:
  assumes "pb_end b < pb_begin b" and "ms = xs @ ys" and "ys \<noteq> []" and "k \<le> pb_len b"
    and "seg (pb_data b) (pb_begin b) xs k" and "le_val (read_bytes (pb_data b) k 2) = 0"
    and "seg (pb_data b) 0 ys (pb_end b)"
  shows "ring_wrapped b ms"
  unfolding ring_wrapped_def using assms by blast

lemma ring_linear_empty: "ring_linear b [] \<longleftrightarrow> pb_begin b = 0 \<and> pb_end b = 0"
  by (auto simp: ring_linear_def)

lemma ring_holds_empty: "ring_holds b [] \<Longrightarrow> pb_begin b = 0 \<and> pb_end b = 0"
  by (auto simp: ring_holds_def ring_linear_empty ring_wrapped_def)

lemma ring_holds_nonempty: "ring_holds b ms \<Longrightarrow> ms \<noteq> [] \<Longrightarrow> \<not> (pb_begin b = 0 \<and> pb_end b = 0)"
  by (auto simp: ring_holds_def ring_linear_def ring_wrapped_def neq_Nil_conv dest!: seg_le)

text \<open>Storing a message after the last one.\<close>

lemma ring_put_linear:
  assumes "ring_holds b ms" and "\<not> pb_end b < pb_begin b" and "msg_wf m"
    and "length m \<le> pb_len b - pb_end b"
  shows "ring_holds (b\<lparr>pb_data := write_bytes (pb_data b) (pb_end b) m,
           pb_end := u32_add (pb_end b) (length m)\<rparr>) (ms @ [m])"
proof -
  have "pb_end b + length m \<le> pb_len b" and "0 < length m"
    using assms by (auto simp: ring_holds_def msg_wf_def)
  then show ?thesis
    using assms seg_snoc_write [OF _ assms(3), of "pb_data b" "pb_begin b" ms "pb_end b"]
    by (auto simp: ring_holds_def ring_linear_def ring_wrapped_def)
qed

lemma ring_put_wrapped:
  assumes "ring_holds b ms" and "pb_end b < pb_begin b" and "msg_wf m"
    and "length m < pb_begin b - pb_end b"
  shows "ring_holds (b\<lparr>pb_data := write_bytes (pb_data b) (pb_end b) m,
           pb_end := u32_add (pb_end b) (length m)\<rparr>) (ms @ [m])"
proof -
  from assms(1,2) obtain xs ys k where ms: "ms = xs @ ys" "ys \<noteq> []" "k \<le> pb_len b"
    and xs: "seg (pb_data b) (pb_begin b) xs k"
    and sent: "le_val (read_bytes (pb_data b) k 2) = 0"
    and ys: "seg (pb_data b) 0 ys (pb_end b)"
    by (auto simp: ring_holds_def ring_linear_def ring_wrapped_def)
  let ?d = "write_bytes (pb_data b) (pb_end b) m"
  have k: "pb_begin b \<le> k" using seg_le [OF xs] by simp
  have "seg ?d (pb_begin b) xs k" by (rule seg_write [OF xs]) (use assms(4) in linarith)
  moreover have "pb_end b + length m \<le> k" using k assms(4) by linarith
  then have "le_val (read_bytes ?d k 2) = 0"
    using sent by (simp add: read_write_disjoint)
  moreover have "seg ?d 0 (ys @ [m]) (pb_end b + length m)"
    by (rule seg_snoc_write [OF ys assms(3)])
  ultimately have "ring_wrapped (b\<lparr>pb_data := ?d, pb_end := pb_end b + length m\<rparr>) (ms @ [m])"
    using ms assms(4) by (intro ring_wrappedI [of _ _ xs "ys @ [m]" k]) auto
  moreover have "pb_end b + length m \<le> pb_len b" using k ms(3) assms(4) by simp
  ultimately show ?thesis using assms(1) by (simp add: ring_holds_def)
qed

lemma ring_put_wrap:
  assumes "ring_holds b ms" and "\<not> pb_end b < pb_begin b" and "msg_wf m"
    and "length m < pb_begin b"
  shows "ring_holds (b\<lparr>pb_data := write_bytes
             (write_bytes (pb_data b) (pb_end b) (le_bytes 2 0)) 0 m,
           pb_end := length m\<rparr>) (ms @ [m])"
proof -
  from assms(1,2) have lin: "ring_linear b ms" and "pb_end b \<le> pb_len b"
    by (auto simp: ring_holds_def ring_wrapped_def)
  let ?d1 = "write_bytes (pb_data b) (pb_end b) (le_bytes 2 0)"
  let ?d = "write_bytes ?d1 0 m"
  have "seg ?d1 (pb_begin b) ms (pb_end b)"
    by (rule seg_write) (use lin in \<open>auto simp: ring_linear_def\<close>)
  then have "seg ?d (pb_begin b) ms (pb_end b)"
    by (rule seg_write) (use assms(4) in simp)
  moreover have "le_val (read_bytes ?d (pb_end b) 2) = 0"
    using assms(2,4) by (simp add: read_write_disjoint del: le_bytes.simps)
  moreover have "seg ?d 0 [m] (length m)" using assms(3) by simp
  ultimately have "ring_wrapped (b\<lparr>pb_data := ?d, pb_end := length m\<rparr>) (ms @ [m])"
    using assms(4) \<open>pb_end b \<le> pb_len b\<close>
    by (intro ring_wrappedI [of _ _ ms "[m]" "pb_end b"]) auto
  moreover have "length m \<le> pb_len b" using assms(2,4) \<open>pb_end b \<le> pb_len b\<close> by simp
  ultimately show ?thesis using assms(1) by (simp add: ring_holds_def)
qed

text \<open>Taking the first message out.\<close>

definition ring_off :: "pipe_buf \<Rightarrow> nat" where
  "ring_off b = (if le_val (read_bytes (pb_data b) (pb_begin b) 2) = 0 then 0 else pb_begin b)"

definition ring_after :: "pipe_buf \<Rightarrow> nat \<Rightarrow> pipe_buf" where
  "ring_after b beg =
     (if beg = pb_end b then b\<lparr>pb_begin := 0, pb_end := 0\<rparr>
      else if beg = pb_len b then b\<lparr>pb_begin := 0\<rparr>
      else b\<lparr>pb_begin := beg\<rparr>)"

lemma seg_head_size:
  assumes "seg m off (x # xs) stop"
  shows "le_val (read_bytes m off 2) = length x" and "read_bytes m off (length x) = x"
    and "off + length x \<le> stop" and "2 \<le> length x"
proof -
  from assms have x: "msg_wf x" "read_bytes m off (length x) = x"
    and "seg m (off + length x) xs stop" by auto
  from seg_le [OF this(3)] show "off + length x \<le> stop" by simp
  from x(1) show "2 \<le> length x" by (simp add: msg_wf_def)
  from x show "le_val (read_bytes m off 2) = length x"
    by (metis msg_wf_def read_bytes_take)
  from x(2) show "read_bytes m off (length x) = x" .
qed

text \<open>The reader finds the first message, and what is left is held afterwards.\<close>

definition ring_take :: "pipe_buf \<Rightarrow> byte list \<Rightarrow> byte list list \<Rightarrow> bool" where
  "ring_take b m ms \<longleftrightarrow>
     le_val (read_bytes (pb_data b) (ring_off b) 2) = length m \<and>
     read_bytes (pb_data b) (ring_off b) (length m) = m \<and>
     ring_off b + length m \<le> pb_len b \<and>
     (ring_off b + length m = pb_end b \<longleftrightarrow> ms = []) \<and>
     ring_holds (ring_after b (ring_off b + length m)) ms"

lemma ring_get_linear:
  assumes "ring_holds b (m # ms)" and "ring_linear b (m # ms)"
  shows "ring_take b m ms"
proof -
  from assms(2) have seg: "seg (pb_data b) (pb_begin b) (m # ms) (pb_end b)"
    by (simp add: ring_linear_def)
  note hd = seg_head_size [OF seg]
  from seg have rest: "seg (pb_data b) (pb_begin b + length m) ms (pb_end b)" by simp
  have off: "ring_off b = pb_begin b" using hd(1,4) by (auto simp: ring_off_def)
  have empty: "pb_begin b + length m = pb_end b \<longleftrightarrow> ms = []"
    using rest seg_le [OF rest] by (cases ms) auto
  have "ring_linear (ring_after b (pb_begin b + length m)) ms"
    using rest hd(3) empty assms(1)
    by (auto simp: ring_after_def ring_linear_def ring_holds_def)
  then show ?thesis
    using assms(1) hd off empty
    by (auto simp: ring_take_def ring_holds_def ring_after_def)
qed

lemma ring_get_wrapped:
  assumes "ring_holds b (m # ms)" and "ring_wrapped b (m # ms)"
  shows "ring_take b m ms"
proof -
  from assms(2) obtain xs ys k where ms: "m # ms = xs @ ys" "ys \<noteq> []" "k \<le> pb_len b"
    and xs: "seg (pb_data b) (pb_begin b) xs k"
    and sent: "le_val (read_bytes (pb_data b) k 2) = 0"
    and ys: "seg (pb_data b) 0 ys (pb_end b)" and wr: "pb_end b < pb_begin b"
    by (auto simp: ring_wrapped_def)
  from assms(1) have lim: "510 \<le> pb_len b" "pb_end b \<le> pb_len b" "pb_len b < 4294966000"
    by (auto simp: ring_holds_def)
  show ?thesis
  proof (cases xs)
    case Nil
    with xs sent have off: "ring_off b = 0" by (simp add: ring_off_def)
    from Nil ms ys have seg: "seg (pb_data b) 0 (m # ms) (pb_end b)" by simp
    note hd = seg_head_size [OF seg]
    from seg have rest: "seg (pb_data b) (length m) ms (pb_end b)" by simp
    have empty: "length m = pb_end b \<longleftrightarrow> ms = []"
      using rest seg_le [OF rest] by (cases ms) auto
    have "ring_linear (ring_after b (length m)) ms"
      using rest hd(3) empty lim by (auto simp: ring_after_def ring_linear_def)
    then show ?thesis
      using hd off empty lim by (auto simp: ring_take_def ring_holds_def ring_after_def)
  next
    case (Cons x xs')
    with ms(1) xs have seg: "seg (pb_data b) (pb_begin b) (m # xs') k" and "ms = xs' @ ys"
      by auto
    note hd = seg_head_size [OF seg]
    from seg have rest: "seg (pb_data b) (pb_begin b + length m) xs' k" by simp
    have off: "ring_off b = pb_begin b" using hd(1,4) by (auto simp: ring_off_def)
    have "ring_linear (ring_after b (pb_begin b + length m)) ms \<or>
        ring_wrapped (ring_after b (pb_begin b + length m)) ms"
    proof (cases "pb_begin b + length m = pb_len b")
      case True
      with seg_le [OF rest] ms(3) have "length xs' = 0" by linarith
      then have "xs' = []" by simp
      with ys True wr ms(2) \<open>ms = xs' @ ys\<close> seg_le [OF ys] show ?thesis
        by (simp add: ring_after_def ring_linear_def)
    next
      case False
      have "ring_wrapped (b\<lparr>pb_begin := pb_begin b + length m\<rparr>) ms"
        by (rule ring_wrappedI [of _ _ xs' ys k])
           (use rest sent ys wr ms \<open>ms = xs' @ ys\<close> in auto)
      with False wr show ?thesis by (simp add: ring_after_def)
    qed
    with hd off wr lim ms \<open>ms = xs' @ ys\<close> show ?thesis
      by (auto simp: ring_take_def ring_holds_def ring_after_def)
  qed
qed

lemma ring_get: "ring_holds b (m # ms) \<Longrightarrow> ring_take b m ms"
  using ring_get_linear ring_get_wrapped by (auto simp: ring_holds_def)

section \<open>The circular list of buffers\<close>

text \<open>\<open>links nx xs z\<close>: each cell of \<open>xs\<close> leads to the next one and the last to \<open>z\<close>.\<close>

definition hdn :: "nat list \<Rightarrow> nat \<Rightarrow> nat" where
  "hdn xs z = (case xs of [] \<Rightarrow> z | y # _ \<Rightarrow> y)"

fun links :: "(nat \<Rightarrow> nat) \<Rightarrow> nat list \<Rightarrow> nat \<Rightarrow> bool" where
  "links nx [] z = True"
| "links nx (x # xs) z = (nx x = hdn xs z \<and> links nx xs z)"

lemma hdn_simps [simp]: "hdn [] z = z" "hdn (x # xs) z = x" "hdn (xs @ ys) z = hdn xs (hdn ys z)"
  by (auto simp: hdn_def split: list.splits)

lemma hdn_hd: "xs \<noteq> [] \<Longrightarrow> hdn xs z = hd xs"
  by (cases xs) auto

lemma links_append [simp]:
  "links nx (xs @ ys) z \<longleftrightarrow> links nx xs (hdn ys z) \<and> links nx ys z"
  by (induction xs) auto

lemma links_cong: "(\<And>x. x \<in> set xs \<Longrightarrow> nx x = nx' x) \<Longrightarrow> links nx xs z = links nx' xs z"
  by (induction xs) auto

text \<open>
  The buffers from the reader's to the writer's (\<open>front\<close>) hold the messages; the rest of
  the circle (\<open>back\<close>) is empty. \<open>cont\<close> gives the messages of each buffer.
\<close>

definition pipe_layout ::
  "pipe \<Rightarrow> nat list \<Rightarrow> nat list \<Rightarrow> (nat \<Rightarrow> byte list list) \<Rightarrow> bool" where
  "pipe_layout pp front back cont \<longleftrightarrow>
     front \<noteq> [] \<and> distinct (front @ back) \<and>
     rbuf pp = hd front \<and> wbuf pp = last front \<and>
     links (\<lambda>b. next_buf (bufs pp b)) (front @ back) (hd front) \<and>
     (\<forall>b \<in> set front. ring_holds (bufs pp b) (cont b)) \<and>
     (\<forall>b \<in> set back. ring_holds (bufs pp b) []) \<and>
     (1 < length front \<longrightarrow> (\<forall>b \<in> set front. cont b \<noteq> [])) \<and>
     nmsg pp = length (concat (map cont front)) \<and> nmsg pp < 4294967296 \<and>
     PIPE_BUF_MINSIZE \<le> buf_size pp"

definition pipe_holds :: "pipe \<Rightarrow> byte list list \<Rightarrow> bool" where
  "pipe_holds pp ms \<longleftrightarrow>
     (\<exists>front back cont. pipe_layout pp front back cont \<and> ms = concat (map cont front))"

text \<open>A buffer of the pipe: one that the reader's buffer leads to.\<close>

definition pipe_reach :: "pipe \<Rightarrow> nat \<Rightarrow> bool" where
  "pipe_reach pp b \<longleftrightarrow> (\<exists>n. ((\<lambda>b. next_buf (bufs pp b)) ^^ n) (rbuf pp) = b)"

lemma links_reach:
  "links nx xs z \<Longrightarrow> b \<in> set xs \<Longrightarrow> \<exists>n. (nx ^^ n) (hd xs) = b"
proof (induction xs)
  case Nil
  then show ?case by simp
next
  case (Cons x xs)
  show ?case
  proof (cases "b = x")
    case True
    then show ?thesis by (auto intro: exI [of _ 0])
  next
    case False
    with Cons obtain n where "(nx ^^ n) (hd xs) = b" by auto
    moreover have "nx x = hd xs" using Cons.prems False by (cases xs) auto
    ultimately have "(nx ^^ Suc n) x = b" by (simp add: funpow_swap1)
    then show ?thesis unfolding list.sel(1) by blast
  qed
qed

lemma pipe_layout_reach:
  assumes "pipe_layout pp front back cont" and "b \<in> set (front @ back)"
  shows "pipe_reach pp b"
proof -
  from assms have "hd (front @ back) = rbuf pp" by (simp add: pipe_layout_def)
  with assms links_reach [of _ "front @ back"] show ?thesis
    unfolding pipe_layout_def pipe_reach_def by metis
qed

text \<open>
  The conditions under which a put keeps the pipe in order: the message is well formed, it
  does not fill the gap of a wrapped buffer exactly, doubling the buffer size does not
  overflow, and \<open>malloc\<close> returns memory that is not in use.
\<close>

definition exact_fit :: "byte list \<Rightarrow> pipe \<Rightarrow> bool" where
  "exact_fit msg pp \<longleftrightarrow>
     (let b = bufs pp (wbuf pp)
      in pb_end b < pb_begin b \<and> length msg = pb_begin b - pb_end b)"

definition pipe_put_ok :: "(pipe \<Rightarrow> nat \<Rightarrow> ptr) \<Rightarrow> byte list \<Rightarrow> pipe \<Rightarrow> bool" where
  "pipe_put_ok malloc msg pp \<longleftrightarrow>
     msg_wf msg \<and> \<not> exact_fit msg pp \<and> buf_size pp < 2147483648 \<and>
     Suc (nmsg pp) < 4294967296 \<and>
     (\<forall>a. malloc pp (buf_size pp) = Some a \<longrightarrow> \<not> pipe_reach pp a)"

text \<open>Storing in the writer's buffer.\<close>

lemma pipe_layout_store:
  assumes lay: "pipe_layout pp front back cont" and "Suc (nmsg pp) < 4294967296"
    and ring: "ring_holds b' (cont (wbuf pp) @ [m])"
    and nx: "next_buf b' = next_buf (bufs pp (wbuf pp))"
  shows "pipe_layout (pp\<lparr>bufs := (bufs pp)(wbuf pp := b'), nmsg := u32_add (nmsg pp) 1\<rparr>)
      front back (cont(wbuf pp := cont (wbuf pp) @ [m]))"
    and "concat (map (cont(wbuf pp := cont (wbuf pp) @ [m])) front)
      = concat (map cont front) @ [m]"
proof -
  from lay obtain fs where fr: "front = fs @ [wbuf pp]" and d: "distinct (front @ back)"
    unfolding pipe_layout_def by (metis append_butlast_last_id)
  let ?c = "cont(wbuf pp := cont (wbuf pp) @ [m])"
  have "wbuf pp \<notin> set fs" using fr d by auto
  then show cc: "concat (map ?c front) = concat (map cont front) @ [m]"
    by (simp add: fr map_fun_upd)
  have "links (\<lambda>b. next_buf (((bufs pp)(wbuf pp := b')) b)) (front @ back) (hd front)
      = links (\<lambda>b. next_buf (bufs pp b)) (front @ back) (hd front)"
    by (rule links_cong) (use nx in auto)
  moreover have "wbuf pp \<notin> set back" using fr d by auto
  ultimately show "pipe_layout (pp\<lparr>bufs := (bufs pp)(wbuf pp := b'),
      nmsg := u32_add (nmsg pp) 1\<rparr>) front back ?c"
    using lay ring assms(2) cc by (auto simp: pipe_layout_def)
qed

text \<open>Storing in a buffer that joins the front.\<close>

lemma pipe_layout_extend:
  assumes lay: "pipe_layout pp front back cont" and full: "\<forall>x \<in> set front. cont x \<noteq> []"
    and "rbuf pp' = rbuf pp" "wbuf pp' = b" "nmsg pp' = Suc (nmsg pp)" "nmsg pp' < 4294967296"
    and "PIPE_BUF_MINSIZE \<le> buf_size pp'"
    and d: "distinct (front @ b # back')"
    and "links (\<lambda>x. next_buf (bufs pp' x)) (front @ b # back') (hd front)"
    and "ring_holds (bufs pp' b) [m]"
    and "\<And>x. x \<in> set front \<Longrightarrow> ring_holds (bufs pp' x) (cont x)"
    and "\<And>x. x \<in> set back' \<Longrightarrow> ring_holds (bufs pp' x) []"
  shows "pipe_layout pp' (front @ [b]) back' (cont(b := [m]))"
    and "concat (map (cont(b := [m])) (front @ [b])) = concat (map cont front) @ [m]"
proof -
  have b: "b \<notin> set front" using d by auto
  then show c: "concat (map (cont(b := [m])) (front @ [b])) = concat (map cont front) @ [m]"
    by (simp add: map_fun_upd)
  have "hd (front @ [b]) = hd front" using lay by (simp add: pipe_layout_def)
  with assms b c show "pipe_layout pp' (front @ [b]) back' (cont(b := [m]))"
    by (auto simp: pipe_layout_def)
qed

lemma pipe_store_in_wbuf:
  assumes "pipe_layout pp front back cont" and "Suc (nmsg pp) < 4294967296"
    and "ring_holds (buf\<lparr>pb_data := write_bytes (pb_data buf) (pb_end buf) m,
           pb_end := u32_add (pb_end buf) (length m)\<rparr>) (cont (wbuf pp) @ [m])"
    and "next_buf buf = next_buf (bufs pp (wbuf pp))"
  shows "pipe_holds (pipe_store pp (wbuf pp) buf m) (concat (map cont front) @ [m])"
proof -
  let ?b = "buf\<lparr>pb_data := write_bytes (pb_data buf) (pb_end buf) m,
    pb_end := u32_add (pb_end buf) (length m)\<rparr>"
  have "next_buf ?b = next_buf (bufs pp (wbuf pp))" using assms(4) by simp
  note store = pipe_layout_store [OF assms(1,2,3) this]
  show ?thesis
    unfolding pipe_holds_def pipe_store_def using store(1) store(2) [symmetric] by blast
qed

lemma pipe_layout_wbuf:
  "pipe_layout pp front back cont \<Longrightarrow>
   ring_holds (bufs pp (wbuf pp)) (cont (wbuf pp)) \<and> wbuf pp \<in> set front"
  by (auto simp: pipe_layout_def)

text \<open>When the message does not fit, every buffer of the front holds something.\<close>

lemma pipe_full_front:
  assumes lay: "pipe_layout pp front back cont" and "msg_wf m"
    and "length m > u32_sub (if pb_end b < pb_begin b then pb_begin b else pb_len b) (pb_end b)"
    and b: "b = bufs pp (wbuf pp)"
  shows "\<forall>x \<in> set front. cont x \<noteq> []"
proof (cases "1 < length front")
  case True
  with lay show ?thesis by (simp add: pipe_layout_def)
next
  case False
  with lay have fr: "front = [wbuf pp]" by (cases front) (auto simp: pipe_layout_def)
  have "cont (wbuf pp) \<noteq> []"
  proof
    assume "cont (wbuf pp) = []"
    with pipe_layout_wbuf [OF lay] b have "ring_holds b []" by simp
    with ring_holds_empty [OF this] assms(2,3) show False
      by (auto simp: ring_holds_def msg_wf_def)
  qed
  with fr show ?thesis by simp
qed

text \<open>The free buffer that follows the writer's one is an empty buffer of the back.\<close>

lemma pipe_next_free:
  assumes lay: "pipe_layout pp front back cont" and full: "\<forall>x \<in> set front. cont x \<noteq> []"
    and "next_buf (bufs pp (wbuf pp)) \<noteq> wbuf pp"
    and "pb_begin (bufs pp (next_buf (bufs pp (wbuf pp)))) = 0"
    and "pb_end (bufs pp (next_buf (bufs pp (wbuf pp)))) = 0"
  shows "\<exists>back'. back = next_buf (bufs pp (wbuf pp)) # back'"
proof -
  let ?n = "next_buf (bufs pp (wbuf pp))"
  from lay obtain fs where fr: "front = fs @ [wbuf pp]"
    unfolding pipe_layout_def by (metis append_butlast_last_id)
  with lay have n: "?n = hdn back (hd front)" by (simp add: pipe_layout_def)
  have "back \<noteq> []"
  proof
    assume "back = []"
    with n lay have "?n \<in> set front" by (simp add: pipe_layout_def)
    with lay full have "ring_holds (bufs pp ?n) (cont ?n)" "cont ?n \<noteq> []"
      by (auto simp: pipe_layout_def)
    with ring_holds_nonempty assms(4,5) show False by blast
  qed
  then show ?thesis using n by (auto simp: neq_Nil_conv)
qed

lemma pipe_put_next:
  assumes lay: "pipe_layout pp front back cont" and full: "\<forall>x \<in> set front. cont x \<noteq> []"
    and "msg_wf m" and "Suc (nmsg pp) < 4294967296" and bk: "back = n # back'"
  shows "pipe_holds (pipe_store (pp\<lparr>wbuf := n\<rparr>) n (bufs pp n) m) (concat (map cont front) @ [m])"
proof -
  let ?pp = "pipe_store (pp\<lparr>wbuf := n\<rparr>) n (bufs pp n) m"
  have ring: "ring_holds (bufs pp n) []" using lay bk by (auto simp: pipe_layout_def)
  have nf: "n \<notin> set front" "n \<notin> set back'" using lay bk by (auto simp: pipe_layout_def)
  have "ring_holds ((bufs pp n)\<lparr>pb_data := write_bytes (pb_data (bufs pp n)) (pb_end (bufs pp n)) m,
      pb_end := u32_add (pb_end (bufs pp n)) (length m)\<rparr>) ([] @ [m])"
    by (rule ring_put_linear [OF ring])
       (use ring_holds_empty [OF ring] ring assms(3) in \<open>auto simp: ring_holds_def msg_wf_def\<close>)
  then have new: "ring_holds (bufs ?pp n) [m]" by (simp add: pipe_store_def)
  have "links (\<lambda>x. next_buf (bufs ?pp x)) (front @ n # back') (hd front)
      = links (\<lambda>x. next_buf (bufs pp x)) (front @ back) (hd front)"
    unfolding bk by (rule links_cong) (simp add: pipe_store_def)
  then have "links (\<lambda>x. next_buf (bufs ?pp x)) (front @ n # back') (hd front)"
    using lay by (simp add: pipe_layout_def)
  note ext = pipe_layout_extend [OF lay full, of ?pp n back' m, OF _ _ _ _ _ _ this new]
  have "pipe_layout ?pp (front @ [n]) back' (cont(n := [m]))"
    by (rule ext(1)) (use lay bk nf assms(4) in \<open>auto simp: pipe_store_def pipe_layout_def\<close>)
  moreover have "concat (map (cont(n := [m])) (front @ [n])) = concat (map cont front) @ [m]"
    by (rule ext(2)) (use lay bk nf assms(4) in \<open>auto simp: pipe_store_def pipe_layout_def\<close>)
  ultimately show ?thesis unfolding pipe_holds_def by metis
qed

lemma pipe_put_alloc:
  assumes lay: "pipe_layout pp front back cont" and full: "\<forall>x \<in> set front. cont x \<noteq> []"
    and m: "msg_wf m" and "Suc (nmsg pp) < 4294967296" and "buf_size pp < 2147483648"
    and fresh: "\<not> pipe_reach pp a"
  shows "pipe_holds (pipe_store
      (pp\<lparr>bufs := (bufs pp)(wbuf pp := (bufs pp (wbuf pp))\<lparr>next_buf := a\<rparr>),
          buf_size := u32_mul (buf_size pp) 2, wbuf := a\<rparr>) a
      \<lparr>pb_begin = 0, pb_end = 0, pb_len = u32_sub (buf_size pp) PIPE_BUF_EXTRASIZE,
       next_buf = next_buf (bufs pp (wbuf pp)), pb_data = pb_data (bufs pp a)\<rparr> m)
    (concat (map cont front) @ [m])"
    (is "pipe_holds ?pp _")
proof -
  have na: "a \<notin> set (front @ back)" using pipe_layout_reach [OF lay] fresh by blast
  from lay obtain fs where fr: "front = fs @ [wbuf pp]" and d: "distinct (front @ back)"
    unfolding pipe_layout_def by (metis append_butlast_last_id)
  then have wf: "wbuf pp \<notin> set fs" "wbuf pp \<notin> set back" by auto
  have size: "4096 \<le> buf_size pp"
    using lay by (simp add: pipe_layout_def PIPE_BUF_MINSIZE_def MSG_MAXSIZE_def)
  define b0 where "b0 = \<lparr>pb_begin = 0, pb_end = 0,
    pb_len = u32_sub (buf_size pp) PIPE_BUF_EXTRASIZE,
    next_buf = next_buf (bufs pp (wbuf pp)), pb_data = pb_data (bufs pp a)\<rparr>"
  have b0: "pb_len b0 = buf_size pp - 26" "pb_begin b0 = 0" "pb_end b0 = 0"
    using size assms(5) by (simp_all add: b0_def PIPE_BUF_EXTRASIZE_def)
  have "510 \<le> pb_len b0" "pb_len b0 < 4294966000" using size assms(5) b0(1) by linarith+
  then have "ring_holds b0 []" using b0 by (simp add: ring_holds_def ring_linear_empty)
  then have "ring_holds (b0\<lparr>pb_data := write_bytes (pb_data b0) (pb_end b0) m,
      pb_end := u32_add (pb_end b0) (length m)\<rparr>) ([] @ [m])"
    by (rule ring_put_linear) (use m b0 size in \<open>auto simp: msg_wf_def\<close>)
  then have new: "ring_holds (bufs ?pp a) [m]" by (simp add: pipe_store_def b0_def)
  from lay fr have lk: "links (\<lambda>x. next_buf (bufs pp x)) fs (wbuf pp)"
      "next_buf (bufs pp (wbuf pp)) = hdn back (hd front)"
      "links (\<lambda>x. next_buf (bufs pp x)) back (hd front)"
    by (simp_all add: pipe_layout_def)
  have "links (\<lambda>x. next_buf (bufs ?pp x)) fs (wbuf pp)
      = links (\<lambda>x. next_buf (bufs pp x)) fs (wbuf pp)"
    by (rule links_cong) (use na fr wf in \<open>auto simp: pipe_store_def\<close>)
  moreover have "links (\<lambda>x. next_buf (bufs ?pp x)) back (hd front)
      = links (\<lambda>x. next_buf (bufs pp x)) back (hd front)"
    by (rule links_cong) (use na wf in \<open>auto simp: pipe_store_def\<close>)
  moreover have "next_buf (bufs ?pp (wbuf pp)) = a" "next_buf (bufs ?pp a) = hdn back (hd front)"
    using lk(2) na fr by (auto simp: pipe_store_def)
  ultimately have links: "links (\<lambda>x. next_buf (bufs ?pp x)) (front @ a # back) (hd front)"
    using lk unfolding fr by simp
  have old: "\<And>x. x \<in> set front \<Longrightarrow> ring_holds (bufs ?pp x) (cont x)"
    using lay na by (auto simp: pipe_layout_def pipe_store_def ring_holds_def ring_linear_def
        ring_wrapped_def)
  have emp: "\<And>x. x \<in> set back \<Longrightarrow> ring_holds (bufs ?pp x) []"
    using lay na wf by (auto simp: pipe_layout_def pipe_store_def)
  note ext = pipe_layout_extend [OF lay full, of ?pp a "back" m, OF _ _ _ _ _ _ links new old emp]
  have "pipe_layout ?pp (front @ [a]) back (cont(a := [m]))"
    by (rule ext(1)) (use assms(4,5) size na d in \<open>auto simp: pipe_store_def PIPE_BUF_MINSIZE_def
        MSG_MAXSIZE_def\<close>)
  moreover have "concat (map (cont(a := [m])) (front @ [a])) = concat (map cont front) @ [m]"
    by (rule ext(2)) (use assms(4,5) size na d in \<open>auto simp: pipe_store_def PIPE_BUF_MINSIZE_def
        MSG_MAXSIZE_def\<close>)
  ultimately show ?thesis unfolding pipe_holds_def by metis
qed

text \<open>One iteration of the writer: every way it stores the message appends it.\<close>

lemma pipe_put_write_layout:
  assumes lay: "pipe_layout pp front back cont" and ok: "pipe_put_ok malloc m pp"
    and put: "pipe_put_write malloc m pp = Some pp'"
  shows "pipe_holds pp' (concat (map cont front) @ [m])"
proof -
  define b where "b = bufs pp (wbuf pp)"
  define len where "len = u32_sub (if pb_end b < pb_begin b then pb_begin b else pb_len b) (pb_end b)"
  from pipe_layout_wbuf [OF lay] have ring: "ring_holds b (cont (wbuf pp))" by (simp add: b_def)
  from ok have m: "msg_wf m" and n: "Suc (nmsg pp) < 4294967296"
    and size: "buf_size pp < 2147483648"
    and fresh: "\<And>a. malloc pp (buf_size pp) = Some a \<Longrightarrow> \<not> pipe_reach pp a"
    by (auto simp: pipe_put_ok_def)
  note defs = pipe_put_write_def [of malloc m pp, unfolded Let_def, folded b_def, folded len_def]
  have bnd: "pb_end b \<le> pb_len b" "pb_len b < 4294966000" "pb_begin b \<le> pb_len b"
    using ring by (auto simp: ring_holds_def ring_linear_def ring_wrapped_def dest!: seg_le)
  have len: "len = (if pb_end b < pb_begin b then pb_begin b - pb_end b else pb_len b - pb_end b)"
    using bnd by (simp add: len_def)
  show ?thesis
  proof (cases "length m > len")
    case False
    have "ring_holds (b\<lparr>pb_data := write_bytes (pb_data b) (pb_end b) m,
        pb_end := u32_add (pb_end b) (length m)\<rparr>) (cont (wbuf pp) @ [m])"
    proof (cases "pb_end b < pb_begin b")
      case True
      with ok len False have "length m < pb_begin b - pb_end b"
        by (auto simp: pipe_put_ok_def exact_fit_def Let_def b_def [symmetric])
      with ring True m show ?thesis by (intro ring_put_wrapped)
    next
      case nw: False
      with len False ring m show ?thesis by (intro ring_put_linear) auto
    qed
    from pipe_store_in_wbuf [OF lay n this] put False show ?thesis
      by (auto simp: defs) (simp add: b_def)
  next
    case True
    then have full: "\<forall>x \<in> set front. cont x \<noteq> []"
      by (intro pipe_full_front [OF lay m _ b_def]) (simp add: len_def)
    consider (wrap) "\<not> pb_end b < pb_begin b" "pb_begin b > length m"
      | (nxt) "pb_end b < pb_begin b \<or> \<not> pb_begin b > length m" "wbuf pp \<noteq> next_buf b"
          "pb_begin (bufs pp (next_buf b)) = 0" "pb_end (bufs pp (next_buf b)) = 0"
      | (grow) "pb_end b < pb_begin b \<or> \<not> pb_begin b > length m"
          "\<not> (wbuf pp \<noteq> next_buf b \<and> pb_begin (bufs pp (next_buf b)) = 0
              \<and> pb_end (bufs pp (next_buf b)) = 0)"
      by argo
    then show ?thesis
    proof cases
      case wrap
      define b1 where "b1 = b\<lparr>pb_data := write_bytes (pb_data b) (pb_end b) (le_bytes 2 0), pb_end := 0\<rparr>"
      have small: "length m < 4294967296" using m by (simp add: msg_wf_def)
      have b1: "ring_holds (b1\<lparr>pb_data := write_bytes (pb_data b1) (pb_end b1) m,
          pb_end := u32_add (pb_end b1) (length m)\<rparr>) (cont (wbuf pp) @ [m])"
        using ring_put_wrap [OF ring wrap(1) m wrap(2)] small by (simp add: b1_def)
      have "next_buf b1 = next_buf (bufs pp (wbuf pp))" by (simp add: b1_def b_def)
      from pipe_store_in_wbuf [OF lay n b1 this] put True wrap show ?thesis
        by (simp add: defs b1_def)
    next
      case nxt
      then obtain bk where "back = next_buf b # bk"
        using pipe_next_free [OF lay full] by (auto simp: b_def)
      from pipe_put_next [OF lay full m n this] put True nxt show ?thesis by (auto simp: defs)
    next
      case grow
      with put True obtain a where mal: "malloc pp (buf_size pp) = Some a"
        by (auto simp: defs split: if_splits option.splits)
      from pipe_put_alloc [OF lay full m n size fresh [OF mal], folded b_def] put True grow mal show ?thesis
        by (auto simp: defs split: if_splits)
    qed
  qed
qed

lemma pipe_put_write_holds:
  "pipe_holds pp ms \<Longrightarrow> pipe_put_ok malloc m pp \<Longrightarrow> pipe_put_write malloc m pp = Some pp' \<Longrightarrow>
   pipe_holds pp' (ms @ [m])"
  unfolding pipe_holds_def [of pp] using pipe_put_write_layout by blast

text \<open>One read takes the first message off, and an empty pipe has none.\<close>

definition pipe_taken :: "pipe \<Rightarrow> pipe_buf \<Rightarrow> bool \<Rightarrow> pipe" where
  "pipe_taken pp b moved =
     pp\<lparr>bufs := (bufs pp)(rbuf pp := b), nmsg := nmsg pp - 1,
        rbuf := (if moved then next_buf (bufs pp (rbuf pp)) else rbuf pp)\<rparr>"

lemma pipe_layout_signals [simp]:
  "pipe_layout (pp\<lparr>put_signals := n\<rparr>) = pipe_layout pp"
  "pipe_layout (pp\<lparr>get_signals := n\<rparr>) = pipe_layout pp"
  "pipe_layout (pp\<lparr>signal_on_put := n\<rparr>) = pipe_layout pp"
  "pipe_layout (pp\<lparr>signal_on_get := n\<rparr>) = pipe_layout pp"
  by (simp_all add: fun_eq_iff pipe_layout_def)

lemma pipe_holds_signals [simp]:
  "pipe_holds (pp\<lparr>put_signals := n\<rparr>) = pipe_holds pp"
  "pipe_holds (pp\<lparr>get_signals := n\<rparr>) = pipe_holds pp"
  "pipe_holds (pp\<lparr>signal_on_put := n\<rparr>) = pipe_holds pp"
  "pipe_holds (pp\<lparr>signal_on_get := n\<rparr>) = pipe_holds pp"
  by (simp_all add: fun_eq_iff pipe_holds_def)

lemma pipe_get_read_taken:
  assumes "ring_take (bufs pp (rbuf pp)) m r" and "nmsg pp \<noteq> 0" and "nmsg pp < 4294967296"
    and "pb_len (bufs pp (rbuf pp)) < 4294966000"
  defines "b \<equiv> bufs pp (rbuf pp)"
  defines "pp1 \<equiv> pipe_taken pp (ring_after b (ring_off b + length m)) (r = [] \<and> nmsg pp > 1)"
  shows "pipe_get_read pp = Some (m, if nmsg pp1 \<noteq> 0 \<and> signal_on_put pp1 \<noteq> 0
           then pp1\<lparr>put_signals := Suc (put_signals pp1)\<rparr> else pp1)"
proof -
  from assms have t: "le_val (read_bytes (pb_data b) (ring_off b) 2) = length m"
    "read_bytes (pb_data b) (ring_off b) (length m) = m"
    "ring_off b + length m \<le> pb_len b" "ring_off b + length m = pb_end b \<longleftrightarrow> r = []"
    by (auto simp: ring_take_def)
  have u: "u32_add (ring_off b) (length m) = ring_off b + length m"
    using t(3) assms(4) by (simp add: b_def)
  note read = pipe_get_read_def [of pp, unfolded Let_def, folded b_def, folded ring_off_def,
    unfolded t(1,2) u, folded ring_after_def]
  show ?thesis unfolding read t(4) using assms(2,3)
    by (auto simp: pp1_def pipe_taken_def b_def)
qed

lemma pipe_layout_take:
  assumes lay: "pipe_layout pp (x # fs) back cont" and c: "cont x = m # r"
    and t: "ring_take (bufs pp x) m r"
  defines "pp1 \<equiv> pipe_taken pp (ring_after (bufs pp x) (ring_off (bufs pp x) + length m))
      (r = [] \<and> nmsg pp > 1)"
  shows "pipe_holds pp1 (r @ concat (map cont fs))"
proof -
  let ?b = "ring_after (bufs pp x) (ring_off (bufs pp x) + length m)"
  from lay have x: "rbuf pp = x" "x \<notin> set fs" "x \<notin> set back" by (auto simp: pipe_layout_def)
  have nx: "next_buf ?b = next_buf (bufs pp x)" by (simp add: ring_after_def)
  have lk: "links (\<lambda>y. next_buf (bufs pp1 y)) ys z = links (\<lambda>y. next_buf (bufs pp y)) ys z" for ys z
    by (rule links_cong) (simp add: pp1_def pipe_taken_def x nx)
  have ring: "ring_holds ?b r" using t by (simp add: ring_take_def)
  show ?thesis
  proof (cases "r = [] \<and> fs \<noteq> []")
    case True
    then obtain y ys where fs: "fs = y # ys" by (cases fs) auto
    with lay have ne: "\<forall>z \<in> set fs. cont z \<noteq> []" by (simp add: pipe_layout_def)
    then have n: "nmsg pp > 1" using lay c fs by (cases "cont y") (auto simp: pipe_layout_def)
    have "links (\<lambda>y. next_buf (bufs pp y)) (fs @ back @ [x]) (hd fs)"
      using lay fs by (simp add: pipe_layout_def)
    with lay c True fs ne n ring nx lk x
    have "pipe_layout pp1 fs (back @ [x]) cont"
      unfolding pipe_layout_def by (auto simp: pp1_def pipe_taken_def)
    then show ?thesis unfolding pipe_holds_def using True by auto
  next
    case False
    then have mv: "\<not> (r = [] \<and> nmsg pp > 1)" using lay c by (auto simp: pipe_layout_def)
    have "map (cont(x := r)) fs = map cont fs" using x by simp
    with lay c False ring lk x mv
    have "pipe_layout pp1 (x # fs) back (cont(x := r))"
      unfolding pipe_layout_def by (auto simp: pp1_def pipe_taken_def)
    moreover have "concat (map (cont(x := r)) (x # fs)) = r @ concat (map cont fs)"
      using x by simp
    ultimately show ?thesis unfolding pipe_holds_def by metis
  qed
qed

lemma pipe_get_read_holds:
  assumes "pipe_holds pp (m # ms)"
  shows "\<exists>pp'. pipe_get_read pp = Some (m, pp') \<and> pipe_holds pp' ms"
proof -
  from assms obtain front "back" cont where lay: "pipe_layout pp front back cont"
    and ms: "m # ms = concat (map cont front)" by (auto simp: pipe_holds_def)
  then obtain x fs where fr: "front = x # fs" by (cases front) (auto simp: pipe_layout_def)
  have "cont x \<noteq> []" using lay ms fr by (cases fs) (auto simp: pipe_layout_def)
  with ms fr obtain r where c: "cont x = m # r" and r: "ms = r @ concat (map cont fs)"
    by (cases "cont x") auto
  from lay fr have rb: "rbuf pp = x" and ring: "ring_holds (bufs pp x) (m # r)"
    and n: "nmsg pp \<noteq> 0" "nmsg pp < 4294967296" using c by (auto simp: pipe_layout_def)
  have t: "ring_take (bufs pp x) m r" by (rule ring_get [OF ring])
  from ring have "pb_len (bufs pp x) < 4294966000" by (simp add: ring_holds_def)
  note read = pipe_get_read_taken [of pp m r, unfolded rb, OF t n this]
  from pipe_layout_take [OF lay [unfolded fr] c t] show ?thesis unfolding read r by simp
qed

lemma pipe_get_read_empty: "pipe_holds pp [] \<Longrightarrow> pipe_get_read pp = None"
  by (auto simp: pipe_holds_def pipe_layout_def pipe_get_read_def)

interpretation pipe_chan: fifo_channel pipe_holds "pipe_put_write malloc" pipe_get_read
    "pipe_put_ok malloc" for malloc
  by unfold_locales (blast intro: pipe_put_write_holds pipe_get_read_holds pipe_get_read_empty)+

section \<open>The loops\<close>












section \<open>Properties\<close>

lemma msg_bytes_wf:
  assumes "pipe_msg_build vs idx m0 = Inr msg"
  shows "msg_wf (msg_bytes msg)"
  using pipe_msg_build_size [OF assms]
  by (auto simp: msg_wf_def msg_bytes_def msg_layout simp del: le_bytes.simps)

lemma pipe_new_holds:
  assumes "pipe_new max_size min_size calloc_ok sync_ok block garbage = Inr (Some (pr, pp))"
  shows "pipe_holds pp []"
proof -
  from assms obtain pb where sz: "4096 \<le> min_size" "min_size \<le> 2147483648"
    and pp: "rbuf pp = pb" "wbuf pp = pb" "nmsg pp = 0" "buf_size pp = min_size"
      "bufs pp pb = \<lparr>pb_begin = 0, pb_end = 0, pb_len = u32_sub min_size PIPE_BUF_EXTRASIZE,
         next_buf = pb, pb_data = pb_data (garbage pb)\<rparr>"
    by (auto simp: pipe_new_def pipe_sizes_ok_def PIPE_BUF_MINSIZE_def PIPE_BUF_MAXSIZE_def
        MSG_MAXSIZE_def split: if_splits option.splits)
  define len where "len = u32_sub min_size PIPE_BUF_EXTRASIZE"
  have len: "len = min_size - 26" using sz by (simp add: len_def PIPE_BUF_EXTRASIZE_def)
  then have "510 \<le> len" "len < 4294966000" using sz by linarith+
  then have "pipe_layout pp [pb] [] (\<lambda>_. [])"
    using pp sz by (simp add: pipe_layout_def ring_holds_def ring_linear_empty
        PIPE_BUF_MINSIZE_def MSG_MAXSIZE_def len_def)
  then show ?thesis unfolding pipe_holds_def by fastforce
qed

lemma pipe_holds_count: "pipe_holds pp ms \<Longrightarrow> pipe_count pp = length ms"
  by (auto simp: pipe_holds_def pipe_layout_def pipe_count_def)

text \<open>
  Claim C1: a pipe is a first-in first-out channel. From a freshly made pipe, in every
  serialised run of writes and reads in which no accepted message exactly fills the gap of a
  wrapped buffer (see \<open>pipe_exact_fit_overwrites\<close>), the buffer size does not reach its
  32-bit limit and \<open>malloc\<close> gives memory not in use, the messages delivered followed by
  those still stored are the messages accepted, in order, byte for byte; \<open>pipe_count\<close>
  is the number still stored.
\<close>

theorem pipe_fifo:
  assumes "pipe_new max_size min_size calloc_ok sync_ok block garbage = Inr (Some (pr, pp))"
    and "chan_ok (pipe_put_write malloc) pipe_get_read (pipe_put_ok malloc) ops pp"
    and "chan_run (pipe_put_write malloc) pipe_get_read ops pp = (ins, outs, pp')"
  shows "\<exists>rest. ins = outs @ rest \<and> pipe_holds pp' rest \<and> pipe_count pp' = length rest"
  using pipe_chan.run_fifo [OF pipe_new_holds [OF assms(1)] assms(2,3)]
  by (auto dest: pipe_holds_count)

theorem pipe_fifo_witness:
  "\<exists>pr pp pp'.
     pipe_new 4096 4096 True True (Some 1) (\<lambda>_. \<lparr>pb_begin = 7, pb_end = 7, pb_len = 7,
       next_buf = 7, pb_data = (\<lambda>_. 0)\<rparr>) = Inr (Some (pr, pp))
     \<and> chan_run (pipe_put_write (\<lambda>_ _. None)) pipe_get_read
         [Put [4, 0, 1, 2], Put [3, 0, 9], Get] pp = ([[4, 0, 1, 2], [3, 0, 9]], [[4, 0, 1, 2]], pp')
     \<and> pipe_holds pp' [[3, 0, 9]] \<and> pipe_count pp' = 1"
proof -
  let ?g = "\<lambda>_. \<lparr>pb_begin = 7, pb_end = 7, pb_len = 7, next_buf = 7, pb_data = (\<lambda>_. 0)\<rparr>"
  let ?ops = "[Put [4, 0, 1, 2], Put [3, 0, 9], Get]"
  obtain pr pp where new: "pipe_new 4096 4096 True True (Some 1) ?g = Inr (Some (pr, pp))"
    by (simp add: pipe_new_def pipe_sizes_ok_def PIPE_BUF_MINSIZE_def PIPE_BUF_MAXSIZE_def
        MSG_MAXSIZE_def)
  then have pp: "pp = \<lparr>nmsg = 0, rbuf = 1, wbuf = 1, bufs = ?g(1 := \<lparr>pb_begin = 0, pb_end = 0,
      pb_len = 4070, next_buf = 1, pb_data = (\<lambda>_. 0)\<rparr>), signal_on_put = 0, signal_on_get = 0,
      buf_size = 4096, buf_max_size = 4096, nref = 0, put_signals = 0, get_signals = 0\<rparr>"
    by (simp add: pipe_new_def pipe_sizes_ok_def PIPE_BUF_MINSIZE_def PIPE_BUF_MAXSIZE_def
        MSG_MAXSIZE_def PIPE_BUF_EXTRASIZE_def u32_sub_def)
  have run: "\<exists>pp'. chan_run (pipe_put_write (\<lambda>_ _. None)) pipe_get_read ?ops pp
      = ([[4, 0, 1, 2], [3, 0, 9]], [[4, 0, 1, 2]], pp')"
    by (simp add: pp pipe_put_write_def pipe_store_def pipe_get_read_def Let_def u32_sub_def
        u32_add_def write_bytes_def read_bytes_def upt_rec)
  have ok: "chan_ok (pipe_put_write (\<lambda>_ _. None)) pipe_get_read (pipe_put_ok (\<lambda>_ _. None)) ?ops pp"
    by (simp add: pp pipe_put_write_def pipe_store_def pipe_get_read_def Let_def u32_sub_def
        u32_add_def write_bytes_def read_bytes_def upt_rec pipe_put_ok_def exact_fit_def msg_wf_def)
  from run obtain pp' where run': "chan_run (pipe_put_write (\<lambda>_ _. None)) pipe_get_read ?ops pp
      = ([[4, 0, 1, 2], [3, 0, 9]], [[4, 0, 1, 2]], pp')" ..
  from pipe_fifo [OF new ok run'] new run' show ?thesis by auto
qed

lemma pipe_put_loop_stored:
  "pipe_put_write malloc m pp = Some pp1 \<Longrightarrow>
   pipe_put_loop malloc wait k m pp =
     Some (if signal_on_put pp1 \<noteq> 0 then pp1\<lparr>put_signals := Suc (put_signals pp1)\<rparr> else pp1, 0)"
  by (simp add: pipe_put_loop.simps)

lemma pipe_get_loop_read:
  "pipe_get_read pp = Some (m, pp1) \<Longrightarrow>
   pipe_get_loop wait k pp =
     Some (if signal_on_get pp1 \<noteq> 0 then pp1\<lparr>get_signals := Suc (get_signals pp1)\<rparr> else pp1, Inr m)"
  by (simp add: pipe_get_loop.simps)

lemma pipe_put_write_fits:
  "bufs pp (wbuf pp) = b \<Longrightarrow>
   length m \<le> u32_sub (if pb_end b < pb_begin b then pb_begin b else pb_len b) (pb_end b) \<Longrightarrow>
   pipe_put_write malloc m pp = Some (pipe_store pp (wbuf pp) b m)"
  by (auto simp: pipe_put_write_def Let_def)

text \<open>
  What one thread puts another gets. When \<open>pipe_put\<close> can store the message,
  it returns the pipe and appends exactly the built message; and \<open>pipe_get\<close> on a pipe
  whose first message was built from \<open>ws\<close> returns those values, userdata as light
  userdata, and removes that message only.
\<close>

lemma pipe_put_get:
  assumes "pipe_holds pp ms" and "pipe_msg_build vs 2 m0 = Inr msg"
    and "pipe_put_ok malloc (msg_bytes msg) pp"
    and "pipe_put_write malloc (msg_bytes msg) pp = Some pp1"
    and "pipe_holds qq (msg_bytes wmsg # qs)" and "pipe_msg_build ws 2 w0 = Inr wmsg"
    and "\<forall>v \<in> set ws. sendable v"
  shows "(\<exists>pp'. pipe_put malloc wait True fl m0 vs pp = Some (pp', PipeSelf) \<and>
      pipe_holds pp' (ms @ [msg_bytes msg]))
    \<and> (\<exists>qq'. pipe_get wait True fl qq = Some (qq', PipeValues (map shared_value ws)) \<and>
      pipe_holds qq' qs)"
proof
  show "\<exists>pp'. pipe_put malloc wait True fl m0 vs pp = Some (pp', PipeSelf) \<and>
      pipe_holds pp' (ms @ [msg_bytes msg])"
    using pipe_put_write_holds [OF assms(1,3,4)] assms(2)
    by (simp add: pipe_put_def pipe_put_loop_stored [OF assms(4)])
  from pipe_get_read_holds [OF assms(5)] obtain q1
    where read: "pipe_get_read qq = Some (msg_bytes wmsg, q1)" and q1: "pipe_holds q1 qs" by auto
  show "\<exists>qq'. pipe_get wait True fl qq = Some (qq', PipeValues (map shared_value ws)) \<and>
      pipe_holds qq' qs"
    using q1 pipe_msg_parse_built [OF assms(6,7)]
    by (simp add: pipe_get_def pipe_get_loop_read [OF read])
qed

lemma pipe_put_get_witness:
  "\<exists>pp pp' qq'. pipe_holds pp [] \<and> pipe_put (\<lambda>_ _. None) (\<lambda>_ q. (q, 1)) True 0 (\<lambda>_. 0) [LBool True] pp
      = Some (pp', PipeSelf)
    \<and> pipe_get (\<lambda>_ q. (q, 1)) True 0 pp' = Some (qq', PipeValues [LBool True]) \<and> pipe_holds qq' []"
proof -
  define b where "b = \<lparr>pb_begin = 0, pb_end = 0, pb_len = 4070, next_buf = 1, pb_data = (\<lambda>_. 0)\<rparr>"
  define pp where "pp = \<lparr>nmsg = 0, rbuf = 1, wbuf = 1, bufs = (\<lambda>_. b), signal_on_put = 0,
    signal_on_get = 0, buf_size = 4096, buf_max_size = 4096, nref = 0, put_signals = 0,
    get_signals = 0\<rparr>"
  have "pipe_layout pp [1] [] (\<lambda>_. [])"
    by (simp add: pipe_layout_def pp_def ring_holds_def ring_linear_empty b_def
        PIPE_BUF_MINSIZE_def MSG_MAXSIZE_def)
  then have holds: "pipe_holds pp []" unfolding pipe_holds_def by fastforce
  obtain msg where msg: "pipe_msg_build [LBool True] 2 (\<lambda>_. 0) = Inr msg"
    by (simp add: pipe_msg_build_def msg_build_items.simps Let_def msg_layout item_room_def
        item_align_def)
  note wf = msg_bytes_wf [OF msg]
  have put: "pipe_put_write (\<lambda>_ _. None) (msg_bytes msg) pp
      = Some (pipe_store pp 1 b (msg_bytes msg))"
    using wf pipe_put_write_fits [of pp b "msg_bytes msg"] by (simp add: pp_def b_def msg_wf_def)
  have ok: "pipe_put_ok (\<lambda>_ _. None) (msg_bytes msg) pp"
    using wf by (simp add: pipe_put_ok_def exact_fit_def pp_def b_def)
  have h1: "pipe_holds (pipe_store pp 1 b (msg_bytes msg)) [msg_bytes msg]"
    using pipe_put_write_holds [OF holds ok put] by simp
  from pipe_put_get [OF holds msg ok put h1 msg, of "\<lambda>_ q. (q, 1)" 0]
  obtain pp' qq' where "pipe_put (\<lambda>_ _. None) (\<lambda>_ q. (q, 1)) True 0 (\<lambda>_. 0) [LBool True] pp
      = Some (pp', PipeSelf)" and p': "pipe_holds pp' [msg_bytes msg]"
    by auto
  moreover from pipe_put_get [OF holds msg ok put p' msg, of "\<lambda>_ q. (q, 1)" 0]
  obtain qq' where "pipe_get (\<lambda>_ q. (q, 1)) True 0 pp' = Some (qq', PipeValues [LBool True])"
    "pipe_holds qq' []"
    by auto
  ultimately show ?thesis using holds by blast
qed





text \<open>
  Claim C28: the test \<open>msg.size > len\<close> of \<open>pipe_put\<close> lets a message fill the gap of
  a wrapped buffer exactly. \<open>end\<close> then equals \<open>begin\<close>, the buffer looks unwrapped,
  and the next message that fits behind \<open>begin\<close> is written over the oldest unread one:
  the reader gets the newest message in its place.
\<close>

theorem pipe_exact_fit_overwrites:
  assumes "pipe_holds pp (m0 # ms)" and "rbuf pp = wbuf pp" and "nmsg pp < 4294967294"
    and "exact_fit m pp" and "msg_wf m" and "msg_wf m'"
    and "length m' \<le> pb_len (bufs pp (rbuf pp)) - pb_begin (bufs pp (rbuf pp))"
  shows "\<exists>pp1 pp2 pp3. pipe_put_write malloc m pp = Some pp1
    \<and> pipe_put_write malloc m' pp1 = Some pp2 \<and> pipe_get_read pp2 = Some (m', pp3)"
proof -
  define b where "b = bufs pp (rbuf pp)"
  from assms(1) have "ring_holds b (cont (rbuf pp))" if "pipe_layout pp front back cont"
    for front "back" cont using that by (auto simp: pipe_layout_def b_def)
  with assms(1) have ring: "pb_end b \<le> pb_len b" "pb_len b < 4294966000"
    by (auto simp: pipe_holds_def ring_holds_def)
  from assms(2,4) have fit: "pb_end b < pb_begin b" "length m = pb_begin b - pb_end b"
    by (auto simp: exact_fit_def Let_def b_def)
  define b1 where "b1 = b\<lparr>pb_data := write_bytes (pb_data b) (pb_end b) m, pb_end := pb_begin b\<rparr>"
  have m': "2 \<le> length m'" "length m' \<le> 510" "le_val (take 2 m') = length m'"
    using assms(6) by (auto simp: msg_wf_def)
  have beg: "pb_begin b + length m' \<le> pb_len b" using assms(7) m'(1) by (simp add: b_def)
  have p1: "pipe_put_write malloc m pp = Some (pp\<lparr>bufs := (bufs pp)(rbuf pp := b1),
      nmsg := u32_add (nmsg pp) 1\<rparr>)" (is "_ = Some ?pp1")
    using pipe_put_write_fits [of pp b m malloc] fit assms(2) ring beg
    by (simp add: pipe_store_def b_def [symmetric] b1_def) (simp add: b_def)
  have p2: "pipe_put_write malloc m' ?pp1 = Some (?pp1\<lparr>bufs := (bufs ?pp1)(rbuf pp :=
      b1\<lparr>pb_data := write_bytes (pb_data b1) (pb_begin b) m', pb_end := pb_begin b + length m'\<rparr>),
      nmsg := u32_add (nmsg ?pp1) 1\<rparr>)" (is "_ = Some ?pp2")
    using pipe_put_write_fits [of ?pp1 b1 m' malloc] assms(2) ring beg
    by (simp add: pipe_store_def b1_def)
  have "take 2 m' = read_bytes (write_bytes (pb_data b1) (pb_begin b) m') (pb_begin b) 2"
    using m'(1) by (metis read_bytes_take read_write_same)
  then have "le_val (read_bytes (write_bytes (pb_data b1) (pb_begin b) m') (pb_begin b) 2) = length m'"
    using m'(3) by simp
  then have "\<exists>pp3. pipe_get_read ?pp2 = Some (m', pp3)"
    using m' assms(3) by (auto simp: pipe_get_read_def Let_def b1_def u32_add_def)
  with p1 p2 show ?thesis by blast
qed

theorem pipe_exact_fit_overwrites_witness:
  "\<exists>pp pp1 pp2 pp3. pipe_holds pp [[4, 0, 1, 1], [4, 0, 2, 2]]
    \<and> pipe_put_write (\<lambda>_ _. None) [4, 0, 3, 3] pp = Some pp1
    \<and> pipe_put_write (\<lambda>_ _. None) [4, 0, 4, 4] pp1 = Some pp2
    \<and> pipe_get_read pp2 = Some ([4, 0, 4, 4], pp3)"
proof -
  define b where "b = \<lparr>pb_begin = 8, pb_end = 4, pb_len = 4070, next_buf = 1,
    pb_data = write_bytes (write_bytes (\<lambda>_. 0) 0 [4, 0, 2, 2]) 8 [4, 0, 1, 1, 0, 0]\<rparr>"
  define pp where "pp = \<lparr>nmsg = 2, rbuf = 1, wbuf = 1, bufs = (\<lambda>_. b), signal_on_put = 0,
    signal_on_get = 0, buf_size = 4096, buf_max_size = 4096, nref = 0, put_signals = 0,
    get_signals = 0\<rparr>"
  have "ring_wrapped b [[4, 0, 1, 1], [4, 0, 2, 2]]"
    by (rule ring_wrappedI [of _ _ "[[4, 0, 1, 1]]" "[[4, 0, 2, 2]]" 12])
       (simp_all add: b_def msg_wf_def read_bytes_def write_bytes_def upt_rec)
  then have "pipe_layout pp [1] [] (\<lambda>_. [[4, 0, 1, 1], [4, 0, 2, 2]])"
    by (simp add: pipe_layout_def pp_def ring_holds_def b_def PIPE_BUF_MINSIZE_def MSG_MAXSIZE_def)
  then have holds: "pipe_holds pp [[4, 0, 1, 1], [4, 0, 2, 2]]"
    unfolding pipe_holds_def by fastforce
  have "exact_fit [4, 0, 3, 3] pp" by (simp add: exact_fit_def pp_def b_def)
  with pipe_exact_fit_overwrites [OF holds, of "[4, 0, 3, 3]" "[4, 0, 4, 4]" "\<lambda>_ _. None"] holds
  show ?thesis by (auto simp: msg_wf_def pp_def b_def)
qed

text \<open>The buffers that the loop of \<open>pipe_close\<close> frees.\<close>

lemma pipe_free_bufs_links:
  "links (\<lambda>b. next_buf (bs b)) (x # xs) w \<Longrightarrow> w \<notin> set xs \<Longrightarrow> pipe_free_bufs bs x w = Some (x # xs)"
proof (induction xs arbitrary: x)
  case Nil
  then show ?case by (subst pipe_free_bufs.simps) simp
next
  case (Cons y ys)
  then have "pipe_free_bufs bs y w = Some (y # ys)" by simp
  with Cons.prems show ?case by (subst pipe_free_bufs.simps) (auto simp: Let_def)
qed

text \<open>
  \<open>pipe_close\<close> drops one reference, and closing the last one always ends.
  The loop \<open>while (rpb != wpb)\<close> frees every buffer of the circle when reader and writer
  share a buffer; when they do not, it stops before the writer's buffer, so that buffer and
  the free ones behind it are never freed.
\<close>

lemma pipe_close_frees:
  assumes "pipe_layout pp front back cont" and "pr_open pr"
  shows "pipe_close pr pp =
    (if nref pp \<noteq> 0
     then Some (pr\<lparr>pr_open := False\<rparr>, Some (pp\<lparr>nref := u32_sub (nref pp) 1\<rparr>), [])
     else Some (pr\<lparr>pr_open := False\<rparr>, None,
       if rbuf pp = wbuf pp then front @ back else butlast front))"
proof -
  from assms(1) obtain x fs where fr: "front = x # fs" and x: "rbuf pp = x"
    and lk: "links (\<lambda>b. next_buf (bufs pp b)) (x # fs @ back) x" and d: "distinct (x # fs @ back)"
    by (cases front) (auto simp: pipe_layout_def)
  show ?thesis
  proof (cases "fs = []")
    case True
    with assms(1) fr have "wbuf pp = x" by (simp add: pipe_layout_def)
    moreover have "pipe_free_bufs (bufs pp) x x = Some (x # back)"
      by (rule pipe_free_bufs_links) (use lk d True in auto)
    ultimately show ?thesis using True fr x assms(2) by (simp add: pipe_close_def)
  next
    case False
    then obtain gs w where fs: "fs = gs @ [w]" by (cases fs rule: rev_cases) auto
    with assms(1) fr have "wbuf pp = w" by (simp add: pipe_layout_def)
    moreover have "pipe_free_bufs (bufs pp) x w = Some (x # gs)"
      by (rule pipe_free_bufs_links) (use lk d fs in auto)
    ultimately show ?thesis using fs fr x d assms(2) by (auto simp: pipe_close_def)
  qed
qed

lemma pipe_close_frees_witness:
  "\<exists>pp. pipe_holds pp [[4, 0, 1, 1], [4, 0, 1, 1]] \<and> wbuf pp = 2
    \<and> pipe_close \<lparr>pr_open = True, put_timeout = -1\<rparr> pp
      = Some (\<lparr>pr_open = False, put_timeout = -1\<rparr>, None, [1])"
proof -
  define b where "b n = \<lparr>pb_begin = 0, pb_end = 4, pb_len = 4070, next_buf = n,
    pb_data = write_bytes (\<lambda>_. 0) 0 [4, 0, 1, 1]\<rparr>" for n
  define pp where "pp = \<lparr>nmsg = 2, rbuf = 1, wbuf = 2, bufs = (\<lambda>x. b (3 - x)), signal_on_put = 0,
    signal_on_get = 0, buf_size = 8192, buf_max_size = 8192, nref = 0, put_signals = 0,
    get_signals = 0\<rparr>"
  have "ring_holds (b n) [[4, 0, 1, 1]]" for n
    by (simp add: ring_holds_def ring_linear_def b_def msg_wf_def)
  then have lay: "pipe_layout pp [1, 2] [] (\<lambda>_. [[4, 0, 1, 1]])"
    by (simp add: pipe_layout_def pp_def PIPE_BUF_MINSIZE_def MSG_MAXSIZE_def)
       (simp add: b_def)
  then have "pipe_holds pp [[4, 0, 1, 1], [4, 0, 1, 1]]" unfolding pipe_holds_def by fastforce
  with pipe_close_frees [OF lay, of "\<lparr>pr_open = True, put_timeout = -1\<rparr>"] show ?thesis
    by (auto simp: pp_def intro!: exI [of _ pp])
qed

end
