(* ===== verification/Dpool.thy ===== *)
theory Dpool
  imports Channel Thread_Sync
begin

text \<open>
  The data pool of src/src/thread/thread_dpool.c: a queue of tuples of Lua values shared by
  the OS threads of one Lua VM. Tuples are kept in a Lua table between the indexes
  \<open>idx\<close> and \<open>top\<close>, each as its length followed by its items in reverse order; a
  writer that finds a blocked reader hands its tuple over without storing it. The waits, the
  thread switch and the two Lua callbacks are parameters: all of them run other threads or
  Lua code, which may change the pool.
\<close>

section \<open>State\<close>

text \<open>A slot of the storage table: empty, a tuple's length, or an item.\<close>

datatype dpool_slot = SNil | SCount nat | SItem lua_value

fun slot_item :: "dpool_slot \<Rightarrow> lua_value" where
  "slot_item (SItem v) = v"
| "slot_item _ = LNil"

fun slot_count :: "dpool_slot \<Rightarrow> nat" where
  "slot_count (SCount k) = k"
| "slot_count _ = 0"

text \<open>
  A \<open>struct data_pool\<close>. \<open>writer\<close> is \<open>dp->L\<close> with the values on top of that
  thread's stack, \<open>storage\<close> the integer keys of the pool's environment table,
  \<open>put_on_full\<close> and \<open>get_on_empty\<close> the callbacks kept in it. The counters
  \<open>n\<close>, \<open>idx\<close>, \<open>top\<close> and \<open>max\<close> are \<open>unsigned int\<close>s, the numbers
  \<open>nwaits\<close> and \<open>nput\<close> \<open>int\<close>s.
\<close>

record data_pool =
  dp_n :: nat
  nwaits :: int
  nput :: int
  writer :: "lua_value list option"
  idx :: nat
  top :: nat
  dp_max :: nat
  dp_flags :: u32
  tev :: thread_event
  storage :: "int \<Rightarrow> dpool_slot"
  put_on_full :: lua_value
  get_on_empty :: lua_value

definition DPOOL_PUTONFULL :: u32 where "DPOOL_PUTONFULL = 1"
definition DPOOL_GETONEMPTY :: u32 where "DPOOL_GETONEMPTY = 2"
definition DPOOL_OPEN :: u32 where "DPOOL_OPEN = 4"

datatype dpool_result =
    DpValues "lua_value list"
  | DpTimedOut
  | DpSysError
  | DpFail lua_error
  | DpThreadExit

text \<open>What a wait leaves behind: the pool, the result and the flags of the thread.\<close>

type_synonym dpool_wait = "nat \<Rightarrow> data_pool \<Rightarrow> data_pool \<times> int \<times> nat"

section \<open>Operations\<close>

definition dpool_new :: "bool \<Rightarrow> data_pool option" where
  "dpool_new event_ok =
     (if event_ok then
        Some \<lparr>dp_n = 0, nwaits = 0, nput = 0, writer = None, idx = 0, top = 0,
              dp_max = 4294967295, dp_flags = set_flag 0 DPOOL_OPEN, tev = thread_event_new,
              storage = (\<lambda>_. SNil), put_on_full = LNil, get_on_empty = LNil\<rparr>
      else None)"

text \<open>\<open>dpool_close\<close>; the second component says that the event was deleted.\<close>

definition dpool_close :: "data_pool \<Rightarrow> data_pool \<times> bool" where
  "dpool_close dp =
     (if flag_on (dp_flags dp) DPOOL_OPEN
      then (dp\<lparr>dp_flags := dp_flags dp XOR DPOOL_OPEN\<rparr>, True)
      else (dp, False))"

text \<open>
  The loop that stores a tuple: its length first, then the items from the last one. The
  indexes are \<open>int\<close>s here: the \<open>unsigned int\<close> of the structure is converted on the
  way in and on the way out.
\<close>

definition int_of_u32 :: "nat \<Rightarrow> int" where
  "int_of_u32 n = wrap32 (int n)"

definition u32_of_int :: "int \<Rightarrow> nat" where
  "u32_of_int i = nat (i mod 4294967296)"

fun dpool_store_items :: "lua_value list \<Rightarrow> int \<Rightarrow> (int \<Rightarrow> dpool_slot) \<Rightarrow> int \<times> (int \<Rightarrow> dpool_slot)" where
  "dpool_store_items [] t st = (t, st)"
| "dpool_store_items (v # vs) t st =
     (let t' = wrap32 (t + 1) in dpool_store_items vs t' (st(t' := SItem v)))"

definition dpool_keep :: "lua_value list \<Rightarrow> data_pool \<Rightarrow> data_pool" where
  "dpool_keep vs dp =
     (let t = wrap32 (int_of_u32 (top dp) + 1);
          (t', st) = dpool_store_items (rev vs) t ((storage dp)(t := SCount (length vs)));
          dp1 = dp\<lparr>storage := st, top := u32_of_int t', dp_n := u32_add (dp_n dp) 1\<rparr>
      in if dp_n dp = 0 then dp1\<lparr>tev := thread_event_signal (tev dp1)\<rparr> else dp1)"

text \<open>The wait of a writer for room.\<close>

partial_function (option) dpool_wait_room ::
  "dpool_wait \<Rightarrow> nat \<Rightarrow> data_pool \<Rightarrow> (data_pool \<times> dpool_result option) option" where
  "dpool_wait_room wait k dp =
     (case wait k dp of (dp', res, fl) \<Rightarrow>
        case snd (sys_thread_check fl) of
          ThreadExit \<Rightarrow> Some (dp', Some DpThreadExit)
        | InterruptError \<Rightarrow> Some (dp', Some (DpFail Raised))
        | Continue \<Rightarrow>
            if res \<noteq> 0 then Some (dp', Some DpSysError)
            else if dp_n dp' \<ge> dp_max dp' then dpool_wait_room wait (Suc k) dp'
            else Some (dp', None))"

text \<open>
  The end of \<open>dpool_put\<close>: offer the tuple to a blocked reader, else store it.
  \<open>switch\<close> is \<open>sys_thread_switch\<close>, in which a reader may take the tuple.
\<close>

definition dpool_put_data ::
  "(data_pool \<Rightarrow> data_pool) \<Rightarrow> lua_value list \<Rightarrow> data_pool \<Rightarrow> data_pool" where
  "dpool_put_data switch vs dp =
     (if nwaits dp \<noteq> 0 \<and> writer dp = None then
        (let dp1 = dp\<lparr>writer := Some vs, nput := int (length vs), tev := thread_event_signal (tev dp)\<rparr>;
             dp2 = (switch dp1)\<lparr>writer := None\<rparr>
         in if nput dp2 = 0 then dp2 else dpool_keep vs (dp2\<lparr>nput := 0\<rparr>))
      else dpool_keep vs dp)"

definition dpool_put ::
  "(lua_value list \<Rightarrow> data_pool \<Rightarrow> lua_error + lua_value list \<times> data_pool) \<Rightarrow> dpool_wait
     \<Rightarrow> (data_pool \<Rightarrow> data_pool) \<Rightarrow> bool \<Rightarrow> lua_value list \<Rightarrow> data_pool
     \<Rightarrow> (data_pool \<times> dpool_result) option" where
  "dpool_put on_full wait switch has_td vs dp =
     (if \<not> has_td then Some (dp, DpFail (ArgError 0 ''Threading not initialized''))
      else if vs = [] then Some (dp, DpFail (ArgError 2 ''data expected''))
      else if dp_n dp \<ge> dp_max dp then
        (if flag_on (dp_flags dp) DPOOL_PUTONFULL then
           (case on_full vs dp of
              Inl e \<Rightarrow> Some (dp, DpFail e)
            | Inr (vs', dp') \<Rightarrow>
                Some (if vs' = [] then dp' else dpool_put_data switch vs' dp', DpValues []))
         else do {
           (dp', r) \<leftarrow> dpool_wait_room wait 0 dp;
           Some (case r of
                   Some err \<Rightarrow> (dp', err)
                 | None \<Rightarrow> (dpool_put_data switch vs dp', DpValues []))
         })
      else Some (dpool_put_data switch vs dp, DpValues []))"

text \<open>The loop that reads a tuple back: from the last slot down to the length, clearing each.\<close>

function dpool_fetch_items ::
  "int \<Rightarrow> int \<Rightarrow> (int \<Rightarrow> dpool_slot) \<Rightarrow> lua_value list \<times> (int \<Rightarrow> dpool_slot)" where
  "dpool_fetch_items ix i st =
     (if i > ix then
        (let (vs, st') = dpool_fetch_items ix (i - 1) (st(i := SNil))
         in (slot_item (st i) # vs, st'))
      else ([], st))"
  by auto
termination by (relation "measure (\<lambda>(ix, i, _). nat (i - ix))") auto

declare dpool_fetch_items.simps [simp del]

text \<open>
  A tuple taken from the storage. The function returns the topmost \<open>nput\<close> values of its
  stack: the items, pushed in their order, on top of \<open>stk\<close> (the storage table, the pool
  and the length read).
\<close>

definition dpool_take :: "lua_value list \<Rightarrow> data_pool \<Rightarrow> (lua_value list \<times> data_pool) option" where
  "dpool_take stk dp =
     (if dp_n dp \<noteq> 0 then
        (let ix = int_of_u32 (u32_add (idx dp) 1);
             k = slot_count (storage dp ix);
             dp1 = dp\<lparr>idx := u32_of_int (ix + int k)\<rparr>;
             (vs, st) = dpool_fetch_items ix (int_of_u32 (idx dp1)) ((storage dp)(ix := SNil));
             dp2 = dp1\<lparr>storage := st\<rparr>;
             dp3 = (if idx dp2 = top dp2 then dp2\<lparr>idx := 0, top := 0\<rparr> else dp2);
             dp4 = dp3\<lparr>dp_n := u32_sub (dp_n dp3) 1\<rparr>
         in Some (drop (length stk + length vs - k) (stk @ vs),
                  if dp_n dp3 = dp_max dp3
                  then dp4\<lparr>tev := thread_event_signal (tev dp4)\<rparr> else dp4))
      else None)"

text \<open>
  What a reader does when its wait has ended: the tuple a writer offers is popped off the
  writer's stack (a NULL \<open>dp->L\<close> would be dereferenced); without an offer it goes round
  its loop.
\<close>

definition dpool_moved :: "data_pool \<Rightarrow> (lua_value list option \<times> data_pool) option" where
  "dpool_moved dp =
     (if nput dp \<noteq> 0 then do {
        vs \<leftarrow> writer dp;
        let k = length vs - nat (nput dp);
        Some (Some (drop k vs), dp\<lparr>writer := Some (take k vs), nput := 0\<rparr>)
      }
      else Some (None, dp))"

partial_function (option) dpool_get_loop ::
  "lua_value list \<Rightarrow> dpool_wait \<Rightarrow> nat \<Rightarrow> data_pool \<Rightarrow> (data_pool \<times> dpool_result) option" where
  "dpool_get_loop stk wait k dp =
     (case dpool_take stk dp of
        Some (vs, dp') \<Rightarrow> Some (dp', DpValues vs)
      | None \<Rightarrow>
          (case wait k (dp\<lparr>nwaits := wrap32 (nwaits dp + 1)\<rparr>) of (dp1, res, fl) \<Rightarrow>
             let dp2 = dp1\<lparr>nwaits := wrap32 (nwaits dp1 - 1)\<rparr>
             in case snd (sys_thread_check fl) of
                  ThreadExit \<Rightarrow> Some (dp2, DpThreadExit)
                | InterruptError \<Rightarrow> Some (dp2, DpFail Raised)
                | Continue \<Rightarrow>
                    if res \<noteq> 0 then Some (dp2, if res = 1 then DpTimedOut else DpSysError)
                    else do {
                      (r, dp3) \<leftarrow> dpool_moved dp2;
                      case r of
                        Some vs \<Rightarrow> Some (dp3, DpValues vs)
                      | None \<Rightarrow> dpool_get_loop stk wait (Suc k) dp3
                    }))"

definition dpool_get ::
  "(data_pool \<Rightarrow> lua_error + lua_value list \<times> data_pool) \<Rightarrow> lua_value list \<Rightarrow> dpool_wait \<Rightarrow> bool
     \<Rightarrow> data_pool \<Rightarrow> (data_pool \<times> dpool_result) option" where
  "dpool_get on_empty stk wait has_td dp =
     (if \<not> has_td then Some (dp, DpFail (ArgError 0 ''Threading not initialized''))
      else if flag_on (dp_flags dp) DPOOL_GETONEMPTY \<and> dp_n dp = 0 then
        (case on_empty dp of
           Inl e \<Rightarrow> Some (dp, DpFail e)
         | Inr (vs, dp') \<Rightarrow>
             if vs \<noteq> [] then Some (dp', DpValues vs) else dpool_get_loop stk wait 0 dp')
      else dpool_get_loop stk wait 0 dp)"

text \<open>\<open>dpool_max\<close> reads the watermark or, with an argument, sets it as an unsigned.\<close>

definition dpool_max :: "int option \<Rightarrow> data_pool \<Rightarrow> data_pool \<times> nat option" where
  "dpool_max arg dp =
     (case arg of
        None \<Rightarrow> (dp, Some (dp_max dp))
      | Some m \<Rightarrow> (dp\<lparr>dp_max := nat (m mod 4294967296)\<rparr>, None))"

fun is_function :: "lua_value \<Rightarrow> bool" where
  "is_function (LFunction _) = True"
| "is_function _ = False"

definition dpool_callbacks :: "lua_value \<Rightarrow> lua_value \<Rightarrow> data_pool \<Rightarrow> data_pool" where
  "dpool_callbacks f g dp =
     (let fl = clr_flag (dp_flags dp) (DPOOL_PUTONFULL OR DPOOL_GETONEMPTY);
          fl1 = (if is_function f then set_flag fl DPOOL_PUTONFULL else fl);
          fl2 = (if is_function g then set_flag fl1 DPOOL_GETONEMPTY else fl1)
      in dp\<lparr>dp_flags := fl2, put_on_full := f, get_on_empty := g\<rparr>)"

definition dpool_count :: "data_pool \<Rightarrow> nat" where
  "dpool_count dp = dp_n dp"

section \<open>The storage\<close>

text \<open>
  The threads that run while a writer is switched out: a blocked reader whose wait has ended
  (\<open>Resume\<close>), another writer, a reader that finds a stored tuple. The lists are the
  tuples handed over, stored and fetched by them.
\<close>

datatype dpool_step = Resume | Store "lua_value list" | Fetch

fun dpool_others :: "lua_value list \<Rightarrow> dpool_step list \<Rightarrow> data_pool
     \<Rightarrow> (lua_value list list \<times> lua_value list list \<times> lua_value list list \<times> data_pool) option" where
  "dpool_others stk [] dp = Some ([], [], [], dp)"
| "dpool_others stk (Resume # es) dp = do {
     (r, dp') \<leftarrow> dpool_moved (dp\<lparr>nwaits := wrap32 (nwaits dp - 1)\<rparr>);
     case r of
       Some vs \<Rightarrow> do {
         (hs, ss, fs, d) \<leftarrow> dpool_others stk es dp';
         Some (vs # hs, ss, fs, d)
       }
     | None \<Rightarrow>
         (case dpool_take stk dp' of
            Some (vs, dp'') \<Rightarrow> do {
              (hs, ss, fs, d) \<leftarrow> dpool_others stk es dp'';
              Some (hs, ss, vs # fs, d)
            }
          | None \<Rightarrow> dpool_others stk es (dp'\<lparr>nwaits := wrap32 (nwaits dp' + 1)\<rparr>))
   }"
| "dpool_others stk (Store ws # es) dp = do {
     (hs, ss, fs, d) \<leftarrow> dpool_others stk es (dpool_put_data (\<lambda>d. d) ws dp);
     Some (hs, ws # ss, fs, d)
   }"
| "dpool_others stk (Fetch # es) dp =
     (case dpool_take stk dp of
        Some (vs, dp') \<Rightarrow> do {
          (hs, ss, fs, d) \<leftarrow> dpool_others stk es dp';
          Some (hs, ss, vs # fs, d)
        }
      | None \<Rightarrow> dpool_others stk es dp)"

text \<open>The tuples stored behind index \<open>i\<close> up to \<open>t\<close>.\<close>

definition dtuple :: "(int \<Rightarrow> dpool_slot) \<Rightarrow> int \<Rightarrow> lua_value list \<Rightarrow> bool" where
  "dtuple st i vs \<longleftrightarrow> st (i + 1) = SCount (length vs) \<and>
     (\<forall>j < length vs. slot_item (st (i + 2 + int j)) = rev vs ! j)"

fun dseg :: "(int \<Rightarrow> dpool_slot) \<Rightarrow> int \<Rightarrow> lua_value list list \<Rightarrow> int \<Rightarrow> bool" where
  "dseg st i [] t = (i = t)"
| "dseg st i (vs # ms) t = (dtuple st i vs \<and> dseg st (i + 1 + int (length vs)) ms t)"

definition dpool_holds :: "data_pool \<Rightarrow> lua_value list list \<Rightarrow> bool" where
  "dpool_holds dp ms \<longleftrightarrow>
     dseg (storage dp) (int (idx dp)) ms (int (top dp)) \<and> dp_n dp = length ms \<and>
     top dp < 2147483648 \<and> (ms = [] \<longrightarrow> top dp = 0)"

text \<open>
  The storage of a tuple is promised while the index of its last item stays an \<open>int\<close>.
  The indexes go back to zero whenever the pool is emptied.
\<close>

definition dpool_keep_ok :: "lua_value list \<Rightarrow> data_pool \<Rightarrow> bool" where
  "dpool_keep_ok vs dp \<longleftrightarrow> top dp + 1 + length vs < 2147483648"

lemma int_of_u32_id [simp]: "n < 2147483648 \<Longrightarrow> int_of_u32 n = int n"
  by (simp add: int_of_u32_def in_int32_def)

lemma u32_of_int_id [simp]: "0 \<le> i \<Longrightarrow> i < 4294967296 \<Longrightarrow> u32_of_int i = nat i"
  by (simp add: u32_of_int_def)

lemma dseg_le: "dseg st i ms t \<Longrightarrow> i + int (length ms) \<le> t"
  by (induction ms arbitrary: i) fastforce+

lemma dtuple_cong:
  "dtuple st i vs \<Longrightarrow> (\<And>j. i < j \<Longrightarrow> j \<le> i + 1 + int (length vs) \<Longrightarrow> st' j = st j) \<Longrightarrow> dtuple st' i vs"
  by (auto simp: dtuple_def)

lemma dseg_cong:
  "dseg st i ms t \<Longrightarrow> (\<And>j. i < j \<Longrightarrow> j \<le> t \<Longrightarrow> st' j = st j) \<Longrightarrow> dseg st' i ms t"
proof (induction ms arbitrary: i)
  case Nil
  then show ?case by simp
next
  case (Cons vs ms)
  from Cons.prems(1) have le: "i + 1 + int (length vs) \<le> t" by (auto dest: dseg_le)
  have "dtuple st' i vs" by (rule dtuple_cong [of st]) (use Cons.prems le in auto)
  moreover have "dseg st' (i + 1 + int (length vs)) ms t"
    by (rule Cons.IH) (use Cons.prems in auto)
  ultimately show ?case by simp
qed

lemma dseg_snoc:
  "dseg st i (ms @ [vs]) t \<longleftrightarrow> (\<exists>k. dseg st i ms k \<and> dtuple st k vs \<and> k + 1 + int (length vs) = t)"
  by (induction ms arbitrary: i) auto

lemma dpool_store_items_spec:
  "dpool_store_items vs t st = (t', st') \<Longrightarrow> 0 \<le> t \<Longrightarrow> t + int (length vs) < 2147483648 \<Longrightarrow>
   t' = t + int (length vs) \<and> (\<forall>j < length vs. st' (t + 1 + int j) = SItem (vs ! j)) \<and>
   (\<forall>j \<le> t. st' j = st j)"
proof (induction vs arbitrary: t st)
  case Nil
  then show ?case by simp
next
  case (Cons v vs)
  have w: "wrap32 (t + 1) = t + 1" by (rule wrap32_id) (use Cons.prems in \<open>auto simp: in_int32_def\<close>)
  from Cons.IH [of "t + 1"] Cons.prems w
  have IH: "t' = t + 1 + int (length vs)" "\<forall>j < length vs. st' (t + 1 + 1 + int j) = SItem (vs ! j)"
    "\<forall>j \<le> t + 1. st' j = (st(t + 1 := SItem v)) j" by (auto simp: Let_def)
  have "st' (t + 1 + int j) = SItem ((v # vs) ! j)" if "j < length (v # vs)" for j
    using that IH(2,3) by (cases j) (auto simp: algebra_simps)
  with IH show ?case by auto
qed

lemma dpool_holds_count: "dpool_holds dp ms \<Longrightarrow> dp_n dp \<le> top dp \<and> top dp < 2147483648"
  using dseg_le [of "storage dp" "int (idx dp)" ms "int (top dp)"] by (auto simp: dpool_holds_def)

lemma dpool_keep_holds:
  assumes "dpool_holds dp ms" and "dpool_keep_ok vs dp"
  shows "dpool_holds (dpool_keep vs dp) (ms @ [vs])"
proof -
  let ?t = "int (top dp) + 1"
  let ?st = "(storage dp)(?t := SCount (length vs))"
  have n: "Suc (dp_n dp) < 4294967296" using dpool_holds_count [OF assms(1)] by simp
  from assms(2) have b: "?t + int (length vs) < 2147483648" by (simp add: dpool_keep_ok_def)
  then have w: "wrap32 ?t = ?t" "int_of_u32 (top dp) = int (top dp)" by (simp_all add: in_int32_def)
  obtain t st where s: "dpool_store_items (rev vs) ?t ?st = (t, st)" by force
  from dpool_store_items_spec [OF s] b
  have spec: "t = ?t + int (length vs)" "\<forall>j < length vs. st (?t + 1 + int j) = SItem (rev vs ! j)"
    "\<forall>j \<le> ?t. st j = ?st j" by auto
  have "dseg st (int (idx dp)) ms (int (top dp))"
    by (rule dseg_cong [of "storage dp"]) (use assms(1) spec in \<open>auto simp: dpool_holds_def\<close>)
  moreover have "dtuple st (int (top dp)) vs" using spec by (auto simp: dtuple_def algebra_simps)
  moreover have "int (top dp) + 1 + int (length vs) = t" using spec by simp
  ultimately have "dseg st (int (idx dp)) (ms @ [vs]) t" unfolding dseg_snoc by blast
  moreover have "t < 2147483648" "0 \<le> t" using spec b by auto
  ultimately show ?thesis using assms n
    by (auto simp: dpool_holds_def dpool_keep_def dpool_keep_ok_def Let_def s w)
qed

lemma dpool_fetch_items_spec:
  "dpool_fetch_items b (b + int k) st = (vs, st') \<Longrightarrow>
   length vs = k \<and> (\<forall>j < k. vs ! j = slot_item (st (b + int (k - j)))) \<and>
   (\<forall>j. j \<le> b \<or> b + int k < j \<longrightarrow> st' j = st j)"
proof (induction k arbitrary: st vs st')
  case 0
  then show ?case by (simp add: dpool_fetch_items.simps)
next
  case (Suc k)
  obtain ws st1 where f: "dpool_fetch_items b (b + int k) (st(b + int (Suc k) := SNil)) = (ws, st1)"
    by force
  from Suc.prems f have r: "vs = slot_item (st (b + int (Suc k))) # ws" "st' = st1"
    by (subst (asm) dpool_fetch_items.simps, simp)+
  from Suc.IH [OF f] show ?case unfolding r by (auto simp: nth_Cons split: nat.splits)
qed

lemma dpool_take_holds:
  assumes "dpool_holds dp (vs # ms)"
  shows "\<exists>dp'. dpool_take stk dp = Some (vs, dp') \<and> dpool_holds dp' ms \<and>
    nput dp' = nput dp \<and> writer dp' = writer dp \<and> top dp' \<le> top dp"
proof -
  let ?i = "int (idx dp) + 1"
  let ?st = "(storage dp)(?i := SNil)"
  from assms have t: "dtuple (storage dp) (int (idx dp)) vs"
    and rest: "dseg (storage dp) (?i + int (length vs)) ms (int (top dp))"
    and n: "dp_n dp = Suc (length ms)" "dp_n dp < 4294967296" and b: "top dp < 2147483648"
    using dpool_holds_count [OF assms] by (auto simp: dpool_holds_def)
  from rest dseg_le [OF rest] b have le: "?i + int (length vs) < 2147483648" by simp
  then have w: "int_of_u32 (u32_add (idx dp) 1) = ?i"
      "u32_of_int (?i + int (length vs)) = Suc (idx dp + length vs)"
      "int_of_u32 (Suc (idx dp + length vs)) = ?i + int (length vs)"
    by (simp_all add: nat_add_distrib)
  obtain ws st where f: "dpool_fetch_items ?i (?i + int (length vs)) ?st = (ws, st)" by force
  note spec = dpool_fetch_items_spec [OF f]
  have "ws ! j = vs ! j" if "j < length vs" for j
  proof -
    have "ws ! j = slot_item (?st (?i + int (length vs - j)))" using spec that by blast
    also have "?i + int (length vs - j) = int (idx dp) + 2 + int (length vs - Suc j)"
      using that by simp
    also have "?st (int (idx dp) + 2 + int (length vs - Suc j))
        = storage dp (int (idx dp) + 2 + int (length vs - Suc j))" by simp
    also have "slot_item \<dots> = rev vs ! (length vs - Suc j)"
      using t that unfolding dtuple_def by (metis diff_Suc_less length_pos_if_in_set nth_mem)
    finally show ?thesis using that by (simp add: rev_nth)
  qed
  with spec have ws: "ws = vs" by (simp add: nth_equalityI)
  have seg: "dseg st (?i + int (length vs)) ms (int (top dp))"
    by (rule dseg_cong [OF rest]) (use spec in auto)
  have e: "Suc (idx dp + length vs) = top dp \<longleftrightarrow> ms = []"
    using seg dseg_le [OF seg] by (cases ms) auto
  have "storage dp ?i = SCount (length vs)" using t by (simp add: dtuple_def)
  moreover have "dseg st (int (Suc (idx dp + length vs))) ms (int (top dp))"
    using seg by (simp add: algebra_simps)
  ultimately show ?thesis using n f b ws
    by (simp add: dpool_take_def dpool_holds_def Let_def w e del: One_nat_def of_nat_Suc) auto
qed

lemma dpool_take_empty: "dpool_holds dp [] \<Longrightarrow> dpool_take stk dp = None"
  by (simp add: dpool_holds_def dpool_take_def)

interpretation dpool_chan: fifo_channel dpool_holds "\<lambda>vs dp. Some (dpool_keep vs dp)" "dpool_take stk"
    dpool_keep_ok for stk
  by unfold_locales (use dpool_keep_holds dpool_take_holds dpool_take_empty in \<open>auto, fastforce?\<close>)

section \<open>Properties\<close>

lemma dpool_new_holds: "dpool_new ok = Some dp \<Longrightarrow> dpool_holds dp []"
  by (auto simp: dpool_new_def dpool_holds_def split: if_splits)

text \<open>
  Claim C17: the storage of a data pool is a first-in first-out queue of tuples. From a new
  pool, in every serialised run of stores and fetches in which the index of the last stored
  item stays below \<open>2 ^ 31\<close> (\<open>dpool_keep_ok\<close>; the indexes are C \<open>int\<close>s and
  are reset only when the pool is emptied), the tuples fetched followed by those still stored
  are the tuples kept, in order and with their items in order (nils included), and
  \<open>dpool_count\<close> is the number stored.
\<close>

theorem dpool_fifo:
  assumes "dpool_new ok = Some dp"
    and "chan_ok (\<lambda>vs dp. Some (dpool_keep vs dp)) (dpool_take stk) dpool_keep_ok ops dp"
    and "chan_run (\<lambda>vs dp. Some (dpool_keep vs dp)) (dpool_take stk) ops dp = (ins, outs, dp')"
  shows "\<exists>rest. ins = outs @ rest \<and> dpool_holds dp' rest \<and> dpool_count dp' = length rest"
  using dpool_chan.run_fifo [OF dpool_new_holds [OF assms(1)] assms(2,3)]
  by (auto simp: dpool_count_def dpool_holds_def)

theorem dpool_fifo_witness:
  "\<exists>dp dp'. dpool_new True = Some dp \<and>
     chan_run (\<lambda>vs dp. Some (dpool_keep vs dp)) (dpool_take [])
       [Put [LNil, LBool True], Put [LBool False], Get] dp
     = ([[LNil, LBool True], [LBool False]], [[LNil, LBool True]], dp')
     \<and> dpool_holds dp' [[LBool False]] \<and> dpool_count dp' = 1"
proof -
  let ?ops = "[Put [LNil, LBool True], Put [LBool False], Get]"
  obtain dp where new: "dpool_new True = Some dp" by (simp add: dpool_new_def)
  let ?dp1 = "dpool_keep [LNil, LBool True] dp"
  let ?dp2 = "dpool_keep [LBool False] ?dp1"
  have n: "top dp = 0" "top ?dp1 = 3" using new
    by (auto simp: dpool_new_def dpool_keep_def Let_def in_int32_def)
  have "dpool_holds ?dp2 (([] @ [[LNil, LBool True]]) @ [[LBool False]])"
    by (intro dpool_keep_holds dpool_new_holds [OF new]) (simp_all add: dpool_keep_ok_def n)
  from dpool_take_holds [OF this [simplified], of "[]"] obtain dp'
    where g: "dpool_take [] ?dp2 = Some ([LNil, LBool True], dp')" by auto
  have ok: "chan_ok (\<lambda>vs dp. Some (dpool_keep vs dp)) (dpool_take []) dpool_keep_ok ?ops dp"
    by (simp add: dpool_keep_ok_def n g)
  have run: "chan_run (\<lambda>vs dp. Some (dpool_keep vs dp)) (dpool_take []) ?ops dp
      = ([[LNil, LBool True], [LBool False]], [[LNil, LBool True]], dp')"
    by (simp add: g)
  from dpool_fifo [OF new ok run] new run show ?thesis by auto
qed

text \<open>The offer and the book-keeping of readers leave the stored tuples alone.\<close>

lemma dpool_holds_other [simp]:
  "dpool_holds (dp\<lparr>nwaits := a\<rparr>) ms = dpool_holds dp ms"
  "dpool_holds (dp\<lparr>nput := b\<rparr>) ms = dpool_holds dp ms"
  "dpool_holds (dp\<lparr>writer := c\<rparr>) ms = dpool_holds dp ms"
  "dpool_holds (dp\<lparr>tev := d\<rparr>) ms = dpool_holds dp ms"
  by (simp_all add: dpool_holds_def)

lemma dpool_keep_other [simp]: "nput (dpool_keep vs dp) = nput dp" "writer (dpool_keep vs dp) = writer dp"
  by (auto simp: dpool_keep_def Let_def split: prod.splits)

lemma dpool_keep_top: "dpool_keep_ok vs dp \<Longrightarrow> top (dpool_keep vs dp) = top dp + 1 + length vs"
  using dpool_store_items_spec [of "rev vs" "int (top dp) + 1"]
  by (fastforce simp: dpool_keep_def dpool_keep_ok_def Let_def in_int32_def split: prod.splits)

text \<open>The slots the stores of the other threads use.\<close>

fun store_room :: "dpool_step list \<Rightarrow> nat" where
  "store_room [] = 0"
| "store_room (Store ws # es) = 1 + length ws + store_room es"
| "store_room (_ # es) = store_room es"

text \<open>The pool while an offer is out, before and after a reader has taken it.\<close>

definition offer_open :: "lua_value list \<Rightarrow> bool \<Rightarrow> data_pool \<Rightarrow> bool" where
  "offer_open vs taken dp \<longleftrightarrow>
     (if taken then nput dp = 0 \<and> writer dp \<noteq> None
      else nput dp = int (length vs) \<and> writer dp = Some vs)"

lemma dpool_take_offer:
  assumes "dpool_holds dp ms" and "offer_open vs taken dp" and "dpool_take stk dp = Some (ws, dp')"
  shows "\<exists>ms'. ms = ws # ms' \<and> dpool_holds dp' ms' \<and> offer_open vs taken dp' \<and> top dp' \<le> top dp"
  using assms dpool_take_holds [of dp _ _ stk] dpool_take_empty [of dp stk]
  by (cases ms) (fastforce simp: offer_open_def)+

lemma dpool_others_spec:
  assumes "vs \<noteq> []" and "dpool_holds dp ms" and "offer_open vs taken dp"
    and "top dp + store_room es < 2147483648"
  shows "\<exists>hs ss fs d rest. dpool_others stk es dp = Some (hs, ss, fs, d) \<and>
    offer_open vs (taken \<or> Resume \<in> set es) d \<and> dpool_holds d rest \<and> ms @ ss = fs @ rest \<and>
    hs = (if \<not> taken \<and> Resume \<in> set es then [vs] else []) \<and> top d \<le> top dp + store_room es"
  using assms(2-)
proof (induction es arbitrary: dp ms taken)
  case Nil
  then show ?case by simp
next
  case (Cons e es)
  show ?case
  proof (cases e)
    case (Store ws)
    let ?d = "dpool_put_data (\<lambda>d. d) ws dp"
    have d: "?d = dpool_keep ws dp"
      using Cons.prems(2) by (auto simp: dpool_put_data_def offer_open_def split: if_splits)
    have ok: "dpool_keep_ok ws dp" using Cons.prems(3) Store by (simp add: dpool_keep_ok_def)
    then have "dpool_holds ?d (ms @ [ws])" "offer_open vs taken ?d" "top ?d = top dp + 1 + length ws"
      using Cons.prems dpool_keep_holds dpool_keep_top [OF ok] by (auto simp: d offer_open_def)
    with Cons.IH [OF this(1,2)] Store Cons.prems(3) show ?thesis by auto
  next
    case Fetch
    show ?thesis
    proof (cases "dpool_take stk dp")
      case None
      with Cons.IH [OF Cons.prems(1,2)] Cons.prems(3) Fetch show ?thesis by auto
    next
      case (Some r)
      then obtain ws d where t: "dpool_take stk dp = Some (ws, d)" by (cases r) auto
      from dpool_take_offer [OF Cons.prems(1,2) t] obtain ms' where m: "ms = ws # ms'"
        and h: "dpool_holds d ms'" "offer_open vs taken d" "top d \<le> top dp" by blast
      with Cons.IH [OF h(1,2)] Fetch t Cons.prems(3) show ?thesis by fastforce
    qed
  next
    case Resume
    let ?d = "dp\<lparr>nwaits := wrap32 (nwaits dp - 1)\<rparr>"
    show ?thesis
    proof (cases taken)
      case False
      let ?e = "?d\<lparr>writer := Some [], nput := 0\<rparr>"
      have mv: "dpool_moved ?d = Some (Some vs, ?e)"
        using False Cons.prems(2) assms(1) by (simp add: dpool_moved_def offer_open_def)
      have "dpool_holds ?e ms" "offer_open vs True ?e" "top ?e + store_room es < 2147483648"
        using Cons.prems Resume by (auto simp: offer_open_def)
      from Cons.IH [OF this] mv Resume False show ?thesis by auto
    next
      case True
      have mv: "dpool_moved ?d = Some (None, ?d)" and off: "offer_open vs taken ?d"
        using True Cons.prems(2) by (auto simp: dpool_moved_def offer_open_def)
      show ?thesis
      proof (cases "dpool_take stk ?d")
        case None
        let ?e = "?d\<lparr>nwaits := wrap32 (nwaits ?d + 1)\<rparr>"
        have "dpool_holds ?e ms" "offer_open vs taken ?e" "top ?e + store_room es < 2147483648"
          using Cons.prems Resume by (auto simp: offer_open_def)
        from Cons.IH [OF this] mv None Resume True show ?thesis by auto
      next
        case (Some r)
        then obtain ws d where t: "dpool_take stk ?d = Some (ws, d)" by (cases r) auto
        have "dpool_holds ?d ms" using Cons.prems(1) by simp
        from dpool_take_offer [OF this off t] obtain ms' where m: "ms = ws # ms'"
          and h: "dpool_holds d ms'" "offer_open vs taken d" "top d \<le> top dp" by auto
        with Cons.IH [OF h(1,2)] Resume t mv True Cons.prems(3) show ?thesis by fastforce
      qed
    qed
  qed
qed

text \<open>A blocked reader whose wait ends while an offer stands returns the tuple offered.\<close>

lemma dpool_get_offered:
  assumes "vs \<noteq> []" and "offer_open vs False d" and "dpool_take stk q = None"
    and "wait k (q\<lparr>nwaits := wrap32 (nwaits q + 1)\<rparr>) = (d, 0, 0)"
  shows "\<exists>d'. dpool_get_loop stk wait k q = Some (d', DpValues vs) \<and>
    dpool_others stk [Resume] d = Some ([vs], [], [], d')"
  using assms
  by (subst dpool_get_loop.simps)
     (simp add: offer_open_def dpool_moved_def Let_def sys_thread_check_def
       SYS_THREAD_TERMINATE_def SYS_THREAD_INTERRUPT_def)

text \<open>
  Claim C26: a tuple put while a reader is blocked is delivered exactly once, under every
  schedule. Below the maximum and with a blocked reader and no other offer out,
  \<open>dpool_put\<close> publishes the tuple and switches to the other threads, which take any
  sequence \<open>es\<close> of steps (blocked readers resuming, other writers, other readers),
  the indexes staying \<open>int\<close>s. If a reader resumes, the first one to do so is handed the
  tuple and no other one is, and the writer returns leaving the storage to what the others
  made of it; if none resumes, no tuple is handed over and the writer stores its own behind
  the others'. No stored tuple is lost, doubled or reordered. The reader's resumption is the
  one of \<open>dpool_get\<close>: a call blocked on the empty pool returns the tuple.
\<close>

theorem dpool_handover:
  assumes "vs \<noteq> []" and "dp_n dp < dp_max dp" and "nwaits dp \<noteq> 0" and "writer dp = None"
    and "dpool_holds dp ms" and "top dp + store_room es + 1 + length vs < 2147483648"
  shows "\<exists>d. (\<forall>q wait. dpool_holds q [] \<and> \<not> flag_on (dp_flags q) DPOOL_GETONEMPTY \<and>
        wait 0 (q\<lparr>nwaits := wrap32 (nwaits q + 1)\<rparr>) = (d, 0, 0) \<longrightarrow>
        (\<exists>d'. dpool_get on_empty stk wait True q = Some (d', DpValues vs) \<and>
           dpool_others stk [Resume] d = Some ([vs], [], [], d')))
    \<and> (\<exists>hs ss fs d' rest dp'.
        dpool_others stk es d = Some (hs, ss, fs, d') \<and> ms @ ss = fs @ rest \<and>
        (\<forall>switch. switch d = d' \<longrightarrow>
           dpool_put on_full wait switch True vs dp = Some (dp', DpValues [])) \<and>
        writer dp' = None \<and> nput dp' = 0 \<and>
        (if Resume \<in> set es then hs = [vs] \<and> dpool_holds dp' rest
         else hs = [] \<and> dpool_holds dp' (rest @ [vs])))"
proof -
  let ?d = "dp\<lparr>writer := Some vs, nput := int (length vs), tev := thread_event_signal (tev dp)\<rparr>"
  have off: "offer_open vs False ?d" by (simp add: offer_open_def)
  have "dpool_holds ?d ms" "top ?d + store_room es < 2147483648" using assms(5,6) by simp_all
  from dpool_others_spec [OF assms(1) this(1) off this(2), of stk] obtain hs ss fs d' rest
    where r: "dpool_others stk es ?d = Some (hs, ss, fs, d')" "ms @ ss = fs @ rest"
      and d': "offer_open vs (Resume \<in> set es) d'" "dpool_holds d' rest"
      and hs: "hs = (if Resume \<in> set es then [vs] else [])" and t: "top d' \<le> top dp + store_room es"
    by auto
  let ?d2 = "d'\<lparr>writer := None\<rparr>"
  let ?dp' = "if Resume \<in> set es then ?d2 else dpool_keep vs (?d2\<lparr>nput := 0\<rparr>)"
  have get: "\<exists>e. dpool_get on_empty stk wait True q = Some (e, DpValues vs) \<and>
      dpool_others stk [Resume] ?d = Some ([vs], [], [], e)"
    if "dpool_holds q []" "\<not> flag_on (dp_flags q) DPOOL_GETONEMPTY"
      "wait 0 (q\<lparr>nwaits := wrap32 (nwaits q + 1)\<rparr>) = (?d, 0, 0)" for q wait
    using dpool_get_offered [of vs ?d stk q wait 0] dpool_take_empty [OF that(1)] that assms(1) off
    by (simp add: dpool_get_def)
  have put: "dpool_put on_full wait switch True vs dp = Some (?dp', DpValues [])"
    if "switch ?d = d'" for switch
    using that assms d'(1) by (simp add: dpool_put_def dpool_put_data_def offer_open_def Let_def)
  have "dpool_keep_ok vs (?d2\<lparr>nput := 0\<rparr>)" using t assms(6) by (simp add: dpool_keep_ok_def)
  then have keep: "dpool_holds (dpool_keep vs (?d2\<lparr>nput := 0\<rparr>)) (rest @ [vs])"
    using d'(2) by (intro dpool_keep_holds) simp_all
  have w: "writer ?dp' = None" "nput ?dp' = 0" using d'(1) by (auto simp: offer_open_def)
  have fin: "if Resume \<in> set es then hs = [vs] \<and> dpool_holds ?dp' rest
      else hs = [] \<and> dpool_holds ?dp' (rest @ [vs])" using keep hs d'(2) by simp
  show ?thesis
    by (rule exI [of _ ?d], rule conjI, use get in blast, rule exI [of _ hs], rule exI [of _ ss],
        rule exI [of _ fs], rule exI [of _ d'], rule exI [of _ rest], rule exI [of _ ?dp'])
       (use r put w fin in blast)
qed

theorem dpool_handover_witness:
  "\<exists>dp d hs ss fs d'. dpool_new True = Some dp \<and>
     dpool_others [] [Store [LNil], Resume, Resume] d = Some (hs, ss, fs, d') \<and> hs = [[LBool True]]"
proof -
  obtain dp where dp: "dpool_new True = Some dp" by (simp add: dpool_new_def)
  let ?dp = "dp\<lparr>nwaits := 2\<rparr>"
  have "dpool_holds ?dp []" "dp_n ?dp < dp_max ?dp" "nwaits ?dp \<noteq> 0" "writer ?dp = None"
    "top ?dp + store_room [Store [LNil], Resume, Resume] + 1 + length [LBool True] < 2147483648"
    using dpool_new_holds [OF dp] dp by (auto simp: dpool_new_def)
  from dpool_handover [OF _ this(2,3,4,1,5), where stk = "[]"] dp show ?thesis by auto blast
qed

definition room_result :: "data_pool \<times> dpool_result option \<Rightarrow> bool" where
  "room_result r \<longleftrightarrow>
     (case snd r of None \<Rightarrow> dp_n (fst r) < dp_max (fst r) | Some e \<Rightarrow> e \<notin> range DpValues)"

lemma dpool_wait_room_result:
  assumes "dpool_wait_room wait k dp = Some r"
  shows "room_result r"
proof (rule dpool_wait_room.raw_induct [where P = "\<lambda>wait k dp r. room_result r", OF _ assms])
  fix f wait k dp r
  assume IH: "\<And>wait k dp r. f wait k dp = Some r \<Longrightarrow> room_result r"
    and eq: "(case wait k dp of (dp', res, fl) \<Rightarrow>
      case snd (sys_thread_check fl) of
        Continue \<Rightarrow> if res \<noteq> 0 then Some (dp', Some DpSysError)
          else if dp_n dp' \<ge> dp_max dp' then f wait (Suc k) dp' else Some (dp', None)
      | ThreadExit \<Rightarrow> Some (dp', Some DpThreadExit)
      | InterruptError \<Rightarrow> Some (dp', Some (DpFail Raised))) = Some r"
  then show "room_result r"
    by (cases "wait k dp"; cases r)
       (auto simp: room_result_def split: if_splits check_result.splits dest!: IH)
qed

text \<open>
  The watermark is a bound. Without a put-on-full callback, \<open>dpool_put\<close> only
  succeeds once the pool is below its maximum, after any number of waits, and then leaves at
  most that many tuples stored, provided the threads that run during the hand-over keep the
  pool below the maximum.
\<close>

lemma dpool_put_bound:
  assumes "\<not> flag_on (dp_flags dp) DPOOL_PUTONFULL"
    and "\<And>d. dp_n d < dp_max d \<Longrightarrow> dp_n (switch d) < dp_max (switch d)"
    and "dpool_put on_full wait switch True vs dp = Some (dp', DpValues [])"
  shows "dp_n dp' \<le> dp_max dp'"
proof -
  have keep: "dp_n d < dp_max d \<Longrightarrow> dp_n (dpool_keep vs d) \<le> dp_max (dpool_keep vs d)" for d
    by (auto simp: dpool_keep_def Let_def u32_add_def split: prod.splits)
  have data: "dp_n (dpool_put_data switch vs d) \<le> dp_max (dpool_put_data switch vs d)"
    if "dp_n d < dp_max d" for d
  proof -
    let ?d = "d\<lparr>writer := Some vs, nput := int (length vs), tev := thread_event_signal (tev d)\<rparr>"
    have "dp_n (switch ?d) < dp_max (switch ?d)" using that assms(2) [of ?d] by simp
    then have "dp_n (dpool_keep vs ((switch ?d)\<lparr>writer := None, nput := 0\<rparr>))
        \<le> dp_max (dpool_keep vs ((switch ?d)\<lparr>writer := None, nput := 0\<rparr>))" by (intro keep) simp
    with that keep [OF that] \<open>dp_n (switch ?d) < _\<close> show ?thesis
      by (simp add: dpool_put_data_def Let_def)
  qed
  show ?thesis
  proof (cases "dp_n dp \<ge> dp_max dp")
    case True
    with assms obtain d where "dpool_wait_room wait 0 dp = Some (d, None)"
      and "dp' = dpool_put_data switch vs d"
      by (auto simp: dpool_put_def room_result_def split: if_splits bind_splits option.splits
          dest!: dpool_wait_room_result)
    with data dpool_wait_room_result show ?thesis by (fastforce simp: room_result_def)
  next
    case False
    with assms data [of dp] show ?thesis by (auto simp: dpool_put_def split: if_splits)
  qed
qed

lemma dpool_put_bound_witness:
  "\<exists>dp dp'. dpool_put (\<lambda>_ _. Inl Raised) (\<lambda>_ d. (d, 0, 0)) (\<lambda>d. d) True [LNil] dp
     = Some (dp', DpValues []) \<and> dp_n dp' \<le> dp_max dp'"
proof -
  obtain dp where new: "dpool_new True = Some dp" by (simp add: dpool_new_def)
  obtain dp' where put: "dpool_put (\<lambda>_ _. Inl Raised) (\<lambda>_ d. (d, 0, 0)) (\<lambda>d. d) True [LNil] dp
      = Some (dp', DpValues [])"
    using new by (auto simp: dpool_new_def dpool_put_def)
  have "\<not> flag_on (dp_flags dp) DPOOL_PUTONFULL"
    using new by (auto simp: dpool_new_def flag_on_def set_flag_def DPOOL_OPEN_def
        DPOOL_PUTONFULL_def)
  from dpool_put_bound [OF this _ put] put show ?thesis by blast
qed

end
