(* ===== verification/Sched_List.thy ===== *)
theory Sched_List
  imports Lua_Api Channel
begin

text \<open>
  The tasks of the scheduler (src/src/thread/thread_sched.c) and the circular doubly linked
  lists they form in the buffer of tasks. A task is named by its index, an \<open>int\<close>; a list is
  the index of its first task, or -1 when it is empty. The macros are proved to implement a
  queue of indices, whatever the position of the task that is removed.
\<close>

record sched_task =
  t_co :: nat
  prev_id :: int
  next_id :: int
  t_ev_op :: ptr
  t_started :: bool
  t_suspended :: bool
  t_ev_added :: bool
  t_terminate :: bool

text \<open>The buffer of tasks by index; what lies behind its end is arbitrary.\<close>

type_synonym task_buffer = "int \<Rightarrow> sched_task"

definition task_upd :: "int \<Rightarrow> (sched_task \<Rightarrow> sched_task) \<Rightarrow> task_buffer \<Rightarrow> task_buffer" where
  "task_upd i f b = b(i := f (b i))"

section \<open>The list macros\<close>

text \<open>\<open>sched_tasklist_add\<close>: the assignments in the order of the macro; the result is the
  buffer and the new value of \<open>*list_idp\<close>.\<close>

definition sched_tasklist_add :: "int \<Rightarrow> int \<Rightarrow> task_buffer \<Rightarrow> task_buffer \<times> int" where
  "sched_tasklist_add task_id head b =
     (if head \<noteq> -1 then
        (let head_prev = prev_id (b head);
             b1 = task_upd head_prev (\<lambda>t. t\<lparr>next_id := task_id\<rparr>) b;
             b2 = task_upd task_id (\<lambda>t. t\<lparr>prev_id := prev_id (b1 head)\<rparr>) b1;
             b3 = task_upd head (\<lambda>t. t\<lparr>prev_id := task_id\<rparr>) b2;
             b4 = task_upd task_id (\<lambda>t. t\<lparr>next_id := head\<rparr>) b3
         in (b4, head))
      else (task_upd task_id (\<lambda>t. t\<lparr>prev_id := task_id, next_id := task_id\<rparr>) b, task_id))"

definition sched_tasklist_del :: "int \<Rightarrow> int \<Rightarrow> task_buffer \<Rightarrow> task_buffer \<times> int" where
  "sched_tasklist_del task_id head b =
     (if task_id \<noteq> next_id (b task_id) then
        (let task_prev = prev_id (b task_id);
             task_next = next_id (b task_id);
             b1 = task_upd task_next (\<lambda>t. t\<lparr>prev_id := prev_id (b task_id)\<rparr>) b;
             b2 = task_upd task_prev (\<lambda>t. t\<lparr>next_id := next_id (b1 task_id)\<rparr>) b1
         in (b2, if head = task_id then next_id (b2 task_id) else head))
      else (b, -1))"

section \<open>Circular lists\<close>

text \<open>Consecutive tasks of a list point to each other.\<close>

fun linked :: "task_buffer \<Rightarrow> int list \<Rightarrow> bool" where
  "linked b (x # y # zs) = (next_id (b x) = y \<and> prev_id (b y) = x \<and> linked b (y # zs))"
| "linked b _ = True"

definition ring :: "task_buffer \<Rightarrow> int list \<Rightarrow> bool" where
  "ring b xs \<longleftrightarrow> xs = [] \<or> linked b (xs @ [hd xs])"

definition list_head :: "int list \<Rightarrow> int" where
  "list_head xs = (if xs = [] then -1 else hd xs)"

text \<open>The list with this head holds the tasks \<open>xs\<close>, in this order.\<close>

definition task_list :: "task_buffer \<Rightarrow> int \<Rightarrow> int list \<Rightarrow> bool" where
  "task_list b head xs \<longleftrightarrow>
     ring b xs \<and> head = list_head xs \<and> distinct xs \<and> (\<forall>x\<in>set xs. 0 \<le> x)"

lemma list_head_simps [simp]: "list_head [] = -1" "list_head (x # xs) = x"
  by (simp_all add: list_head_def)

lemma list_head_append: "list_head (xs @ ys) = (if xs = [] then list_head ys else list_head xs)"
  by (simp add: list_head_def)

lemma butlast_not_last: "distinct xs \<Longrightarrow> y \<in> set (butlast xs) \<Longrightarrow> y \<noteq> last xs"
  by (induction xs) (auto split: if_splits)

lemma linked_append:
  "linked b (xs @ y # zs) \<longleftrightarrow> linked b (xs @ [y]) \<and> linked b (y # zs)"
proof (induction xs)
  case (Cons x xs)
  then show ?case by (cases xs) auto
qed (cases zs, simp_all)

lemma linked_snoc:
  "xs \<noteq> [] \<Longrightarrow> linked b (xs @ [y]) \<longleftrightarrow>
     linked b xs \<and> next_id (b (last xs)) = y \<and> prev_id (b y) = last xs"
  by (induction b xs rule: linked.induct) auto

lemma linked_cong:
  assumes "\<And>x. x \<in> set (butlast xs) \<Longrightarrow> next_id (b' x) = next_id (b x)"
    and "\<And>x. x \<in> set (tl xs) \<Longrightarrow> prev_id (b' x) = prev_id (b x)"
  shows "linked b' xs = linked b xs"
  using assms by (induction b xs rule: linked.induct) auto

lemma ring_Nil [simp]: "ring b []"
  by (simp add: ring_def)

lemma ring_single: "ring b [x] \<longleftrightarrow> next_id (b x) = x \<and> prev_id (b x) = x"
  by (simp add: ring_def)

lemma ring_Cons:
  "ring b (x # ys) \<longleftrightarrow> linked b (x # ys) \<and>
     next_id (b (last (x # ys))) = x \<and> prev_id (b x) = last (x # ys)"
  unfolding ring_def using linked_snoc [of "x # ys" b x] by simp

lemma ring_cong:
  assumes "\<And>x. x \<in> set xs \<Longrightarrow> next_id (b' x) = next_id (b x) \<and> prev_id (b' x) = prev_id (b x)"
  shows "ring b' xs = ring b xs"
proof (cases xs)
  case (Cons x ys)
  have "linked b' (xs @ [hd xs]) = linked b (xs @ [hd xs])"
    by (rule linked_cong) (use assms Cons in auto)
  then show ?thesis by (simp add: ring_def)
qed simp

text \<open>A circular list may be read from any of its tasks.\<close>

lemma ring_rotate1: "ring b (x # ys) \<longleftrightarrow> ring b (ys @ [x])"
proof (cases ys)
  case (Cons y zs)
  then have "ring b (ys @ [x]) \<longleftrightarrow> linked b ((y # zs) @ x # [y])" by (simp add: ring_def)
  also have "\<dots> \<longleftrightarrow> linked b (y # zs @ [x]) \<and> linked b [x, y]"
    by (subst linked_append) simp
  finally show ?thesis using Cons by (auto simp: ring_def)
qed simp

lemma ring_rotate: "ring b (xs @ ys) \<longleftrightarrow> ring b (ys @ xs)"
proof (induction xs arbitrary: ys)
  case (Cons x xs)
  have "ring b (x # xs @ ys) \<longleftrightarrow> ring b (xs @ ys @ [x])"
    using ring_rotate1 [of b x "xs @ ys"] by simp
  with Cons [of "ys @ [x]"] show ?case by simp
qed simp

section \<open>The macros on a list\<close>

text \<open>The macros change no other field of a task.\<close>

definition same_task :: "sched_task \<Rightarrow> sched_task \<Rightarrow> bool" where
  "same_task t t' \<longleftrightarrow> t_co t' = t_co t \<and> t_ev_op t' = t_ev_op t \<and> t_started t' = t_started t \<and>
     t_suspended t' = t_suspended t \<and> t_ev_added t' = t_ev_added t \<and> t_terminate t' = t_terminate t"

lemma same_taskD:
  assumes "same_task t t'"
  shows "t_co t' = t_co t" "t_ev_op t' = t_ev_op t" "t_started t' = t_started t"
    "t_suspended t' = t_suspended t" "t_ev_added t' = t_ev_added t" "t_terminate t' = t_terminate t"
  using assms by (simp_all add: same_task_def)

lemma sched_tasklist_add_same: "same_task (b y) (fst (sched_tasklist_add x h b) y)"
  by (simp add: sched_tasklist_add_def task_upd_def Let_def same_task_def)

lemma sched_tasklist_del_same: "same_task (b y) (fst (sched_tasklist_del x h b) y)"
  by (simp add: sched_tasklist_del_def task_upd_def Let_def same_task_def)

text \<open>Adding appends at the end, before the first task.\<close>

lemma task_list_add:
  assumes "task_list b h xs" and "x \<notin> set xs" and "0 \<le> x"
  shows "task_list (fst (sched_tasklist_add x h b)) (snd (sched_tasklist_add x h b)) (xs @ [x])"
proof (cases xs)
  case Nil
  with assms show ?thesis
    by (simp add: task_list_def sched_tasklist_add_def ring_single task_upd_def)
next
  case (Cons h' t)
  define l where "l = last xs"
  have h: "h = h'" "h \<noteq> -1" "distinct xs" "ring b xs" "\<forall>x\<in>set xs. 0 \<le> x"
    using assms(1) Cons by (auto simp: task_list_def)
  have l: "prev_id (b h) = l" "l \<in> set xs" "linked b xs"
    using h(4) ring_Cons [of b h' t] h(1) Cons by (auto simp: l_def)
  define b' where "b' = fst (sched_tasklist_add x h b)"
  have ne: "x \<noteq> h" "x \<noteq> l" using assms(2) Cons h(1) l(2) by auto
  have b': "next_id (b' y) = (if y = x then h else if y = l then x else next_id (b y))"
    "prev_id (b' y) = (if y = h then x else if y = x then l else prev_id (b y))" for y
    using h(2) l(1) ne by (auto simp: b'_def sched_tasklist_add_def Let_def task_upd_def)
  have "linked b' xs = linked b xs"
  proof (rule linked_cong)
    fix y assume "y \<in> set (butlast xs)"
    then have "y \<in> set xs" "y \<noteq> l"
      using butlast_not_last [OF h(3)] by (auto simp: l_def dest: in_set_butlastD)
    then show "next_id (b' y) = next_id (b y)" using b'(1) assms(2) by auto
  next
    fix y assume "y \<in> set (tl xs)"
    then have "y \<in> set xs" "y \<noteq> h" using h(1,3) Cons by auto
    then show "prev_id (b' y) = prev_id (b y)" using b'(2) assms(2) by auto
  qed
  then have "linked b' (xs @ [x])"
    using l(3) linked_snoc [of xs b' x] Cons b' ne by (auto simp: l_def)
  then have "ring b' (xs @ [x])"
    using ring_Cons [of b' h' "t @ [x]"] Cons h(1) b' ne by auto
  moreover have "snd (sched_tasklist_add x h b) = h"
    using h(2) by (simp add: sched_tasklist_add_def Let_def)
  ultimately show ?thesis
    using assms(2,3) h Cons by (auto simp: task_list_def b'_def)
qed

lemma sched_tasklist_add_other:
  assumes "task_list b h xs" and "y \<notin> set xs" and "y \<noteq> x"
  shows "fst (sched_tasklist_add x h b) y = b y"
proof (cases xs)
  case Nil
  with assms show ?thesis by (simp add: task_list_def sched_tasklist_add_def task_upd_def)
next
  case (Cons h' t)
  then have "prev_id (b h) \<in> set xs" "h \<in> set xs"
    using assms(1) ring_Cons [of b h' t] by (auto simp: task_list_def)
  with assms show ?thesis by (auto simp: sched_tasklist_add_def Let_def task_upd_def)
qed

text \<open>Removing a task closes the list around it.\<close>

lemma ring_del:
  fixes h :: int
  assumes "ring b (x # ys)" and "distinct (x # ys)" and "ys \<noteq> []"
  defines "b' \<equiv> fst (sched_tasklist_del x h b)"
  shows "ring b' ys" and "snd (sched_tasklist_del x h b) = (if h = x then hd ys else h)"
    and "next_id (b' x) = hd ys"
proof -
  obtain y zs where ys: "ys = y # zs" using assms(3) by (cases ys) auto
  define l where "l = last ys"
  have x: "next_id (b x) = y" "prev_id (b x) = l" "linked b ys" "x \<noteq> y" "x \<noteq> l" "l \<in> set ys"
    using assms(1,2) ring_Cons [of b x ys] ys by (auto simp: l_def)
  have b': "next_id (b' z) = (if z = l then y else next_id (b z))"
    "prev_id (b' z) = (if z = y then l else prev_id (b z))" for z
    using x(1,2,4,5) by (auto simp: b'_def sched_tasklist_del_def Let_def task_upd_def)
  have "linked b' ys = linked b ys"
  proof (rule linked_cong)
    fix z assume "z \<in> set (butlast ys)"
    then have "z \<noteq> l" using butlast_not_last [of ys z] assms(2) by (simp add: l_def)
    then show "next_id (b' z) = next_id (b z)" using b'(1) by simp
  next
    fix z assume "z \<in> set (tl ys)"
    then have "z \<noteq> y" using assms(2) ys by auto
    then show "prev_id (b' z) = prev_id (b z)" using b'(2) by simp
  qed
  then show "ring b' ys"
    using x(3) ring_Cons [of b' y zs] ys b' by (simp add: l_def)
  show "next_id (b' x) = hd ys" using b'(1) x ys by simp
  show "snd (sched_tasklist_del x h b) = (if h = x then hd ys else h)"
    using x(1,2,4,5) ys by (auto simp: sched_tasklist_del_def Let_def task_upd_def)
qed

lemma task_list_del:
  assumes "task_list b h (xs @ x # ys)"
  shows "task_list (fst (sched_tasklist_del x h b)) (snd (sched_tasklist_del x h b)) (xs @ ys)"
proof (cases "xs @ ys")
  case Nil
  with assms show ?thesis by (simp add: task_list_def sched_tasklist_del_def ring_single)
next
  case (Cons z zs)
  have r: "ring b (x # ys @ xs)" "distinct (x # ys @ xs)"
    using assms ring_rotate [of b xs "x # ys"] by (auto simp: task_list_def)
  have "ys @ xs \<noteq> []" using Cons by auto
  note d = ring_del [OF r this, of h]
  have "ring (fst (sched_tasklist_del x h b)) (xs @ ys)"
    using d(1) ring_rotate by blast
  moreover have "snd (sched_tasklist_del x h b) = list_head (xs @ ys)"
    using d(2) assms Cons
    by (cases xs; cases ys) (auto simp: task_list_def list_head_def)
  ultimately show ?thesis using assms by (auto simp: task_list_def)
qed

lemma sched_tasklist_del_other:
  assumes "task_list b h (xs @ x # ys)" and "y \<notin> set (xs @ x # ys)"
  shows "fst (sched_tasklist_del x h b) y = b y"
proof (cases "ys @ xs")
  case Nil
  with assms show ?thesis by (simp add: task_list_def sched_tasklist_del_def ring_single)
next
  case (Cons z zs)
  have "ring b (x # ys @ xs)"
    using assms(1) ring_rotate [of b xs "x # ys"] by (auto simp: task_list_def)
  then have "next_id (b x) = z" "prev_id (b x) = last (ys @ xs)"
    using ring_Cons [of b x "ys @ xs"] Cons by auto
  moreover have "z \<in> set (ys @ xs)" by (simp only: Cons list.set_intros)
  moreover have "last (ys @ xs) \<in> set (ys @ xs)" by (rule last_in_set) (simp only: Cons, simp)
  ultimately have "next_id (b x) \<in> set (ys @ xs)" "prev_id (b x) \<in> set (ys @ xs)" by simp_all
  with assms(2) have "y \<noteq> next_id (b x)" "y \<noteq> prev_id (b x)" by auto
  then show ?thesis by (auto simp: sched_tasklist_del_def Let_def task_upd_def)
qed

lemma task_list_cong:
  assumes "\<And>x. x \<in> set xs \<Longrightarrow> next_id (b' x) = next_id (b x) \<and> prev_id (b' x) = prev_id (b x)"
  shows "task_list b' h xs = task_list b h xs"
  using ring_cong [OF assms] by (simp add: task_list_def)

section \<open>A list as a queue\<close>

text \<open>Putting a task into a list, and taking the first one out of it (\<open>sched_loop\<close>,
  \<open>sched_task_alloc\<close>).\<close>

definition tasklist_put :: "int \<Rightarrow> task_buffer \<times> int \<Rightarrow> (task_buffer \<times> int) option" where
  "tasklist_put x q = Some (sched_tasklist_add x (snd q) (fst q))"

definition tasklist_take :: "task_buffer \<times> int \<Rightarrow> (int \<times> (task_buffer \<times> int)) option" where
  "tasklist_take q =
     (if snd q = -1 then None else Some (snd q, sched_tasklist_del (snd q) (snd q) (fst q)))"

interpretation task_queue: fifo_channel
  "\<lambda>q. task_list (fst q) (snd q)" tasklist_put tasklist_take
  "\<lambda>x q. 0 \<le> x \<and> (\<forall>xs. task_list (fst q) (snd q) xs \<longrightarrow> x \<notin> set xs)"
proof unfold_locales
  fix q q' :: "task_buffer \<times> int" and xs x
  assume "task_list (fst q) (snd q) xs"
    and "0 \<le> x \<and> (\<forall>xs. task_list (fst q) (snd q) xs \<longrightarrow> x \<notin> set xs)"
    and "tasklist_put x q = Some q'"
  then show "task_list (fst q') (snd q') (xs @ [x])"
    using task_list_add [of "fst q" "snd q" xs x] by (auto simp: tasklist_put_def)
next
  fix q :: "task_buffer \<times> int" and x xs
  assume q: "task_list (fst q) (snd q) (x # xs)"
  then have "snd q = x" "x \<noteq> -1" by (auto simp: task_list_def)
  then show "\<exists>q'. tasklist_take q = Some (x, q') \<and> task_list (fst q') (snd q') xs"
    using task_list_del [of "fst q" "snd q" "[]" x xs] q by (auto simp: tasklist_take_def)
next
  fix q :: "task_buffer \<times> int"
  assume "task_list (fst q) (snd q) []"
  then show "tasklist_take q = None" by (simp add: task_list_def tasklist_take_def)
qed

end
