(* ===== verification/Evq_Store.thy ===== *)
theory Evq_Store
  imports Thread_Sync
begin

text \<open>
  The data of the event queue (src/src/event/evq.h, timeout.h, epoll.h and the extra fields of
  src/src/sys_evq.c): events, timeout queues and event queues as records, and the store that
  holds them by address. A pointer is an optional address, and following NULL is
  \<open>None\<close> in the operations. An event cell is reused for a \<open>timeout_queue\<close> or an \<open>evq_sync_op\<close>; the
  fields of the views live in separate maps, because the code never reads a field of one view
  that was written through the other (\<open>ev_id\<close>, \<open>flags\<close> and \<open>evq\<close> lie behind the
  bytes of a \<open>timeout_queue\<close> and of an \<open>evq_sync_op\<close>, and are kept).
\<close>

section \<open>Structures\<close>

record event =
  next_ready :: ptr
  next_object :: ptr
  ev_prev :: ptr
  ev_next :: ptr
  ev_tq :: ptr
  timeout_at :: int
  ev_flags :: u32
  ev_id :: nat
  ev_fd :: int
  ev_evq :: ptr

definition EVENT_READ :: u32 where "EVENT_READ = 0x1"
definition EVENT_WRITE :: u32 where "EVENT_WRITE = 0x2"
definition EVENT_ONESHOT :: u32 where "EVENT_ONESHOT = 0x4"
definition EVENT_DELETE :: u32 where "EVENT_DELETE = 0x8"
definition EVENT_SOCKET :: u32 where "EVENT_SOCKET = 0x10"
definition EVENT_TIMER :: u32 where "EVENT_TIMER = 0x20"
definition EVENT_PID :: u32 where "EVENT_PID = 0x40"
definition EVENT_SIGNAL :: u32 where "EVENT_SIGNAL = 0x80"
definition EVENT_WINMSG :: u32 where "EVENT_WINMSG = 0x100"
definition EVENT_DIRWATCH :: u32 where "EVENT_DIRWATCH = 0x200"
definition EVENT_REGWATCH :: u32 where "EVENT_REGWATCH = 0x400"
definition EVENT_TIMEOUT_MANUAL :: u32 where "EVENT_TIMEOUT_MANUAL = 0x800"
definition EVENT_SOCKET_ACC_CONN :: u32 where "EVENT_SOCKET_ACC_CONN = 0x2000"
definition EVENT_CALLBACK :: u32 where "EVENT_CALLBACK = 0x10000"
definition EVENT_CALLBACK_CORO :: u32 where "EVENT_CALLBACK_CORO = 0x20000"
definition EVENT_CALLBACK_SCHED :: u32 where "EVENT_CALLBACK_SCHED = 0x40000"
definition EVENT_ACTIVE :: u32 where "EVENT_ACTIVE = 0x80000"
definition EVENT_READ_RES :: u32 where "EVENT_READ_RES = 0x100000"
definition EVENT_WRITE_RES :: u32 where "EVENT_WRITE_RES = 0x200000"
definition EVENT_TIMEOUT_RES :: u32 where "EVENT_TIMEOUT_RES = 0x400000"
definition EVENT_EOF_RES :: u32 where "EVENT_EOF_RES = 0x800000"
definition EVENT_MASK_RES :: u32 where "EVENT_MASK_RES = 0xF80000"
definition EVENT_WATCH_MODIFY :: u32 where "EVENT_WATCH_MODIFY = 0x1000000"
definition EVENT_STATUS_MASK :: u32 where "EVENT_STATUS_MASK = 0xFF000000"
definition EVENT_STATUS_SHIFT :: nat where "EVENT_STATUS_SHIFT = 24"

lemmas event_flag_defs = EVENT_READ_def EVENT_WRITE_def EVENT_ONESHOT_def EVENT_DELETE_def
  EVENT_SOCKET_def EVENT_TIMER_def EVENT_PID_def EVENT_SIGNAL_def EVENT_WINMSG_def
  EVENT_DIRWATCH_def EVENT_REGWATCH_def EVENT_TIMEOUT_MANUAL_def EVENT_SOCKET_ACC_CONN_def
  EVENT_CALLBACK_def EVENT_CALLBACK_CORO_def EVENT_CALLBACK_SCHED_def EVENT_ACTIVE_def
  EVENT_READ_RES_def EVENT_WRITE_RES_def EVENT_TIMEOUT_RES_def EVENT_EOF_RES_def
  EVENT_MASK_RES_def EVENT_WATCH_MODIFY_def EVENT_STATUS_MASK_def

record timeout_queue =
  tq_prev :: ptr
  tq_next :: ptr
  ev_head :: ptr
  ev_tail :: ptr
  msec :: int

definition MIN_TIMEOUT :: int where "MIN_TIMEOUT = 10"
definition MAX_TIMEOUT :: int where "MAX_TIMEOUT = 2147483647"

definition EVQ_FLAG_STOP :: u32 where "EVQ_FLAG_STOP = 0x01"
definition EVQ_FLAG_WAITING :: u32 where "EVQ_FLAG_WAITING = 0x02"

text \<open>
  A \<open>struct event_queue\<close> of the epoll build. \<open>tq_map_fn\<close> says whether the lookup
  function is installed, \<open>tq_map\<close> is the Lua table it keeps from a period to its
  timeout queue; \<open>evq_env\<close>, \<open>evq_callback\<close> and \<open>evq_udata\<close> are the tables
  of event buffers, callbacks and objects of the queue's coroutine; \<open>sig_pending\<close> says
  that the interruption descriptor is readable.
\<close>

record event_queue =
  evq_flags :: u32
  nevents :: nat
  buf_nevents :: nat
  buf_index :: nat
  evq_now :: int
  ev_ready :: ptr
  ev_free :: ptr
  tq_map_fn :: bool
  tq_map :: "int \<Rightarrow> ptr"
  evq_tq :: ptr
  epoll_fd :: int
  sig_fd :: int
  sig_ready :: u32
  sig_pending :: bool
  evq_env :: "nat \<Rightarrow> ptr"
  evq_callback :: "nat \<Rightarrow> lua_value"
  evq_udata :: "nat \<Rightarrow> lua_value"
  nidles :: nat
  nactives :: nat
  wait_tev :: thread_event
  sync_op :: ptr
  evq_alive :: bool

text \<open>
  A \<open>struct evq_sync_op\<close>: a call that another thread wants to run in the loop. \<open>op_L\<close>
  is the coroutine with the function and its arguments, \<open>op_status\<close> the one-bit result.
\<close>

record evq_sync_op =
  op_next :: ptr
  op_L :: ptr
  fn_idx :: int
  op_status :: int
  is_sched_add :: bool
  op_td :: nat

text \<open>How a signal is handled by the process.\<close>

datatype sig_action = SigDefault | SigIgnore | SigHandler

text \<open>
  The store. \<open>sig_events\<close> are the heads \<open>g_Signal.events\<close>, \<open>sig_set\<close> is the
  disposition of each signal, \<open>ep_set\<close> is the interest list of the epoll instance of each
  queue (event mask and data pointer of a registered descriptor) and \<open>fd_closed\<close> lists
  the descriptors that were closed.
\<close>

record evq_store =
  events :: "nat \<Rightarrow> event"
  tqs :: "nat \<Rightarrow> timeout_queue"
  ops :: "nat \<Rightarrow> evq_sync_op"
  evqs :: "nat \<Rightarrow> event_queue"
  sig_events :: "nat \<Rightarrow> ptr"
  sig_set :: "int \<Rightarrow> sig_action"
  ep_set :: "nat \<Rightarrow> int \<Rightarrow> (u32 \<times> ptr) option"
  fd_closed :: "int list"

section \<open>Updates\<close>

definition op_upd :: "nat \<Rightarrow> (evq_sync_op \<Rightarrow> evq_sync_op) \<Rightarrow> evq_store \<Rightarrow> evq_store" where
  "op_upd a f w = w\<lparr>ops := (ops w)(a := f (ops w a))\<rparr>"

lemma op_upd_simps [simp]:
  "events (op_upd a f w) = events w" "tqs (op_upd a f w) = tqs w" "evqs (op_upd a f w) = evqs w"
  "sig_events (op_upd a f w) = sig_events w" "sig_set (op_upd a f w) = sig_set w"
  "ops (op_upd a f w) = (ops w)(a := f (ops w a))"
  by (simp_all add: op_upd_def)

definition ev_upd :: "nat \<Rightarrow> (event \<Rightarrow> event) \<Rightarrow> evq_store \<Rightarrow> evq_store" where
  "ev_upd e f w = w\<lparr>events := (events w)(e := f (events w e))\<rparr>"

definition tq_upd :: "nat \<Rightarrow> (timeout_queue \<Rightarrow> timeout_queue) \<Rightarrow> evq_store \<Rightarrow> evq_store" where
  "tq_upd t f w = w\<lparr>tqs := (tqs w)(t := f (tqs w t))\<rparr>"

definition evq_upd :: "nat \<Rightarrow> (event_queue \<Rightarrow> event_queue) \<Rightarrow> evq_store \<Rightarrow> evq_store" where
  "evq_upd q f w = w\<lparr>evqs := (evqs w)(q := f (evqs w q))\<rparr>"

lemma upd_simps [simp]:
  "events (ev_upd e f w) = (events w)(e := f (events w e))"
  "events (tq_upd t g w) = events w" "events (evq_upd q h w) = events w"
  "tqs (ev_upd e f w) = tqs w" "tqs (tq_upd t g w) = (tqs w)(t := g (tqs w t))"
  "tqs (evq_upd q h w) = tqs w" "evqs (ev_upd e f w) = evqs w" "evqs (tq_upd t g w) = evqs w"
  "evqs (evq_upd q h w) = (evqs w)(q := h (evqs w q))"
  "sig_events (ev_upd e f w) = sig_events w" "sig_events (tq_upd t g w) = sig_events w"
  "sig_events (evq_upd q h w) = sig_events w"
  "sig_set (ev_upd e f w) = sig_set w" "sig_set (tq_upd t g w) = sig_set w"
  "sig_set (evq_upd q h w) = sig_set w"
  "ops (ev_upd e f w) = ops w" "ops (tq_upd t g w) = ops w" "ops (evq_upd q h w) = ops w"
  by (simp_all add: ev_upd_def tq_upd_def evq_upd_def)

text \<open>\<open>event_deleted\<close>.\<close>

definition event_deleted :: "evq_store \<Rightarrow> nat \<Rightarrow> bool" where
  "event_deleted w e \<longleftrightarrow> ev_evq (events w e) = None"

text \<open>Zeroed memory: what \<open>memset\<close> leaves.\<close>

definition event0 :: event where
  "event0 = \<lparr>next_ready = None, next_object = None, ev_prev = None, ev_next = None, ev_tq = None,
     timeout_at = 0, ev_flags = 0, ev_id = 0, ev_fd = 0, ev_evq = None\<rparr>"

definition timeout_queue0 :: timeout_queue where
  "timeout_queue0 = \<lparr>tq_prev = None, tq_next = None, ev_head = None, ev_tail = None, msec = 0\<rparr>"

definition event_queue0 :: event_queue where
  "event_queue0 = \<lparr>evq_flags = 0, nevents = 0, buf_nevents = 0, buf_index = 0, evq_now = 0,
     ev_ready = None, ev_free = None, tq_map_fn = False, tq_map = (\<lambda>_. None), evq_tq = None,
     epoll_fd = 0, sig_fd = 0, sig_ready = 0, sig_pending = False, evq_env = (\<lambda>_. None), evq_callback = (\<lambda>_. LNil),
     evq_udata = (\<lambda>_. LNil), nidles = 0, nactives = 0, wait_tev = thread_event_new,
     sync_op = None, evq_alive = False\<rparr>"

definition evq_sync_op0 :: evq_sync_op where
  "evq_sync_op0 = \<lparr>op_next = None, op_L = None, fn_idx = 0, op_status = 0, is_sched_add = False, op_td = 0\<rparr>"

definition evq_store0 :: evq_store where
  "evq_store0 = \<lparr>events = (\<lambda>_. event0), tqs = (\<lambda>_. timeout_queue0),
     ops = (\<lambda>_. evq_sync_op0), evqs = (\<lambda>_. event_queue0),
     sig_events = (\<lambda>_. None), sig_set = (\<lambda>_. SigDefault), ep_set = (\<lambda>_ _. None), fd_closed = []\<rparr>"

lemmas zero_defs = evq_sync_op0_def event0_def timeout_queue0_def event_queue0_def evq_store0_def

end
