(* ===== verification/Timeout.thy ===== *)
theory Timeout
  imports Evq_Store
begin

text \<open>
  Timeouts, src/src/event/timeout.c: a queue of events per period, each queue a doubly linked
  list in the order of the deadlines, the queues of an event queue doubly linked too. The
  operations follow the code pointer by pointer; \<open>evq_timers\<close> says which lists of events
  a store represents, and the lemmas show what each operation does to these lists.
\<close>

section \<open>Operations\<close>

text \<open>\<open>levq_timeout_map\<close> (src/src/sys_evq.c): the table from a period to its queue.\<close>

definition levq_timeout_map :: "nat \<Rightarrow> ptr \<Rightarrow> int \<Rightarrow> bool \<Rightarrow> evq_store \<Rightarrow> evq_store \<times> ptr" where
  "levq_timeout_map q t ms is_remove w =
     (case t of
        Some _ \<Rightarrow>
          (evq_upd q (\<lambda>r. r\<lparr>tq_map := (tq_map r)(ms := if is_remove then None else t)\<rparr>) w, t)
      | None \<Rightarrow> (w, tq_map (evqs w q) ms))"

definition timeout_reset :: "nat \<Rightarrow> int \<Rightarrow> evq_store \<Rightarrow> evq_store option" where
  "timeout_reset ev now w =
     do {
       t \<leftarrow> ev_tq (events w ev);
       let w1 = ev_upd ev (\<lambda>e. e\<lparr>timeout_at := wrap32 (now + msec (tqs w t))\<rparr>) w;
       (case ev_next (events w1 ev) of
          None \<Rightarrow> Some w1
        | Some nx \<Rightarrow> do {
            let pv = ev_prev (events w1 ev);
            let w2 = (case pv of
                        Some p \<Rightarrow> ev_upd p (\<lambda>e. e\<lparr>ev_next := Some nx\<rparr>) w1
                      | None \<Rightarrow> tq_upd t (\<lambda>r. r\<lparr>ev_head := Some nx\<rparr>) w1);
            let w3 = ev_upd nx (\<lambda>e. e\<lparr>ev_prev := pv\<rparr>) w2;
            let w4 = ev_upd ev (\<lambda>e. e\<lparr>ev_next := None, ev_prev := ev_tail (tqs w3 t)\<rparr>) w3;
            tl \<leftarrow> ev_tail (tqs w4 t);
            let w5 = ev_upd tl (\<lambda>e. e\<lparr>ev_next := Some ev\<rparr>) w4;
            Some (tq_upd t (\<lambda>r. r\<lparr>ev_tail := Some ev\<rparr>) w5)
          })
     }"

text \<open>The part of \<open>timeout_del\<close> that removes a timeout queue with its last event.\<close>

definition timeout_del_queue :: "nat \<Rightarrow> nat \<Rightarrow> evq_store \<Rightarrow> evq_store" where
  "timeout_del_queue q t w =
     (let pv = tq_prev (tqs w t);
          nx = tq_next (tqs w t);
          w1 = (case pv of
                  Some p \<Rightarrow> tq_upd p (\<lambda>r. r\<lparr>tq_next := nx\<rparr>) w
                | None \<Rightarrow> evq_upd q (\<lambda>r. r\<lparr>evq_tq := nx\<rparr>) w);
          w2 = (case nx of
                  Some n \<Rightarrow> tq_upd n (\<lambda>r. r\<lparr>tq_prev := pv\<rparr>) w1
                | None \<Rightarrow> w1);
          w3 = ev_upd t (\<lambda>e. e\<lparr>next_ready := ev_free (evqs w2 q)\<rparr>) w2;
          w4 = evq_upd q (\<lambda>r. r\<lparr>ev_free := Some t\<rparr>) w3
      in if tq_map_fn (evqs w4 q) then fst (levq_timeout_map q (Some t) (msec (tqs w4 t)) True w4)
         else w4)"

definition timeout_del :: "nat \<Rightarrow> evq_store \<Rightarrow> evq_store option" where
  "timeout_del ev w =
     (case ev_tq (events w ev) of
        None \<Rightarrow> Some w
      | Some t \<Rightarrow>
          (let w1 = ev_upd ev (\<lambda>e. e\<lparr>ev_tq := None\<rparr>) w;
               pv = ev_prev (events w1 ev);
               nx = ev_next (events w1 ev)
           in if pv = None \<and> nx = None then do {
                q \<leftarrow> ev_evq (events w1 ev);
                Some (timeout_del_queue q t w1)
              }
              else
                (let w2 = (case pv of
                             Some p \<Rightarrow> ev_upd p (\<lambda>e. e\<lparr>ev_next := nx\<rparr>) w1
                           | None \<Rightarrow> tq_upd t (\<lambda>r. r\<lparr>ev_head := nx\<rparr>) w1)
                 in Some (case nx of
                            Some n \<Rightarrow> ev_upd n (\<lambda>e. e\<lparr>ev_prev := pv\<rparr>) w2
                          | None \<Rightarrow> tq_upd t (\<lambda>r. r\<lparr>ev_tail := pv\<rparr>) w2))))"

text \<open>The search in the sorted list, when no lookup function is installed.\<close>

partial_function (option) timeout_search ::
  "evq_store \<Rightarrow> int \<Rightarrow> ptr \<Rightarrow> ptr \<Rightarrow> (ptr \<times> ptr) option" where
  "timeout_search w ms pv t =
     (case t of
        None \<Rightarrow> Some (pv, None)
      | Some a \<Rightarrow>
          if msec (tqs w a) < ms then timeout_search w ms t (tq_next (tqs w a))
          else Some (pv, t))"

text \<open>The search in the map, or else in the sorted list.\<close>

definition timeout_lookup :: "nat \<Rightarrow> int \<Rightarrow> evq_store \<Rightarrow> (ptr \<times> ptr) option" where
  "timeout_lookup q ms w =
     (if tq_map_fn (evqs w q) then
        (let p = snd (levq_timeout_map q None ms False w)
         in Some (p, if p \<noteq> None then p else evq_tq (evqs w q)))
      else timeout_search w ms None (evq_tq (evqs w q)))"

text \<open>A new timeout queue made of a free cell, between \<open>pv\<close> and \<open>t\<close>.\<close>

definition timeout_new_queue ::
  "nat \<Rightarrow> nat \<Rightarrow> nat \<Rightarrow> int \<Rightarrow> ptr \<Rightarrow> ptr \<Rightarrow> evq_store \<Rightarrow> evq_store" where
  "timeout_new_queue q ev a ms pv t w =
     (let w1 = evq_upd q (\<lambda>r. r\<lparr>ev_free := next_ready (events w a)\<rparr>) w;
          w2 = tq_upd a (\<lambda>r. r\<lparr>tq_next := t\<rparr>) w1;
          w3 = (case t of
                  Some n \<Rightarrow> tq_upd n (\<lambda>r. r\<lparr>tq_prev := Some a\<rparr>) w2
                | None \<Rightarrow> w2);
          w4 = tq_upd a (\<lambda>r. r\<lparr>tq_prev := pv\<rparr>) w3;
          w5 = (case pv of
                  Some p \<Rightarrow> tq_upd p (\<lambda>r. r\<lparr>tq_next := Some a\<rparr>) w4
                | None \<Rightarrow> evq_upd q (\<lambda>r. r\<lparr>evq_tq := Some a\<rparr>) w4);
          w6 = tq_upd a (\<lambda>r. r\<lparr>msec := ms, ev_head := Some ev\<rparr>) w5;
          w7 = ev_upd ev (\<lambda>e. e\<lparr>ev_prev := None\<rparr>) w6
      in if tq_map_fn (evqs w7 q) then fst (levq_timeout_map q (Some a) ms False w7) else w7)"

text \<open>\<open>timeout_add\<close>; the integer is its result.\<close>

definition timeout_add :: "nat \<Rightarrow> int \<Rightarrow> int \<Rightarrow> evq_store \<Rightarrow> (evq_store \<times> int) option" where
  "timeout_add ev ms now w =
     do {
       q \<leftarrow> ev_evq (events w ev);
       (pv, t) \<leftarrow> timeout_lookup q ms w;
       (case (if t = None \<or> msec (tqs w (the t)) \<noteq> ms then
                (case ev_free (evqs w q) of
                   None \<Rightarrow> None
                 | Some a \<Rightarrow> Some (a, timeout_new_queue q ev a ms pv t w))
              else
                (let tl = ev_tail (tqs w (the t));
                     w1 = ev_upd ev (\<lambda>e. e\<lparr>ev_prev := tl\<rparr>) w
                 in Some (the t,
                      case tl of
                        Some l \<Rightarrow> ev_upd l (\<lambda>e. e\<lparr>ev_next := Some ev\<rparr>) w1
                      | None \<Rightarrow> tq_upd (the t) (\<lambda>r. r\<lparr>ev_head := Some ev\<rparr>) w1))) of
          None \<Rightarrow> Some (w, -1)
        | Some (a, w1) \<Rightarrow>
            (let w2 = tq_upd a (\<lambda>r. r\<lparr>ev_tail := Some ev\<rparr>) w1
             in Some (ev_upd ev (\<lambda>e. e\<lparr>ev_next := None, ev_tq := Some a,
                        timeout_at := wrap32 (now + ms)\<rparr>) w2, 0)))
     }"

text \<open>\<open>timeout_get\<close>: the loop over the queues, then the clipped difference.\<close>

partial_function (option) timeout_get_loop :: "evq_store \<Rightarrow> ptr \<Rightarrow> int \<Rightarrow> int option" where
  "timeout_get_loop w t mn =
     do {
       a \<leftarrow> t;
       h \<leftarrow> ev_head (tqs w a);
       let d = timeout_at (events w h);
       let mn1 = (if d < mn then d else mn);
       (if tq_next (tqs w a) = None then Some mn1 else timeout_get_loop w (tq_next (tqs w a)) mn1)
     }"

definition timeout_get :: "evq_store \<Rightarrow> ptr \<Rightarrow> int \<Rightarrow> int \<Rightarrow> int option" where
  "timeout_get w t mn now =
     (case t of
        None \<Rightarrow> Some mn
      | Some a \<Rightarrow> do {
          mn0 \<leftarrow> (if mn = TIMEOUT_INFINITE
                   then do { h \<leftarrow> ev_head (tqs w a); Some (timeout_at (events w h)) }
                   else Some (wrap32 (mn + now)));
          mn1 \<leftarrow> timeout_get_loop w t mn0;
          let d = mn1 - now;
          Some (if d < 0 then 0 else if d > MAX_TIMEOUT then MAX_TIMEOUT else d)
        })"

text \<open>The inner loop of \<open>timeout_process\<close>: the expired events of one queue.\<close>

partial_function (option) timeout_expire ::
  "int \<Rightarrow> int \<Rightarrow> nat \<Rightarrow> ptr \<Rightarrow> evq_store \<Rightarrow> (evq_store \<times> ptr \<times> ptr) option" where
  "timeout_expire timeout at ev rdy w =
     (let w1 = ev_upd ev (\<lambda>e. e\<lparr>ev_flags := ev_flags e OR (EVENT_ACTIVE OR EVENT_TIMEOUT_RES),
                 timeout_at := at, next_ready := rdy\<rparr>) w
      in case ev_next (events w1 ev) of
           None \<Rightarrow> Some (w1, Some ev, None)
         | Some n \<Rightarrow>
             if timeout_at (events w1 n) < timeout then timeout_expire timeout at n (Some ev) w1
             else Some (w1, Some ev, Some n))"

text \<open>The requeueing of the expired events behind the others.\<close>

definition timeout_recycle :: "nat \<Rightarrow> nat \<Rightarrow> nat \<Rightarrow> ptr \<Rightarrow> evq_store \<Rightarrow> evq_store option" where
  "timeout_recycle t h ev rdy w =
     do {
       let w1 = tq_upd t (\<lambda>r. r\<lparr>ev_head := Some ev\<rparr>) w;
       let w2 = ev_upd ev (\<lambda>e. e\<lparr>ev_prev := None\<rparr>) w1;
       tl \<leftarrow> ev_tail (tqs w2 t);
       let w3 = ev_upd tl (\<lambda>e. e\<lparr>ev_next := Some h\<rparr>) w2;
       let w4 = ev_upd h (\<lambda>e. e\<lparr>ev_prev := ev_tail (tqs w3 t)\<rparr>) w3;
       let w5 = tq_upd t (\<lambda>r. r\<lparr>ev_tail := rdy\<rparr>) w4;
       l \<leftarrow> rdy;
       Some (ev_upd l (\<lambda>e. e\<lparr>ev_next := None\<rparr>) w5)
     }"

text \<open>The body of the loop of \<open>timeout_process\<close>, for one timeout queue.\<close>

definition timeout_process_queue :: "nat \<Rightarrow> ptr \<Rightarrow> int \<Rightarrow> evq_store \<Rightarrow> (evq_store \<times> ptr) option" where
  "timeout_process_queue a rdy now w =
     (case ev_head (tqs w a) of
        None \<Rightarrow> Some (w, rdy)
      | Some h \<Rightarrow>
          if timeout_at (events w h) < now + MIN_TIMEOUT then do {
            (w1, rdy1, ev) \<leftarrow>
              timeout_expire (now + MIN_TIMEOUT) (wrap32 (now + msec (tqs w a))) h rdy w;
            (case ev of
               None \<Rightarrow> Some (w1, rdy1)
             | Some e \<Rightarrow> do { w2 \<leftarrow> timeout_recycle a h e rdy1 w1; Some (w2, rdy1) })
          }
          else Some (w, rdy))"

partial_function (option) timeout_process ::
  "ptr \<Rightarrow> ptr \<Rightarrow> int \<Rightarrow> evq_store \<Rightarrow> (evq_store \<times> ptr) option" where
  "timeout_process t rdy now w =
     (case t of
        None \<Rightarrow> Some (w, rdy)
      | Some a \<Rightarrow> do {
          (w1, rdy1) \<leftarrow> timeout_process_queue a rdy now w;
          timeout_process (tq_next (tqs w1 a)) rdy1 now w1
        })"

section \<open>The lists a store represents\<close>

text \<open>A timeout queue: its cell, its period and its events from the head to the tail.\<close>

type_synonym tqv = "nat \<times> int \<times> nat list"

abbreviation tqv_events :: "tqv list \<Rightarrow> nat list" where
  "tqv_events qs \<equiv> concat (map (\<lambda>x. snd (snd x)) qs)"

definition tq_holds :: "evq_store \<Rightarrow> nat \<Rightarrow> tqv \<Rightarrow> bool" where
  "tq_holds w q x \<longleftrightarrow>
     (case x of (t, m, es) \<Rightarrow>
        es \<noteq> [] \<and> msec (tqs w t) = m \<and> ev_head (tqs w t) = Some (hd es) \<and>
        ev_tail (tqs w t) = Some (last es) \<and>
        chain (\<lambda>e. ev_next (events w e)) (\<lambda>e. ev_prev (events w e)) None es None \<and>
        (\<forall>e \<in> set es. ev_tq (events w e) = Some t \<and> ev_evq (events w e) = Some q))"

definition evq_timers :: "evq_store \<Rightarrow> nat \<Rightarrow> tqv list \<Rightarrow> nat list \<Rightarrow> bool" where
  "evq_timers w q qs fs \<longleftrightarrow>
     chain (\<lambda>t. tq_next (tqs w t)) (\<lambda>t. tq_prev (tqs w t)) None (map fst qs) None \<and>
     evq_tq (evqs w q) = hdp (map fst qs) None \<and>
     distinct (map fst qs @ fs) \<and> distinct (map (\<lambda>x. fst (snd x)) qs) \<and>
     distinct (tqv_events qs) \<and>
     (\<forall>x \<in> set qs. tq_holds w q x) \<and>
     (\<forall>a \<in> set (map fst qs @ fs). ev_evq (events w a) \<noteq> Some q) \<and>
     ev_free (evqs w q) = hdp fs None \<and> slist (\<lambda>e. next_ready (events w e)) fs None \<and>
     (tq_map_fn (evqs w q) \<longrightarrow> tq_map (evqs w q) = map_of (map (\<lambda>x. (fst (snd x), fst x)) qs)) \<and>
     (\<not> tq_map_fn (evqs w q) \<longrightarrow> sorted (map (\<lambda>x. fst (snd x)) qs))"

lemma evq_timersD:
  assumes "evq_timers w q qs fs"
  shows "chain (\<lambda>t. tq_next (tqs w t)) (\<lambda>t. tq_prev (tqs w t)) None (map fst qs) None"
    and "evq_tq (evqs w q) = hdp (map fst qs) None"
    and "distinct (map fst qs @ fs)" and "distinct (map (\<lambda>x. fst (snd x)) qs)"
    and "distinct (tqv_events qs)" and "\<And>x. x \<in> set qs \<Longrightarrow> tq_holds w q x"
    and "\<And>a. a \<in> set (map fst qs @ fs) \<Longrightarrow> ev_evq (events w a) \<noteq> Some q"
    and "ev_free (evqs w q) = hdp fs None" and "slist (\<lambda>e. next_ready (events w e)) fs None"
    and "tq_map_fn (evqs w q) \<Longrightarrow> tq_map (evqs w q) = map_of (map (\<lambda>x. (fst (snd x), fst x)) qs)"
    and "\<not> tq_map_fn (evqs w q) \<Longrightarrow> sorted (map (\<lambda>x. fst (snd x)) qs)"
  using assms unfolding evq_timers_def by blast+

lemma evq_timersI:
  assumes "chain (\<lambda>t. tq_next (tqs w t)) (\<lambda>t. tq_prev (tqs w t)) None (map fst qs) None"
    and "evq_tq (evqs w q) = hdp (map fst qs) None"
    and "distinct (map fst qs @ fs)" and "distinct (map (\<lambda>x. fst (snd x)) qs)"
    and "distinct (tqv_events qs)" and "\<And>x. x \<in> set qs \<Longrightarrow> tq_holds w q x"
    and "\<And>a. a \<in> set (map fst qs @ fs) \<Longrightarrow> ev_evq (events w a) \<noteq> Some q"
    and "ev_free (evqs w q) = hdp fs None" and "slist (\<lambda>e. next_ready (events w e)) fs None"
    and "tq_map_fn (evqs w q) \<Longrightarrow> tq_map (evqs w q) = map_of (map (\<lambda>x. (fst (snd x), fst x)) qs)"
    and "\<not> tq_map_fn (evqs w q) \<Longrightarrow> sorted (map (\<lambda>x. fst (snd x)) qs)"
  shows "evq_timers w q qs fs"
  using assms unfolding evq_timers_def by blast

lemma evq_timers_at:
  assumes "evq_timers w q (A @ (t, m, es) # B) fs"
  shows "tq_holds w q (t, m, es)" and "distinct es" and "set es \<inter> set (tqv_events (A @ B)) = {}"
    and "t \<notin> set fs" and "t \<notin> fst ` set (A @ B)"
    and "\<And>e. e \<in> set es \<Longrightarrow> ev_evq (events w e) = Some q \<and> ev_tq (events w e) = Some t"
proof -
  show h: "tq_holds w q (t, m, es)" using evq_timersD(6) [OF assms] by simp
  show "distinct es" "set es \<inter> set (tqv_events (A @ B)) = {}"
    using evq_timersD(5) [OF assms] by auto
  show "t \<notin> set fs" "t \<notin> fst ` set (A @ B)" using evq_timersD(3) [OF assms] by auto
  show "ev_evq (events w e) = Some q \<and> ev_tq (events w e) = Some t" if "e \<in> set es" for e
    using h that by (simp add: tq_holds_def)
qed

text \<open>The events of another queue of the same event queue.\<close>

lemma evq_timers_other:
  assumes "evq_timers w q (A @ (t, m, es) # B) fs" and "(t', m', xs) \<in> set (A @ B)"
  shows "tq_holds w q (t', m', xs)" and "set xs \<inter> set es = {}" and "t' \<noteq> t"
    and "set xs \<subseteq> set (tqv_events (A @ B))"
proof -
  show "tq_holds w q (t', m', xs)" using evq_timersD(6) [OF assms(1)] assms(2) by auto
  show sub: "set xs \<subseteq> set (tqv_events (A @ B))"
    using assms(2) by (cases "(t', m', xs) \<in> set A") force+
  with evq_timers_at(3) [OF assms(1)] show "set xs \<inter> set es = {}" by blast
  have "t' \<in> fst ` set (A @ B)" using assms(2) by (metis fst_conv image_eqI)
  with evq_timers_at(5) [OF assms(1)] show "t' \<noteq> t" by metis
qed

lemma tq_holds_cong:
  assumes "tq_holds w q (t, m, es)" and "msec (tqs w' t) = msec (tqs w t)"
    and "ev_head (tqs w' t) = ev_head (tqs w t)" and "ev_tail (tqs w' t) = ev_tail (tqs w t)"
    and "\<And>e. e \<in> set es \<Longrightarrow> ev_next (events w' e) = ev_next (events w e) \<and>
      ev_prev (events w' e) = ev_prev (events w e) \<and> ev_tq (events w' e) = ev_tq (events w e) \<and>
      ev_evq (events w' e) = ev_evq (events w e)"
  shows "tq_holds w' q (t, m, es)"
  using assms chain_cong [of es "\<lambda>e. ev_next (events w' e)" "\<lambda>e. ev_next (events w e)"
      "\<lambda>e. ev_prev (events w' e)" "\<lambda>e. ev_prev (events w e)" None None]
  by (simp add: tq_holds_def)

text \<open>
  An operation on one timeout queue: it may change the links of the events of that queue and
  of the event it works on, the ends of the queue, and nothing else.
\<close>

lemma evq_timers_one:
  assumes inv: "evq_timers w q (A @ (t, m, es) # B) fs"
    and "evqs w' q = evqs w q"
    and tqs: "\<And>a. a \<noteq> t \<Longrightarrow> tqs w' a = tqs w a"
      "tq_next (tqs w' t) = tq_next (tqs w t)" "tq_prev (tqs w' t) = tq_prev (tqs w t)"
    and evs: "\<And>e. e \<notin> set es \<Longrightarrow> e \<notin> set es' \<Longrightarrow> events w' e = events w e"
    and evq: "\<And>e. ev_evq (events w' e) = ev_evq (events w e)"
    and es': "\<And>e. e \<in> set es' \<Longrightarrow> ev_evq (events w e) = Some q"
      "set es' \<inter> set (tqv_events (A @ B)) = {}" "distinct es'"
    and new: "tq_holds w' q (t, m, es')"
  shows "evq_timers w' q (A @ (t, m, es') # B) fs"
proof -
  note es = evq_timers_at(6) [OF inv]
  have other: "tq_holds w' q x" if "x \<in> set (A @ B)" for x
  proof -
    obtain t' m' xs where x: "x = (t', m', xs)" by (cases x)
    note o = evq_timers_other [OF inv that [unfolded x]]
    have "set xs \<inter> set es' = {}" using o(4) es'(2) by blast
    then have "events w' e = events w e" if "e \<in> set xs" for e
      by (intro evs) (use that o(2) in blast)+
    then show ?thesis
      unfolding x by (intro tq_holds_cong [OF o(1)]) (simp_all add: tqs(1) [OF o(3)])
  qed
  have "chain (\<lambda>a. tq_next (tqs w' a)) (\<lambda>a. tq_prev (tqs w' a)) None (map fst (A @ (t, m, es') # B)) None
      = chain (\<lambda>a. tq_next (tqs w a)) (\<lambda>a. tq_prev (tqs w a)) None (map fst (A @ (t, m, es) # B)) None"
    by (simp, intro conj_cong chain_cong) (use tqs in metis)+
  moreover have "slist (\<lambda>e. next_ready (events w' e)) fs None"
  proof -
    have "events w' e = events w e" if "e \<in> set fs" for e
      by (rule evs) (use evq_timersD(7) [OF inv, of e] that es es'(1) in auto)
    then show ?thesis
      using inv slist_cong [of fs "\<lambda>e. next_ready (events w' e)"] by (simp add: evq_timers_def)
  qed
  moreover have "distinct (tqv_events (A @ (t, m, es') # B))"
    using inv es'(2,3) by (auto simp: evq_timers_def)
  moreover have "\<forall>x \<in> set (A @ (t, m, es') # B). tq_holds w' q x" using other new by auto
  ultimately show ?thesis
    using inv assms(2) evq unfolding evq_timers_def by simp
qed

text \<open>What the timeout operations leave alone in an event: all but the links and the deadline.\<close>

definition timer_frame :: "evq_store \<Rightarrow> evq_store \<Rightarrow> bool" where
  "timer_frame w w' \<longleftrightarrow>
     (\<forall>e. ev_flags (events w' e) = ev_flags (events w e) \<and>
        next_object (events w' e) = next_object (events w e) \<and>
        ev_id (events w' e) = ev_id (events w e) \<and> ev_fd (events w' e) = ev_fd (events w e) \<and>
        ev_evq (events w' e) = ev_evq (events w e)) \<and>
     sig_events w' = sig_events w \<and> sig_set w' = sig_set w"

lemma timer_frame_upd [simp]:
  "timer_frame w w"
  "timer_frame w w' \<Longrightarrow> timer_frame w (tq_upd t g w')"
  "timer_frame w w' \<Longrightarrow> timer_frame w (evq_upd q h w')"
  "timer_frame w w' \<Longrightarrow> timer_frame w (ev_upd e (\<lambda>r. r\<lparr>ev_next := x\<rparr>) w')"
  "timer_frame w w' \<Longrightarrow> timer_frame w (ev_upd e (\<lambda>r. r\<lparr>ev_prev := x\<rparr>) w')"
  "timer_frame w w' \<Longrightarrow> timer_frame w (ev_upd e (\<lambda>r. r\<lparr>ev_tq := x\<rparr>) w')"
  "timer_frame w w' \<Longrightarrow> timer_frame w (ev_upd e (\<lambda>r. r\<lparr>timeout_at := y\<rparr>) w')"
  "timer_frame w w' \<Longrightarrow> timer_frame w (ev_upd e (\<lambda>r. r\<lparr>next_ready := x\<rparr>) w')"
  "timer_frame w w' \<Longrightarrow> timer_frame w (ev_upd e (\<lambda>r. r\<lparr>ev_next := x, ev_prev := z\<rparr>) w')"
  "timer_frame w w' \<Longrightarrow>
    timer_frame w (ev_upd e (\<lambda>r. r\<lparr>ev_next := x, ev_tq := z, timeout_at := y\<rparr>) w')"
  by (simp_all add: timer_frame_def)

text \<open>The links of an event in the middle of its queue.\<close>

lemma tq_holds_split:
  assumes "tq_holds w q (t, m, as @ ev # bs)"
  shows "ev_tq (events w ev) = Some t" "ev_evq (events w ev) = Some q"
    "ev_prev (events w ev) = lastp as None" "ev_next (events w ev) = hdp bs None"
    "ev_tail (tqs w t) = Some (last (ev # bs))" "ev_head (tqs w t) = Some (hd (as @ [ev]))"
    "msec (tqs w t) = m"
    "chain (\<lambda>e. ev_next (events w e)) (\<lambda>e. ev_prev (events w e)) None as (Some ev)"
    "chain (\<lambda>e. ev_next (events w e)) (\<lambda>e. ev_prev (events w e)) (Some ev) bs None"
    "\<forall>e \<in> set (as @ bs). ev_tq (events w e) = Some t \<and> ev_evq (events w e) = Some q"
  using assms by (auto simp: tq_holds_def hd_append)

definition reset_store :: "nat \<Rightarrow> nat \<Rightarrow> int \<Rightarrow> nat \<Rightarrow> nat \<Rightarrow> ptr \<Rightarrow> evq_store \<Rightarrow> evq_store" where
  "reset_store ev t at nx lt pv w =
     tq_upd t (\<lambda>r. r\<lparr>ev_tail := Some ev\<rparr>)
      (ev_upd lt (\<lambda>e. e\<lparr>ev_next := Some ev\<rparr>)
        (ev_upd ev (\<lambda>e. e\<lparr>ev_next := None, ev_prev := Some lt\<rparr>)
          (ev_upd nx (\<lambda>e. e\<lparr>ev_prev := pv\<rparr>)
            ((case pv of
                Some p \<Rightarrow> ev_upd p (\<lambda>e. e\<lparr>ev_next := Some nx\<rparr>)
              | None \<Rightarrow> tq_upd t (\<lambda>r. r\<lparr>ev_head := Some nx\<rparr>))
             (ev_upd ev (\<lambda>e. e\<lparr>timeout_at := at\<rparr>) w)))))"

lemma reset_store_simps [simp]:
  "ev_tq (events (reset_store ev t at nx lt pv w) e) = ev_tq (events w e)"
  "ev_evq (events (reset_store ev t at nx lt pv w) e) = ev_evq (events w e)"
  "next_ready (events (reset_store ev t at nx lt pv w) e) = next_ready (events w e)"
  "timeout_at (events (reset_store ev t at nx lt pv w) e) = (if e = ev then at else timeout_at (events w e))"
  "evqs (reset_store ev t at nx lt pv w) = evqs w"
  "a \<noteq> t \<Longrightarrow> tqs (reset_store ev t at nx lt pv w) a = tqs w a"
  "msec (tqs (reset_store ev t at nx lt pv w) a) = msec (tqs w a)"
  "tq_next (tqs (reset_store ev t at nx lt pv w) a) = tq_next (tqs w a)"
  "tq_prev (tqs (reset_store ev t at nx lt pv w) a) = tq_prev (tqs w a)"
  "ev_tail (tqs (reset_store ev t at nx lt pv w) t) = Some ev"
  "timer_frame w (reset_store ev t at nx lt pv w)"
  by (cases pv; simp add: reset_store_def)+

lemma timeout_reset_middle:
  assumes h: "tq_holds w q (t, m, as @ ev # n # bs)"
  shows "timeout_reset ev now w =
    Some (reset_store ev t (wrap32 (now + m)) n (last (n # bs)) (lastp as None) w)"
  using tq_holds_split [OF h]
  by (cases "lastp as None") (simp_all add: timeout_reset_def reset_store_def Let_def)

lemma reset_store_holds:
  assumes h: "tq_holds w q (t, m, as @ ev # n # bs)" and d: "distinct (as @ ev # n # bs)"
  shows "tq_holds (reset_store ev t at n (last (n # bs)) (lastp as None) w) q
    (t, m, as @ (n # bs) @ [ev])"
proof -
  let ?w = "reset_store ev t at n (last (n # bs)) (lastp as None) w"
  let ?nx = "\<lambda>e. ev_next (events ?w e)" and ?pv = "\<lambda>e. ev_prev (events ?w e)"
  note sp = tq_holds_split [OF h]
  have l: "last (n # bs) \<in> set (n # bs)" by (rule last_in_set) simp
  then have neq: "last (n # bs) \<noteq> ev" "last (n # bs) \<notin> set as" "ev \<notin> set as" "n \<noteq> ev"
    "n \<notin> set as" "ev \<notin> set bs" using d by auto
  have las: "as \<noteq> [] \<Longrightarrow> last as \<noteq> ev \<and> last as \<noteq> last (n # bs) \<and> last as \<notin> set (n # bs)"
    using last_in_set [of as] neq l d by (metis distinct_append disjoint_iff list.set_intros(2))
  have "chain ?nx ?pv None as (Some n)"
    by (rule chain_relink_next [OF sp(8)])
       (use d neq las in \<open>auto simp: reset_store_def lastp_def split: option.splits\<close>)
  moreover have "chain ?nx ?pv (lastp as None) (n # bs) (Some ev)"
    by (rule chain_relink [OF sp(9)])
       (use d neq las in \<open>auto simp: reset_store_def lastp_def split: option.splits\<close>)
  moreover have "?nx ev = None" "?pv ev = Some (last (n # bs))"
    using neq las by (auto simp: reset_store_def lastp_def split: option.splits)
  moreover have "ev_head (tqs ?w t) = Some (hd (as @ [n]))"
    using sp(6) by (auto simp: reset_store_def lastp_def hd_append split: option.splits)
  ultimately show ?thesis
    using sp by (auto simp: tq_holds_def lastp_last hd_append)
qed

lemma reset_store_other:
  "e \<noteq> ev \<Longrightarrow> e \<noteq> nx \<Longrightarrow> e \<noteq> lt \<Longrightarrow> Some e \<noteq> pv \<Longrightarrow>
   events (reset_store ev t at nx lt pv w) e = events w e"
  by (cases pv) (simp_all add: reset_store_def)

text \<open>
  \<open>timeout_reset\<close> moves the event to the end of its queue and renews its deadline.
\<close>

lemma timeout_reset_spec:
  assumes inv: "evq_timers w q (A @ (t, m, as @ ev # bs) # B) fs"
  shows "\<exists>w'. timeout_reset ev now w = Some w' \<and>
    evq_timers w' q (A @ (t, m, as @ bs @ [ev]) # B) fs \<and> timer_frame w w' \<and> evqs w' = evqs w \<and>
    (\<forall>e. next_ready (events w' e) = next_ready (events w e)) \<and>
    (\<forall>e. ev_tq (events w' e) = ev_tq (events w e)) \<and>
    (\<forall>e. timeout_at (events w' e) = (if e = ev then wrap32 (now + m) else timeout_at (events w e)))"
proof -
  note h = evq_timers_at(1) [OF inv] and d = evq_timers_at(2) [OF inv]
  note sp = tq_holds_split [OF h]
  note dis = evq_timers_at(3) [OF inv]
  show ?thesis
  proof (cases bs)
    case Nil
    let ?w = "ev_upd ev (\<lambda>e. e\<lparr>timeout_at := wrap32 (now + m)\<rparr>) w"
    have "tq_holds ?w q (t, m, as @ ev # bs)" by (rule tq_holds_cong [OF h]) auto
    then have "evq_timers ?w q (A @ (t, m, as @ bs @ [ev]) # B) fs"
      by (intro evq_timers_one [OF inv]) (use dis d h Nil in \<open>auto simp: tq_holds_def\<close>)
    moreover have "timeout_reset ev now w = Some ?w"
      using sp Nil by (simp add: timeout_reset_def)
    ultimately show ?thesis by (intro exI [of _ ?w]) auto
  next
    case (Cons n bs')
    let ?w = "reset_store ev t (wrap32 (now + m)) n (last (n # bs')) (lastp as None) w"
    have oth: "events ?w e = events w e" if "e \<notin> set (as @ ev # bs)" for e
      by (rule reset_store_other) (use that Cons in \<open>auto simp: lastp_def split: if_splits\<close>)
    have "tq_holds ?w q (t, m, as @ bs @ [ev])"
      using reset_store_holds [OF h [unfolded Cons] d [unfolded Cons]] Cons by simp
    then have "evq_timers ?w q (A @ (t, m, as @ bs @ [ev]) # B) fs"
      by (intro evq_timers_one [OF inv]) (use dis d h oth in \<open>auto simp: tq_holds_def\<close>)
    moreover have "timeout_reset ev now w = Some ?w"
      using timeout_reset_middle [OF h [unfolded Cons]] .
    ultimately show ?thesis by (intro exI [of _ ?w]) auto
  qed
qed

text \<open>\<open>timeout_del\<close> in a queue that keeps other events.\<close>

definition unlink_store :: "nat \<Rightarrow> nat \<Rightarrow> ptr \<Rightarrow> ptr \<Rightarrow> evq_store \<Rightarrow> evq_store" where
  "unlink_store ev t pv nx w =
     (case nx of
        Some n \<Rightarrow> ev_upd n (\<lambda>e. e\<lparr>ev_prev := pv\<rparr>)
      | None \<Rightarrow> tq_upd t (\<lambda>r. r\<lparr>ev_tail := pv\<rparr>))
     ((case pv of
         Some p \<Rightarrow> ev_upd p (\<lambda>e. e\<lparr>ev_next := nx\<rparr>)
       | None \<Rightarrow> tq_upd t (\<lambda>r. r\<lparr>ev_head := nx\<rparr>))
      (ev_upd ev (\<lambda>e. e\<lparr>ev_tq := None\<rparr>) w))"

lemma unlink_store_simps [simp]:
  "ev_tq (events (unlink_store ev t pv nx w) e) = (if e = ev then None else ev_tq (events w e))"
  "ev_evq (events (unlink_store ev t pv nx w) e) = ev_evq (events w e)"
  "next_ready (events (unlink_store ev t pv nx w) e) = next_ready (events w e)"
  "timeout_at (events (unlink_store ev t pv nx w) e) = timeout_at (events w e)"
  "evqs (unlink_store ev t pv nx w) = evqs w"
  "a \<noteq> t \<Longrightarrow> tqs (unlink_store ev t pv nx w) a = tqs w a"
  "msec (tqs (unlink_store ev t pv nx w) a) = msec (tqs w a)"
  "tq_next (tqs (unlink_store ev t pv nx w) a) = tq_next (tqs w a)"
  "tq_prev (tqs (unlink_store ev t pv nx w) a) = tq_prev (tqs w a)"
  "ev_head (tqs (unlink_store ev t pv nx w) t) = (if pv = None then nx else ev_head (tqs w t))"
  "ev_tail (tqs (unlink_store ev t pv nx w) t) = (if nx = None then pv else ev_tail (tqs w t))"
  "timer_frame w (unlink_store ev t pv nx w)"
  "ev_next (events (unlink_store ev t pv nx w) e) = (if Some e = pv then nx else ev_next (events w e))"
  "ev_prev (events (unlink_store ev t pv nx w) e) = (if Some e = nx then pv else ev_prev (events w e))"
  by (cases pv; cases nx; simp add: unlink_store_def)+

lemma unlink_store_other:
  "e \<noteq> ev \<Longrightarrow> Some e \<noteq> nx \<Longrightarrow> Some e \<noteq> pv \<Longrightarrow> events (unlink_store ev t pv nx w) e = events w e"
  by (cases pv; cases nx) (simp_all add: unlink_store_def)

lemma unlink_store_holds:
  assumes h: "tq_holds w q (t, m, as @ ev # bs)" and d: "distinct (as @ ev # bs)" and ne: "as @ bs \<noteq> []"
  shows "tq_holds (unlink_store ev t (lastp as None) (hdp bs None) w) q (t, m, as @ bs)"
proof -
  let ?w = "unlink_store ev t (lastp as None) (hdp bs None) w"
  let ?nx = "\<lambda>e. ev_next (events ?w e)" and ?pv = "\<lambda>e. ev_prev (events ?w e)"
  note sp = tq_holds_split [OF h]
  have la: "as \<noteq> [] \<Longrightarrow> last as \<in> set as" and hb: "bs \<noteq> [] \<Longrightarrow> hd bs \<in> set bs" by auto
  have l: "Some e \<noteq> lastp as None" if "e \<in> set bs" for e 
    using d la that unfolding lastp_def by (auto simp: disjoint_iff)
  have f: "Some e \<noteq> hdp bs None" if "e \<in> set as" for e
    using d hb that by (cases bs) auto
  have "chain ?nx ?pv None as (hdp bs None)"
    by (rule chain_relink_next [OF sp(8)]) (use d f in \<open>auto simp: lastp_def\<close>)
  moreover have "chain ?nx ?pv (lastp as None) bs None"
    by (rule chain_relink_prev [OF sp(9)]) (use d l in \<open>auto simp: hdp_def split: list.splits\<close>)
  moreover have "ev_head (tqs ?w t) = Some (hd (as @ bs))"
    using sp(6) ne by (auto simp: lastp_def hdp_hd hd_append)
  moreover have "ev_tail (tqs ?w t) = Some (last (as @ bs))"
    using sp(5) ne by (auto simp: lastp_def hdp_def split: list.splits)
  moreover have "ev \<notin> set (as @ bs)" using d by auto
  ultimately show ?thesis using sp ne by (auto simp: tq_holds_def)
qed

lemma timeout_del_middle:
  assumes inv: "evq_timers w q (A @ (t, m, as @ ev # bs) # B) fs" and ne: "as @ bs \<noteq> []"
  defines "w' \<equiv> unlink_store ev t (lastp as None) (hdp bs None) w"
  shows "timeout_del ev w = Some w'" and "evq_timers w' q (A @ (t, m, as @ bs) # B) fs"
proof -
  note h = evq_timers_at(1) [OF inv] and d = evq_timers_at(2) [OF inv]
  note sp = tq_holds_split [OF h]
  show "timeout_del ev w = Some w'"
    using sp ne by (auto simp: timeout_del_def w'_def unlink_store_def Let_def lastp_def hdp_def
        split: list.splits)
  have oth: "events w' e = events w e" if "e \<notin> set (as @ ev # bs)" for e
    unfolding w'_def
    by (rule unlink_store_other) (use that in \<open>auto simp: lastp_def hdp_def split: if_splits list.splits\<close>)
  have "tq_holds w' q (t, m, as @ bs)" unfolding w'_def by (rule unlink_store_holds [OF h d ne])
  then show "evq_timers w' q (A @ (t, m, as @ bs) # B) fs"
    by (intro evq_timers_one [OF inv])
       (use evq_timers_at(3) [OF inv] d h oth in \<open>auto simp: tq_holds_def w'_def\<close>)
qed

text \<open>\<open>timeout_del\<close> of the last event: the queue goes and its cell becomes free.\<close>

lemma timeout_del_queue_simps [simp]:
  "ev_tq (events (timeout_del_queue q t w) e) = ev_tq (events w e)"
  "ev_evq (events (timeout_del_queue q t w) e) = ev_evq (events w e)"
  "ev_next (events (timeout_del_queue q t w) e) = ev_next (events w e)"
  "ev_prev (events (timeout_del_queue q t w) e) = ev_prev (events w e)"
  "timeout_at (events (timeout_del_queue q t w) e) = timeout_at (events w e)"
  "next_ready (events (timeout_del_queue q t w) e)
     = (if e = t then ev_free (evqs w q) else next_ready (events w e))"
  "msec (tqs (timeout_del_queue q t w) a) = msec (tqs w a)"
  "ev_head (tqs (timeout_del_queue q t w) a) = ev_head (tqs w a)"
  "ev_tail (tqs (timeout_del_queue q t w) a) = ev_tail (tqs w a)"
  "tq_next (tqs (timeout_del_queue q t w) a)
     = (if Some a = tq_prev (tqs w t) then tq_next (tqs w t) else tq_next (tqs w a))"
  "tq_prev (tqs (timeout_del_queue q t w) a)
     = (if Some a = tq_next (tqs w t) then tq_prev (tqs w t) else tq_prev (tqs w a))"
  "ev_free (evqs (timeout_del_queue q t w) q) = Some t"
  "evq_tq (evqs (timeout_del_queue q t w) q)
     = (if tq_prev (tqs w t) = None then tq_next (tqs w t) else evq_tq (evqs w q))"
  "tq_map_fn (evqs (timeout_del_queue q t w) q) = tq_map_fn (evqs w q)"
  "tq_map_fn (evqs w q) \<Longrightarrow> tq_map (evqs (timeout_del_queue q t w) q)
     = (tq_map (evqs w q))(msec (tqs w t) := None)"
  "ev_ready (evqs (timeout_del_queue q t w) q') = ev_ready (evqs w q')"
  "nevents (evqs (timeout_del_queue q t w) q') = nevents (evqs w q')"
  "evq_now (evqs (timeout_del_queue q t w) q') = evq_now (evqs w q')"
  "timer_frame w (timeout_del_queue q t w)"
  by (cases "tq_prev (tqs w t)"; cases "tq_next (tqs w t)";
      simp add: timeout_del_queue_def levq_timeout_map_def Let_def)+

lemma map_of_remove:
  "k \<notin> fst ` set xs \<Longrightarrow> k \<notin> fst ` set ys \<Longrightarrow>
   (map_of (xs @ (k, v) # ys))(k := None) = map_of (xs @ ys)"
proof -
  assume "k \<notin> fst ` set xs" and "k \<notin> fst ` set ys"
  then have "map_of xs k = None" "map_of ys k = None" by (simp_all add: map_of_eq_None_iff)
  then show ?thesis by (auto simp: fun_eq_iff map_add_def split: option.splits)
qed

lemma timeout_del_last:
  assumes inv: "evq_timers w q (A @ (t, m, [ev]) # B) fs"
  defines "w' \<equiv> timeout_del_queue q t (ev_upd ev (\<lambda>e. e\<lparr>ev_tq := None\<rparr>) w)"
  shows "timeout_del ev w = Some w'" and "evq_timers w' q (A @ B) (t # fs)"
proof -
  note h = evq_timers_at(1) [OF inv]
  have "tq_holds w q (t, m, [] @ ev # [])" using h by simp
  note sp = tq_holds_split [OF this]
  show "timeout_del ev w = Some w'"
    using sp by (auto simp: timeout_del_def w'_def Let_def)
  let ?a = "map fst A" and ?b = "map fst B"
  have d: "distinct (?a @ t # ?b @ fs)" using inv by (simp add: evq_timers_def)
  have ch: "chain (\<lambda>t. tq_next (tqs w t)) (\<lambda>t. tq_prev (tqs w t)) None ?a (Some t)"
    "chain (\<lambda>t. tq_next (tqs w t)) (\<lambda>t. tq_prev (tqs w t)) (Some t) ?b None"
    and tp: "tq_prev (tqs w t) = lastp ?a None" and tn: "tq_next (tqs w t) = hdp ?b None"
    using inv by (auto simp: evq_timers_def)
  have dab: "set ?a \<inter> set ?b = {}" using d by auto
  have nl: "Some x \<noteq> lastp ?a None" if "x \<in> set ?b" for x
    using dab that by (intro lastp_notin) blast
  have nf: "Some x \<noteq> hdp ?b None" if "x \<in> set ?a" for x
    using dab that by (intro hdp_notin) blast
  have nx: "tq_next (tqs w' c) = (if Some c = lastp ?a None then hdp ?b None else tq_next (tqs w c))"
    and pv: "tq_prev (tqs w' c) = (if Some c = hdp ?b None then lastp ?a None else tq_prev (tqs w c))"
    for c using tp tn by (simp_all add: w'_def)
  have "chain (\<lambda>t. tq_next (tqs w' t)) (\<lambda>t. tq_prev (tqs w' t)) None ?a (hdp ?b None)"
  proof (rule chain_relink_next [OF ch(1)])
    show "distinct ?a" using d by simp
    show "tq_next (tqs w' x) = tq_next (tqs w x)" if "x \<noteq> last ?a" for x
      unfolding nx using that by (simp add: lastp_def)
  qed (simp_all only: nx pv nf lastp_last simp_thms if_True if_False)
  moreover have "chain (\<lambda>t. tq_next (tqs w' t)) (\<lambda>t. tq_prev (tqs w' t)) (lastp ?a None) ?b None"
  proof (rule chain_relink_prev [OF ch(2)])
    show "distinct ?b" using d by simp
    show "tq_prev (tqs w' x) = tq_prev (tqs w x)" if "x \<in> set ?b" "x \<noteq> hd ?b" for x
      unfolding pv using that by (cases "?b") auto
  qed (simp_all only: nx pv nl hdp_hd simp_thms if_True if_False)
  moreover have "evq_tq (evqs w' q) = hdp (?a @ ?b) None"
  proof (cases "?a = []")
    case True
    with tp tn show ?thesis by (simp add: w'_def)
  next
    case False
    have "evq_tq (evqs w q) = hdp (?a @ [t] @ ?b) None" using inv by (simp add: evq_timers_def)
    with False tp show ?thesis by (simp add: w'_def lastp_def hdp_hd)
  qed
  moreover have "tq_holds w' q x" if "x \<in> set (A @ B)" for x
  proof -
    obtain t' m' xs where x: "x = (t', m', xs)" by (cases x)
    note o = evq_timers_other [OF inv that [unfolded x]]
    have "ev \<notin> set xs" using o(2) by simp
    then show ?thesis
      unfolding x by (intro tq_holds_cong [OF o(1)]) (auto simp: w'_def)
  qed
  moreover have "slist (\<lambda>e. next_ready (events w' e)) (t # fs) None"
  proof -
    have "slist (\<lambda>e. next_ready (events w' e)) fs None = slist (\<lambda>e. next_ready (events w e)) fs None"
      by (rule slist_cong) (use d in \<open>auto simp: w'_def\<close>)
    then show ?thesis using evq_timersD(8,9) [OF inv] by (simp add: w'_def)
  qed
  moreover have "tq_map (evqs w' q) = map_of (map (\<lambda>x. (fst (snd x), fst x)) (A @ B))"
    if "tq_map_fn (evqs w' q)"
  proof -
    have "m \<notin> (\<lambda>x. fst (snd x)) ` set A" "m \<notin> (\<lambda>x. fst (snd x)) ` set B"
      using evq_timersD(4) [OF inv] by auto
    then have "(map_of (map (\<lambda>x. (fst (snd x), fst x)) A @ (m, t) # map (\<lambda>x. (fst (snd x), fst x)) B))
        (m := None) = map_of (map (\<lambda>x. (fst (snd x), fst x)) A @ map (\<lambda>x. (fst (snd x), fst x)) B)"
      by (intro map_of_remove) (simp_all add: image_image)
    then show ?thesis using evq_timersD(10) [OF inv] that sp(7) by (simp add: w'_def)
  qed
  moreover have "ev_evq (events w' a) \<noteq> Some q" if "a \<in> set (map fst (A @ B) @ t # fs)" for a
    using evq_timersD(7) [OF inv, of a] that by (auto simp: w'_def)
  moreover have "distinct (map fst (A @ B) @ t # fs)" using d by auto
  moreover have "distinct (map (\<lambda>x. fst (snd x)) (A @ B))" "distinct (tqv_events (A @ B))"
    using evq_timersD(4,5) [OF inv] by simp_all
  moreover have "sorted (map (\<lambda>x. fst (snd x)) (A @ B))" if "\<not> tq_map_fn (evqs w' q)"
    using evq_timersD(11) [OF inv] that by (simp add: w'_def sorted_append)
  moreover have "ev_free (evqs w' q) = hdp (t # fs) None" by (simp add: w'_def)
  ultimately show "evq_timers w' q (A @ B) (t # fs)" by (intro evq_timersI) simp_all
qed

text \<open>\<open>timeout_add\<close> to an existing queue.\<close>

definition append_store :: "nat \<Rightarrow> nat \<Rightarrow> int \<Rightarrow> nat \<Rightarrow> evq_store \<Rightarrow> evq_store" where
  "append_store ev t at l w =
     ev_upd ev (\<lambda>e. e\<lparr>ev_next := None, ev_tq := Some t, timeout_at := at\<rparr>)
      (tq_upd t (\<lambda>r. r\<lparr>ev_tail := Some ev\<rparr>)
        (ev_upd l (\<lambda>e. e\<lparr>ev_next := Some ev\<rparr>) (ev_upd ev (\<lambda>e. e\<lparr>ev_prev := Some l\<rparr>) w)))"

lemma append_store_simps [simp]:
  "ev_tq (events (append_store ev t at l w) e) = (if e = ev then Some t else ev_tq (events w e))"
  "ev_evq (events (append_store ev t at l w) e) = ev_evq (events w e)"
  "ev_prev (events (append_store ev t at l w) e) = (if e = ev then Some l else ev_prev (events w e))"
  "ev_next (events (append_store ev t at l w) e)
     = (if e = ev then None else if e = l then Some ev else ev_next (events w e))"
  "next_ready (events (append_store ev t at l w) e) = next_ready (events w e)"
  "timeout_at (events (append_store ev t at l w) e) = (if e = ev then at else timeout_at (events w e))"
  "evqs (append_store ev t at l w) = evqs w"
  "tqs (append_store ev t at l w) a = (if a = t then (tqs w t)\<lparr>ev_tail := Some ev\<rparr> else tqs w a)"
  "e \<noteq> ev \<Longrightarrow> e \<noteq> l \<Longrightarrow> events (append_store ev t at l w) e = events w e"
  "timer_frame w (append_store ev t at l w)"
  by (simp_all add: append_store_def)

lemma append_store_timers:
  assumes inv: "evq_timers w q (A @ (t, m, es) # B) fs"
    and ev: "ev_evq (events w ev) = Some q" "ev \<notin> set (tqv_events (A @ (t, m, es) # B))"
  shows "evq_timers (append_store ev t at (last es) w) q (A @ (t, m, es @ [ev]) # B) fs"
proof -
  let ?w = "append_store ev t at (last es) w"
  note h = evq_timers_at(1) [OF inv] and d = evq_timers_at(2) [OF inv]
  have new: "ev \<notin> set es" "ev \<notin> set (tqv_events (A @ B))" using ev(2) by auto
  have ne: "es \<noteq> []" and
    ch: "chain (\<lambda>e. ev_next (events w e)) (\<lambda>e. ev_prev (events w e)) None es None"
    using h by (auto simp: tq_holds_def)
  have "last es \<noteq> ev" using ne new(1) last_in_set by metis
  have "chain (\<lambda>e. ev_next (events ?w e)) (\<lambda>e. ev_prev (events ?w e)) None es (Some ev)"
    by (rule chain_relink_next [OF ch d]) (use new \<open>last es \<noteq> ev\<close> in auto)
  then have "tq_holds ?w q (t, m, es @ [ev])"
    using h ev(1) ne by (auto simp: tq_holds_def lastp_last)
  moreover have "events ?w e = events w e" if "e \<notin> set es" "e \<notin> set (es @ [ev])" for e
    using that ne last_in_set [of es] by (intro append_store_simps(9)) auto
  ultimately show ?thesis
    by (intro evq_timers_one [OF inv])
       (use new d evq_timers_at(3) [OF inv] evq_timers_at(6) [OF inv] ev(1) in auto)
qed

text \<open>\<open>timeout_add\<close> with a new queue.\<close>

definition new_store :: "nat \<Rightarrow> nat \<Rightarrow> nat \<Rightarrow> int \<Rightarrow> int \<Rightarrow> ptr \<Rightarrow> ptr \<Rightarrow> evq_store \<Rightarrow> evq_store" where
  "new_store q ev a ms at pv t w =
     ev_upd ev (\<lambda>e. e\<lparr>ev_next := None, ev_tq := Some a, timeout_at := at\<rparr>)
      (tq_upd a (\<lambda>r. r\<lparr>ev_tail := Some ev\<rparr>) (timeout_new_queue q ev a ms pv t w))"

lemma new_store_simps [simp]:
  "ev_tq (events (new_store q ev a ms at pv t w) e) = (if e = ev then Some a else ev_tq (events w e))"
  "ev_evq (events (new_store q ev a ms at pv t w) e) = ev_evq (events w e)"
  "ev_prev (events (new_store q ev a ms at pv t w) e) = (if e = ev then None else ev_prev (events w e))"
  "ev_next (events (new_store q ev a ms at pv t w) e) = (if e = ev then None else ev_next (events w e))"
  "next_ready (events (new_store q ev a ms at pv t w) e) = next_ready (events w e)"
  "timeout_at (events (new_store q ev a ms at pv t w) e)
     = (if e = ev then at else timeout_at (events w e))"
  "ev_free (evqs (new_store q ev a ms at pv t w) q) = next_ready (events w a)"
  "tq_map_fn (evqs (new_store q ev a ms at pv t w) q) = tq_map_fn (evqs w q)"
  "tq_map_fn (evqs w q) \<Longrightarrow> tq_map (evqs (new_store q ev a ms at pv t w) q)
     = (tq_map (evqs w q))(ms := Some a)"
  "evq_tq (evqs (new_store q ev a ms at pv t w) q) = (if pv = None then Some a else evq_tq (evqs w q))"
  "ev_ready (evqs (new_store q ev a ms at pv t w) q') = ev_ready (evqs w q')"
  "nevents (evqs (new_store q ev a ms at pv t w) q') = nevents (evqs w q')"
  "evq_now (evqs (new_store q ev a ms at pv t w) q') = evq_now (evqs w q')"
  "timer_frame w (new_store q ev a ms at pv t w)"
  by (cases pv; cases t; simp add: new_store_def timeout_new_queue_def levq_timeout_map_def Let_def)+

lemma new_store_tqs [simp]:
  assumes "Some a \<noteq> pv" and "Some a \<noteq> t"
  shows "tq_next (tqs (new_store q ev a ms at pv t w) c)
      = (if c = a then t else if Some c = pv then Some a else tq_next (tqs w c))"
    and "tq_prev (tqs (new_store q ev a ms at pv t w) c)
      = (if c = a then pv else if Some c = t then Some a else tq_prev (tqs w c))"
    and "ev_head (tqs (new_store q ev a ms at pv t w) c) = (if c = a then Some ev else ev_head (tqs w c))"
    and "ev_tail (tqs (new_store q ev a ms at pv t w) c) = (if c = a then Some ev else ev_tail (tqs w c))"
    and "msec (tqs (new_store q ev a ms at pv t w) c) = (if c = a then ms else msec (tqs w c))"
  using assms
  by (cases pv; cases t; simp add: new_store_def timeout_new_queue_def levq_timeout_map_def Let_def)+

lemma map_of_insert:
  "k \<notin> fst ` set xs \<Longrightarrow> map_of (xs @ (k, v) # ys) = (map_of (xs @ ys))(k := Some v)"
proof -
  assume "k \<notin> fst ` set xs"
  then have "map_of xs k = None" by (simp add: map_of_eq_None_iff)
  then show ?thesis by (auto simp: fun_eq_iff map_add_def split: option.splits)
qed

lemma new_store_timers:
  fixes at :: int
  assumes inv: "evq_timers w q (A @ B) (a # fs)"
    and ev: "ev_evq (events w ev) = Some q" "ev \<notin> set (tqv_events (A @ B))"
    and ms: "ms \<notin> (\<lambda>x. fst (snd x)) ` set (A @ B)"
    and sorted: "\<not> tq_map_fn (evqs w q) \<Longrightarrow>
      (\<forall>x \<in> set A. fst (snd x) \<le> ms) \<and> (\<forall>x \<in> set B. ms \<le> fst (snd x))"
  defines "w' \<equiv> new_store q ev a ms at (lastp (map fst A) None) (hdp (map fst B) None) w"
  shows "evq_timers w' q (A @ (a, ms, [ev]) # B) fs"
proof -
  let ?a = "map fst A" and ?b = "map fst B"
  have d: "distinct (?a @ ?b @ a # fs)" using evq_timersD(3) [OF inv] by simp
  have dab: "set ?a \<inter> set ?b = {}" "a \<notin> set ?a" "a \<notin> set ?b" using d by auto
  have nl: "Some x \<noteq> lastp ?a None" if "x \<in> set ?b" for x
    using dab(1) that by (intro lastp_notin) blast
  have nf: "Some x \<noteq> hdp ?b None" if "x \<in> set ?a" for x
    using dab(1) that by (intro hdp_notin) blast
  note tq = new_store_tqs [OF lastp_notin [OF dab(2)] hdp_notin [OF dab(3)],
    where q = q and ev = ev and ms = ms and at = at and w = w, folded w'_def]
  have ch: "chain (\<lambda>t. tq_next (tqs w t)) (\<lambda>t. tq_prev (tqs w t)) None ?a (hdp ?b None)"
    "chain (\<lambda>t. tq_next (tqs w t)) (\<lambda>t. tq_prev (tqs w t)) (lastp ?a None) ?b None"
    using evq_timersD(1) [OF inv] by simp_all
  have "chain (\<lambda>t. tq_next (tqs w' t)) (\<lambda>t. tq_prev (tqs w' t)) None ?a (Some a)"
  proof (rule chain_relink_next [OF ch(1)])
    show "distinct ?a" using d by simp
    show "tq_next (tqs w' x) = tq_next (tqs w x)" if "x \<in> set ?a" "x \<noteq> last ?a" for x
      unfolding tq using that dab(2) by (auto simp: lastp_def)
    show "tq_prev (tqs w' x) = tq_prev (tqs w x)" if "x \<in> set ?a" for x
      unfolding tq using that dab(2) nf by auto
    show "tq_next (tqs w' (last ?a)) = Some a" if "?a \<noteq> []"
    proof -
      have "last ?a \<noteq> a" using last_in_set [OF that] dab(2) by metis
      with that show ?thesis unfolding tq by (simp add: lastp_def)
    qed
  qed
  moreover have "chain (\<lambda>t. tq_next (tqs w' t)) (\<lambda>t. tq_prev (tqs w' t)) (Some a) ?b None"
  proof (rule chain_relink_prev [OF ch(2)])
    show "distinct ?b" using d by simp
    show "tq_prev (tqs w' x) = tq_prev (tqs w x)" if "x \<in> set ?b" "x \<noteq> hd ?b" for x
      unfolding tq using that dab(3) by (cases "?b") auto
    show "tq_next (tqs w' x) = tq_next (tqs w x)" if "x \<in> set ?b" for x
      unfolding tq using that dab(3) nl by auto
    show "tq_prev (tqs w' (hd ?b)) = Some a" if "?b \<noteq> []"
      unfolding tq using that dab(3) by (cases "?b") auto
  qed
  ultimately have chain: "chain (\<lambda>t. tq_next (tqs w' t)) (\<lambda>t. tq_prev (tqs w' t)) None
      (map fst (A @ (a, ms, [ev]) # B)) None" by (simp add: tq)
  have hold: "tq_holds w' q x" if "x \<in> set (A @ (a, ms, [ev]) # B)" for x
  proof (cases "x = (a, ms, [ev])")
    case True
    then show ?thesis using ev(1) by (simp add: tq_holds_def tq) (simp add: w'_def)
  next
    case False
    obtain t' m' xs where x: "x = (t', m', xs)" by (cases x)
    have in_ab: "(t', m', xs) \<in> set (A @ B)" using that False x by auto
    have "t' \<noteq> a" using in_ab dab by force
    moreover have "ev \<notin> set xs" using ev(2) in_ab by force
    ultimately show ?thesis unfolding x
      by (intro tq_holds_cong [OF evq_timersD(6) [OF inv in_ab]]) (simp_all add: tq, auto simp: w'_def)
  qed
  show ?thesis
  proof (rule evq_timersI [OF chain _ _ _ _ hold])
    show "evq_tq (evqs w' q) = hdp (map fst (A @ (a, ms, [ev]) # B)) None"
      using evq_timersD(2) [OF inv] by (cases A) (auto simp: w'_def lastp_def)
    show "distinct (map fst (A @ (a, ms, [ev]) # B) @ fs)" using d by auto
    show "distinct (map (\<lambda>x. fst (snd x)) (A @ (a, ms, [ev]) # B))"
      using evq_timersD(4) [OF inv] ms by auto
    show "distinct (tqv_events (A @ (a, ms, [ev]) # B))"
      using evq_timersD(5) [OF inv] ev(2) by auto
    show "ev_evq (events w' c) \<noteq> Some q" if "c \<in> set (map fst (A @ (a, ms, [ev]) # B) @ fs)" for c
      using evq_timersD(7) [OF inv, of c] that by (auto simp: w'_def)
    show "ev_free (evqs w' q) = hdp fs None" "slist (\<lambda>e. next_ready (events w' e)) fs None"
      using evq_timersD(9) [OF inv] by (simp_all add: w'_def)
    show "tq_map (evqs w' q) = map_of (map (\<lambda>x. (fst (snd x), fst x)) (A @ (a, ms, [ev]) # B))"
      if "tq_map_fn (evqs w' q)"
    proof -
      have "ms \<notin> fst ` set (map (\<lambda>x. (fst (snd x), fst x)) A)" using ms by (auto simp: image_image)
      from map_of_insert [OF this, of a "map (\<lambda>x. (fst (snd x), fst x)) B"]
      show ?thesis using evq_timersD(10) [OF inv] that by (simp add: w'_def)
    qed
    show "sorted (map (\<lambda>x. fst (snd x)) (A @ (a, ms, [ev]) # B))" if "\<not> tq_map_fn (evqs w' q)"
      using evq_timersD(11) [OF inv] sorted that by (auto simp: w'_def sorted_append)
  qed
qed

section \<open>Adding a timeout\<close>

text \<open>The queue of a period, and the place of a new one in the list of queues.\<close>

definition tq_place :: "bool \<Rightarrow> int \<Rightarrow> tqv list \<Rightarrow> tqv list \<times> tqv list" where
  "tq_place mapped ms qs =
     (if mapped then ([], qs)
      else (takeWhile (\<lambda>x. fst (snd x) < ms) qs, dropWhile (\<lambda>x. fst (snd x) < ms) qs))"

text \<open>What adding an event does to the lists of queues.\<close>

fun tqv_append :: "nat \<Rightarrow> int \<Rightarrow> tqv list \<Rightarrow> tqv list" where
  "tqv_append ev ms [] = []"
| "tqv_append ev ms ((t, m, es) # qs) =
     (if m = ms then (t, m, es @ [ev]) # qs else (t, m, es) # tqv_append ev ms qs)"

definition tqv_new :: "bool \<Rightarrow> nat \<Rightarrow> nat \<Rightarrow> int \<Rightarrow> tqv list \<Rightarrow> tqv list" where
  "tqv_new mapped a ev ms qs =
     (case tq_place mapped ms qs of (A, B) \<Rightarrow> A @ (a, ms, [ev]) # B)"

lemma tqv_append_split:
  "ms \<notin> (\<lambda>x. fst (snd x)) ` set A \<Longrightarrow>
   tqv_append ev ms (A @ (t, ms, es) # B) = A @ (t, ms, es @ [ev]) # B"
  by (induction A) auto

lemma timeout_search_spec:
  assumes "slist (\<lambda>t. tq_next (tqs w t)) (map fst qs) None"
    and "\<And>x. x \<in> set qs \<Longrightarrow> msec (tqs w (fst x)) = fst (snd x)"
  shows "timeout_search w ms pv (hdp (map fst qs) None) =
    Some (lastp (map fst (takeWhile (\<lambda>x. fst (snd x) < ms) qs)) pv,
      hdp (map fst (dropWhile (\<lambda>x. fst (snd x) < ms) qs)) None)"
  using assms
proof (induction qs arbitrary: pv)
  case Nil
  then show ?case by (subst timeout_search.simps) simp
next
  case (Cons x qs)
  then show ?case by (subst timeout_search.simps) simp
qed

lemma chain_slist: "chain nx pv p xs q \<Longrightarrow> slist nx xs q"
  by (induction xs arbitrary: p) auto

text \<open>The search finds the queue of the period, or the place for a new one.\<close>

lemma timeout_lookup_found:
  assumes inv: "evq_timers w q (A @ (t, ms, es) # B) fs"
  shows "\<exists>pv. timeout_lookup q ms w = Some (pv, Some t)"
proof (cases "tq_map_fn (evqs w q)")
  case True
  have "ms \<notin> (\<lambda>x. fst (snd x)) ` set A" using evq_timersD(4) [OF inv] by auto
  then have "tq_map (evqs w q) ms = Some t"
    using evq_timersD(10) [OF inv True] map_of_insert [of ms "map (\<lambda>x. (fst (snd x), fst x)) A" t]
    by (simp add: image_image)
  with True show ?thesis by (simp add: timeout_lookup_def levq_timeout_map_def Let_def)
next
  case False
  have sl: "slist (\<lambda>t. tq_next (tqs w t)) (map fst (A @ (t, ms, es) # B)) None"
    by (rule chain_slist [OF evq_timersD(1) [OF inv]])
  have ms: "msec (tqs w (fst x)) = fst (snd x)" if "x \<in> set (A @ (t, ms, es) # B)" for x
    using evq_timersD(6) [OF inv that] by (auto simp: tq_holds_def split: prod.splits)
  have "fst (snd x) < ms" if "x \<in> set A" for x
    using evq_timersD(11) [OF inv False] evq_timersD(4) [OF inv] that
    by (fastforce simp: sorted_append)
  then have "dropWhile (\<lambda>x. fst (snd x) < ms) (A @ (t, ms, es) # B) = (t, ms, es) # B"
    by (simp add: dropWhile_append2)
  with False timeout_search_spec [OF sl ms, of ms None] evq_timersD(2) [OF inv]
  show ?thesis by (simp add: timeout_lookup_def)
qed

lemma timeout_lookup_new:
  assumes inv: "evq_timers w q qs fs" and ms: "ms \<notin> (\<lambda>x. fst (snd x)) ` set qs"
    and pl: "tq_place (tq_map_fn (evqs w q)) ms qs = (A, B)"
  shows "timeout_lookup q ms w = Some (lastp (map fst A) None, hdp (map fst B) None)" and "qs = A @ B"
    and "\<And>t. hdp (map fst B) None = Some t \<Longrightarrow> msec (tqs w t) \<noteq> ms"
    and "\<not> tq_map_fn (evqs w q) \<Longrightarrow>
      (\<forall>x \<in> set A. fst (snd x) \<le> ms) \<and> (\<forall>x \<in> set B. ms \<le> fst (snd x))"
proof -
  have msx: "msec (tqs w (fst x)) = fst (snd x)" if "x \<in> set qs" for x
    using evq_timersD(6) [OF inv that] by (auto simp: tq_holds_def split: prod.splits)
  show qs: "qs = A @ B" using pl by (auto simp: tq_place_def split: if_splits)
  show "msec (tqs w t) \<noteq> ms" if "hdp (map fst B) None = Some t" for t
  proof -
    from that obtain y B' where "B = y # B'" "fst y = t" by (cases B) auto
    with msx [of y] qs ms show ?thesis by auto
  qed
  show "timeout_lookup q ms w = Some (lastp (map fst A) None, hdp (map fst B) None)"
  proof (cases "tq_map_fn (evqs w q)")
    case True
    then have "tq_map (evqs w q) ms = None"
      using evq_timersD(10) [OF inv] ms by (simp add: map_of_eq_None_iff image_image)
    with True pl evq_timersD(2) [OF inv] show ?thesis
      by (auto simp: timeout_lookup_def levq_timeout_map_def tq_place_def)
  next
    case False
    with timeout_search_spec [OF chain_slist [OF evq_timersD(1) [OF inv]] msx, of ms None] pl
      evq_timersD(2) [OF inv] show ?thesis by (auto simp: timeout_lookup_def tq_place_def)
  qed
  show "(\<forall>x \<in> set A. fst (snd x) \<le> ms) \<and> (\<forall>x \<in> set B. ms \<le> fst (snd x))"
    if nm: "\<not> tq_map_fn (evqs w q)"
  proof -
    have A: "\<forall>x \<in> set A. fst (snd x) < ms" using pl nm
      by (auto simp: tq_place_def dest: set_takeWhileD)
    have "B \<noteq> [] \<Longrightarrow> ms \<le> fst (snd (hd B))"
      using pl nm hd_dropWhile [of "\<lambda>x. fst (snd x) < ms" qs] by (auto simp: tq_place_def not_less)
    moreover have "sorted (map (\<lambda>x. fst (snd x)) B)"
      using evq_timersD(11) [OF inv nm] qs by (simp add: sorted_append)
    ultimately have "\<forall>x \<in> set B. ms \<le> fst (snd x)" by (cases B) auto
    with A show ?thesis by auto
  qed
qed

text \<open>
  \<open>timeout_add\<close>: the event joins the end of the queue of its period, a new queue is made
  of a free cell when there is none, and without a free cell nothing changes.
\<close>

lemma timeout_add_append:
  assumes inv: "evq_timers w q (A @ (t, ms, es) # B) fs" and ev: "ev_evq (events w ev) = Some q"
  shows "timeout_add ev ms now w = Some (append_store ev t (wrap32 (now + ms)) (last es) w, 0)"
proof -
  obtain pv where lk: "timeout_lookup q ms w = Some (pv, Some t)"
    using timeout_lookup_found [OF inv] by blast
  note h = evq_timers_at(1) [OF inv]
  then have "msec (tqs w t) = ms" "ev_tail (tqs w t) = Some (last es)" by (auto simp: tq_holds_def)
  then show ?thesis by (simp add: timeout_add_def ev lk append_store_def)
qed

lemma timeout_add_new:
  assumes inv: "evq_timers w q qs (a # fs)" and ms: "ms \<notin> (\<lambda>x. fst (snd x)) ` set qs"
    and pl: "tq_place (tq_map_fn (evqs w q)) ms qs = (A, B)" and ev: "ev_evq (events w ev) = Some q"
  shows "timeout_add ev ms now w =
    Some (new_store q ev a ms (wrap32 (now + ms)) (lastp (map fst A) None) (hdp (map fst B) None) w, 0)"
proof -
  note lk = timeout_lookup_new [OF inv ms pl]
  have "hdp (map fst B) None = None \<or> msec (tqs w (the (hdp (map fst B) None))) \<noteq> ms"
    using lk(3) by (cases "hdp (map fst B) None") auto
  then show ?thesis using evq_timersD(8) [OF inv]
    by (simp add: timeout_add_def ev lk(1) new_store_def Let_def)
qed

lemma timeout_add_full:
  assumes inv: "evq_timers w q qs []" and ms: "ms \<notin> (\<lambda>x. fst (snd x)) ` set qs"
    and ev: "ev_evq (events w ev) = Some q"
  shows "timeout_add ev ms now w = Some (w, -1)"
proof -
  obtain A B where pl: "tq_place (tq_map_fn (evqs w q)) ms qs = (A, B)" by fastforce
  note lk = timeout_lookup_new [OF inv ms pl]
  have "hdp (map fst B) None = None \<or> msec (tqs w (the (hdp (map fst B) None))) \<noteq> ms"
    using lk(3) by (cases "hdp (map fst B) None") auto
  then show ?thesis using evq_timersD(8) [OF inv]
    by (simp add: timeout_add_def ev lk(1) Let_def)
qed

lemma timeout_add_spec:
  assumes inv: "evq_timers w q qs fs" and ev: "ev_evq (events w ev) = Some q" "ev \<notin> set (tqv_events qs)"
  shows "\<exists>w' res. timeout_add ev ms now w = Some (w', res) \<and>
    (if ms \<in> (\<lambda>x. fst (snd x)) ` set qs
     then res = 0 \<and> evq_timers w' q (tqv_append ev ms qs) fs
     else case fs of
         [] \<Rightarrow> res = -1 \<and> w' = w
       | a # fs' \<Rightarrow> res = 0 \<and> evq_timers w' q (tqv_new (tq_map_fn (evqs w q)) a ev ms qs) fs') \<and>
    timer_frame w w' \<and>
    (\<forall>e. timeout_at (events w' e) =
       (if res = 0 \<and> e = ev then wrap32 (now + ms) else timeout_at (events w e)))"
proof (cases "ms \<in> (\<lambda>x. fst (snd x)) ` set qs")
  case True
  then obtain A t es B where qs: "qs = A @ (t, ms, es) # B"
    by (metis (no_types, lifting) imageE prod.collapse split_list)
  have "ms \<notin> (\<lambda>x. fst (snd x)) ` set A" using evq_timersD(4) [OF inv] qs by auto
  then have "tqv_append ev ms qs = A @ (t, ms, es @ [ev]) # B"
    unfolding qs by (rule tqv_append_split)
  with append_store_timers [OF inv [unfolded qs] ev(1) ev(2) [unfolded qs]]
    timeout_add_append [OF inv [unfolded qs] ev(1), of now] True
  show ?thesis by auto
next
  case False
  show ?thesis
  proof (cases fs)
    case Nil
    with timeout_add_full [OF inv [unfolded Nil] False ev(1)] False show ?thesis by simp
  next
    case (Cons a fs')
    obtain A B where pl: "tq_place (tq_map_fn (evqs w q)) ms qs = (A, B)" by fastforce
    note lk = timeout_lookup_new [OF inv False pl]
    have "evq_timers (new_store q ev a ms (wrap32 (now + ms)) (lastp (map fst A) None)
        (hdp (map fst B) None) w) q (A @ (a, ms, [ev]) # B) fs'"
      by (rule new_store_timers) (use inv lk ev False Cons in auto)
    with timeout_add_new [OF inv [unfolded Cons] False pl ev(1), of now] False Cons pl
    show ?thesis by (auto simp: tqv_new_def)
  qed
qed

section \<open>The nearest deadline\<close>

text \<open>The deadline at the head of a queue.\<close>

abbreviation head_deadline :: "evq_store \<Rightarrow> tqv \<Rightarrow> int" where
  "head_deadline w x \<equiv> timeout_at (events w (hd (snd (snd x))))"

lemma timeout_get_loop_spec:
  assumes "slist (\<lambda>t. tq_next (tqs w t)) (map fst qs) None" and "qs \<noteq> []"
    and "\<And>x. x \<in> set qs \<Longrightarrow> ev_head (tqs w (fst x)) = Some (hd (snd (snd x)))"
  shows "timeout_get_loop w (hdp (map fst qs) None) mn = Some (Min (insert mn (head_deadline w ` set qs)))"
  using assms
proof (induction qs arbitrary: mn)
  case Nil
  then show ?case by simp
next
  case (Cons x qs)
  have h: "ev_head (tqs w (fst x)) = Some (hd (snd (snd x)))" using Cons.prems(3) by simp
  show ?case
  proof (cases "qs = []")
    case True
    with Cons.prems h show ?thesis by (subst timeout_get_loop.simps) (auto simp: min_def)
  next
    case False
    let ?mn = "if head_deadline w x < mn then head_deadline w x else mn"
    have "timeout_get_loop w (hdp (map fst qs) None) ?mn
        = Some (Min (insert ?mn (head_deadline w ` set qs)))"
      by (rule Cons.IH) (use Cons.prems False in auto)
    moreover have "hdp (map fst qs) None \<noteq> None" using False by (cases qs) auto
    moreover have "Min (insert ?mn (head_deadline w ` set qs))
        = Min (insert mn (head_deadline w ` set (x # qs)))"
      using False by (auto simp: Min_insert min_def)
    ultimately show ?thesis using h Cons.prems(1)
      by (subst timeout_get_loop.simps) (auto simp: Let_def simp del: Min_insert)
  qed
qed

lemma timeout_get_spec:
  assumes inv: "evq_timers w q qs fs" and ne: "qs \<noteq> []"
  shows "timeout_get w (evq_tq (evqs w q)) mn now =
    Some (let d = Min ((if mn = TIMEOUT_INFINITE then {} else {wrap32 (mn + now)})
              \<union> head_deadline w ` set qs) - now
          in if d < 0 then 0 else if d > MAX_TIMEOUT then MAX_TIMEOUT else d)"
proof -
  have hd: "ev_head (tqs w (fst x)) = Some (hd (snd (snd x)))" if "x \<in> set qs" for x
    using evq_timersD(6) [OF inv that] by (auto simp: tq_holds_def split: prod.splits)
  define D where "D = head_deadline w ` set qs"
  note loop = timeout_get_loop_spec [OF chain_slist [OF evq_timersD(1) [OF inv]] ne hd,
    folded D_def evq_timersD(2) [OF inv]]
  from ne obtain x qs' where qs: "qs = x # qs'" by (cases qs) auto
  have "evq_tq (evqs w q) = Some (fst x)" using evq_timersD(2) [OF inv] qs by simp
  moreover have "insert (head_deadline w x) D = D" using qs by (auto simp: D_def)
  moreover have "ev_head (tqs w (fst x)) = Some (hd (snd (snd x)))" using hd qs by simp
  ultimately show ?thesis
    unfolding D_def [symmetric]
    using loop [of "head_deadline w x"] loop [of "wrap32 (mn + now)"]
    by (simp add: timeout_get_def Let_def)
qed

section \<open>Expiry\<close>

text \<open>The inner loop marks the expired events and stacks them on the ready list.\<close>

fun expire_mark :: "int \<Rightarrow> ptr \<Rightarrow> nat list \<Rightarrow> evq_store \<Rightarrow> evq_store" where
  "expire_mark at rdy [] w = w"
| "expire_mark at rdy (e # es) w =
     expire_mark at (Some e) es
       (ev_upd e (\<lambda>r. r\<lparr>ev_flags := ev_flags r OR (EVENT_ACTIVE OR EVENT_TIMEOUT_RES),
          timeout_at := at, next_ready := rdy\<rparr>) w)"

lemma timeout_expire_spec:
  assumes "slist (\<lambda>e. ev_next (events w e)) (ev # es) None" and "distinct (ev # es)"
  shows "timeout_expire lim at ev rdy w =
    (let k = ev # takeWhile (\<lambda>e. timeout_at (events w e) < lim) es
     in Some (expire_mark at rdy k w, Some (last k),
          hdp (dropWhile (\<lambda>e. timeout_at (events w e) < lim) es) None))"
  using assms
proof (induction es arbitrary: ev rdy w)
  case Nil
  then show ?case by (subst timeout_expire.simps) simp
next
  case (Cons n es)
  let ?w = "ev_upd ev (\<lambda>r. r\<lparr>ev_flags := ev_flags r OR (EVENT_ACTIVE OR EVENT_TIMEOUT_RES),
      timeout_at := at, next_ready := rdy\<rparr>) w"
  have nx: "ev_next (events ?w ev) = Some n" using Cons.prems(1) by simp
  have same: "timeout_at (events ?w e) = timeout_at (events w e)" if "e \<in> set (n # es)" for e
    using that Cons.prems(2) by auto
  show ?case
  proof (cases "timeout_at (events w n) < lim")
    case True
    have "slist (\<lambda>e. ev_next (events ?w e)) (n # es) None = slist (\<lambda>e. ev_next (events w e)) (n # es) None"
      by (rule slist_cong) simp
    then have "timeout_expire lim at n (Some ev) ?w =
        (let k = n # takeWhile (\<lambda>e. timeout_at (events ?w e) < lim) es
         in Some (expire_mark at (Some ev) k ?w, Some (last k),
              hdp (dropWhile (\<lambda>e. timeout_at (events ?w e) < lim) es) None))"
      by (intro Cons.IH) (use Cons.prems in simp_all)
    moreover have "takeWhile (\<lambda>e. timeout_at (events ?w e) < lim) es
        = takeWhile (\<lambda>e. timeout_at (events w e) < lim) es"
      by (rule takeWhile_cong) (use Cons.prems(2) in auto)
    moreover have "dropWhile (\<lambda>e. timeout_at (events ?w e) < lim) es
        = dropWhile (\<lambda>e. timeout_at (events w e) < lim) es"
      by (rule dropWhile_cong) (use Cons.prems(2) in auto)
    ultimately show ?thesis
      using True nx same [of n] by (subst timeout_expire.simps) (simp add: Let_def)
  next
    case False
    with nx same [of n] show ?thesis by (subst timeout_expire.simps) (simp add: Let_def)
  qed
qed

lemma expire_mark_simps [simp]:
  "ev_tq (events (expire_mark at rdy k w) e) = ev_tq (events w e)"
  "ev_evq (events (expire_mark at rdy k w) e) = ev_evq (events w e)"
  "ev_prev (events (expire_mark at rdy k w) e) = ev_prev (events w e)"
  "ev_next (events (expire_mark at rdy k w) e) = ev_next (events w e)"
  "ev_id (events (expire_mark at rdy k w) e) = ev_id (events w e)"
  "tqs (expire_mark at rdy k w) = tqs w" "evqs (expire_mark at rdy k w) = evqs w"
  "e \<notin> set k \<Longrightarrow> events (expire_mark at rdy k w) e = events w e"
  by (induction k arbitrary: rdy w) auto

lemma expire_mark_at [simp]:
  "timeout_at (events (expire_mark at rdy k w) e) = (if e \<in> set k then at else timeout_at (events w e))"
  by (induction k arbitrary: rdy w) auto

lemma expire_mark_flags:
  "distinct k \<Longrightarrow> e \<in> set k \<Longrightarrow>
   ev_flags (events (expire_mark at rdy k w) e) = ev_flags (events w e) OR (EVENT_ACTIVE OR EVENT_TIMEOUT_RES)"
  by (induction k arbitrary: rdy w) auto

lemma expire_mark_ready:
  assumes "slist (\<lambda>e. next_ready (events w e)) rs None" and "distinct k" and "set k \<inter> set rs = {}"
  shows "slist (\<lambda>e. next_ready (events (expire_mark at (hdp rs None) k w) e)) (rev k @ rs) None"
  using assms
proof (induction k arbitrary: rs w)
  case Nil
  then show ?case by simp
next
  case (Cons e k)
  let ?w = "ev_upd e (\<lambda>r. r\<lparr>ev_flags := ev_flags r OR (EVENT_ACTIVE OR EVENT_TIMEOUT_RES),
      timeout_at := at, next_ready := hdp rs None\<rparr>) w"
  have "slist (\<lambda>x. next_ready (events ?w x)) rs None = slist (\<lambda>x. next_ready (events w x)) rs None"
    by (rule slist_cong) (use Cons.prems(3) in auto)
  with Cons.prems have "slist (\<lambda>x. next_ready (events ?w x)) (e # rs) None" by simp
  then have "slist (\<lambda>x. next_ready (events (expire_mark at (hdp (e # rs) None) k ?w) x))
      (rev k @ e # rs) None"
    by (intro Cons.IH) (use Cons.prems in auto)
  then show ?case by simp
qed

text \<open>Requeueing: the expired events \<open>k\<close> go behind the others.\<close>

definition recycle_store :: "nat \<Rightarrow> nat \<Rightarrow> nat \<Rightarrow> nat \<Rightarrow> nat \<Rightarrow> evq_store \<Rightarrow> evq_store" where
  "recycle_store t h ev lt l w =
     ev_upd l (\<lambda>e. e\<lparr>ev_next := None\<rparr>)
      (tq_upd t (\<lambda>r. r\<lparr>ev_tail := Some l\<rparr>)
        (ev_upd h (\<lambda>e. e\<lparr>ev_prev := Some lt\<rparr>)
          (ev_upd lt (\<lambda>e. e\<lparr>ev_next := Some h\<rparr>)
            (ev_upd ev (\<lambda>e. e\<lparr>ev_prev := None\<rparr>) (tq_upd t (\<lambda>r. r\<lparr>ev_head := Some ev\<rparr>) w)))))"

lemma recycle_store_simps [simp]:
  "ev_tq (events (recycle_store t h ev lt l w) e) = ev_tq (events w e)"
  "ev_evq (events (recycle_store t h ev lt l w) e) = ev_evq (events w e)"
  "next_ready (events (recycle_store t h ev lt l w) e) = next_ready (events w e)"
  "timeout_at (events (recycle_store t h ev lt l w) e) = timeout_at (events w e)"
  "ev_flags (events (recycle_store t h ev lt l w) e) = ev_flags (events w e)"
  "ev_next (events (recycle_store t h ev lt l w) e)
     = (if e = l then None else if e = lt then Some h else ev_next (events w e))"
  "ev_prev (events (recycle_store t h ev lt l w) e)
     = (if e = h then Some lt else if e = ev then None else ev_prev (events w e))"
  "tqs (recycle_store t h ev lt l w) a
     = (if a = t then (tqs w t)\<lparr>ev_head := Some ev, ev_tail := Some l\<rparr> else tqs w a)"
  "evqs (recycle_store t h ev lt l w) = evqs w"
  "e \<noteq> h \<Longrightarrow> e \<noteq> ev \<Longrightarrow> e \<noteq> lt \<Longrightarrow> e \<noteq> l \<Longrightarrow>
     events (recycle_store t h ev lt l w) e = events w e"
  by (simp_all add: recycle_store_def)

lemma timeout_recycle_eq:
  "ev_tail (tqs w t) = Some lt \<Longrightarrow>
   timeout_recycle t h ev (Some l) w = Some (recycle_store t h ev lt l w)"
  by (simp add: timeout_recycle_def recycle_store_def Let_def)

lemma recycle_store_holds:
  assumes h: "tq_holds w q (t, m, k @ r)" and d: "distinct (k @ r)" and ne: "k \<noteq> []" "r \<noteq> []"
  shows "tq_holds (recycle_store t (hd k) (hd r) (last r) (last k) w) q (t, m, r @ k)"
proof -
  let ?w = "recycle_store t (hd k) (hd r) (last r) (last k) w"
  let ?nx = "\<lambda>e. ev_next (events ?w e)" and ?pv = "\<lambda>e. ev_prev (events ?w e)"
  have dis: "set k \<inter> set r = {}" using d by simp
  have neq: "hd k \<noteq> hd r" "last k \<noteq> last r" "hd r \<notin> set k" "last r \<notin> set k" "hd k \<notin> set r" "last k \<notin> set r"
    using dis ne hd_in_set last_in_set by (metis disjoint_iff)+
  have ch: "chain (\<lambda>e. ev_next (events w e)) (\<lambda>e. ev_prev (events w e)) None k (hdp r None)"
    "chain (\<lambda>e. ev_next (events w e)) (\<lambda>e. ev_prev (events w e)) (lastp k None) r None"
    using h by (simp_all add: tq_holds_def)
  have "chain ?nx ?pv None r (Some (hd k))"
    by (rule chain_relink [OF ch(2)]) (use d neq in auto)
  moreover have "chain ?nx ?pv (Some (last r)) k None"
    by (rule chain_relink [OF ch(1)]) (use d neq in auto)
  ultimately show ?thesis
    using h ne by (auto simp: tq_holds_def lastp_last hdp_hd)
qed

text \<open>What becomes of an event that expires, and of one that does not.\<close>

definition expired_frame :: "(nat \<Rightarrow> bool) \<Rightarrow> (nat \<Rightarrow> int) \<Rightarrow> evq_store \<Rightarrow> evq_store \<Rightarrow> bool" where
  "expired_frame X at w w' \<longleftrightarrow> evqs w' = evqs w \<and>
     (\<forall>e. ev_flags (events w' e) =
          (if X e then ev_flags (events w e) OR (EVENT_ACTIVE OR EVENT_TIMEOUT_RES)
           else ev_flags (events w e)) \<and>
        timeout_at (events w' e) = (if X e then at e else timeout_at (events w e)) \<and>
        (\<not> X e \<longrightarrow> next_ready (events w' e) = next_ready (events w e)))"

lemma timeout_process_queue_spec:
  fixes now :: int
  assumes inv: "evq_timers w q (A @ (t, m, es) # B) fs"
    and rs: "slist (\<lambda>e. next_ready (events w e)) rs None"
  defines "P \<equiv> \<lambda>e. timeout_at (events w e) < now + MIN_TIMEOUT"
  assumes dis: "set (takeWhile P es) \<inter> set rs = {}"
  shows "\<exists>w'. timeout_process_queue t (hdp rs None) now w
      = Some (w', hdp (rev (takeWhile P es) @ rs) None)
    \<and> evq_timers w' q (A @ (t, m, dropWhile P es @ takeWhile P es) # B) fs
    \<and> slist (\<lambda>e. next_ready (events w' e)) (rev (takeWhile P es) @ rs) None
    \<and> expired_frame (\<lambda>e. e \<in> set (takeWhile P es)) (\<lambda>_. wrap32 (now + m)) w w'"
proof -
  note h = evq_timers_at(1) [OF inv] and d = evq_timers_at(2) [OF inv]
  from h obtain x es' where es: "es = x # es'" by (cases es) (auto simp: tq_holds_def)
  have hd: "ev_head (tqs w t) = Some x" "msec (tqs w t) = m" "ev_tail (tqs w t) = Some (last es)"
    and ch: "chain (\<lambda>e. ev_next (events w e)) (\<lambda>e. ev_prev (events w e)) None es None"
    using h es by (auto simp: tq_holds_def)
  show ?thesis
  proof (cases "P x")
    case False
    then show ?thesis using inv rs hd es
      by (auto simp: timeout_process_queue_def P_def expired_frame_def)
  next
    case True
    have lt: "timeout_at (events w x) < now + MIN_TIMEOUT" using True by (simp add: P_def)
    let ?k = "takeWhile P es" and ?r = "dropWhile P es"
    let ?m = "expire_mark (wrap32 (now + m)) (hdp rs None) ?k w"
    have k: "?k \<noteq> []" "hd ?k = x" "set ?k \<subseteq> set es" using True es by (auto dest: set_takeWhileD)
    have kr: "es = ?k @ ?r" by simp
    then have dk: "distinct (?k @ ?r)" using d by metis
    have mark: "slist (\<lambda>e. next_ready (events ?m e)) (rev ?k @ rs) None"
      by (rule expire_mark_ready [OF rs _ dis]) (use dk in simp)
    have fr: "expired_frame (\<lambda>e. e \<in> set ?k) (\<lambda>_. wrap32 (now + m)) w ?m"
      using dk by (simp add: expired_frame_def expire_mark_flags)
    have oth: "events ?m e = events w e" if "e \<notin> set es" for e
      by (rule expire_mark_simps(8)) (use that k(3) in blast)
    have hm: "tq_holds ?m q (t, m, es)" by (rule tq_holds_cong [OF h]) simp_all
    have run: "timeout_expire (now + MIN_TIMEOUT) (wrap32 (now + m)) x (hdp rs None) w
        = Some (?m, Some (last ?k), hdp ?r None)"
      using timeout_expire_spec [OF chain_slist [OF ch [unfolded es]] d [unfolded es]] True es
      by (simp add: P_def Let_def)
    show ?thesis
    proof (cases "?r = []")
      case r: True
      with kr have "?k = es" by simp
      then have rk: "?r @ ?k = es" using r by (simp only: append_Nil)
      have hr: "hdp ?r None = None" using r by (simp only: hdp_simps)
      have "evq_timers ?m q (A @ (t, m, es) # B) fs"
        by (rule evq_timers_one [OF inv _ _ _ _ _ _ _ _ _ hm])
           (use oth d evq_timers_at(3,6) [OF inv] in auto)
      moreover have "timeout_process_queue t (hdp rs None) now w
          = Some (?m, hdp (rev ?k @ rs) None)"
        using lt hd k(1) by (simp add: timeout_process_queue_def run [unfolded hr] hdp_hd hd_rev)
      ultimately show ?thesis using mark fr unfolding rk by blast
    next
      case r: False
      let ?w = "recycle_store t (hd ?k) (hd ?r) (last ?r) (last ?k) ?m"
      have in_es: "hd ?k \<in> set es" "hd ?r \<in> set es" "last ?r \<in> set es" "last ?k \<in> set es"
        using k r kr hd_in_set last_in_set by (metis Un_iff set_append)+
      have "tq_holds ?w q (t, m, ?r @ ?k)"
        by (rule recycle_store_holds [OF _ dk k(1) r]) (use hm in simp)
      moreover have "events ?w e = events w e" if "e \<notin> set es" for e
        using that in_es oth [OF that] by (subst recycle_store_simps(10)) auto
      moreover have "set (?r @ ?k) = set es" using kr by (metis set_append sup_commute)
      moreover have "distinct (?r @ ?k)" using dk by (metis distinct_append inf_commute)
      ultimately have "evq_timers ?w q (A @ (t, m, ?r @ ?k) # B) fs"
        by (intro evq_timers_one [OF inv]) (use k evq_timers_at(3,6) [OF inv] in simp_all)
      moreover have "timeout_recycle t x (hd ?r) (Some (last ?k)) ?m = Some ?w"
        using timeout_recycle_eq [of ?m t "last ?r"] hd(3) r k(2) kr last_appendR [OF r, of ?k] by simp
      then have "timeout_process_queue t (hdp rs None) now w = Some (?w, hdp (rev ?k @ rs) None)"
        using lt hd k(1) by (simp add: timeout_process_queue_def run [unfolded hdp_hd [OF r]] hdp_hd hd_rev)
      moreover have "expired_frame (\<lambda>e. e \<in> set ?k) (\<lambda>_. wrap32 (now + m)) w ?w"
        using fr by (simp add: expired_frame_def)
      moreover have "slist (\<lambda>e. next_ready (events ?w e)) (rev ?k @ rs) None" using mark by simp
      ultimately show ?thesis by blast
    qed
  qed
qed

text \<open>The lists after \<open>timeout_process\<close>, and the events that expired, in order.\<close>

definition is_expired :: "evq_store \<Rightarrow> int \<Rightarrow> nat \<Rightarrow> bool" where
  "is_expired w now e \<longleftrightarrow> timeout_at (events w e) < now + MIN_TIMEOUT"

definition tqv_rotate :: "evq_store \<Rightarrow> int \<Rightarrow> tqv \<Rightarrow> tqv" where
  "tqv_rotate w now x =
     (case x of (t, m, es) \<Rightarrow>
        (t, m, dropWhile (is_expired w now) es @ takeWhile (is_expired w now) es))"

definition tqv_expired :: "evq_store \<Rightarrow> int \<Rightarrow> tqv list \<Rightarrow> nat list" where
  "tqv_expired w now qs = concat (map (\<lambda>x. takeWhile (is_expired w now) (snd (snd x))) qs)"

definition tq_period :: "evq_store \<Rightarrow> nat \<Rightarrow> int" where
  "tq_period w e = (case ev_tq (events w e) of Some t \<Rightarrow> msec (tqs w t) | None \<Rightarrow> 0)"

lemma tqv_rotate_cong:
  "(\<And>e. e \<in> set (snd (snd x)) \<Longrightarrow> timeout_at (events w' e) = timeout_at (events w e)) \<Longrightarrow>
   tqv_rotate w' now x = tqv_rotate w now x \<and>
   takeWhile (is_expired w' now) (snd (snd x)) = takeWhile (is_expired w now) (snd (snd x))"
  by (cases x) (auto simp: tqv_rotate_def is_expired_def cong: takeWhile_cong dropWhile_cong)

lemma tq_period_eq:
  "evq_timers w q qs fs \<Longrightarrow> (t, m, es) \<in> set qs \<Longrightarrow> e \<in> set es \<Longrightarrow> tq_period w e = m"
  using evq_timersD(6) [of w q qs fs "(t, m, es)"] by (simp add: tq_period_def tq_holds_def)

lemma timeout_process_spec:
  assumes "evq_timers w q (A @ B) fs" and "slist (\<lambda>e. next_ready (events w e)) rs None"
    and "set (tqv_expired w now B) \<inter> set rs = {}"
  shows "\<exists>w'. timeout_process (hdp (map fst B) None) (hdp rs None) now w
      = Some (w', hdp (rev (tqv_expired w now B) @ rs) None)
    \<and> evq_timers w' q (A @ map (tqv_rotate w now) B) fs
    \<and> slist (\<lambda>e. next_ready (events w' e)) (rev (tqv_expired w now B) @ rs) None
    \<and> expired_frame (\<lambda>e. e \<in> set (tqv_expired w now B)) (\<lambda>e. wrap32 (now + tq_period w e)) w w'"
  using assms
proof (induction B arbitrary: A w rs)
  case Nil
  then show ?case
    by (subst timeout_process.simps) (auto simp: tqv_expired_def expired_frame_def)
next
  case (Cons x B)
  obtain t m es where x: "x = (t, m, es)" by (cases x)
  let ?k = "takeWhile (is_expired w now) es" and ?r = "dropWhile (is_expired w now) es"
  have P: "(\<lambda>e. timeout_at (events w e) < now + MIN_TIMEOUT) = is_expired w now"
    by (simp add: is_expired_def fun_eq_iff)
  have inv: "evq_timers w q (A @ (t, m, es) # B) fs" using Cons.prems(1) x by simp
  have exp: "tqv_expired w now (x # B) = ?k @ tqv_expired w now B" by (simp add: tqv_expired_def x)
  have "set ?k \<inter> set rs = {}" using Cons.prems(3) exp by auto
  from timeout_process_queue_spec [OF inv Cons.prems(2), of now, unfolded P, OF this]
  obtain w1 where one: "timeout_process_queue t (hdp rs None) now w = Some (w1, hdp (rev ?k @ rs) None)"
    and inv1: "evq_timers w1 q ((A @ [tqv_rotate w now x]) @ B) fs"
    and rs1: "slist (\<lambda>e. next_ready (events w1 e)) (rev ?k @ rs) None"
    and fr1: "expired_frame (\<lambda>e. e \<in> set ?k) (\<lambda>_. wrap32 (now + m)) w w1"
    by (auto simp: x tqv_rotate_def)
  have ke: "set ?k \<subseteq> set es" by (auto dest: set_takeWhileD)
  have disB: "set es \<inter> set (tqv_events B) = {}" using evq_timers_at(3) [OF inv] by auto
  have same: "timeout_at (events w1 e) = timeout_at (events w e)" if "y \<in> set B" "e \<in> set (snd (snd y))" for y e
  proof -
    have "e \<in> set (tqv_events B)" using that by auto
    then have "e \<notin> set ?k" using disB ke by blast
    then show ?thesis using fr1 by (simp add: expired_frame_def)
  qed
  have rot: "tqv_rotate w1 now y = tqv_rotate w now y \<and>
      takeWhile (is_expired w1 now) (snd (snd y)) = takeWhile (is_expired w now) (snd (snd y))"
    if "y \<in> set B" for y
    by (rule tqv_rotate_cong) (rule same [OF that])
  have expB: "tqv_expired w1 now B = tqv_expired w now B" and rotB: "map (tqv_rotate w1 now) B = map (tqv_rotate w now) B"
    using rot by (auto simp: tqv_expired_def cong: map_cong)
  let ?eB = "tqv_expired w now B"
  have eB: "set ?eB \<subseteq> set (tqv_events B)" by (auto simp: tqv_expired_def dest: set_takeWhileD)
  have "set (tqv_expired w1 now B) \<inter> set (rev ?k @ rs) = {}"
    using eB ke disB Cons.prems(3) unfolding expB exp by auto
  from Cons.IH [OF inv1 rs1 this, unfolded expB rotB] obtain w' where
    rest: "timeout_process (hdp (map fst B) None) (hdp (rev ?k @ rs) None) now w1
      = Some (w', hdp (rev ?eB @ rev ?k @ rs) None)"
    and inv': "evq_timers w' q ((A @ [tqv_rotate w now x]) @ map (tqv_rotate w now) B) fs"
    and rs': "slist (\<lambda>e. next_ready (events w' e)) (rev ?eB @ rev ?k @ rs) None"
    and fr': "expired_frame (\<lambda>e. e \<in> set ?eB) (\<lambda>e. wrap32 (now + tq_period w1 e)) w1 w'"
    by blast
  have nx: "tq_next (tqs w1 t) = hdp (map fst B) None"
    using evq_timersD(1) [OF inv1] by (simp add: x tqv_rotate_def)
  have run: "timeout_process (hdp (map fst (x # B)) None) (hdp rs None) now w
      = Some (w', hdp (rev (tqv_expired w now (x # B)) @ rs) None)"
    unfolding exp using one nx rest by (subst timeout_process.simps) (simp add: x)
  have p1: "tq_period w1 e = tq_period w e" if "e \<in> set ?eB" for e
  proof -
    have "e \<in> set (tqv_events B)" using that eB by blast
    then obtain y where "y \<in> set B" "e \<in> set (snd (snd y))" by auto
    then obtain t' m' xs where y: "(t', m', xs) \<in> set B" "e \<in> set xs" by (metis prod.collapse)
    with tq_period_eq [OF inv1, of t' m' xs e] tq_period_eq [OF inv, of t' m' xs e] show ?thesis by simp
  qed
  have pk: "tq_period w e = m" if "e \<in> set ?k" for e
    using tq_period_eq [OF inv, of t m es e] ke that by auto
  have "expired_frame (\<lambda>e. e \<in> set (tqv_expired w now (x # B)))
      (\<lambda>e. wrap32 (now + tq_period w e)) w w'"
    unfolding expired_frame_def exp
  proof (intro conjI allI)
    show "evqs w' = evqs w" using fr1 fr' by (simp add: expired_frame_def)
    fix e
    have "e \<in> set ?k \<Longrightarrow> e \<notin> set ?eB" using ke eB disB by blast
    with fr1 fr' p1 pk show
      "ev_flags (events w' e) = (if e \<in> set (?k @ ?eB)
         then ev_flags (events w e) OR (EVENT_ACTIVE OR EVENT_TIMEOUT_RES) else ev_flags (events w e))"
      "timeout_at (events w' e) = (if e \<in> set (?k @ ?eB) then wrap32 (now + tq_period w e)
         else timeout_at (events w e))"
      "e \<notin> set (?k @ ?eB) \<longrightarrow> next_ready (events w' e) = next_ready (events w e)"
      by (auto simp: expired_frame_def)
  qed
  with run inv' rs' show ?case by (auto simp: exp)
qed

section \<open>Properties\<close>

text \<open>A queue with one timeout queue of two events and a free cell, for examples.\<close>

definition timer_demo :: evq_store where
  "timer_demo = evq_store0\<lparr>
     events := (\<lambda>_. event0)(
       5 := event0\<lparr>ev_next := Some 6, ev_tq := Some 7, ev_evq := Some 0, timeout_at := 100\<rparr>,
       6 := event0\<lparr>ev_prev := Some 5, ev_tq := Some 7, ev_evq := Some 0, timeout_at := 130\<rparr>,
       9 := event0\<lparr>ev_evq := Some 0\<rparr>),
     tqs := (\<lambda>_. timeout_queue0)(
       7 := timeout_queue0\<lparr>ev_head := Some 5, ev_tail := Some 6, msec := 100\<rparr>),
     evqs := (\<lambda>_. event_queue0)(
       0 := event_queue0\<lparr>evq_tq := Some 7, ev_free := Some 8, tq_map_fn := True,
              tq_map := (\<lambda>_. None)(100 := Some 7)\<rparr>)\<rparr>"

lemma timer_demo_timers: "evq_timers timer_demo 0 [(7, 100, [5, 6])] [8]"
  by (simp add: evq_timers_def tq_holds_def timer_demo_def zero_defs)

text \<open>
  \<open>timeout_reset\<close> moves the event to the end of its timeout queue, gives it
  the deadline \<open>now + msec\<close> (in 32 bits) and changes no other deadline; all links of all
  queues stay well formed, whatever the position of the event.
\<close>

lemma timeout_reset_moves:
  assumes "evq_timers w q (A @ (t, m, as @ ev # bs) # B) fs"
  shows "\<exists>w'. timeout_reset ev now w = Some w' \<and>
    evq_timers w' q (A @ (t, m, as @ bs @ [ev]) # B) fs \<and>
    (\<forall>e. timeout_at (events w' e) = (if e = ev then wrap32 (now + m) else timeout_at (events w e)))"
  using timeout_reset_spec [OF assms, of now] by blast

lemma timeout_reset_moves_witness:
  "\<exists>w'. timeout_reset 5 200 timer_demo = Some w' \<and> evq_timers w' 0 [(7, 100, [6, 5])] [8]"
  using timeout_reset_moves [of timer_demo 0 "[]" 7 100 "[]" 5 "[6]" "[]" "[8]" 200]
    timer_demo_timers by auto

text \<open>
  Claim C24: \<open>timeout_del\<close> takes the event out of its timeout queue; with the last event
  the timeout queue itself leaves the list and the map, and its cell becomes the first free
  cell. Nothing else changes, and an event without a timeout is left alone.
\<close>

theorem timeout_del_removes:
  assumes "evq_timers w q (A @ (t, m, as @ ev # bs) # B) fs"
  shows "\<exists>w'. timeout_del ev w = Some w' \<and> ev_tq (events w' ev) = None \<and>
    (if as @ bs = [] then evq_timers w' q (A @ B) (t # fs)
     else evq_timers w' q (A @ (t, m, as @ bs) # B) fs) \<and>
    (\<forall>e. timeout_at (events w' e) = timeout_at (events w e) \<and> ev_flags (events w' e) = ev_flags (events w e)) \<and>
    timeout_del ev w' = Some w'"
proof (cases "as @ bs = []")
  case True
  then have "evq_timers w q (A @ (t, m, [ev]) # B) fs" using assms by simp
  from timeout_del_last [OF this] True timeout_del_queue_simps(19) [of "ev_upd ev (\<lambda>e. e\<lparr>ev_tq := None\<rparr>) w" q t]
  show ?thesis by (simp add: timer_frame_def timeout_del_def [of _ "timeout_del_queue _ _ _"])
next
  case False
  from timeout_del_middle [OF assms False] False
    unlink_store_simps(12) [of w ev t "lastp as None" "hdp bs None"]
  show ?thesis by (auto simp: timer_frame_def timeout_del_def [of _ "unlink_store _ _ _ _ _"])
qed

theorem timeout_del_removes_witness:
  "\<exists>w'. timeout_del 5 timer_demo = Some w' \<and> evq_timers w' 0 [(7, 100, [6])] [8]"
  using timeout_del_removes [of timer_demo 0 "[]" 7 100 "[]" 5 "[6]" "[]" "[8]"] timer_demo_timers by auto

text \<open>
  Claim C23: \<open>timeout_add\<close> appends the event to the queue of its period, found by the
  map or by the sorted search; when there is none it makes one of the first free cell, at the
  head of the list or at its place in the sorted order; and only when there is neither does it
  fail, with -1 and without any change.
\<close>

theorem timeout_add_queues:
  assumes "evq_timers w q qs fs" and "ev_evq (events w ev) = Some q" and "ev \<notin> set (tqv_events qs)"
  shows "\<exists>w' res. timeout_add ev ms now w = Some (w', res) \<and>
    (if ms \<in> (\<lambda>x. fst (snd x)) ` set qs
     then res = 0 \<and> evq_timers w' q (tqv_append ev ms qs) fs
     else case fs of
         [] \<Rightarrow> res = -1 \<and> w' = w
       | a # fs' \<Rightarrow> res = 0 \<and> evq_timers w' q (tqv_new (tq_map_fn (evqs w q)) a ev ms qs) fs') \<and>
    (\<forall>e. timeout_at (events w' e) =
       (if res = 0 \<and> e = ev then wrap32 (now + ms) else timeout_at (events w e)))"
  using timeout_add_spec [OF assms, of ms now] by blast

theorem timeout_add_queues_witness:
  "\<exists>w'. timeout_add 9 50 200 timer_demo = Some (w', 0) \<and>
     evq_timers w' 0 [(8, 50, [9]), (7, 100, [5, 6])] [] \<and> timeout_at (events w' 9) = 250"
proof -
  have "ev_evq (events timer_demo 9) = Some 0" "tq_map_fn (evqs timer_demo 0)"
    by (simp_all add: timer_demo_def zero_defs)
  with timeout_add_queues [OF timer_demo_timers, of 9 50 200] show ?thesis
    by (auto simp: tqv_new_def tq_place_def wrap32_def)
qed

text \<open>
  Claim C25: \<open>timeout_get\<close> returns the time until the nearest deadline: the least of the
  deadlines at the heads of the timeout queues and the caller's own limit, less the current
  time, and never negative or above \<open>MAX_TIMEOUT\<close>.
\<close>

theorem timeout_get_nearest:
  assumes "evq_timers w q qs fs" and "qs \<noteq> []"
  shows "timeout_get w (evq_tq (evqs w q)) mn now =
    Some (let d = Min ((if mn = TIMEOUT_INFINITE then {} else {wrap32 (mn + now)})
              \<union> head_deadline w ` set qs) - now
          in if d < 0 then 0 else if d > MAX_TIMEOUT then MAX_TIMEOUT else d)"
  using assms by (rule timeout_get_spec)

theorem timeout_get_nearest_witness:
  "timeout_get timer_demo (Some 7) 500 40 = Some 60"
proof -
  have "evq_tq (evqs timer_demo 0) = Some 7" "head_deadline timer_demo (7, 100, [5, 6]) = 100"
    by (simp_all add: timer_demo_def zero_defs)
  with timeout_get_nearest [OF timer_demo_timers, of 500 40] show ?thesis
    by (simp add: TIMEOUT_INFINITE_def MAX_TIMEOUT_def wrap32_def)
qed

text \<open>
  The order of the deadlines: in each timeout queue they do not decrease, and none is later
  than one period from now. The operations keep this while the clock goes forward and its
  deadlines fit in 32 bits.
\<close>

definition deadlines_ok :: "evq_store \<Rightarrow> int \<Rightarrow> tqv list \<Rightarrow> bool" where
  "deadlines_ok w now qs \<longleftrightarrow>
     (\<forall>(t, m, es) \<in> set qs. sorted (map (\<lambda>e. timeout_at (events w e)) es) \<and>
        (\<forall>e \<in> set es. timeout_at (events w e) \<le> now + m))"

lemma sorted_takeWhile_filter:
  "sorted (map f es) \<Longrightarrow> takeWhile (\<lambda>e. f e < (lim :: int)) es = filter (\<lambda>e. f e < lim) es"
  by (induction es) (fastforce intro: sym [OF iffD2 [OF filter_empty_conv]])+

lemma tqv_expired_filter:
  assumes "deadlines_ok w now qs"
  shows "tqv_expired w now' qs = filter (is_expired w now') (tqv_events qs)"
proof -
  have "takeWhile (is_expired w now') (snd (snd x)) = filter (is_expired w now') (snd (snd x))"
    if "x \<in> set qs" for x
    using assms that sorted_takeWhile_filter [of "\<lambda>e. timeout_at (events w e)" _ "now' + MIN_TIMEOUT"]
    by (auto simp: deadlines_ok_def is_expired_def [abs_def])
  then show ?thesis by (simp add: tqv_expired_def filter_concat comp_def cong: map_cong)
qed

lemma deadlines_rotate:
  assumes inv: "evq_timers w q qs fs" and ok: "deadlines_ok w now0 qs" and "now0 \<le> now"
    and range: "\<And>x. x \<in> set qs \<Longrightarrow> in_int32 (now + fst (snd x))"
    and fr: "expired_frame (\<lambda>e. e \<in> set (tqv_expired w now qs)) (\<lambda>e. wrap32 (now + tq_period w e)) w w'"
  shows "deadlines_ok w' now (map (tqv_rotate w now) qs)"
proof -
  have "sorted (map (\<lambda>e. timeout_at (events w' e)) es') \<and> (\<forall>e \<in> set es'. timeout_at (events w' e) \<le> now + m)"
    if x: "(t, m, es) \<in> set qs" and es': "es' = dropWhile (is_expired w now) es @ takeWhile (is_expired w now) es"
    for t m es es'
  proof -
    let ?k = "takeWhile (is_expired w now) es" and ?r = "dropWhile (is_expired w now) es"
    have s: "sorted (map (\<lambda>e. timeout_at (events w e)) es)" "\<forall>e \<in> set es. timeout_at (events w e) \<le> now0 + m"
      using ok x by (auto simp: deadlines_ok_def)
    have k: "?k = filter (is_expired w now) es"
      using sorted_takeWhile_filter [OF s(1), of "now + MIN_TIMEOUT"] by (simp add: is_expired_def [abs_def])
    have kx: "e \<in> set (tqv_expired w now qs) \<longleftrightarrow> e \<in> set ?k" if "e \<in> set es" for e
      unfolding tqv_expired_filter [OF ok] k using that x by force
    have at_k: "timeout_at (events w' e) = now + m" if "e \<in> set ?k" for e
    proof -
      have e: "e \<in> set es" using that by (auto dest: set_takeWhileD)
      have "wrap32 (now + tq_period w e) = now + m"
        using tq_period_eq [OF inv x e] range [OF x] by (simp add: wrap32_id)
      then show ?thesis using fr kx [OF e] that by (simp add: expired_frame_def)
    qed
    have r: "set ?r \<subseteq> set es" "set ?k \<inter> set ?r = {}"
      using evq_timersD(5) [OF inv] x distinct_append [of ?k ?r]
      by (auto dest: set_dropWhileD simp: distinct_concat_iff)
    have at_r: "timeout_at (events w' e) = timeout_at (events w e)" if "e \<in> set ?r" for e
      using fr kx [of e] r that by (auto simp: expired_frame_def disjoint_iff)
    have "sorted (map (\<lambda>e. timeout_at (events w e)) ?r)"
      using s(1) takeWhile_dropWhile_id [of "is_expired w now" es] by (metis map_append sorted_append)
    then have "sorted (map (\<lambda>e. timeout_at (events w' e)) ?r)" using at_r by (simp cong: map_cong)
    moreover have "map (\<lambda>e. timeout_at (events w' e)) ?k = replicate (length ?k) (now + m)"
      using at_k by (auto simp: map_replicate_const [symmetric] cong: map_cong)
    moreover have "timeout_at (events w' e) \<le> now + m" if "e \<in> set ?r" for e
      using at_r [OF that] s(2) r that assms(3) by force
    ultimately show ?thesis unfolding es' using at_k by (auto simp: sorted_append)
  qed
  then show ?thesis by (fastforce simp: deadlines_ok_def tqv_rotate_def)
qed

text \<open>
  Claim C3: when no event that expires is in the ready list already, every timeout queue is in
  the order of its deadlines and the new deadlines stay within 32 bits, \<open>timeout_process\<close>
  makes ready exactly the events whose deadline is less than \<open>MIN_TIMEOUT\<close> away, each once,
  on top of the events that were ready before; it flags them as timed out, gives them their next
  deadline and requeues them behind the others, so that every queue is still in the order of the
  deadlines; no other event is touched. The first condition is needed: see
  \<open>timeout_process_ready_twice\<close>.
\<close>

theorem timeout_process_exact:
  assumes "evq_timers w q qs fs" and "deadlines_ok w now0 qs" and "now0 \<le> now"
    and "\<And>x. x \<in> set qs \<Longrightarrow> in_int32 (now + fst (snd x))"
    and "slist (\<lambda>e. next_ready (events w e)) rs None"
    and "set (filter (is_expired w now) (tqv_events qs)) \<inter> set rs = {}"
  shows "\<exists>w' ks. timeout_process (evq_tq (evqs w q)) (hdp rs None) now w = Some (w', hdp (ks @ rs) None)
    \<and> set ks = {e \<in> set (tqv_events qs). is_expired w now e} \<and> distinct ks
    \<and> slist (\<lambda>e. next_ready (events w' e)) (ks @ rs) None
    \<and> evq_timers w' q (map (tqv_rotate w now) qs) fs
    \<and> deadlines_ok w' now (map (tqv_rotate w now) qs)
    \<and> (\<forall>e. ev_flags (events w' e) =
          (if e \<in> set ks then ev_flags (events w e) OR (EVENT_ACTIVE OR EVENT_TIMEOUT_RES)
           else ev_flags (events w e)))"
proof -
  let ?ks = "tqv_expired w now qs"
  have ks: "?ks = filter (is_expired w now) (tqv_events qs)" by (rule tqv_expired_filter [OF assms(2)])
  have "evq_timers w q ([] @ qs) fs" using assms(1) by simp
  from timeout_process_spec [OF this assms(5), of now] assms(6) ks evq_timersD(2) [OF assms(1)]
  obtain w' where w': "timeout_process (evq_tq (evqs w q)) (hdp rs None) now w
      = Some (w', hdp (rev ?ks @ rs) None)" "evq_timers w' q (map (tqv_rotate w now) qs) fs"
    "slist (\<lambda>e. next_ready (events w' e)) (rev ?ks @ rs) None"
    and fr: "expired_frame (\<lambda>e. e \<in> set ?ks) (\<lambda>e. wrap32 (now + tq_period w e)) w w'"
    by auto
  have "deadlines_ok w' now (map (tqv_rotate w now) qs)"
    by (rule deadlines_rotate [OF assms(1,2,3) assms(4) fr])
  moreover have "set (rev ?ks) = {e \<in> set (tqv_events qs). is_expired w now e}" unfolding ks by auto
  moreover have "distinct (rev ?ks)" unfolding ks using evq_timersD(5) [OF assms(1)] by simp
  moreover have "\<forall>e. ev_flags (events w' e) =
      (if e \<in> set (rev ?ks) then ev_flags (events w e) OR (EVENT_ACTIVE OR EVENT_TIMEOUT_RES)
       else ev_flags (events w e))" using fr by (simp add: expired_frame_def)
  ultimately show ?thesis using w' by blast
qed

theorem timeout_process_exact_witness:
  "\<exists>w'. timeout_process (Some 7) None 110 timer_demo = Some (w', Some 5)
    \<and> evq_timers w' 0 [(7, 100, [6, 5])] [8]"
proof -
  have d: "deadlines_ok timer_demo 40 [(7, 100, [5, 6])]"
    by (simp add: deadlines_ok_def timer_demo_def zero_defs)
  have x: "is_expired timer_demo 110 5" "\<not> is_expired timer_demo 110 6"
    by (simp_all add: is_expired_def timer_demo_def zero_defs MIN_TIMEOUT_def)
  have "evq_tq (evqs timer_demo 0) = Some 7" by (simp add: timer_demo_def zero_defs)
  with timeout_process_exact [OF timer_demo_timers d, of 110 "[]"] obtain w' ks
    where w': "timeout_process (Some 7) None 110 timer_demo = Some (w', hdp ks None)"
      and ks: "set ks = {e \<in> {5, 6}. is_expired timer_demo 110 e}" "distinct ks"
      and inv: "evq_timers w' 0 [tqv_rotate timer_demo 110 (7, 100, [5, 6])] [8]"
    by (auto simp: in_int32_def)
  have "set ks = {5}" using ks(1) x by auto
  then have "ks = [5]" using ks(2) by (cases ks rule: remdups_adj.cases) auto
  with w' inv x show ?thesis by (simp add: tqv_rotate_def)
qed

text \<open>
  Claim C29: \<open>timeout_process\<close> does not look at \<open>EVENT_ACTIVE\<close>. If the event at
  the head of the ready list expires before it is handled, it is pushed again and becomes its
  own successor: the ready list never ends.
\<close>

theorem timeout_process_ready_twice:
  assumes "evq_timers w q [(t, m, [ev])] fs" and "is_expired w now ev"
  shows "\<exists>w'. timeout_process (evq_tq (evqs w q)) (Some ev) now w = Some (w', Some ev)
    \<and> next_ready (events w' ev) = Some ev"
proof -
  have h: "tq_holds w q (t, m, [ev])" using evq_timersD(6) [OF assms(1)] by simp
  have t: "evq_tq (evqs w q) = Some t" "tq_next (tqs w t) = None"
    using evq_timersD(1,2) [OF assms(1)] by simp_all
  have e: "ev_head (tqs w t) = Some ev" "ev_next (events w ev) = None"
    using h by (simp_all add: tq_holds_def)
  show ?thesis
    using assms(2) e
    by (simp add: t timeout_process.simps timeout_process_queue_def timeout_expire.simps is_expired_def)
qed

theorem timeout_process_ready_twice_witness:
  "\<exists>w w'. timeout_process (Some 7) (Some 5) 95 w = Some (w', Some 5) \<and> next_ready (events w' 5) = Some 5"
proof -
  let ?w = "unlink_store 6 7 (lastp [5] None) (hdp [] None) timer_demo"
  have "evq_timers ?w 0 ([] @ (7, 100, [5] @ []) # []) [8]"
    by (rule timeout_del_middle(2)) (simp_all add: timer_demo_timers)
  moreover have "is_expired ?w 95 5" "evq_tq (evqs ?w 0) = Some 7"
    by (simp_all add: is_expired_def timer_demo_def zero_defs MIN_TIMEOUT_def)
  ultimately show ?thesis
    using timeout_process_ready_twice [of ?w 0 7 100 5 "[8]" 95] by auto
qed

text \<open>
  A deadline past the end of the 32-bit clock wraps to the past. A timer set less
  than its period before the wrap is expired at once, although the header says that timer
  values overflow every 49.7 days.
\<close>

lemma timeout_add_clock_wrap:
  assumes "evq_timers w q qs fs" and "ev_evq (events w ev) = Some q" and "ev \<notin> set (tqv_events qs)"
    and "in_int32 now" and "0 \<le> ms" and "in_int32 ms" and "2147483648 \<le> now + ms"
    and "timeout_add ev ms now w = Some (w', 0)"
  shows "is_expired w' now ev"
proof -
  from timeout_add_spec [OF assms(1-3), of ms now] assms(8)
  have "timeout_at (events w' ev) = wrap32 (now + ms)" by auto
  also have "\<dots> = now + ms - 4294967296"
    using assms(4,6,7) by (intro wrap32_over) (auto simp: in_int32_def)
  finally show ?thesis using assms(6) by (simp add: is_expired_def in_int32_def MIN_TIMEOUT_def)
qed

lemma timeout_add_clock_wrap_witness:
  "\<exists>w'. timeout_add 9 1000 2147483000 timer_demo = Some (w', 0) \<and> is_expired w' 2147483000 9"
proof -
  have ev: "ev_evq (events timer_demo 9) = Some 0" by (simp add: timer_demo_def zero_defs)
  from timeout_add_spec [OF timer_demo_timers ev, of 1000 2147483000]
  obtain w' where add: "timeout_add 9 1000 2147483000 timer_demo = Some (w', 0)" by auto
  from timeout_add_clock_wrap [OF timer_demo_timers ev _ _ _ _ _ add] add show ?thesis
    by (auto simp: in_int32_def)
qed

end
