(* ===== verification/Evq.thy ===== *)
theory Evq
  imports Timeout
begin

text \<open>
  The event queue: src/src/event/evq.c, signal.c and, as the backend, epoll.c. The system
  calls are the functions of a record \<open>evq_os\<close>; a call that the code repeats while it is
  interrupted is one function. \<open>epoll_wait\<close> and what the other threads do while the VM
  lock is released are arguments of \<open>evq_wait\<close>.
\<close>

section \<open>The system\<close>

record evq_os =
  os_sigaction :: "int \<Rightarrow> sig_action \<Rightarrow> int"
  os_write :: "nat \<Rightarrow> int"
  os_epoll_create :: int
  os_eventfd :: int
  os_epoll_add :: "nat \<Rightarrow> int \<Rightarrow> u32 \<Rightarrow> int"
  os_epoll_mod :: "nat \<Rightarrow> int \<Rightarrow> u32 \<Rightarrow> int"
  os_close :: "int \<Rightarrow> int"
  os_waitpid :: "int \<Rightarrow> int \<times> nat option"
  os_inotify :: int
  os_add_watch :: "int \<Rightarrow> byte list \<Rightarrow> u32 \<Rightarrow> int"

text \<open>Signal numbers of Linux; \<open>EVQ_SIGEVQ\<close> is \<open>SIGPIPE\<close>.\<close>

definition EVQ_SIGHUP :: nat where "EVQ_SIGHUP = 1"
definition EVQ_SIGINT :: nat where "EVQ_SIGINT = 2"
definition EVQ_SIGQUIT :: nat where "EVQ_SIGQUIT = 3"
definition SYS_SIGINTR :: nat where "SYS_SIGINTR = 12"
definition EVQ_SIGEVQ :: nat where "EVQ_SIGEVQ = 13"
definition EVQ_SIGTERM :: nat where "EVQ_SIGTERM = 15"
definition EVQ_SIGCHLD :: nat where "EVQ_SIGCHLD = 17"

lemmas signo_defs = EVQ_SIGHUP_def EVQ_SIGINT_def EVQ_SIGQUIT_def SYS_SIGINTR_def EVQ_SIGEVQ_def
  EVQ_SIGTERM_def EVQ_SIGCHLD_def

definition SYS_ERR_SYSTEM :: int where "SYS_ERR_SYSTEM = -1"
definition SYS_ERR_TIMEOUT :: int where "SYS_ERR_TIMEOUT = 1"
definition SYS_ERR_THROW :: int where "SYS_ERR_THROW = 2"

section \<open>Signals\<close>

definition signal_gethead :: "nat \<Rightarrow> nat option" where
  "signal_gethead signo =
     (if signo = EVQ_SIGINT then Some 0
      else if signo = EVQ_SIGQUIT then Some 1
      else if signo = EVQ_SIGHUP then Some 2
      else if signo = EVQ_SIGTERM then Some 3
      else if signo = EVQ_SIGCHLD then Some 4
      else None)"

definition evq_interrupt :: "evq_os \<Rightarrow> nat \<Rightarrow> evq_store \<Rightarrow> evq_store \<times> int" where
  "evq_interrupt os q w =
     (if os_write os q = -1 then (w, -1)
      else (evq_upd q (\<lambda>r. r\<lparr>sig_pending := True\<rparr>) w, 0))"

definition evq_signal :: "evq_os \<Rightarrow> nat \<Rightarrow> nat \<Rightarrow> evq_store \<Rightarrow> evq_store \<times> int" where
  "evq_signal os q signo w =
     (let (w1, res) = (if sig_ready (evqs w q) = 0 then evq_interrupt os q w else (w, 0))
      in (evq_upd q (\<lambda>r. r\<lparr>sig_ready := sig_ready r OR push_bit signo 1\<rparr>) w1, res))"

text \<open>The loop of \<open>signal_handler\<close> over the events of a signal.\<close>

partial_function (option) signal_handler_loop :: "evq_os \<Rightarrow> nat \<Rightarrow> ptr \<Rightarrow> evq_store \<Rightarrow> evq_store option" where
  "signal_handler_loop os signo ev w =
     (case ev of
        None \<Rightarrow> Some w
      | Some e \<Rightarrow>
          let w1 = (case ev_evq (events w e) of
                      Some q \<Rightarrow> fst (evq_signal os q signo w)
                    | None \<Rightarrow> w)
          in signal_handler_loop os signo (next_object (events w1 e)) w1)"

definition signal_handler :: "evq_os \<Rightarrow> nat \<Rightarrow> evq_store \<Rightarrow> evq_store option" where
  "signal_handler os signo w =
     (if signo = SYS_SIGINTR then Some w
      else case signal_gethead signo of
          None \<Rightarrow> Some w
        | Some i \<Rightarrow> signal_handler_loop os signo (sig_events w i) w)"

definition signal_set :: "evq_os \<Rightarrow> nat \<Rightarrow> sig_action \<Rightarrow> evq_store \<Rightarrow> evq_store \<times> int" where
  "signal_set os signo act w =
     (let res = os_sigaction os (int signo) act
      in (if res = 0 then w\<lparr>sig_set := (sig_set w)(int signo := act)\<rparr> else w, res))"

text \<open>\<open>signal_init\<close>; the flag \<open>g_SignalInit\<close> is the first argument.\<close>

definition signal_init :: "evq_os \<Rightarrow> bool \<Rightarrow> evq_store \<Rightarrow> bool \<times> evq_store" where
  "signal_init os inited w =
     (if inited then (True, w)
      else (True, fst (signal_set os SYS_SIGINTR SigHandler (fst (signal_set os EVQ_SIGEVQ SigIgnore w)))))"

definition evq_ignore_signal :: "evq_os \<Rightarrow> nat \<Rightarrow> bool \<Rightarrow> evq_store \<Rightarrow> evq_store \<times> int" where
  "evq_ignore_signal os signo ignore w =
     (if ignore then signal_set os signo SigIgnore w
      else signal_set os signo
        (case signal_gethead signo of
           Some i \<Rightarrow> (if sig_events w i \<noteq> None then SigHandler else SigDefault)
         | None \<Rightarrow> SigDefault) w)"

text \<open>The signal an event waits for.\<close>

definition event_signo :: "event \<Rightarrow> nat" where
  "event_signo e = (if flag_on (ev_flags e) EVENT_PID then EVQ_SIGCHLD else nat (ev_fd e))"

definition signal_add :: "evq_os \<Rightarrow> nat \<Rightarrow> nat \<Rightarrow> evq_store \<Rightarrow> evq_store \<times> int" where
  "signal_add os q ev w =
     (let signo = event_signo (events w ev)
      in case signal_gethead signo of
           None \<Rightarrow> (w, -1)
         | Some i \<Rightarrow>
             (let (w1, err) =
                (if sig_events w i \<noteq> None
                 then (ev_upd ev (\<lambda>e. e\<lparr>next_object := sig_events w i\<rparr>) w, False)
                 else (let (w0, res) = signal_set os signo SigHandler w
                       in if res \<noteq> 0 then (w0, True)
                          else (ev_upd ev (\<lambda>e. e\<lparr>next_object := None\<rparr>) w0, False)))
              in if err then (w1, -1)
                 else (evq_upd q (\<lambda>r. r\<lparr>nevents := u32_add (nevents r) 1\<rparr>)
                         (w1\<lparr>sig_events := (sig_events w1)(i := Some ev)\<rparr>), 0)))"

text \<open>The search for the predecessor of an event in the list of its signal.\<close>

partial_function (option) signal_find_prev :: "evq_store \<Rightarrow> nat \<Rightarrow> ptr \<Rightarrow> nat option" where
  "signal_find_prev w ev p =
     do {
       e \<leftarrow> p;
       if next_object (events w e) = Some ev then Some e
       else signal_find_prev w ev (next_object (events w e))
     }"

definition signal_del :: "evq_os \<Rightarrow> nat \<Rightarrow> evq_store \<Rightarrow> (evq_store \<times> int) option" where
  "signal_del os ev w =
     do {
       let signo = event_signo (events w ev);
       i \<leftarrow> signal_gethead signo;
       (if sig_events w i = Some ev then
          (let w1 = w\<lparr>sig_events := (sig_events w)(i := next_object (events w ev))\<rparr>
           in Some (if sig_events w1 i = None then signal_set os signo SigDefault w1 else (w1, 0)))
        else do {
          p \<leftarrow> signal_find_prev w ev (sig_events w i);
          Some (ev_upd p (\<lambda>e. e\<lparr>next_object := next_object (events w ev)\<rparr>) w, 0)
        })
     }"

text \<open>\<open>signal_process_child\<close>: the status of an exited child goes to the last byte.\<close>

definition signal_process_child :: "evq_os \<Rightarrow> nat \<Rightarrow> evq_store \<Rightarrow> evq_store \<times> int" where
  "signal_process_child os ev w =
     (case os_waitpid os (ev_fd (events w ev)) of (pid, status) \<Rightarrow>
        if pid = ev_fd (events w ev) then
          (ev_upd ev (\<lambda>e. e\<lparr>ev_flags := ev_flags e OR
             (case status of
                None \<Rightarrow> EVENT_STATUS_MASK
              | Some c \<Rightarrow> push_bit EVENT_STATUS_SHIFT (word_of_nat c))\<rparr>) w, 0)
        else (w, -1))"

section \<open>Timeouts and deletion of events\<close>

definition evq_set_timeout :: "nat \<Rightarrow> int \<Rightarrow> evq_store \<Rightarrow> (evq_store \<times> int) option" where
  "evq_set_timeout ev ms w =
     do {
       q \<leftarrow> ev_evq (events w ev);
       (case ev_tq (events w ev) of
          Some t \<Rightarrow>
            if msec (tqs w t) = ms then do {
              w1 \<leftarrow> timeout_reset ev (evq_now (evqs w q)) w;
              Some (w1, 0)
            }
            else do {
              w1 \<leftarrow> timeout_del ev w;
              (if ms = TIMEOUT_INFINITE then Some (w1, 0)
               else timeout_add ev ms (evq_now (evqs w1 q)) w1)
            }
        | None \<Rightarrow>
            (if ms = TIMEOUT_INFINITE then Some (w, 0)
             else timeout_add ev ms (evq_now (evqs w q)) w))
     }"

definition evq_add_timer :: "nat \<Rightarrow> nat \<Rightarrow> int \<Rightarrow> evq_store \<Rightarrow> (evq_store \<times> int) option" where
  "evq_add_timer q ev ms w =
     do {
       (w1, res) \<leftarrow> evq_set_timeout ev ms (ev_upd ev (\<lambda>e. e\<lparr>ev_evq := Some q\<rparr>) w);
       Some (if res = 0 then (evq_upd q (\<lambda>r. r\<lparr>nevents := u32_add (nevents r) 1\<rparr>) w1, 0)
             else (w1, -1))
     }"

text \<open>The effect of a successful \<open>epoll_ctl\<close> on the interest list.\<close>

definition ep_upd :: "nat \<Rightarrow> int \<Rightarrow> (u32 \<times> ptr) option \<Rightarrow> evq_store \<Rightarrow> evq_store" where
  "ep_upd q fd x w = w\<lparr>ep_set := (ep_set w)(q := (ep_set w q)(fd := x))\<rparr>"

lemma ep_upd_simps [simp]:
  "events (ep_upd q fd x w) = events w" "tqs (ep_upd q fd x w) = tqs w" "evqs (ep_upd q fd x w) = evqs w"
  "sig_events (ep_upd q fd x w) = sig_events w" "sig_set (ep_upd q fd x w) = sig_set w"
  by (simp_all add: ep_upd_def)

text \<open>\<open>evq_del\<close> of epoll.c.\<close>

definition evq_del :: "evq_os \<Rightarrow> nat \<Rightarrow> bool \<Rightarrow> evq_store \<Rightarrow> (evq_store \<times> int) option" where
  "evq_del os ev reuse_fd w =
     do {
       q \<leftarrow> ev_evq (events w ev);
       let fl = ev_flags (events w ev);
       w1 \<leftarrow> (if ev_tq (events w ev) \<noteq> None then timeout_del ev w else Some w);
       let w2 = ev_upd ev (\<lambda>e. e\<lparr>ev_evq := None\<rparr>) w1;
       let w3 = evq_upd q (\<lambda>r. r\<lparr>nevents := u32_sub (nevents r) 1\<rparr>) w2;
       (if flag_on fl EVENT_TIMER then Some (w3, 0)
        else if flag_on fl EVENT_SIGNAL then signal_del os ev w3
        else if flag_on fl EVENT_DIRWATCH then
          Some (w3\<lparr>fd_closed := ev_fd (events w3 ev) # fd_closed w3\<rparr>, os_close os (ev_fd (events w3 ev)))
        else Some (if reuse_fd then ep_upd q (ev_fd (events w3 ev)) None w3 else w3, 0))
     }"

section \<open>Active events\<close>

text \<open>
  What the backends and \<open>evq_process_active\<close> do with an event that is not active yet: flag
  it, delete it or restart its timeout, and push it on the ready list.
\<close>

definition evq_activate :: "evq_os \<Rightarrow> nat \<Rightarrow> ptr \<Rightarrow> int \<Rightarrow> evq_store \<Rightarrow> (evq_store \<times> ptr) option" where
  "evq_activate os ev rdy now w =
     (if flag_on (ev_flags (events w ev)) EVENT_ACTIVE then Some (w, rdy)
      else do {
        let w1 = ev_upd ev (\<lambda>e. e\<lparr>ev_flags := set_flag (ev_flags e) EVENT_ACTIVE\<rparr>) w;
        let e1 = events w1 ev;
        w2 \<leftarrow> (if flag_on (ev_flags e1) EVENT_ONESHOT then map_option fst (evq_del os ev True w1)
               else if ev_tq e1 \<noteq> None \<and> \<not> flag_on (ev_flags e1) EVENT_TIMEOUT_MANUAL
                 then timeout_reset ev now w1
               else Some w1);
        Some (ev_upd ev (\<lambda>e. e\<lparr>next_ready := rdy\<rparr>) w2, Some ev)
      })"

definition evq_process_active :: "evq_os \<Rightarrow> nat \<Rightarrow> ptr \<Rightarrow> int \<Rightarrow> evq_store \<Rightarrow> (evq_store \<times> ptr) option" where
  "evq_process_active os ev rdy now w =
     evq_activate os ev rdy now
       (ev_upd ev (\<lambda>e. e\<lparr>ev_flags := set_flag (ev_flags e) EVENT_READ_RES\<rparr>) w)"

text \<open>The two loops of \<open>signal_process_actives\<close>: collect, then activate.\<close>

partial_function (option) signal_collect ::
  "nat \<Rightarrow> ptr \<Rightarrow> ptr \<Rightarrow> evq_store \<Rightarrow> (evq_store \<times> ptr) option" where
  "signal_collect q ev acc w =
     (case ev of
        None \<Rightarrow> Some (w, acc)
      | Some e \<Rightarrow>
          let take_it = (ev_evq (events w e) = Some q \<and> \<not> flag_on (ev_flags (events w e)) EVENT_ACTIVE);
              w1 = (if take_it then ev_upd e (\<lambda>r. r\<lparr>next_ready := acc\<rparr>) w else w);
              acc1 = (if take_it then Some e else acc)
          in signal_collect q (next_object (events w1 e)) acc1 w1)"

partial_function (option) signal_activate ::
  "evq_os \<Rightarrow> nat \<Rightarrow> ptr \<Rightarrow> ptr \<Rightarrow> int \<Rightarrow> evq_store \<Rightarrow> (evq_store \<times> ptr) option" where
  "signal_activate os signo ev rdy now w =
     (case ev of
        None \<Rightarrow> Some (w, rdy)
      | Some e \<Rightarrow>
          let nx = next_ready (events w e);
              (w1, skip) = (if signo = EVQ_SIGCHLD
                            then (let (w0, res) = signal_process_child os e w in (w0, res \<noteq> 0))
                            else (w, False))
          in if skip then signal_activate os signo nx rdy now w1
             else do {
               (w2, rdy1) \<leftarrow> evq_process_active os e rdy now w1;
               signal_activate os signo nx rdy1 now w2
             })"

definition signal_process_actives ::
  "evq_os \<Rightarrow> nat \<Rightarrow> nat \<Rightarrow> ptr \<Rightarrow> int \<Rightarrow> evq_store \<Rightarrow> (evq_store \<times> ptr) option" where
  "signal_process_actives os q signo rdy now w =
     do {
       i \<leftarrow> signal_gethead signo;
       (w1, acc) \<leftarrow> signal_collect q (sig_events w i) None w;
       signal_activate os signo acc rdy now w1
     }"

text \<open>The loop over the bits of \<open>sig_ready\<close>.\<close>

partial_function (option) signal_bits_loop ::
  "evq_os \<Rightarrow> nat \<Rightarrow> nat \<Rightarrow> u32 \<Rightarrow> ptr \<Rightarrow> int \<Rightarrow> evq_store \<Rightarrow> (evq_store \<times> ptr) option" where
  "signal_bits_loop os q signo sigs rdy now w =
     (if sigs = 0 then Some (w, rdy)
      else do {
        (w1, rdy1) \<leftarrow> (if bit sigs 0 then signal_process_actives os q signo rdy now w else Some (w, rdy));
        signal_bits_loop os q (Suc signo) (drop_bit 1 sigs) rdy1 now w1
      })"

definition signal_process_interrupt ::
  "evq_os \<Rightarrow> nat \<Rightarrow> ptr \<Rightarrow> int \<Rightarrow> evq_store \<Rightarrow> (evq_store \<times> ptr) option" where
  "signal_process_interrupt os q rdy now w =
     (let sigs = sig_ready (evqs w q);
          w1 = evq_upd q (\<lambda>r. r\<lparr>sig_pending := False, sig_ready := 0\<rparr>) w
      in signal_bits_loop os q 0 (clr_flag sigs (push_bit EVQ_SIGEVQ 1)) rdy now w1)"

section \<open>The epoll backend\<close>

definition EPOLLIN :: u32 where "EPOLLIN = 0x1"
definition EPOLLOUT :: u32 where "EPOLLOUT = 0x4"
definition EPOLLERR :: u32 where "EPOLLERR = 0x8"
definition EPOLLHUP :: u32 where "EPOLLHUP = 0x10"
definition EPOLLRDHUP :: u32 where "EPOLLRDHUP = 0x2000"
definition EPOLLFD_HUP :: u32 where "EPOLLFD_HUP = EPOLLRDHUP OR EPOLLHUP"
definition EPOLLFD_READ :: u32 where "EPOLLFD_READ = EPOLLIN OR EPOLLERR OR EPOLLFD_HUP"
definition EPOLLFD_WRITE :: u32 where "EPOLLFD_WRITE = EPOLLOUT OR EPOLLERR OR EPOLLHUP"

definition EPOLLONESHOT :: u32 where "EPOLLONESHOT = 0x40000000"
definition IN_MODIFY :: u32 where "IN_MODIFY = 0x2"
definition IN_ACCESS :: u32 where "IN_ACCESS = 0x1"
definition IN_ALL_EVENTS :: u32 where "IN_ALL_EVENTS = 0xFFF"

definition fd_close :: "int \<Rightarrow> evq_store \<Rightarrow> evq_store" where
  "fd_close fd w = w\<lparr>fd_closed := fd # fd_closed w\<rparr>"

definition evq_done :: "nat \<Rightarrow> evq_store \<Rightarrow> evq_store" where
  "evq_done q w = fd_close (epoll_fd (evqs w q)) (fd_close (sig_fd (evqs w q)) w)"

text \<open>\<open>evq_init\<close>, with the eventfd; \<open>time\<close> is the clock.\<close>

definition evq_init :: "evq_os \<Rightarrow> int \<Rightarrow> nat \<Rightarrow> evq_store \<Rightarrow> evq_store \<times> int" where
  "evq_init os time q w =
     (let w1 = evq_upd q (\<lambda>r. r\<lparr>epoll_fd := os_epoll_create os\<rparr>) w
      in if os_epoll_create os = -1 then (w1, -1)
         else let w2 = evq_upd q (\<lambda>r. r\<lparr>sig_fd := os_eventfd os\<rparr>) w1
              in if os_eventfd os = -1 then (evq_done q w2, -1)
                 else if os_epoll_add os q (os_eventfd os) EPOLLIN \<noteq> 0 then (evq_done q w2, -1)
                 else (evq_upd q (\<lambda>r. r\<lparr>evq_now := time\<rparr>)
                         (ep_upd q (os_eventfd os) (Some (EPOLLIN, None)) w2), 0))"

definition evq_add :: "evq_os \<Rightarrow> nat \<Rightarrow> nat \<Rightarrow> evq_store \<Rightarrow> evq_store \<times> int" where
  "evq_add os q ev w =
     (let fl = ev_flags (events w ev);
          fd = ev_fd (events w ev);
          w1 = ev_upd ev (\<lambda>e. e\<lparr>ev_evq := Some q\<rparr>) w
      in if flag_on fl EVENT_SIGNAL then signal_add os q ev w1
         else let mask = (if flag_on fl EVENT_READ then EPOLLIN else EPOLLOUT)
                         OR (if flag_on fl EVENT_ONESHOT then EPOLLONESHOT else 0)
              in if os_epoll_add os q fd mask = -1 then (w1, -1)
                 else (evq_upd q (\<lambda>r. r\<lparr>nevents := u32_add (nevents r) 1\<rparr>)
                         (ep_upd q fd (Some (mask, Some ev)) w1), 0))"

definition evq_add_dirwatch ::
  "evq_os \<Rightarrow> nat \<Rightarrow> nat \<Rightarrow> byte list \<Rightarrow> evq_store \<Rightarrow> evq_store \<times> int" where
  "evq_add_dirwatch os q ev path w =
     (let mask = (if flag_on (ev_flags (events w ev)) EVENT_WATCH_MODIFY then IN_MODIFY
                  else IN_ALL_EVENTS XOR IN_ACCESS);
          fd = os_inotify os;
          w1 = ev_upd ev (\<lambda>e. e\<lparr>ev_fd := fd\<rparr>) w
      in if fd = -1 then (w1, -1)
         else if os_add_watch os fd path mask = -1 then (fd_close fd w1, -1)
         else evq_add os q ev w1)"

definition evq_modify :: "evq_os \<Rightarrow> nat \<Rightarrow> u32 \<Rightarrow> evq_store \<Rightarrow> (evq_store \<times> int) option" where
  "evq_modify os ev fl w =
     do {
       q \<leftarrow> ev_evq (events w ev);
       let fd = ev_fd (events w ev);
       let mask = (if flag_on fl EVENT_READ then EPOLLIN else EPOLLOUT);
       let res = os_epoll_mod os q fd mask;
       Some (if res = 0 then ep_upd q fd (Some (mask, Some ev)) w else w, res)
     }"

text \<open>The result bits of an event for the bits that epoll reports.\<close>

definition epoll_res :: "u32 \<Rightarrow> u32 \<Rightarrow> u32" where
  "epoll_res revents fl =
     (let res = (if flag_on revents EPOLLFD_HUP then EVENT_EOF_RES else 0)
      in if flag_on revents EPOLLFD_READ \<and> flag_on fl EVENT_READ then res OR EVENT_READ_RES
         else if flag_on revents EPOLLFD_WRITE \<and> flag_on fl EVENT_WRITE then res OR EVENT_WRITE_RES
         else res)"

text \<open>The body of the loop over the reported events; a null pointer is the interruption.\<close>

definition epoll_process ::
  "evq_os \<Rightarrow> nat \<Rightarrow> int \<Rightarrow> u32 \<times> ptr \<Rightarrow> evq_store \<times> ptr \<Rightarrow> (evq_store \<times> ptr) option" where
  "epoll_process os q now epev st =
     (case epev of (revents, p) \<Rightarrow> case st of (w, rdy) \<Rightarrow>
        if revents = 0 then Some (w, rdy)
        else case p of
            None \<Rightarrow> signal_process_interrupt os q rdy now w
          | Some ev \<Rightarrow>
              evq_activate os ev rdy now
                (ev_upd ev (\<lambda>e. e\<lparr>ev_flags := ev_flags e OR epoll_res revents (ev_flags e)\<rparr>) w))"

fun epoll_loop ::
  "evq_os \<Rightarrow> nat \<Rightarrow> int \<Rightarrow> (u32 \<times> ptr) list \<Rightarrow> evq_store \<times> ptr \<Rightarrow> (evq_store \<times> ptr) option" where
  "epoll_loop os q now [] st = Some st"
| "epoll_loop os q now (epev # epevs) st =
     do { st1 \<leftarrow> epoll_process os q now epev st; epoll_loop os q now epevs st1 }"

text \<open>What \<open>epoll_wait\<close> returns: an error (interrupted or not), or the ready events.\<close>

datatype epoll_result = EpollError bool | EpollReady "(u32 \<times> ptr) list"

text \<open>
  \<open>evq_wait\<close>: \<open>epoll t w\<close> is the call of \<open>epoll_wait\<close> with timeout \<open>t\<close>
  together with what other threads do to the store meanwhile, \<open>time\<close> the clock after it.
\<close>

definition evq_wait ::
  "evq_os \<Rightarrow> (int \<Rightarrow> evq_store \<Rightarrow> evq_store \<times> epoll_result) \<Rightarrow> int \<Rightarrow> nat \<Rightarrow> int \<Rightarrow> evq_store
     \<Rightarrow> (evq_store \<times> int) option" where
  "evq_wait os epoll time q timeout w =
     do {
       timeout1 \<leftarrow> (if timeout \<noteq> 0
                    then timeout_get w (evq_tq (evqs w q)) timeout (evq_now (evqs w q))
                    else Some 0);
       (if timeout \<noteq> 0 \<and> timeout1 = 0 then do {
          (w1, rdy) \<leftarrow> timeout_process (evq_tq (evqs w q)) None (evq_now (evqs w q)) w;
          Some (evq_upd q (\<lambda>r. r\<lparr>ev_ready := rdy\<rparr>) w1, 0)
        }
        else
          (case epoll timeout1 w of (w1, result) \<Rightarrow>
             let w2 = evq_upd q (\<lambda>r. r\<lparr>evq_now := time\<rparr>) w1
             in case result of
                  EpollError intr \<Rightarrow> Some (w2, if intr then 0 else -1)
                | EpollReady epevs \<Rightarrow>
                    let rdy = ev_ready (evqs w2 q)
                    in if timeout1 \<noteq> TIMEOUT_INFINITE \<and> epevs = [] then
                         (if evq_tq (evqs w2 q) \<noteq> None then do {
                            (w3, rdy1) \<leftarrow> timeout_process (evq_tq (evqs w2 q)) rdy time w2;
                            Some (if rdy1 \<noteq> rdy then (evq_upd q (\<lambda>r. r\<lparr>ev_ready := rdy1\<rparr>) w3, 0)
                                  else (w3, SYS_ERR_TIMEOUT))
                          }
                          else Some (w2, SYS_ERR_TIMEOUT))
                       else do {
                         (w3, rdy1) \<leftarrow> epoll_loop os q
                            (if timeout1 \<noteq> TIMEOUT_INFINITE then time else timeout1) epevs (w2, rdy);
                         Some (if rdy1 = None then w3 else evq_upd q (\<lambda>r. r\<lparr>ev_ready := rdy1\<rparr>) w3, 0)
                       }))
     }"

section \<open>Lemmas: changes that do not concern the timeouts\<close>

lemma evq_timers_frame:
  assumes inv: "evq_timers w q qs fs" and tqs: "tqs w' = tqs w"
    and q: "evq_tq (evqs w' q) = evq_tq (evqs w q)" "ev_free (evqs w' q) = ev_free (evqs w q)"
      "tq_map_fn (evqs w' q) = tq_map_fn (evqs w q)" "tq_map (evqs w' q) = tq_map (evqs w q)"
    and ev: "\<And>e. e \<in> set (tqv_events qs) \<Longrightarrow> ev_next (events w' e) = ev_next (events w e) \<and>
      ev_prev (events w' e) = ev_prev (events w e) \<and> ev_tq (events w' e) = ev_tq (events w e) \<and>
      ev_evq (events w' e) = ev_evq (events w e)"
    and cells: "\<And>a. a \<in> set (map fst qs @ fs) \<Longrightarrow> ev_evq (events w' a) \<noteq> Some q"
    and free: "\<And>e. e \<in> set fs \<Longrightarrow> next_ready (events w' e) = next_ready (events w e)"
  shows "evq_timers w' q qs fs"
proof (rule evq_timersI)
  show "tq_holds w' q x" if "x \<in> set qs" for x
  proof -
    obtain t m es where x: "x = (t, m, es)" by (cases x)
    have "set es \<subseteq> set (tqv_events qs)" using that x by force
    then show ?thesis unfolding x
      by (intro tq_holds_cong [OF evq_timersD(6) [OF inv that [unfolded x]]])
         (simp_all add: tqs ev subset_iff)
  qed
  show "slist (\<lambda>e. next_ready (events w' e)) fs None"
    using evq_timersD(9) [OF inv] slist_cong [of fs "\<lambda>e. next_ready (events w' e)"] free by simp
qed (use evq_timersD [OF inv] tqs q cells in simp_all)

text \<open>An event of a queue stands somewhere in the list of its timeout queue.\<close>

lemma tqv_events_split:
  assumes "ev \<in> set (tqv_events qs)"
  obtains A t m as bs B where "qs = A @ (t, m, as @ ev # bs) # B"
proof -
  from assms obtain x where "x \<in> set qs" and "ev \<in> set (snd (snd x))" by auto
  then obtain A B as bs where qs: "qs = A @ x # B" and es: "snd (snd x) = as @ ev # bs"
    by (metis split_list)
  obtain t m es where x: "x = (t, m, es)" by (cases x)
  with es have "qs = A @ (t, m, as @ ev # bs) # B" using qs by simp
  then show thesis by (rule that)
qed

text \<open>The events of one period.\<close>

definition tq_list :: "tqv list \<Rightarrow> int \<Rightarrow> nat list" where
  "tq_list qs m = concat (map (\<lambda>x. snd (snd x)) (filter (\<lambda>x. fst (snd x) = m) qs))"

lemma tq_list_simps [simp]:
  "tq_list [] m = []" "tq_list (A @ B) m = tq_list A m @ tq_list B m"
  "tq_list ((t, m', es) # B) m = (if m' = m then es @ tq_list B m else tq_list B m)"
  by (simp_all add: tq_list_def)

lemma tq_list_empty: "m \<notin> (\<lambda>x. fst (snd x)) ` set qs \<Longrightarrow> tq_list qs m = []"
  by (induction qs) (auto simp: tq_list_def)

lemma tq_list_sub: "set (tq_list qs m) \<subseteq> set (tqv_events qs)"
  by (auto simp: tq_list_def)

lemma tq_list_append:
  assumes "distinct (map (\<lambda>x. fst (snd x)) qs)" and "ms \<in> (\<lambda>x. fst (snd x)) ` set qs"
  shows "tq_list (tqv_append ev ms qs) m = tq_list qs m @ (if m = ms then [ev] else [])"
proof -
  from assms(2) obtain A t es B where qs: "qs = A @ (t, ms, es) # B"
    by (metis (no_types, lifting) imageE prod.collapse split_list)
  have ms: "ms \<notin> (\<lambda>x. fst (snd x)) ` set A" "ms \<notin> (\<lambda>x. fst (snd x)) ` set B"
    using assms(1) qs by auto
  show ?thesis unfolding qs tqv_append_split [OF ms(1)] using tq_list_empty [OF ms(2)] by auto
qed

lemma tq_list_new:
  assumes "ms \<notin> (\<lambda>x. fst (snd x)) ` set qs"
  shows "tq_list (tqv_new mapped a ev ms qs) m = tq_list qs m @ (if m = ms then [ev] else [])"
proof -
  obtain A B where pl: "tq_place mapped ms qs = (A, B)" by fastforce
  then have qs: "qs = A @ B" by (auto simp: tq_place_def split: if_splits)
  have "tq_list A ms = []" "tq_list B ms = []" using assms qs by (auto intro: tq_list_empty)
  then show ?thesis unfolding tqv_new_def pl using qs by auto
qed

text \<open>Every event of the queue that has a timeout stands in its lists.\<close>

definition tq_complete :: "evq_store \<Rightarrow> nat \<Rightarrow> tqv list \<Rightarrow> bool" where
  "tq_complete w q qs \<longleftrightarrow>
     (\<forall>e. ev_evq (events w e) = Some q \<longrightarrow> ev_tq (events w e) \<noteq> None \<longrightarrow> e \<in> set (tqv_events qs))"

lemma remove1_middle: "distinct (as @ ev # bs) \<Longrightarrow> remove1 ev (as @ ev # bs) = as @ bs"
  by (simp add: remove1_append)

lemma tqv_remove_middle:
  assumes inv: "evq_timers w q (A @ (t, m, as @ ev # bs) # B) fs"
  shows "tq_list (A @ (t, m, as @ bs) # B) m' = remove1 ev (tq_list (A @ (t, m, as @ ev # bs) # B) m')"
    and "as @ bs = [] \<Longrightarrow>
      tq_list (A @ B) m' = remove1 ev (tq_list (A @ (t, m, as @ ev # bs) # B) m')"
    and "tqv_events (A @ (t, m, as @ bs) # B) = remove1 ev (tqv_events (A @ (t, m, as @ ev # bs) # B))"
proof -
  have dis: "ev \<notin> set (tqv_events A)" "ev \<notin> set (tqv_events B)" "ev \<notin> set as" "ev \<notin> set bs"
    using evq_timersD(5) [OF inv] by auto
  have n: "ev \<notin> set (tq_list A m')" "ev \<notin> set (tq_list B m')" using dis tq_list_sub by blast+
  show "tq_list (A @ (t, m, as @ bs) # B) m' = remove1 ev (tq_list (A @ (t, m, as @ ev # bs) # B) m')"
    "as @ bs = [] \<Longrightarrow> tq_list (A @ B) m' = remove1 ev (tq_list (A @ (t, m, as @ ev # bs) # B) m')"
    using n dis by (auto simp: remove1_append remove1_idem)
  show "tqv_events (A @ (t, m, as @ bs) # B) = remove1 ev (tqv_events (A @ (t, m, as @ ev # bs) # B))"
    using dis by (simp add: remove1_append)
qed

section \<open>Setting a timeout\<close>

lemma timeout_del_any:
  assumes inv: "evq_timers w q qs fs" and ev: "ev \<in> set (tqv_events qs)"
  shows "\<exists>w' qs' fs'. timeout_del ev w = Some w' \<and> evq_timers w' q qs' fs' \<and>
    (\<forall>m. tq_list qs' m = remove1 ev (tq_list qs m)) \<and> tqv_events qs' = remove1 ev (tqv_events qs) \<and>
    set (map fst qs' @ fs') = set (map fst qs @ fs) \<and> set fs \<subseteq> set fs' \<and>
    timer_frame w w' \<and> ev_tq (events w' ev) = None \<and>
    (\<forall>e. e \<notin> set (map fst qs) \<longrightarrow> next_ready (events w' e) = next_ready (events w e)) \<and>
    (\<forall>e. timeout_at (events w' e) = timeout_at (events w e)) \<and>
    (\<forall>e. e \<noteq> ev \<longrightarrow> ev_tq (events w' e) = ev_tq (events w e)) \<and>
    nevents (evqs w' q) = nevents (evqs w q) \<and> evq_now (evqs w' q) = evq_now (evqs w q) \<and>
    ev_ready (evqs w' q) = ev_ready (evqs w q)"
proof -
  from ev obtain A t m as bs B where qs: "qs = A @ (t, m, as @ ev # bs) # B" by (rule tqv_events_split)
  note inv' = inv [unfolded qs]
  note rem = tqv_remove_middle [OF inv']
  show ?thesis
  proof (cases "as @ bs = []")
    case True
    then have inv1: "evq_timers w q (A @ (t, m, [ev]) # B) fs" using inv' by simp
    let ?w1 = "ev_upd ev (\<lambda>e. e\<lparr>ev_tq := None\<rparr>) w"
    have "timer_frame w ?w1" "timer_frame ?w1 (timeout_del_queue q t ?w1)" by simp_all
    then have "timer_frame w (timeout_del_queue q t ?w1)" by (simp add: timer_frame_def)
    moreover have "tqv_events (A @ B) = remove1 ev (tqv_events qs)" using rem(3) True qs by simp
    moreover have "set (map fst (A @ B) @ t # fs) = set (map fst qs @ fs)" by (auto simp: qs)
    moreover have "t \<in> set (map fst qs)" by (simp add: qs)
    then have "\<forall>e. e \<notin> set (map fst qs) \<longrightarrow>
        next_ready (events (timeout_del_queue q t ?w1) e) = next_ready (events w e)" by auto
    moreover have "\<forall>m. tq_list (A @ B) m = remove1 ev (tq_list qs m)" using rem(2) [OF True] qs by blast
    ultimately show ?thesis
      using timeout_del_last [OF inv1]
      by (intro exI [of _ "timeout_del_queue q t ?w1"] exI [of _ "A @ B"] exI [of _ "t # fs"] conjI)
         (assumption | simp | auto)+
  next
    case False
    let ?w = "unlink_store ev t (lastp as None) (hdp bs None) w"
    show ?thesis
      using timeout_del_middle [OF inv' False] rem(1,3)
      by (intro exI [of _ ?w] exI [of _ "A @ (t, m, as @ bs) # B"] exI [of _ fs]) (simp add: qs)
  qed
qed

lemma timeout_add_any:
  assumes inv: "evq_timers w q qs fs" and ev: "ev_evq (events w ev) = Some q" "ev \<notin> set (tqv_events qs)"
    and ne: "fs \<noteq> [] \<or> ms \<in> (\<lambda>x. fst (snd x)) ` set qs"
  shows "\<exists>w' qs' fs'. timeout_add ev ms now w = Some (w', 0) \<and> evq_timers w' q qs' fs' \<and>
    (\<forall>m. tq_list qs' m = tq_list qs m @ (if m = ms then [ev] else [])) \<and> timer_frame w w' \<and>
    (\<forall>e. timeout_at (events w' e) = (if e = ev then wrap32 (now + ms) else timeout_at (events w e)))"
proof -
  from timeout_add_spec [OF inv ev, of ms now] obtain w' res where
    add: "timeout_add ev ms now w = Some (w', res)"
    and sp: "if ms \<in> (\<lambda>x. fst (snd x)) ` set qs then res = 0 \<and> evq_timers w' q (tqv_append ev ms qs) fs
     else case fs of [] \<Rightarrow> res = -1 \<and> w' = w
       | a # fs' \<Rightarrow> res = 0 \<and> evq_timers w' q (tqv_new (tq_map_fn (evqs w q)) a ev ms qs) fs'"
    and fr: "timer_frame w w'" and at: "\<forall>e. timeout_at (events w' e) =
       (if res = 0 \<and> e = ev then wrap32 (now + ms) else timeout_at (events w e))"
    by blast
  show ?thesis
  proof (cases "ms \<in> (\<lambda>x. fst (snd x)) ` set qs")
    case True
    with add sp fr at tq_list_append [OF evq_timersD(4) [OF inv] True] show ?thesis
      by (intro exI [of _ w'] exI [of _ "tqv_append ev ms qs"] exI [of _ fs]) simp
  next
    case False
    with ne obtain a fs' where fs: "fs = a # fs'" by (cases fs) auto
    with False add sp fr at tq_list_new [OF False] show ?thesis
      by (intro exI [of _ w'] exI [of _ "tqv_new (tq_map_fn (evqs w q)) a ev ms qs"] exI [of _ fs']) simp
  qed
qed

text \<open>
  Setting a timeout: whatever the event's timeout was, it then stands last in the queue of its
  new period, and the others keep their order.
\<close>

lemma evq_set_timeout_spec:
  assumes inv: "evq_timers w q qs fs" and ev: "ev_evq (events w ev) = Some q"
    and comp: "tq_complete w q qs" and ms: "ms \<noteq> TIMEOUT_INFINITE"
    and ne: "fs \<noteq> [] \<or> ms \<in> (\<lambda>x. fst (snd x)) ` set qs"
  shows "\<exists>w' qs' fs'. evq_set_timeout ev ms w = Some (w', 0) \<and> evq_timers w' q qs' fs' \<and>
    (\<forall>m. tq_list qs' m = remove1 ev (tq_list qs m) @ (if m = ms then [ev] else [])) \<and>
    (\<forall>e. timeout_at (events w' e) =
       (if e = ev then wrap32 (evq_now (evqs w q) + ms) else timeout_at (events w e)))"
proof (cases "ev \<in> set (tqv_events qs)")
  case False
  then have none: "ev_tq (events w ev) = None" using comp ev by (auto simp: tq_complete_def)
  have "remove1 ev (tq_list qs m) = tq_list qs m" for m
    using False tq_list_sub by (intro remove1_idem) blast
  moreover have "evq_set_timeout ev ms w = timeout_add ev ms (evq_now (evqs w q)) w"
    by (simp add: evq_set_timeout_def ev none ms)
  ultimately show ?thesis
    using timeout_add_any [OF inv ev False ne, of "evq_now (evqs w q)"] by metis
next
  case True
  then obtain A t m as bs B where qs: "qs = A @ (t, m, as @ ev # bs) # B" by (rule tqv_events_split)
  note inv' = inv [unfolded qs]
  note sp = tq_holds_split [OF evq_timers_at(1) [OF inv']]
  show ?thesis
  proof (cases "m = ms")
    case m: True
    from timeout_reset_spec [OF inv', of "evq_now (evqs w q)"] obtain w'
      where r: "timeout_reset ev (evq_now (evqs w q)) w = Some w'"
        "evq_timers w' q (A @ (t, m, as @ bs @ [ev]) # B) fs"
        "\<forall>e. timeout_at (events w' e) =
           (if e = ev then wrap32 (evq_now (evqs w q) + m) else timeout_at (events w e))" by blast
    have "ms \<notin> (\<lambda>x. fst (snd x)) ` set A" "ms \<notin> (\<lambda>x. fst (snd x)) ` set B"
      using evq_timersD(4) [OF inv'] m by auto
    then have e: "tq_list A ms = []" "tq_list B ms = []" by (auto intro: tq_list_empty)
    have l: "tq_list (A @ (t, m, as @ bs @ [ev]) # B) m'
        = tq_list (A @ (t, m, as @ bs) # B) m' @ (if m' = ms then [ev] else [])" for m'
      using e m by auto
    show ?thesis
      using r m ev sp(1,7) l [unfolded tqv_remove_middle(1) [OF inv']]
      by (intro exI [of _ w'] exI [of _ "A @ (t, m, as @ bs @ [ev]) # B"] exI [of _ fs])
         (simp add: evq_set_timeout_def qs)
  next
    case m: False
    from timeout_del_any [OF inv True] obtain w1 qs1 fs1 where
      d: "timeout_del ev w = Some w1" "evq_timers w1 q qs1 fs1"
      "\<forall>m. tq_list qs1 m = remove1 ev (tq_list qs m)" "tqv_events qs1 = remove1 ev (tqv_events qs)"
      and sub: "set fs \<subseteq> set fs1" and fr: "timer_frame w w1"
      and at: "\<forall>e. timeout_at (events w1 e) = timeout_at (events w e)"
      and now: "evq_now (evqs w1 q) = evq_now (evqs w q)" by blast
    have ev1: "ev_evq (events w1 ev) = Some q" "ev \<notin> set (tqv_events qs1)"
      using fr ev d(4) evq_timersD(5) [OF inv] by (auto simp: timer_frame_def)
    have "fs1 \<noteq> [] \<or> ms \<in> (\<lambda>x. fst (snd x)) ` set qs1"
    proof (rule ccontr)
      assume "\<not> ?thesis"
      then have "fs = []" and no: "ms \<notin> (\<lambda>x. fst (snd x)) ` set qs1" using sub by auto
      with ne obtain t' es where "(t', ms, es) \<in> set qs" by auto
      then have "set es \<subseteq> set (tq_list qs ms)" "es \<noteq> []" "ev \<notin> set es"
        using evq_timersD(6) [OF inv] qs m evq_timers_at(3) [OF inv']
        by (force simp: tq_list_def tq_holds_def)+
      moreover have "tq_list qs1 ms = []" by (rule tq_list_empty [OF no])
      ultimately show False using d(3) by (metis in_set_remove1 list.set_intros(1) neq_Nil_conv
          subsetD empty_iff list.set(1))
    qed
    from timeout_add_any [OF d(2) ev1 this, of "evq_now (evqs w1 q)", unfolded now] obtain w' qs' fs'
      where a: "timeout_add ev ms (evq_now (evqs w q)) w1 = Some (w', 0)" "evq_timers w' q qs' fs'"
        "\<forall>m. tq_list qs' m = tq_list qs1 m @ (if m = ms then [ev] else [])"
        "\<forall>e. timeout_at (events w' e) =
          (if e = ev then wrap32 (evq_now (evqs w q) + ms) else timeout_at (events w1 e))" by blast
    have "evq_set_timeout ev ms w = Some (w', 0)"
      using d(1) a(1) now ms m ev sp(1,7) by (simp add: evq_set_timeout_def)
    then show ?thesis using a d(3) at by (intro exI [of _ w'] exI [of _ qs'] exI [of _ fs']) simp
  qed
qed

section \<open>The lists of signal events\<close>

definition sig_list :: "evq_store \<Rightarrow> nat \<Rightarrow> nat list \<Rightarrow> bool" where
  "sig_list w i es \<longleftrightarrow>
     sig_events w i = hdp es None \<and> slist (\<lambda>e. next_object (events w e)) es None \<and> distinct es \<and>
     (\<forall>e \<in> set es. signal_gethead (event_signo (events w e)) = Some i)"

lemma event_signo_upd [simp]:
  "event_signo (e\<lparr>next_object := x\<rparr>) = event_signo e" "event_signo (e\<lparr>next_ready := x\<rparr>) = event_signo e"
  "event_signo (e\<lparr>ev_evq := x\<rparr>) = event_signo e"
  by (simp_all add: event_signo_def)

lemma signal_find_prev_spec:
  assumes "slist (\<lambda>e. next_object (events w e)) (as @ [p, ev] @ bs) None"
    and "distinct (as @ [p, ev] @ bs)"
  shows "signal_find_prev w ev (hdp (as @ [p]) None) = Some p"
  using assms
proof (induction as)
  case Nil
  then show ?case by (subst signal_find_prev.simps) simp
next
  case (Cons a as)
  have "next_object (events w a) = hdp (as @ [p]) None" using Cons.prems(1) by (cases as) auto
  moreover have "hdp (as @ [p]) None \<noteq> Some ev" using Cons.prems(2) by (cases as) auto
  ultimately show ?case using Cons by (subst signal_find_prev.simps) auto
qed

text \<open>
  \<open>signal_del\<close> unlinks the event; the default action comes back with the last one.
\<close>

lemma signal_del_spec:
  assumes i: "signal_gethead (event_signo (events w ev)) = Some i" and l: "sig_list w i (as @ ev # bs)"
  shows "\<exists>w' res. signal_del os ev w = Some (w', res) \<and> sig_list w' i (as @ bs) \<and>
    (\<forall>j. j \<noteq> i \<longrightarrow> sig_events w' j = sig_events w j) \<and>
    tqs w' = tqs w \<and> evqs w' = evqs w \<and>
    (\<forall>e. events w' e = (events w e)\<lparr>next_object := next_object (events w' e)\<rparr>) \<and>
    (\<forall>e. e \<notin> set as \<longrightarrow> events w' e = events w e) \<and>
    (os_sigaction os (int (event_signo (events w ev))) SigDefault = 0 \<longrightarrow> as @ bs = [] \<longrightarrow>
      res = 0 \<and> sig_set w' (int (event_signo (events w ev))) = SigDefault)"
proof (cases as rule: rev_cases)
  case Nil
  let ?w = "w\<lparr>sig_events := (sig_events w)(i := hdp bs None)\<rparr>"
  have nx: "next_object (events w ev) = hdp bs None" "sig_events w i = Some ev"
    "slist (\<lambda>e. next_object (events w e)) bs None" "distinct bs"
    "\<forall>e \<in> set bs. signal_gethead (event_signo (events w e)) = Some i"
    using l Nil by (auto simp: sig_list_def)
  let ?r = "if bs = [] then signal_set os (event_signo (events w ev)) SigDefault ?w else (?w, 0)"
  have "signal_del os ev w = Some ?r"
    using i nx(1,2) by (cases bs) (simp_all add: signal_del_def Let_def)
  moreover have f: "sig_events (fst ?r) = (sig_events w)(i := hdp bs None)" "events (fst ?r) = events w"
    "tqs (fst ?r) = tqs w" "evqs (fst ?r) = evqs w" by (simp_all add: signal_set_def Let_def)
  moreover have "sig_list (fst ?r) i (as @ bs)" unfolding sig_list_def f using nx Nil by simp
  ultimately show ?thesis using Nil
    by (intro exI [of _ "fst ?r"] exI [of _ "snd ?r"]) (simp add: signal_set_def Let_def)
next
  case (snoc cs p)
  have l': "slist (\<lambda>e. next_object (events w e)) (cs @ [p, ev] @ bs) None" "distinct (cs @ [p, ev] @ bs)"
    "sig_events w i = hdp (cs @ [p]) None"
    "\<forall>e \<in> set (cs @ [p] @ bs). signal_gethead (event_signo (events w e)) = Some i"
    using l snoc by (simp_all add: sig_list_def)
  have nh: "hdp (cs @ [p]) None \<noteq> Some ev" using l'(2) by (cases cs) auto
  have nx: "next_object (events w ev) = hdp bs None" using l'(1) by simp
  let ?w = "ev_upd p (\<lambda>e. e\<lparr>next_object := hdp bs None\<rparr>) w"
  have p: "p \<notin> set cs" "p \<notin> set bs" using l'(2) by auto
  have "slist (\<lambda>e. next_object (events ?w e)) cs (Some p) = slist (\<lambda>e. next_object (events w e)) cs (Some p)"
    "slist (\<lambda>e. next_object (events ?w e)) bs None = slist (\<lambda>e. next_object (events w e)) bs None"
    using p by (auto intro!: slist_cong)
  then have "sig_list ?w i (as @ bs)" using l' snoc p by (simp add: sig_list_def)
  moreover have "signal_del os ev w = Some (?w, 0)"
    using i l'(3) nh nx signal_find_prev_spec [OF l'(1,2)] by (simp add: signal_del_def Let_def)
  ultimately show ?thesis using snoc by (intro exI [of _ ?w] exI [of _ 0]) simp
qed

lemma signal_add_spec:
  assumes i: "signal_gethead (event_signo (events w ev)) = Some i" and l: "sig_list w i es"
    and ev: "ev \<notin> set es" and ok: "os_sigaction os (int (event_signo (events w ev))) SigHandler = 0"
  shows "\<exists>w'. signal_add os q ev w = (w', 0) \<and> sig_list w' i (ev # es) \<and>
    (\<forall>j. j \<noteq> i \<longrightarrow> sig_events w' j = sig_events w j) \<and>
    nevents (evqs w' q) = u32_add (nevents (evqs w q)) 1 \<and>
    (es = [] \<longrightarrow> sig_set w' (int (event_signo (events w ev))) = SigHandler)"
proof -
  have "slist (\<lambda>e. next_object (((events w)(ev := (events w ev)\<lparr>next_object := x\<rparr>)) e)) es None
      = slist (\<lambda>e. next_object (events w e)) es None" for x
    by (rule slist_cong) (use ev in auto)
  then show ?thesis using i l ev ok
    by (cases es) (auto simp: signal_add_def Let_def sig_list_def signal_set_def)
qed

section \<open>The ready list\<close>

text \<open>
  The invariant between the callbacks: the timeout queues and the free cells are well formed
  and the ready list is a list of distinct active events, none of them a free cell or a
  timeout queue.
\<close>

definition evq_inv :: "evq_store \<Rightarrow> nat \<Rightarrow> tqv list \<Rightarrow> nat list \<Rightarrow> nat list \<Rightarrow> bool" where
  "evq_inv w q qs fs rs \<longleftrightarrow>
     evq_timers w q qs fs \<and> tq_complete w q qs \<and>
     slist (\<lambda>e. next_ready (events w e)) rs None \<and> distinct rs \<and>
     set rs \<inter> set (map fst qs @ fs) = {} \<and>
     (\<forall>e \<in> set rs. flag_on (ev_flags (events w e)) EVENT_ACTIVE)"

text \<open>A signal event stands in the list of its signal.\<close>

definition sig_event_ok :: "evq_store \<Rightarrow> nat \<Rightarrow> bool" where
  "sig_event_ok w ev \<longleftrightarrow>
     (flag_on (ev_flags (events w ev)) EVENT_SIGNAL \<longrightarrow>
        (\<exists>i as bs. signal_gethead (event_signo (events w ev)) = Some i \<and> sig_list w i (as @ ev # bs)))"

lemma evq_inv_frame:
  assumes inv: "evq_inv w q qs fs rs" and "tqs w' = tqs w"
    and q: "evq_tq (evqs w' q) = evq_tq (evqs w q)" "ev_free (evqs w' q) = ev_free (evqs w q)"
      "tq_map_fn (evqs w' q) = tq_map_fn (evqs w q)" "tq_map (evqs w' q) = tq_map (evqs w q)"
    and ev: "\<And>e. ev_next (events w' e) = ev_next (events w e) \<and>
      ev_prev (events w' e) = ev_prev (events w e) \<and> ev_tq (events w' e) = ev_tq (events w e) \<and>
      ev_evq (events w' e) = ev_evq (events w e)"
    and ready: "\<And>e. e \<in> set (fs @ rs) \<Longrightarrow> next_ready (events w' e) = next_ready (events w e)"
    and act: "\<And>e. e \<in> set rs \<Longrightarrow> flag_on (ev_flags (events w' e)) EVENT_ACTIVE"
  shows "evq_inv w' q qs fs rs"
proof -
  have t: "evq_timers w q qs fs" using inv by (simp add: evq_inv_def)
  have "evq_timers w' q qs fs"
    by (rule evq_timers_frame [OF t]) (use assms evq_timersD(7) [OF t] in auto)
  moreover have "slist (\<lambda>e. next_ready (events w' e)) rs None = slist (\<lambda>e. next_ready (events w e)) rs None"
    by (rule slist_cong) (use ready in auto)
  ultimately show ?thesis using inv ev act by (simp add: evq_inv_def tq_complete_def)
qed

lemma evq_invD:
  assumes "evq_inv w q qs fs rs"
  shows "evq_timers w q qs fs" and "tq_complete w q qs"
    and "slist (\<lambda>e. next_ready (events w e)) rs None" and "distinct rs"
    and "set rs \<inter> set (map fst qs @ fs) = {}"
    and "\<And>e. e \<in> set rs \<Longrightarrow> flag_on (ev_flags (events w e)) EVENT_ACTIVE"
    and "\<And>e. e \<in> set (map fst qs @ fs) \<Longrightarrow> ev_evq (events w e) \<noteq> Some q"
  using assms evq_timersD(7) [of w q qs fs] by (auto simp: evq_inv_def)

text \<open>The first step of \<open>evq_del\<close>: the timeout goes.\<close>

lemma evq_del_timeout:
  assumes inv: "evq_inv w q qs fs rs" and ev: "ev_evq (events w ev) = Some q"
  shows "\<exists>w' qs' fs'.
    (if ev_tq (events w ev) \<noteq> None then timeout_del ev w else Some w) = Some w' \<and>
    evq_inv w' q qs' fs' rs \<and> (\<forall>m. tq_list qs' m = remove1 ev (tq_list qs m)) \<and>
    ev \<notin> set (tqv_events qs') \<and> set (map fst qs' @ fs') = set (map fst qs @ fs) \<and>
    timer_frame w w' \<and> nevents (evqs w' q) = nevents (evqs w q) \<and>
    (\<forall>e. e \<notin> set (map fst qs) \<longrightarrow> next_ready (events w' e) = next_ready (events w e))"
proof (cases "ev \<in> set (tqv_events qs)")
  case True
  note t = evq_invD(1) [OF inv]
  obtain A u m as bs B where qs: "qs = A @ (u, m, as @ ev # bs) # B"
    using tqv_events_split [OF True] .
  have some: "ev_tq (events w ev) \<noteq> None"
    using tq_holds_split(1) [OF evq_timers_at(1) [OF t [unfolded qs]]] by simp
  from timeout_del_any [OF t True] obtain w' qs' fs' where d: "timeout_del ev w = Some w'"
      "evq_timers w' q qs' fs'" "\<forall>m. tq_list qs' m = remove1 ev (tq_list qs m)"
      "tqv_events qs' = remove1 ev (tqv_events qs)"
    and cells: "set (map fst qs' @ fs') = set (map fst qs @ fs)"
    and fr: "timer_frame w w'" and n: "nevents (evqs w' q) = nevents (evqs w q)"
    and tq: "ev_tq (events w' ev) = None" "\<forall>e. e \<noteq> ev \<longrightarrow> ev_tq (events w' e) = ev_tq (events w e)"
    and nr: "\<forall>e. e \<notin> set (map fst qs) \<longrightarrow> next_ready (events w' e) = next_ready (events w e)"
    by blast
  have no: "ev \<notin> set (tqv_events qs')" using d(4) evq_timersD(5) [OF t] by simp
  have "tq_complete w' q qs'"
    unfolding tq_complete_def
  proof (intro allI impI)
    fix e assume e: "ev_evq (events w' e) = Some q" "ev_tq (events w' e) \<noteq> None"
    then have "e \<noteq> ev" using tq(1) by auto
    with e tq(2) fr have "e \<in> set (tqv_events qs)"
      using evq_invD(2) [OF inv] by (auto simp: tq_complete_def timer_frame_def)
    with \<open>e \<noteq> ev\<close> show "e \<in> set (tqv_events qs')" using d(4) by (simp add: in_set_remove1)
  qed
  moreover have "slist (\<lambda>e. next_ready (events w' e)) rs None"
    using evq_invD(3,5) [OF inv] nr
    by (subst slist_cong [of rs _ "\<lambda>e. next_ready (events w e)"]) (auto simp: disjoint_iff)
  ultimately have "evq_inv w' q qs' fs' rs"
    unfolding evq_inv_def using d(2) evq_invD [OF inv] cells fr
    by (simp add: timer_frame_def)
  with some d cells fr n nr no show ?thesis by (intro exI [of _ w'] exI [of _ qs'] exI [of _ fs']) simp
next
  case False
  then have "ev_tq (events w ev) = None" using evq_invD(2) [OF inv] ev by (auto simp: tq_complete_def)
  moreover have "remove1 ev (tq_list qs m) = tq_list qs m" for m
    using False tq_list_sub by (intro remove1_idem) blast
  ultimately show ?thesis using inv False by (intro exI [of _ w] exI [of _ qs] exI [of _ fs]) simp
qed

text \<open>The five lists of signal events are well formed and hold all signal events of a queue.\<close>

definition sig_ok :: "evq_store \<Rightarrow> nat \<Rightarrow> bool" where
  "sig_ok w q \<longleftrightarrow> (\<forall>i < 5. \<exists>es. sig_list w i es) \<and>
     (\<forall>ev. ev_evq (events w ev) = Some q \<longrightarrow> sig_event_ok w ev)"

lemma sig_list_cong:
  assumes "sig_events w' i = sig_events w i"
    and "\<And>e. e \<in> set es \<Longrightarrow> next_object (events w' e) = next_object (events w e)"
    and "\<And>e. e \<in> set es \<Longrightarrow> event_signo (events w' e) = event_signo (events w e)"
  shows "sig_list w' i es = sig_list w i es"
proof -
  have "slist (\<lambda>e. next_object (events w' e)) es None = slist (\<lambda>e. next_object (events w e)) es None"
    by (rule slist_cong) (rule assms(2))
  then show ?thesis using assms(1,3) by (simp add: sig_list_def)
qed

lemma sig_ok_frame:
  assumes "sig_ok w q" and "sig_events w' = sig_events w"
    and "\<And>e. next_object (events w' e) = next_object (events w e)"
    and "\<And>e. event_signo (events w' e) = event_signo (events w e)"
    and "\<And>e. ev_evq (events w' e) = Some q \<Longrightarrow> ev_evq (events w e) = Some q"
    and "\<And>e. flag_on (ev_flags (events w' e)) EVENT_SIGNAL = flag_on (ev_flags (events w e)) EVENT_SIGNAL"
  shows "sig_ok w' q"
proof -
  have "sig_list w' i es = sig_list w i es" for i es
    by (rule sig_list_cong) (simp_all add: assms)
  then show ?thesis using assms(1,4,5,6) by (simp add: sig_ok_def sig_event_ok_def)
qed

lemma sig_list_unique:
  "sig_list w i es \<Longrightarrow> sig_list w i es' \<Longrightarrow> es = es'"
proof -
  have "slist nx xs None \<Longrightarrow> slist nx ys None \<Longrightarrow> hdp xs None = hdp ys None \<Longrightarrow> xs = ys"
    for nx xs ys
  proof (induction xs arbitrary: ys)
    case Nil
    then show ?case by (cases ys) auto
  next
    case (Cons x xs)
    then show ?case by (cases ys) auto
  qed
  then show "sig_list w i es \<Longrightarrow> sig_list w i es' \<Longrightarrow> es = es'"
    unfolding sig_list_def by metis
qed

lemma sig_list_disjoint:
  assumes "sig_list w i es" and "sig_list w j es'" and "i \<noteq> j"
  shows "set es \<inter> set es' = {}"
  using assms by (auto simp: sig_list_def)

lemma sig_ok_del:
  assumes ok: "sig_ok w q" and i: "signal_gethead (event_signo (events w ev)) = Some i"
    and l: "sig_list w i (as @ ev # bs)" and dead: "ev_evq (events w ev) \<noteq> Some q"
    and l': "sig_list w' i (as @ bs)" and se: "\<forall>j. j \<noteq> i \<longrightarrow> sig_events w' j = sig_events w j"
    and e1: "\<forall>e. events w' e = (events w e)\<lparr>next_object := next_object (events w' e)\<rparr>"
    and e2: "\<forall>e. e \<notin> set as \<longrightarrow> events w' e = events w e"
  shows "sig_ok w' q"
proof -
  have same: "event_signo (events w' x) = event_signo (events w x)"
    "ev_evq (events w' x) = ev_evq (events w x)" "ev_flags (events w' x) = ev_flags (events w x)" for x
    using arg_cong [OF e1 [rule_format, of x], of event_signo]
      arg_cong [OF e1 [rule_format, of x], of ev_evq] arg_cong [OF e1 [rule_format, of x], of ev_flags]
    by simp_all
  have other: "sig_list w' j es" if "sig_list w j es" and "j \<noteq> i" for j es
  proof -
    have "set es \<inter> set as = {}" using sig_list_disjoint [OF that(1) l] that(2) by auto
    then have "sig_list w' j es = sig_list w j es"
      by (intro sig_list_cong) (use that se e2 in auto)
    with that show ?thesis by simp
  qed
  have "\<exists>es. sig_list w' j es" if "j < 5" for j
    using that ok other l' by (metis sig_ok_def)
  moreover have "sig_event_ok w' e" if e: "ev_evq (events w' e) = Some q" for e
    unfolding sig_event_ok_def
  proof
    assume "flag_on (ev_flags (events w' e)) EVENT_SIGNAL"
    with e obtain j cs ds where j: "signal_gethead (event_signo (events w e)) = Some j"
      "sig_list w j (cs @ e # ds)"
      using ok by (auto simp: same sig_ok_def sig_event_ok_def)
    have "e \<noteq> ev" using e dead same by auto
    show "\<exists>i as bs. signal_gethead (event_signo (events w' e)) = Some i \<and> sig_list w' i (as @ e # bs)"
    proof (cases "j = i")
      case True
      with j(2) l have "cs @ e # ds = as @ ev # bs" by (metis sig_list_unique)
      then have "e \<in> set (as @ ev # bs)" by (metis in_set_conv_decomp)
      with \<open>e \<noteq> ev\<close> have "e \<in> set (as @ bs)" by auto
      then obtain cs' ds' where "as @ bs = cs' @ e # ds'" by (meson split_list)
      with l' j(1) True same show ?thesis by metis
    next
      case False
      from other [OF j(2) False] j(1) same show ?thesis by auto
    qed
  qed
  ultimately show ?thesis by (simp add: sig_ok_def)
qed

text \<open>\<open>evq_del\<close> takes the event out of everything but the ready list.\<close>

lemma evq_del_spec:
  assumes inv: "evq_inv w q qs fs rs" and ev: "ev_evq (events w ev) = Some q" and sig: "sig_ok w q"
  shows "\<exists>w' res qs' fs'. evq_del os ev reuse_fd w = Some (w', res) \<and>
    evq_inv w' q qs' fs' rs \<and> sig_ok w' q \<and> (\<forall>m. tq_list qs' m = remove1 ev (tq_list qs m)) \<and>
    set (map fst qs' @ fs') = set (map fst qs @ fs) \<and> event_deleted w' ev \<and>
    nevents (evqs w' q) = u32_sub (nevents (evqs w q)) 1 \<and>
    (\<forall>e. ev_flags (events w' e) = ev_flags (events w e) \<and> ev_fd (events w' e) = ev_fd (events w e)) \<and>
    (\<forall>e. e \<noteq> ev \<longrightarrow> ev_evq (events w' e) = ev_evq (events w e)) \<and>
    (\<forall>e. e \<notin> set (map fst qs) \<longrightarrow> next_ready (events w' e) = next_ready (events w e))"
proof -
  from evq_del_timeout [OF inv ev] obtain w1 qs' fs' where
    t: "(if ev_tq (events w ev) \<noteq> None then timeout_del ev w else Some w) = Some w1"
    and inv1: "evq_inv w1 q qs' fs' rs" and l: "\<forall>m. tq_list qs' m = remove1 ev (tq_list qs m)"
    and no: "ev \<notin> set (tqv_events qs')" and cells: "set (map fst qs' @ fs') = set (map fst qs @ fs)"
    and fr: "timer_frame w w1" and n: "nevents (evqs w1 q) = nevents (evqs w q)"
    and nr: "\<forall>e. e \<notin> set (map fst qs) \<longrightarrow> next_ready (events w1 e) = next_ready (events w e)"
    by blast
  define w3 where "w3 = evq_upd q (\<lambda>r. r\<lparr>nevents := u32_sub (nevents r) 1\<rparr>)
    (ev_upd ev (\<lambda>e. e\<lparr>ev_evq := None\<rparr>) w1)"
  have e3: "events w3 = (events w1)(ev := (events w1 ev)\<lparr>ev_evq := None\<rparr>)" "tqs w3 = tqs w1"
    "sig_events w3 = sig_events w1" "evqs w3 = (evqs w1)(q := (evqs w1 q)\<lparr>nevents := u32_sub (nevents (evqs w1 q)) 1\<rparr>)"
    by (simp_all add: w3_def)
  have t3: "evq_timers w3 q qs' fs'"
    by (rule evq_timers_frame [OF evq_invD(1) [OF inv1]])
       (use no evq_invD(7) [OF inv1] e3 in \<open>auto split: if_splits\<close>)
  have inv3: "evq_inv w3 q qs' fs' rs"
    unfolding evq_inv_def
  proof (intro conjI)
    show "tq_complete w3 q qs'" using evq_invD(2) [OF inv1] by (simp add: tq_complete_def e3)
    show "slist (\<lambda>e. next_ready (events w3 e)) rs None"
      by (subst slist_cong [of rs _ "\<lambda>e. next_ready (events w1 e)"])
         (use evq_invD(3) [OF inv1] in \<open>simp_all add: e3\<close>)
    show "\<forall>e \<in> set rs. flag_on (ev_flags (events w3 e)) EVENT_ACTIVE"
      using evq_invD(6) [OF inv1] by (simp add: e3)
  qed (use t3 evq_invD [OF inv1] in auto)
  have frs: "sig_events w1 = sig_events w" "\<And>e. next_object (events w1 e) = next_object (events w e)"
    "\<And>e. ev_flags (events w1 e) = ev_flags (events w e)" "\<And>e. ev_fd (events w1 e) = ev_fd (events w e)"
    "\<And>e. ev_evq (events w1 e) = ev_evq (events w e)" using fr by (simp_all add: timer_frame_def)
  have sg: "event_signo (events w3 e) = event_signo (events w e)" for e
    by (simp add: e3 event_signo_def frs)
  have ok3: "sig_ok w3 q"
    by (rule sig_ok_frame [OF sig]) (use frs sg e3 in \<open>auto split: if_splits\<close>)
  have e3n: "nevents (evqs w3 q) = u32_sub (nevents (evqs w q)) 1" "event_deleted w3 ev"
    "\<forall>e. ev_flags (events w3 e) = ev_flags (events w e) \<and> ev_fd (events w3 e) = ev_fd (events w e)"
    "\<forall>e. e \<noteq> ev \<longrightarrow> ev_evq (events w3 e) = ev_evq (events w e)"
    "\<forall>e. e \<notin> set (map fst qs) \<longrightarrow> next_ready (events w3 e) = next_ready (events w e)"
    using frs n nr by (simp_all add: e3 event_deleted_def)
  have del: "evq_del os ev reuse_fd w =
     (if flag_on (ev_flags (events w ev)) EVENT_TIMER then Some (w3, 0)
      else if flag_on (ev_flags (events w ev)) EVENT_SIGNAL then signal_del os ev w3
      else if flag_on (ev_flags (events w ev)) EVENT_DIRWATCH then
        Some (w3\<lparr>fd_closed := ev_fd (events w3 ev) # fd_closed w3\<rparr>, os_close os (ev_fd (events w3 ev)))
      else Some (if reuse_fd then ep_upd q (ev_fd (events w3 ev)) None w3 else w3, 0))"
    by (simp only: evq_del_def ev Let_def t Option.bind_lunit w3_def)
  show ?thesis
  proof (cases "\<not> flag_on (ev_flags (events w ev)) EVENT_TIMER \<and> flag_on (ev_flags (events w ev)) EVENT_SIGNAL")
    case False
    define r where "r = (if flag_on (ev_flags (events w ev)) EVENT_TIMER then (w3, 0)
       else if flag_on (ev_flags (events w ev)) EVENT_DIRWATCH then
          (w3\<lparr>fd_closed := ev_fd (events w3 ev) # fd_closed w3\<rparr>, os_close os (ev_fd (events w3 ev)))
       else (if reuse_fd then ep_upd q (ev_fd (events w3 ev)) None w3 else w3, 0))"
    have d: "evq_del os ev reuse_fd w = Some (fst r, snd r)"
      using False by (auto simp: del r_def)
    have rf: "events (fst r) = events w3" "tqs (fst r) = tqs w3" "evqs (fst r) = evqs w3"
      "sig_events (fst r) = sig_events w3" by (simp_all add: r_def)
    have "evq_inv (fst r) q qs' fs' rs"
      by (rule evq_inv_frame [OF inv3]) (use evq_invD(6) [OF inv3] in \<open>simp_all add: rf\<close>)
    moreover have "sig_ok (fst r) q" by (rule sig_ok_frame [OF ok3]) (simp_all add: rf)
    ultimately show ?thesis using d l cells e3n
      by (intro exI [of _ "fst r"] exI [of _ "snd r"] exI [of _ qs'] exI [of _ fs'])
         (simp add: rf event_deleted_def)
  next
    case True
    then obtain i as bs where i: "signal_gethead (event_signo (events w ev)) = Some i"
      and ls: "sig_list w i (as @ ev # bs)"
      using sig ev by (auto simp: sig_ok_def sig_event_ok_def)
    have l3: "sig_list w3 i (as @ ev # bs)"
      using ls by (subst sig_list_cong [where w = w]) (simp_all add: sg, simp_all add: e3 frs)
    have i3: "signal_gethead (event_signo (events w3 ev)) = Some i" using i sg by simp
    from signal_del_spec [OF i3 l3, of os] obtain w' res where
      sd: "signal_del os ev w3 = Some (w', res)" and l4: "sig_list w' i (as @ bs)"
      and se: "\<forall>j. j \<noteq> i \<longrightarrow> sig_events w' j = sig_events w3 j" and fr': "tqs w' = tqs w3" "evqs w' = evqs w3"
      and e1: "\<forall>e. events w' e = (events w3 e)\<lparr>next_object := next_object (events w' e)\<rparr>"
      and e2: "\<forall>e. e \<notin> set as \<longrightarrow> events w' e = events w3 e" by blast
    have d: "evq_del os ev reuse_fd w = Some (w', res)"
      using True sd by (simp add: del)
    have "sig_ok w' q"
      by (rule sig_ok_del [OF ok3 i3 l3 _ l4 se e1 e2]) (simp add: e3)
    moreover have fe: "ev_next (events w' e) = ev_next (events w3 e) \<and> ev_prev (events w' e) = ev_prev (events w3 e) \<and>
        ev_tq (events w' e) = ev_tq (events w3 e) \<and> ev_evq (events w' e) = ev_evq (events w3 e) \<and>
        next_ready (events w' e) = next_ready (events w3 e) \<and> ev_flags (events w' e) = ev_flags (events w3 e) \<and>
        ev_fd (events w' e) = ev_fd (events w3 e)" for e
    proof -
      obtain x where "events w' e = (events w3 e)\<lparr>next_object := x\<rparr>" using e1 by blast
      then show ?thesis by simp
    qed
    moreover have "evq_inv w' q qs' fs' rs"
      by (rule evq_inv_frame [OF inv3]) (use evq_invD(6) [OF inv3] fe in \<open>simp_all add: fr'\<close>)
    ultimately show ?thesis using d l cells e3n fe fr'
      by (intro exI [of _ w'] exI [of _ res] exI [of _ qs'] exI [of _ fs'])
         (simp add: event_deleted_def)
  qed
qed

text \<open>Restarting the timeout of an event that has one.\<close>

lemma evq_inv_reset:
  assumes inv: "evq_inv w q qs fs rs" and ev: "ev_evq (events w ev) = Some q" "ev_tq (events w ev) \<noteq> None"
  shows "\<exists>w' qs'. timeout_reset ev now w = Some w' \<and> evq_inv w' q qs' fs rs \<and>
    map fst qs' = map fst qs \<and> timer_frame w w' \<and> evqs w' = evqs w \<and>
    (\<forall>e. next_ready (events w' e) = next_ready (events w e))"
proof -
  have "ev \<in> set (tqv_events qs)" using evq_invD(2) [OF inv] ev by (auto simp: tq_complete_def)
  then obtain A u m as bs B where qs: "qs = A @ (u, m, as @ ev # bs) # B" by (rule tqv_events_split)
  from timeout_reset_spec [OF evq_invD(1) [OF inv, unfolded qs], of now] obtain w' where
    r: "timeout_reset ev now w = Some w'" "evq_timers w' q (A @ (u, m, as @ bs @ [ev]) # B) fs"
      "timer_frame w w'" "evqs w' = evqs w" "\<forall>e. next_ready (events w' e) = next_ready (events w e)"
      "\<forall>e. ev_tq (events w' e) = ev_tq (events w e)" by blast
  have "set (tqv_events (A @ (u, m, as @ bs @ [ev]) # B)) = set (tqv_events qs)" by (auto simp: qs)
  then have "tq_complete w' q (A @ (u, m, as @ bs @ [ev]) # B)"
    using evq_invD(2) [OF inv] r(3,6) by (simp add: tq_complete_def timer_frame_def)
  moreover have "slist (\<lambda>e. next_ready (events w' e)) rs None"
    using evq_invD(3) [OF inv] r(5) by simp
  ultimately have "evq_inv w' q (A @ (u, m, as @ bs @ [ev]) # B) fs rs"
    using r(2,3) evq_invD(4-6) [OF inv] by (simp add: evq_inv_def timer_frame_def qs)
  with r show ?thesis
    by (intro exI [of _ w'] exI [of _ "A @ (u, m, as @ bs @ [ev]) # B"]) (simp add: qs)
qed

text \<open>Pushing an active event on the ready list.\<close>

lemma evq_inv_push:
  assumes inv: "evq_inv w q qs fs rs" and ev: "ev \<notin> set rs" "ev \<notin> set (map fst qs @ fs)"
    "flag_on (ev_flags (events w ev)) EVENT_ACTIVE"
  shows "evq_inv (ev_upd ev (\<lambda>e. e\<lparr>next_ready := hdp rs None\<rparr>) w) q qs fs (ev # rs)"
proof -
  let ?w = "ev_upd ev (\<lambda>e. e\<lparr>next_ready := hdp rs None\<rparr>) w"
  have i: "evq_inv ?w q qs fs rs"
    by (rule evq_inv_frame [OF inv]) (use ev evq_invD(6) [OF inv] in auto)
  have "slist (\<lambda>e. next_ready (events ?w e)) (ev # rs) None"
    using evq_invD(3) [OF i] by simp
  then show ?thesis
    unfolding evq_inv_def using evq_invD(1,2,4,5,6) [OF i] ev by (simp add: disjoint_iff)
qed

lemmas event_bits = event_flag_defs flag_simps

lemma evq_inv_flags:
  assumes inv: "evq_inv w q qs fs rs"
    and keep: "flag_on (ev_flags (events w ev)) EVENT_ACTIVE \<Longrightarrow> flag_on (f (ev_flags (events w ev))) EVENT_ACTIVE"
  shows "evq_inv (ev_upd ev (\<lambda>e. e\<lparr>ev_flags := f (ev_flags e)\<rparr>) w) q qs fs rs"
  by (rule evq_inv_frame [OF inv]) (use evq_invD(6) [OF inv] keep in auto)

lemma sig_ok_flags:
  assumes ok: "sig_ok w q"
    and same: "flag_on (f (ev_flags (events w ev))) EVENT_PID = flag_on (ev_flags (events w ev)) EVENT_PID"
      "flag_on (f (ev_flags (events w ev))) EVENT_SIGNAL = flag_on (ev_flags (events w ev)) EVENT_SIGNAL"
  shows "sig_ok (ev_upd ev (\<lambda>e. e\<lparr>ev_flags := f (ev_flags e)\<rparr>) w) q"
  by (rule sig_ok_frame [OF ok]) (use same in \<open>auto simp: event_signo_def split: if_splits\<close>)

lemma sig_ok_ready: "sig_ok w q \<Longrightarrow> sig_ok (ev_upd ev (\<lambda>e. e\<lparr>next_ready := x\<rparr>) w) q"
  by (rule sig_ok_frame) (auto split: if_splits)

abbreviation ev_active :: "evq_store \<Rightarrow> nat \<Rightarrow> bool" where
  "ev_active w e \<equiv> flag_on (ev_flags (events w e)) EVENT_ACTIVE"

lemma active_flag [simp]:
  "flag_on (set_flag f EVENT_ACTIVE) EVENT_ACTIVE"
  "flag_on (set_flag f EVENT_ACTIVE) EVENT_PID = flag_on f EVENT_PID"
  "flag_on (set_flag f EVENT_ACTIVE) EVENT_SIGNAL = flag_on f EVENT_SIGNAL"
  "flag_on (set_flag f EVENT_ACTIVE) EVENT_ONESHOT = flag_on f EVENT_ONESHOT"
  "flag_on (set_flag f EVENT_ACTIVE) EVENT_TIMEOUT_MANUAL = flag_on f EVENT_TIMEOUT_MANUAL"
  "flag_on (set_flag f EVENT_ACTIVE) EVENT_TIMER = flag_on f EVENT_TIMER"
  "flag_on (set_flag f EVENT_ACTIVE) EVENT_DIRWATCH = flag_on f EVENT_DIRWATCH"
  "flag_on (set_flag f EVENT_ACTIVE) EVENT_READ = flag_on f EVENT_READ"
  "flag_on (set_flag f EVENT_ACTIVE) EVENT_WRITE = flag_on f EVENT_WRITE"
  by (simp_all add: event_bits)

lemma ready_flag [simp]:
  "flag_on (set_flag f EVENT_READ_RES) EVENT_ACTIVE = flag_on f EVENT_ACTIVE"
  "flag_on (set_flag f EVENT_READ_RES) EVENT_PID = flag_on f EVENT_PID"
  "flag_on (set_flag f EVENT_READ_RES) EVENT_SIGNAL = flag_on f EVENT_SIGNAL"
  "flag_on (set_flag f EVENT_READ_RES) EVENT_TIMER = flag_on f EVENT_TIMER"
  "flag_on (set_flag f EVENT_READ_RES) EVENT_DIRWATCH = flag_on f EVENT_DIRWATCH"
  "flag_on (set_flag f EVENT_READ_RES) EVENT_READ = flag_on f EVENT_READ"
  "flag_on (set_flag f EVENT_READ_RES) EVENT_WRITE = flag_on f EVENT_WRITE"
  by (simp_all add: event_bits)

text \<open>
  \<open>evq_activate\<close>: an event that is not active yet becomes active and comes first in the
  ready list; an active one is left alone. A one-shot event is deleted.
\<close>

lemma evq_activate_spec:
  assumes inv: "evq_inv w q qs fs rs" and sig: "sig_ok w q"
    and ev: "ev_active w ev \<or> ev_evq (events w ev) = Some q"
  defines "rs' \<equiv> if ev_active w ev then rs else ev # rs"
  shows "\<exists>w' qs' fs'. evq_activate os ev (hdp rs None) now w = Some (w', hdp rs' None) \<and>
    evq_inv w' q qs' fs' rs' \<and> sig_ok w' q \<and> set (map fst qs' @ fs') = set (map fst qs @ fs) \<and>
    (\<forall>e. ev_flags (events w' e) =
       (if e = ev then set_flag (ev_flags (events w e)) EVENT_ACTIVE else ev_flags (events w e))) \<and>
    (\<forall>e. ev_fd (events w' e) = ev_fd (events w e)) \<and>
    (\<forall>e. e \<noteq> ev \<longrightarrow> ev_evq (events w' e) = ev_evq (events w e)) \<and>
    (\<not> ev_active w ev \<longrightarrow> event_deleted w' ev = flag_on (ev_flags (events w ev)) EVENT_ONESHOT) \<and>
    (\<forall>e. e \<noteq> ev \<longrightarrow> e \<notin> set (map fst qs @ fs) \<longrightarrow> next_ready (events w' e) = next_ready (events w e))"
proof (cases "ev_active w ev")
  case True
  have "EVENT_ACTIVE = push_bit 19 1" by (simp add: EVENT_ACTIVE_def push_bit_eq_mult)
  then have "set_flag (ev_flags (events w ev)) EVENT_ACTIVE = ev_flags (events w ev)"
    using True by (rule set_flag_idem)
  with True inv sig show ?thesis
    by (intro exI [of _ w] exI [of _ qs] exI [of _ fs]) (simp add: evq_activate_def rs'_def)
next
  case False
  with ev have evq: "ev_evq (events w ev) = Some q" by simp
  define w1 where "w1 = ev_upd ev (\<lambda>e. e\<lparr>ev_flags := set_flag (ev_flags e) EVENT_ACTIVE\<rparr>) w"
  have inv1: "evq_inv w1 q qs fs rs" unfolding w1_def by (rule evq_inv_flags [OF inv]) simp
  have sig1: "sig_ok w1 q" unfolding w1_def by (rule sig_ok_flags [OF sig]) simp_all
  have e1: "ev_evq (events w1 e) = ev_evq (events w e)" "ev_fd (events w1 e) = ev_fd (events w e)" "next_ready (events w1 e) = next_ready (events w e)"
     "ev_flags (events w1 e) = (if e = ev then set_flag (ev_flags (events w e)) EVENT_ACTIVE
        else ev_flags (events w e))" for e by (simp_all add: w1_def)
  have nc: "ev \<notin> set (map fst qs @ fs)" using evq_invD(7) [OF inv] evq by blast
  have nr: "ev \<notin> set rs" using evq_invD(6) [OF inv] False by blast
  have "\<exists>w2 qs' fs'.
    (if flag_on (ev_flags (events w1 ev)) EVENT_ONESHOT then map_option fst (evq_del os ev True w1)
     else if ev_tq (events w1 ev) \<noteq> None \<and> \<not> flag_on (ev_flags (events w1 ev)) EVENT_TIMEOUT_MANUAL
       then timeout_reset ev now w1 else Some w1) = Some w2 \<and>
    evq_inv w2 q qs' fs' rs \<and> sig_ok w2 q \<and> set (map fst qs' @ fs') = set (map fst qs @ fs) \<and>
    (\<forall>e. ev_flags (events w2 e) = ev_flags (events w1 e)) \<and>
    (\<forall>e. ev_fd (events w2 e) = ev_fd (events w1 e)) \<and>
    (\<forall>e. e \<noteq> ev \<longrightarrow> ev_evq (events w2 e) = ev_evq (events w1 e)) \<and>
    event_deleted w2 ev = flag_on (ev_flags (events w1 ev)) EVENT_ONESHOT \<and>
    (\<forall>e. e \<notin> set (map fst qs) \<longrightarrow> next_ready (events w2 e) = next_ready (events w1 e))"
  proof (cases "flag_on (ev_flags (events w1 ev)) EVENT_ONESHOT")
    case True
    from evq_del_spec [OF inv1 evq [folded e1(1)] sig1, of os True]
    obtain w2 r qs' fs' where "evq_del os ev True w1 = Some (w2, r)" "evq_inv w2 q qs' fs' rs" "sig_ok w2 q"
      "set (map fst qs' @ fs') = set (map fst qs @ fs)" "event_deleted w2 ev"
      "\<forall>e. ev_flags (events w2 e) = ev_flags (events w1 e) \<and> ev_fd (events w2 e) = ev_fd (events w1 e)"
      "\<forall>e. e \<noteq> ev \<longrightarrow> ev_evq (events w2 e) = ev_evq (events w1 e)"
      "\<forall>e. e \<notin> set (map fst qs) \<longrightarrow> next_ready (events w2 e) = next_ready (events w1 e)" by blast
    with True show ?thesis by (intro exI [of _ w2] exI [of _ qs'] exI [of _ fs']) simp
  next
    case os: False
    show ?thesis
    proof (cases "ev_tq (events w1 ev) \<noteq> None \<and> \<not> flag_on (ev_flags (events w1 ev)) EVENT_TIMEOUT_MANUAL")
      case True
      from evq_inv_reset [OF inv1 evq [folded e1(1)], of now] True obtain w2 qs' where
        r: "timeout_reset ev now w1 = Some w2" "evq_inv w2 q qs' fs rs" "map fst qs' = map fst qs"
        "timer_frame w1 w2" "\<forall>e. next_ready (events w2 e) = next_ready (events w1 e)" by blast
      have "sig_ok w2 q"
        by (rule sig_ok_frame [OF sig1]) (use r(4) in \<open>auto simp: timer_frame_def event_signo_def\<close>)
      with r True os show ?thesis
        by (intro exI [of _ w2] exI [of _ qs'] exI [of _ fs]) (simp add: timer_frame_def event_deleted_def e1 evq)
    next
      case False
      with os inv1 sig1 show ?thesis
        by (intro exI [of _ w1] exI [of _ qs] exI [of _ fs]) (auto simp: event_deleted_def e1 evq)
    qed
  qed
  then obtain w2 qs' fs' where
    st: "(if flag_on (ev_flags (events w1 ev)) EVENT_ONESHOT then map_option fst (evq_del os ev True w1)
     else if ev_tq (events w1 ev) \<noteq> None \<and> \<not> flag_on (ev_flags (events w1 ev)) EVENT_TIMEOUT_MANUAL
       then timeout_reset ev now w1 else Some w1) = Some w2"
    and r: "evq_inv w2 q qs' fs' rs" "sig_ok w2 q" "set (map fst qs' @ fs') = set (map fst qs @ fs)"
      "\<forall>e. ev_flags (events w2 e) = ev_flags (events w1 e)"
      "\<forall>e. ev_fd (events w2 e) = ev_fd (events w1 e)"
      "\<forall>e. e \<noteq> ev \<longrightarrow> ev_evq (events w2 e) = ev_evq (events w1 e)"
      "event_deleted w2 ev = flag_on (ev_flags (events w1 ev)) EVENT_ONESHOT"
      "\<forall>e. e \<notin> set (map fst qs) \<longrightarrow> next_ready (events w2 e) = next_ready (events w1 e)" by blast
  let ?w = "ev_upd ev (\<lambda>e. e\<lparr>next_ready := hdp rs None\<rparr>) w2"
  have "evq_activate os ev (hdp rs None) now w = Some (?w, Some ev)"
    using False st by (simp only: evq_activate_def if_False Let_def w1_def [symmetric] Option.bind_lunit)
  moreover have "evq_inv ?w q qs' fs' (ev # rs)"
    by (rule evq_inv_push [OF r(1) nr]) (use nc r(3,4) e1(4) in simp_all)
  moreover have "sig_ok ?w q" by (rule sig_ok_ready [OF r(2)])
  ultimately show ?thesis using r False e1
    by (intro exI [of _ ?w] exI [of _ qs'] exI [of _ fs']) (simp add: rs'_def event_deleted_def)
qed

section \<open>Processing the reported events\<close>

text \<open>The invariant with the abstract lists hidden, and what a step adds to the ready list.\<close>

definition evq_good :: "evq_store \<Rightarrow> nat \<Rightarrow> nat list \<Rightarrow> bool" where
  "evq_good w q rs \<longleftrightarrow> (\<exists>qs fs. evq_inv w q qs fs rs) \<and> sig_ok w q"

definition evq_step :: "nat \<Rightarrow> nat list \<Rightarrow> evq_store \<Rightarrow> evq_store \<Rightarrow> bool" where
  "evq_step q ns w w' \<longleftrightarrow>
     (\<forall>e. ev_active w' e \<longleftrightarrow> ev_active w e \<or> e \<in> set ns) \<and>
     (\<forall>e \<in> set ns. \<not> ev_active w e \<and> ev_evq (events w e) = Some q) \<and>
     (\<forall>e. e \<notin> set ns \<longrightarrow> ev_evq (events w' e) = ev_evq (events w e)) \<and>
     (\<forall>e. ev_fd (events w' e) = ev_fd (events w e) \<and> event_signo (events w' e) = event_signo (events w e) \<and>
        (\<forall>m \<in> {EVENT_SIGNAL, EVENT_TIMER, EVENT_DIRWATCH, EVENT_READ, EVENT_WRITE}.
           flag_on (ev_flags (events w' e)) m = flag_on (ev_flags (events w e)) m)) \<and>
     (ep_set w q = (\<lambda>_. None) \<longrightarrow> ep_set w' q = (\<lambda>_. None))"

text \<open>A step removes descriptors from the interest list only.\<close>

lemma upd_ep_set [simp]:
  "ep_set (ev_upd e f w) = ep_set w" "ep_set (tq_upd t g w) = ep_set w" "ep_set (evq_upd q h w) = ep_set w"
  by (simp_all add: ev_upd_def tq_upd_def evq_upd_def)

lemma timeout_reset_ep: "timeout_reset ev now w = Some w' \<Longrightarrow> ep_set w' = ep_set w"
  by (auto simp: timeout_reset_def Let_def split: option.splits bind_splits if_splits)

lemma timeout_del_ep: "timeout_del ev w = Some w' \<Longrightarrow> ep_set w' = ep_set w"
  by (auto simp: timeout_del_def timeout_del_queue_def levq_timeout_map_def Let_def
      split: option.splits bind_splits if_splits)

lemma signal_del_ep: "signal_del os ev w = Some (w', res) \<Longrightarrow> ep_set w' = ep_set w"
  by (auto simp: signal_del_def signal_set_def Let_def split: bind_splits if_splits)

lemma evq_del_ep:
  assumes "evq_del os ev reuse_fd w = Some (w', res)" and "ep_set w q = (\<lambda>_. None)"
  shows "ep_set w' q = (\<lambda>_. None)"
  using assms timeout_del_ep [of ev w]
  by (auto simp: evq_del_def Let_def ep_upd_def split: bind_splits if_splits dest!: signal_del_ep)

lemma evq_activate_ep:
  assumes "evq_activate os ev rdy now w = Some (w', rdy')" and "ep_set w q = (\<lambda>_. None)"
  shows "ep_set w' q = (\<lambda>_. None)"
  using assms
  by (auto simp: evq_activate_def Let_def split: bind_splits if_splits dest!: timeout_reset_ep evq_del_ep [where q = q])

lemma evq_step_refl: "evq_step q [] w w"
  by (simp add: evq_step_def)

lemma evq_step_trans:
  "evq_step q ns w w' \<Longrightarrow> evq_step q ms w' w'' \<Longrightarrow> evq_step q (ms @ ns) w w''"
  unfolding evq_step_def by (intro conjI) (auto 4 3)

lemma evq_good_distinct: "evq_good w q rs \<Longrightarrow> distinct rs"
  by (auto simp: evq_good_def evq_inv_def)

lemma evq_activate_good:
  assumes good: "evq_good w q rs" and ev: "ev_active w ev \<or> ev_evq (events w ev) = Some q"
  defines "ns \<equiv> if ev_active w ev then [] else [ev]"
  shows "\<exists>w'. evq_activate os ev (hdp rs None) now w = Some (w', hdp (ns @ rs) None) \<and>
    evq_good w' q (ns @ rs) \<and> evq_step q ns w w' \<and>
    (\<forall>e. e \<noteq> ev \<longrightarrow> ev_evq (events w e) = Some q \<longrightarrow> next_ready (events w' e) = next_ready (events w e))"
proof -
  from good obtain qs fs where inv: "evq_inv w q qs fs rs" and sig: "sig_ok w q"
    by (auto simp: evq_good_def)
  have rs: "(if ev_active w ev then rs else ev # rs) = ns @ rs" by (simp add: ns_def)
  from evq_activate_spec [OF inv sig ev, of os now, unfolded rs] obtain w' qs' fs' where
    a: "evq_activate os ev (hdp rs None) now w = Some (w', hdp (ns @ rs) None)"
    and i: "evq_inv w' q qs' fs' (ns @ rs)" "sig_ok w' q"
    and fl: "\<forall>e. ev_flags (events w' e) =
       (if e = ev then set_flag (ev_flags (events w e)) EVENT_ACTIVE else ev_flags (events w e))"
    and fd: "\<forall>e. ev_fd (events w' e) = ev_fd (events w e)"
    and q: "\<forall>e. e \<noteq> ev \<longrightarrow> ev_evq (events w' e) = ev_evq (events w e)"
    and nr: "\<forall>e. e \<noteq> ev \<longrightarrow> e \<notin> set (map fst qs @ fs) \<longrightarrow> next_ready (events w' e) = next_ready (events w e)"
    by metis
  have same: "ev_active w ev \<Longrightarrow> w' = w" using a by (simp add: evq_activate_def)
  have "evq_step q ns w w'"
    unfolding evq_step_def using fl q ev same fd evq_activate_ep [OF a, of q]
    by (auto simp: ns_def event_signo_def split: if_splits)
  moreover have "\<forall>e. e \<noteq> ev \<longrightarrow> ev_evq (events w e) = Some q \<longrightarrow>
      next_ready (events w' e) = next_ready (events w e)"
    using nr evq_invD(7) [OF inv] by blast
  ultimately show ?thesis using a i by (auto simp: evq_good_def)
qed

lemma evq_good_flags:
  assumes good: "evq_good w q rs"
    and same: "\<And>m. m \<in> {EVENT_ACTIVE, EVENT_PID, EVENT_SIGNAL, EVENT_TIMER, EVENT_DIRWATCH, EVENT_READ, EVENT_WRITE} \<Longrightarrow>
      flag_on (f (ev_flags (events w ev))) m = flag_on (ev_flags (events w ev)) m"
  defines "w' \<equiv> ev_upd ev (\<lambda>e. e\<lparr>ev_flags := f (ev_flags e)\<rparr>) w"
  shows "evq_good w' q rs \<and> evq_step q [] w w' \<and>
    (\<forall>e. next_ready (events w' e) = next_ready (events w e) \<and> ev_evq (events w' e) = ev_evq (events w e))"
proof -
  from good obtain qs fs where inv: "evq_inv w q qs fs rs" and sig: "sig_ok w q"
    by (auto simp: evq_good_def)
  have "evq_inv w' q qs fs rs" unfolding w'_def by (rule evq_inv_flags [OF inv]) (simp add: same)
  moreover have "sig_ok w' q" unfolding w'_def by (rule sig_ok_flags [OF sig]) (simp_all add: same)
  ultimately show ?thesis
    using same by (auto simp: evq_good_def evq_step_def w'_def event_signo_def)
qed

text \<open>The exit status leaves the lower bits of the flags alone.\<close>

lemma flag_on_status:
  assumes "take_bit 24 m = m"
  shows "flag_on (f OR push_bit 24 c) m = flag_on f (m :: u32)"
proof -
  have "push_bit 24 c AND take_bit 24 m = 0" by (rule bit_word_eqI) (simp add: bit_simps)
  then show ?thesis using flag_on_set_other [of "push_bit 24 c" m f] assms by (simp add: set_flag_def)
qed

lemma signal_process_child_spec:
  assumes "evq_good w q rs"
  shows "\<exists>w' res. signal_process_child os ev w = (w', res) \<and> evq_good w' q rs \<and> evq_step q [] w w' \<and>
    (\<forall>e. next_ready (events w' e) = next_ready (events w e) \<and> ev_evq (events w' e) = ev_evq (events w e))"
proof -
  define c :: u32 where "c = (case snd (os_waitpid os (ev_fd (events w ev))) of
     None \<Rightarrow> 0xFF | Some c \<Rightarrow> word_of_nat c)"
  have bits: "(case snd (os_waitpid os (ev_fd (events w ev))) of
      None \<Rightarrow> EVENT_STATUS_MASK | Some c \<Rightarrow> push_bit EVENT_STATUS_SHIFT (word_of_nat c)) = push_bit 24 c"
    by (simp add: c_def EVENT_STATUS_MASK_def EVENT_STATUS_SHIFT_def push_bit_eq_mult split: option.split)
  have "evq_good (ev_upd ev (\<lambda>e. e\<lparr>ev_flags := ev_flags e OR push_bit 24 c\<rparr>) w) q rs \<and>
     evq_step q [] w (ev_upd ev (\<lambda>e. e\<lparr>ev_flags := ev_flags e OR push_bit 24 c\<rparr>) w) \<and>
     (\<forall>e. next_ready (events (ev_upd ev (\<lambda>e. e\<lparr>ev_flags := ev_flags e OR push_bit 24 c\<rparr>) w) e) = next_ready (events w e) \<and>
        ev_evq (events (ev_upd ev (\<lambda>e. e\<lparr>ev_flags := ev_flags e OR push_bit 24 c\<rparr>) w) e) = ev_evq (events w e))"
    by (rule evq_good_flags [OF assms])
       (auto simp: flag_on_status take_bit_eq_mod event_flag_defs)
  then show ?thesis
    using assms evq_step_refl [of q w] bits
    by (auto simp: signal_process_child_def split: prod.split)
qed

lemma evq_process_active_good:
  assumes good: "evq_good w q rs" and ev: "\<not> ev_active w ev" "ev_evq (events w ev) = Some q"
  shows "\<exists>w'. evq_process_active os ev (hdp rs None) now w = Some (w', Some ev) \<and>
    evq_good w' q (ev # rs) \<and> evq_step q [ev] w w' \<and>
    (\<forall>e. e \<noteq> ev \<longrightarrow> ev_evq (events w e) = Some q \<longrightarrow> next_ready (events w' e) = next_ready (events w e))"
proof -
  define w1 where "w1 = ev_upd ev (\<lambda>e. e\<lparr>ev_flags := set_flag (ev_flags e) EVENT_READ_RES\<rparr>) w"
  have g: "evq_good w1 q rs \<and> evq_step q [] w w1 \<and>
    (\<forall>e. next_ready (events w1 e) = next_ready (events w e) \<and> ev_evq (events w1 e) = ev_evq (events w e))"
    unfolding w1_def by (rule evq_good_flags [OF good]) auto
  have ev1: "\<not> ev_active w1 ev" "ev_evq (events w1 ev) = Some q" using ev by (simp_all add: w1_def)
  from evq_activate_good [of w1 q rs ev os now] g ev1 obtain w' where
    "evq_activate os ev (hdp rs None) now w1 = Some (w', Some ev)" "evq_good w' q (ev # rs)"
    "evq_step q [ev] w1 w'"
    "\<forall>e. e \<noteq> ev \<longrightarrow> ev_evq (events w1 e) = Some q \<longrightarrow> next_ready (events w' e) = next_ready (events w1 e)"
    by auto
  moreover from this(3) g have "evq_step q [ev] w w'" using evq_step_trans [of q "[]" w w1 "[ev]" w'] by simp
  ultimately show ?thesis using g unfolding evq_process_active_def w1_def [symmetric] by auto
qed

text \<open>The collected events: those of the queue that are not active, linked in reverse order.\<close>

lemma signal_collect_spec:
  fixes q :: nat
  assumes "slist (\<lambda>e. next_object (events w e)) es None" and "distinct es"
    and "set es \<inter> set cs = {}" and "slist (\<lambda>e. next_ready (events w e)) cs None"
  defines "xs \<equiv> rev (filter (\<lambda>e. ev_evq (events w e) = Some q \<and> \<not> ev_active w e) es)"
  shows "\<exists>w'. signal_collect q (hdp es None) (hdp cs None) w = Some (w', hdp (xs @ cs) None) \<and>
    slist (\<lambda>e. next_ready (events w' e)) (xs @ cs) None \<and>
    (\<forall>e. events w' e = (events w e)\<lparr>next_ready := next_ready (events w' e)\<rparr>) \<and>
    (\<forall>e. e \<notin> set xs \<longrightarrow> events w' e = events w e) \<and>
    tqs w' = tqs w \<and> evqs w' = evqs w \<and> sig_events w' = sig_events w \<and> ep_set w' = ep_set w"
  using assms(1-4) unfolding xs_def
proof (induction es arbitrary: cs w)
  case Nil
  then show ?case by (subst signal_collect.simps) simp
next
  case (Cons e es)
  show ?case
  proof (cases "ev_evq (events w e) = Some q \<and> \<not> ev_active w e")
    case False
    from Cons.IH [of w cs] Cons.prems False show ?thesis
      by (subst signal_collect.simps) auto
  next
    case True
    let ?w = "ev_upd e (\<lambda>r. r\<lparr>next_ready := hdp cs None\<rparr>) w"
    have fl: "filter (\<lambda>x. ev_evq (events ?w x) = Some q \<and> \<not> ev_active ?w x) es
        = filter (\<lambda>x. ev_evq (events w x) = Some q \<and> \<not> ev_active w x) es"
      by (rule filter_cong) auto
    have "slist (\<lambda>x. next_object (events ?w x)) es None"
      using Cons.prems(1) slist_cong [of es "\<lambda>x. next_object (events ?w x)" "\<lambda>x. next_object (events w x)"]
      by simp
    moreover have "slist (\<lambda>x. next_ready (events ?w x)) (e # cs) None"
      using Cons.prems(3,4)
      by (simp, subst slist_cong [of cs _ "\<lambda>x. next_ready (events w x)"]) auto
    ultimately obtain w' where
      w': "signal_collect q (hdp es None) (Some e) ?w =
        Some (w', hdp (rev (filter (\<lambda>x. ev_evq (events w x) = Some q \<and> \<not> ev_active w x) es) @ e # cs) None)"
      "slist (\<lambda>x. next_ready (events w' x))
        (rev (filter (\<lambda>x. ev_evq (events w x) = Some q \<and> \<not> ev_active w x) es) @ e # cs) None"
      "\<forall>x. events w' x = (events ?w x)\<lparr>next_ready := next_ready (events w' x)\<rparr>"
      "\<forall>x. x \<notin> set (rev (filter (\<lambda>x. ev_evq (events w x) = Some q \<and> \<not> ev_active w x) es)) \<longrightarrow> events w' x = events ?w x"
      "tqs w' = tqs ?w" "evqs w' = evqs ?w" "sig_events w' = sig_events ?w" "ep_set w' = ep_set ?w"
      using Cons.IH [of ?w "e # cs", unfolded fl] Cons.prems by auto
    have "signal_collect q (hdp (e # es) None) (hdp cs None) w = signal_collect q (hdp es None) (Some e) ?w"
      using True Cons.prems(1) by (subst signal_collect.simps) (simp add: Let_def)
    moreover have "events w' x = (events w x)\<lparr>next_ready := next_ready (events w' x)\<rparr>" for x
      using w'(3) [rule_format, of x] by (cases "x = e") auto
    ultimately show ?thesis using w' True by (intro exI [of _ w']) auto
  qed
qed

text \<open>Activating the collected events: all of them, or the exited children.\<close>

lemma signal_activate_spec:
  assumes "evq_good w q rs" and "slist (\<lambda>e. next_ready (events w e)) cs None" and "distinct cs"
    and "\<forall>e \<in> set cs. \<not> ev_active w e \<and> ev_evq (events w e) = Some q"
  shows "\<exists>w' ns. signal_activate os signo (hdp cs None) (hdp rs None) now w = Some (w', hdp (ns @ rs) None) \<and>
    evq_good w' q (ns @ rs) \<and> evq_step q ns w w' \<and> set ns \<subseteq> set cs \<and>
    (signo \<noteq> EVQ_SIGCHLD \<longrightarrow> set ns = set cs)"
  using assms
proof (induction cs arbitrary: rs w)
  case Nil
  then show ?case using evq_step_refl [of q w]
    by (subst signal_activate.simps) (auto intro!: exI [of _ "[]"])
next
  case (Cons c cs)
  have nx: "next_ready (events w c) = hdp cs None" using Cons.prems(2) by simp
  obtain w1 res where ch: "(if signo = EVQ_SIGCHLD then signal_process_child os c w else (w, 0)) = (w1, res)"
    by (metis prod.exhaust)
  have g1: "evq_good w1 q rs" and st1: "evq_step q [] w w1"
    and f1: "\<forall>e. next_ready (events w1 e) = next_ready (events w e) \<and> ev_evq (events w1 e) = ev_evq (events w e)"
    using ch signal_process_child_spec [OF Cons.prems(1), of os c] Cons.prems(1) evq_step_refl [of q w]
    by (auto split: if_splits)
  have a1: "ev_active w1 e = ev_active w e" for e using st1 by (simp add: evq_step_def)
  have run: "signal_activate os signo (hdp (c # cs) None) (hdp rs None) now w =
     (if signo = EVQ_SIGCHLD \<and> res \<noteq> 0 then signal_activate os signo (hdp cs None) (hdp rs None) now w1
      else do { (w2, rdy1) \<leftarrow> evq_process_active os c (hdp rs None) now w1;
                signal_activate os signo (hdp cs None) rdy1 now w2 })"
    using ch nx by (subst signal_activate.simps) (auto simp: Let_def split: prod.split)
  show ?case
  proof (cases "signo = EVQ_SIGCHLD \<and> res \<noteq> 0")
    case True
    have "slist (\<lambda>e. next_ready (events w1 e)) cs None" using Cons.prems(2) f1 by simp
    from Cons.IH [OF g1 this] Cons.prems(3,4) f1 a1 obtain w' ns where
      i: "signal_activate os signo (hdp cs None) (hdp rs None) now w1 = Some (w', hdp (ns @ rs) None)"
      "evq_good w' q (ns @ rs)" "evq_step q ns w1 w'" "set ns \<subseteq> set cs" by auto
    have "evq_step q ns w w'" using evq_step_trans [OF st1 i(3)] by simp
    with i run True show ?thesis by (intro exI [of _ w'] exI [of _ ns]) auto
  next
    case False
    have c: "\<not> ev_active w1 c" "ev_evq (events w1 c) = Some q" using Cons.prems(4) f1 a1 by auto
    from evq_process_active_good [OF g1 c, of os now] obtain w2 where
      p: "evq_process_active os c (hdp rs None) now w1 = Some (w2, Some c)" "evq_good w2 q (c # rs)"
      "evq_step q [c] w1 w2"
      "\<forall>e. e \<noteq> c \<longrightarrow> ev_evq (events w1 e) = Some q \<longrightarrow> next_ready (events w2 e) = next_ready (events w1 e)"
      by blast
    have same: "next_ready (events w2 e) = next_ready (events w e)"
      "\<not> ev_active w2 e" "ev_evq (events w2 e) = Some q" if "e \<in> set cs" for e
      using that Cons.prems(3,4) p(3,4) f1 a1 by (auto simp: evq_step_def)
    have "slist (\<lambda>e. next_ready (events w2 e)) cs None"
      by (subst slist_cong [of cs _ "\<lambda>e. next_ready (events w e)"]) (use same Cons.prems(2) in auto)
    from Cons.IH [OF p(2) this] Cons.prems(3) same obtain w' ns where
      i: "signal_activate os signo (hdp cs None) (Some c) now w2 = Some (w', hdp (ns @ c # rs) None)"
      "evq_good w' q (ns @ c # rs)" "evq_step q ns w2 w'" "set ns \<subseteq> set cs"
      "signo \<noteq> EVQ_SIGCHLD \<longrightarrow> set ns = set cs" by auto
    have "evq_step q (ns @ [c]) w w'"
      using evq_step_trans [OF evq_step_trans [OF st1 p(3)] i(3)] by simp
    with i p(1) run False show ?thesis by (intro exI [of _ w'] exI [of _ "ns @ [c]"]) auto
  qed
qed

lemma signal_gethead_less: "signal_gethead signo = Some i \<Longrightarrow> i < 5"
  by (auto simp: signal_gethead_def split: if_splits)

text \<open>A signal event of the queue that waits for a signal.\<close>

definition waits_for :: "evq_store \<Rightarrow> nat \<Rightarrow> nat \<Rightarrow> nat \<Rightarrow> bool" where
  "waits_for w q signo e \<longleftrightarrow> ev_evq (events w e) = Some q \<and>
     flag_on (ev_flags (events w e)) EVENT_SIGNAL \<and> event_signo (events w e) = signo"

lemma signal_process_actives_spec:
  assumes good: "evq_good w q rs" and i: "signal_gethead signo = Some i"
  shows "\<exists>w' ns. signal_process_actives os q signo (hdp rs None) now w = Some (w', hdp (ns @ rs) None) \<and>
    evq_good w' q (ns @ rs) \<and> evq_step q ns w w' \<and>
    (signo \<noteq> EVQ_SIGCHLD \<longrightarrow> (\<forall>e. waits_for w q signo e \<longrightarrow> ev_active w' e))"
proof -
  from good obtain qs fs where inv: "evq_inv w q qs fs rs" and sig: "sig_ok w q"
    by (auto simp: evq_good_def)
  from sig signal_gethead_less [OF i] obtain es where l: "sig_list w i es" by (auto simp: sig_ok_def)
  define xs where "xs = rev (filter (\<lambda>e. ev_evq (events w e) = Some q \<and> \<not> ev_active w e) es)"
  have sl: "slist (\<lambda>e. next_object (events w e)) es None" "distinct es" "sig_events w i = hdp es None"
    using l by (auto simp: sig_list_def)
  from signal_collect_spec [OF sl(1,2), of "[]" q, folded xs_def] obtain w1 where
    c: "signal_collect q (hdp es None) None w = Some (w1, hdp xs None)"
    "slist (\<lambda>e. next_ready (events w1 e)) xs None"
    "\<forall>e. events w1 e = (events w e)\<lparr>next_ready := next_ready (events w1 e)\<rparr>"
    "\<forall>e. e \<notin> set xs \<longrightarrow> events w1 e = events w e"
    "tqs w1 = tqs w" "evqs w1 = evqs w" "sig_events w1 = sig_events w" "ep_set w1 = ep_set w" by auto
  have f: "ev_next (events w1 e) = ev_next (events w e)" "ev_prev (events w1 e) = ev_prev (events w e)"
    "ev_tq (events w1 e) = ev_tq (events w e)" "ev_evq (events w1 e) = ev_evq (events w e)"
    "ev_flags (events w1 e) = ev_flags (events w e)" "event_signo (events w1 e) = event_signo (events w e)"
    "next_object (events w1 e) = next_object (events w e)" "ev_fd (events w1 e) = ev_fd (events w e)" for e
  proof -
    obtain x where "events w1 e = (events w e)\<lparr>next_ready := x\<rparr>" using c(3) by blast
    then show "ev_next (events w1 e) = ev_next (events w e)" "ev_prev (events w1 e) = ev_prev (events w e)"
      "ev_tq (events w1 e) = ev_tq (events w e)" "ev_evq (events w1 e) = ev_evq (events w e)"
      "ev_flags (events w1 e) = ev_flags (events w e)" "event_signo (events w1 e) = event_signo (events w e)"
      "next_object (events w1 e) = next_object (events w e)" "ev_fd (events w1 e) = ev_fd (events w e)" by simp_all
  qed
  have "e \<notin> set xs" if "e \<in> set (fs @ rs)" for e
    using that evq_invD(6,7) [OF inv] by (auto simp: xs_def)
  then have "evq_inv w1 q qs fs rs"
    by (intro evq_inv_frame [OF inv]) (use f c(4-6) evq_invD(6) [OF inv] in simp_all)
  moreover have "sig_ok w1 q" by (rule sig_ok_frame [OF sig]) (simp_all add: f c(7))
  ultimately have good1: "evq_good w1 q rs" by (auto simp: evq_good_def)
  have st: "evq_step q [] w w1" using f c(8) by (simp add: evq_step_def)
  from signal_activate_spec [OF good1 c(2), of os signo now] sl(2) f obtain w' ns where
    a: "signal_activate os signo (hdp xs None) (hdp rs None) now w1 = Some (w', hdp (ns @ rs) None)"
    "evq_good w' q (ns @ rs)" "evq_step q ns w1 w'" "signo \<noteq> EVQ_SIGCHLD \<longrightarrow> set ns = set xs"
    by (auto simp: xs_def)
  have st': "evq_step q ns w w'" using evq_step_trans [OF st a(3)] by simp
  have "ev_active w' e" if "signo \<noteq> EVQ_SIGCHLD" and wf: "waits_for w q signo e" for e
  proof -
    from wf sig i obtain as bs where "sig_list w i (as @ e # bs)"
      by (auto simp: waits_for_def sig_ok_def sig_event_ok_def)
    with l have "es = as @ e # bs" by (rule sig_list_unique)
    then have "e \<in> set es" by simp
    then have "e \<in> set ns \<or> ev_active w e" using a(4) that by (auto simp: xs_def waits_for_def)
    then show ?thesis using st' by (auto simp: evq_step_def)
  qed
  with a st' c(1) i sl(3) show ?thesis
    by (intro exI [of _ w'] exI [of _ ns]) (simp add: signal_process_actives_def)
qed

lemma evq_step_waits:
  "evq_step q ns w w' \<Longrightarrow> waits_for w q signo e \<Longrightarrow> ev_active w' e \<or> waits_for w' q signo e"
  unfolding evq_step_def waits_for_def by (metis insertI1)

lemma evq_step_active: "evq_step q ns w w' \<Longrightarrow> ev_active w e \<Longrightarrow> ev_active w' e"
  unfolding evq_step_def by blast

lemma signal_bits_loop_spec:
  assumes "unat sigs < 2 ^ k" and "evq_good w q rs"
    and "\<And>n. bit sigs n \<Longrightarrow> signal_gethead (signo + n) \<noteq> None"
  shows "\<exists>w' ns. signal_bits_loop os q signo sigs (hdp rs None) now w = Some (w', hdp (ns @ rs) None) \<and>
    evq_good w' q (ns @ rs) \<and> evq_step q ns w w' \<and>
    (\<forall>n e. bit sigs n \<longrightarrow> signo + n \<noteq> EVQ_SIGCHLD \<longrightarrow> waits_for w q (signo + n) e \<longrightarrow> ev_active w' e)"
  using assms
proof (induction k arbitrary: signo sigs w rs)
  case 0
  then have "unat sigs = unat (0 :: u32)" by simp
  then have "sigs = 0" by (rule unsigned_word_eqI)
  with 0 show ?case using evq_step_refl [of q w]
    by (subst signal_bits_loop.simps) (auto intro!: exI [of _ "[]"])
next
  case (Suc k)
  have bits: "bit (drop_bit 1 sigs) n = bit sigs (Suc n)" for n by (simp add: bit_simps)
  show ?case
  proof (cases "sigs = 0")
    case True
    then show ?thesis using Suc.prems evq_step_refl [of q w]
      by (subst signal_bits_loop.simps) (auto intro!: exI [of _ "[]"])
  next
    case False
    have "\<exists>w1 ns. (if bit sigs 0 then signal_process_actives os q signo (hdp rs None) now w
          else Some (w, hdp rs None)) = Some (w1, hdp (ns @ rs) None) \<and>
        evq_good w1 q (ns @ rs) \<and> evq_step q ns w w1 \<and>
        (bit sigs 0 \<longrightarrow> signo \<noteq> EVQ_SIGCHLD \<longrightarrow> (\<forall>e. waits_for w q signo e \<longrightarrow> ev_active w1 e))"
    proof (cases "bit sigs 0")
      case True
      with Suc.prems(3) [of 0] obtain i where "signal_gethead signo = Some i" by auto
      from signal_process_actives_spec [OF Suc.prems(2) this, of os now] True show ?thesis by auto
    next
      case b: False
      then show ?thesis using Suc.prems(2) evq_step_refl [of q w]
        by (intro exI [of _ w] exI [of _ "[]"]) auto
    qed
    then obtain w1 ns where s1: "(if bit sigs 0 then signal_process_actives os q signo (hdp rs None) now w
          else Some (w, hdp rs None)) = Some (w1, hdp (ns @ rs) None)"
      and g1: "evq_good w1 q (ns @ rs)" and st1: "evq_step q ns w w1"
      and c1: "bit sigs 0 \<Longrightarrow> signo \<noteq> EVQ_SIGCHLD \<Longrightarrow> waits_for w q signo e \<Longrightarrow> ev_active w1 e" for e
      by blast
    have "unat (drop_bit 1 sigs) = unat sigs div 2"
      by (subst unat_drop_bit_eq) (simp add: drop_bit_eq_div)
    then have "unat (drop_bit 1 sigs) < 2 ^ k" using Suc.prems(1) unfolding power_Suc by linarith
    from Suc.IH [OF this g1, of "Suc signo"] Suc.prems(3) bits obtain w' ms where
      i: "signal_bits_loop os q (Suc signo) (drop_bit 1 sigs) (hdp (ns @ rs) None) now w1
            = Some (w', hdp (ms @ ns @ rs) None)"
      "evq_good w' q (ms @ ns @ rs)" "evq_step q ms w1 w'"
      "\<forall>n e. bit (drop_bit 1 sigs) n \<longrightarrow> Suc signo + n \<noteq> EVQ_SIGCHLD \<longrightarrow>
         waits_for w1 q (Suc signo + n) e \<longrightarrow> ev_active w' e"
      by (metis add_Suc add_Suc_right)
    have run: "signal_bits_loop os q signo sigs (hdp rs None) now w = Some (w', hdp ((ms @ ns) @ rs) None)"
      by (subst signal_bits_loop.simps) (use False s1 i(1) in \<open>simp only: if_False Option.bind_lunit prod.case append_assoc\<close>)
    have "ev_active w' e" if b: "bit sigs n" "signo + n \<noteq> EVQ_SIGCHLD" and wf: "waits_for w q (signo + n) e" for n e
    proof (cases n)
      case 0
      with c1 [of e] that show ?thesis using evq_step_active [OF i(3)] by simp
    next
      case (Suc m)
      with i(4) [rule_format, of m e] b bits have "waits_for w1 q (signo + n) e \<Longrightarrow> ev_active w' e" by simp
      with evq_step_waits [OF st1 wf] show ?thesis using evq_step_active [OF i(3)] by blast
    qed
    with run i(2) evq_step_trans [OF st1 i(3)] show ?thesis
      by (intro exI [of _ w'] exI [of _ "ms @ ns"]) auto
  qed
qed

text \<open>Changes of the queue's own fields that the lists do not depend on.\<close>

lemma evq_good_evq:
  assumes good: "evq_good w q rs"
    and same: "\<And>r. evq_tq (h r) = evq_tq r \<and> ev_free (h r) = ev_free r \<and> tq_map_fn (h r) = tq_map_fn r \<and>
      tq_map (h r) = tq_map r"
  shows "evq_good (evq_upd q h w) q rs \<and> evq_step q [] w (evq_upd q h w)"
proof -
  from good obtain qs fs where inv: "evq_inv w q qs fs rs" and sig: "sig_ok w q"
    by (auto simp: evq_good_def)
  have "evq_inv (evq_upd q h w) q qs fs rs"
    by (rule evq_inv_frame [OF inv]) (use same evq_invD(6) [OF inv] in simp_all)
  moreover have "sig_ok (evq_upd q h w) q" by (rule sig_ok_frame [OF sig]) simp_all
  ultimately show ?thesis by (auto simp: evq_good_def evq_step_def)
qed

text \<open>The signals that may be pending on a queue.\<close>

definition sigs_known :: "evq_store \<Rightarrow> nat \<Rightarrow> bool" where
  "sigs_known w q \<longleftrightarrow>
     (\<forall>n. bit (sig_ready (evqs w q)) n \<longrightarrow> n = EVQ_SIGEVQ \<or> signal_gethead n \<noteq> None)"

lemma signal_process_interrupt_spec:
  assumes good: "evq_good w q rs" and known: "sigs_known w q"
  shows "\<exists>w' ns. signal_process_interrupt os q (hdp rs None) now w = Some (w', hdp (ns @ rs) None) \<and>
    evq_good w' q (ns @ rs) \<and> evq_step q ns w w' \<and>
    (\<forall>n e. bit (sig_ready (evqs w q)) n \<longrightarrow> n \<notin> {EVQ_SIGCHLD, EVQ_SIGEVQ} \<longrightarrow>
       waits_for w q n e \<longrightarrow> ev_active w' e)"
proof -
  let ?h = "\<lambda>r. r\<lparr>sig_pending := False, sig_ready := 0\<rparr>"
  let ?s = "clr_flag (sig_ready (evqs w q)) (push_bit EVQ_SIGEVQ 1)"
  have b: "bit ?s n \<longleftrightarrow> bit (sig_ready (evqs w q)) n \<and> n \<noteq> EVQ_SIGEVQ" for n
    by (auto simp: clr_flag_def bit_simps dest: bit_imp_le_length)
  have g: "evq_good (evq_upd q ?h w) q rs" "evq_step q [] w (evq_upd q ?h w)"
    using evq_good_evq [OF good, of ?h] by simp_all
  have "unat ?s < 2 ^ 32" by (rule order_less_le_trans [OF unsigned_less]) simp
  from signal_bits_loop_spec [OF this g(1), of 0 os now] known b obtain w' ns where
    l: "signal_bits_loop os q 0 ?s (hdp rs None) now (evq_upd q ?h w) = Some (w', hdp (ns @ rs) None)"
    "evq_good w' q (ns @ rs)" "evq_step q ns (evq_upd q ?h w) w'"
    "\<forall>n e. bit ?s n \<longrightarrow> n \<noteq> EVQ_SIGCHLD \<longrightarrow> waits_for (evq_upd q ?h w) q n e \<longrightarrow> ev_active w' e"
    by (auto simp: sigs_known_def)
  have "waits_for (evq_upd q ?h w) q n e = waits_for w q n e" for n e by (simp add: waits_for_def)
  then show ?thesis using l b evq_step_trans [OF g(2) l(3)]
    by (intro exI [of _ w'] exI [of _ ns]) (auto simp: signal_process_interrupt_def)
qed

text \<open>The pending signals are not touched by timeouts, deletion and activation.\<close>

lemma timeout_reset_evqs: "timeout_reset ev now w = Some w' \<Longrightarrow> evqs w' = evqs w"
  by (auto simp: timeout_reset_def Let_def split: option.splits bind_splits if_splits)

text \<open>The fields of a queue that belong to the loop and the callbacks.\<close>

definition loop_fields :: "event_queue \<Rightarrow> _" where
  "loop_fields r = (sig_ready r, sig_pending r, ev_ready r, evq_env r, evq_callback r, evq_udata r,
     nidles r, nactives r, evq_flags r, sync_op r, buf_nevents r, buf_index r)"

lemma timeout_del_loop_fields:
  "timeout_del ev w = Some w' \<Longrightarrow> loop_fields (evqs w' q) = loop_fields (evqs w q) \<and>
     ev_id (events w' e) = ev_id (events w e)"
  by (auto simp: timeout_del_def timeout_del_queue_def levq_timeout_map_def Let_def loop_fields_def
      split: option.splits bind_splits if_splits)

lemma timeout_reset_id: "timeout_reset ev now w = Some w' \<Longrightarrow> ev_id (events w' e) = ev_id (events w e)"
  by (auto simp: timeout_reset_def Let_def split: option.splits bind_splits if_splits)

lemma signal_del_evqs:
  "signal_del os ev w = Some (w', res) \<Longrightarrow> evqs w' = evqs w \<and> ev_id (events w' e) = ev_id (events w e)"
  by (auto simp: signal_del_def signal_set_def Let_def split: bind_splits if_splits)

lemma evq_del_loop_fields:
  assumes "evq_del os ev reuse_fd w = Some (w', res)"
  shows "loop_fields (evqs w' p) = loop_fields (evqs w p) \<and> ev_id (events w' e) = ev_id (events w e)"
proof -
  from assms obtain q w1 where q: "ev_evq (events w ev) = Some q"
    and w1: "(if ev_tq (events w ev) \<noteq> None then timeout_del ev w else Some w) = Some w1"
    by (auto simp: evq_del_def Let_def split: bind_splits)
  let ?w3 = "evq_upd q (\<lambda>r. r\<lparr>nevents := u32_sub (nevents r) 1\<rparr>) (ev_upd ev (\<lambda>e. e\<lparr>ev_evq := None\<rparr>) w1)"
  have 1: "loop_fields (evqs w1 p) = loop_fields (evqs w p)" "ev_id (events w1 e) = ev_id (events w e)"
    using w1 timeout_del_loop_fields [of ev w w1] by (auto split: if_splits)
  have 3: "loop_fields (evqs ?w3 p) = loop_fields (evqs w1 p)" "ev_id (events ?w3 e) = ev_id (events w1 e)"
    by (simp_all add: loop_fields_def)
  have "evqs w' = evqs ?w3 \<and> ev_id (events w' e) = ev_id (events ?w3 e)"
    using assms unfolding evq_del_def q Let_def Option.bind_lunit w1
    by (auto split: if_splits dest: signal_del_evqs [where e = e])
  with 1 3 show ?thesis by simp
qed

lemma evq_activate_loop_fields:
  assumes "evq_activate os ev rdy now w = Some (w', rdy')"
  shows "loop_fields (evqs w' q) = loop_fields (evqs w q) \<and> ev_id (events w' e) = ev_id (events w e)"
proof (cases "ev_active w ev")
  case True
  with assms show ?thesis by (simp add: evq_activate_def)
next
  case False
  let ?w1 = "ev_upd ev (\<lambda>e. e\<lparr>ev_flags := set_flag (ev_flags e) EVENT_ACTIVE\<rparr>) w"
  from assms False obtain w2 where w2: "(if flag_on (ev_flags (events ?w1 ev)) EVENT_ONESHOT
      then map_option fst (evq_del os ev True ?w1)
      else if ev_tq (events ?w1 ev) \<noteq> None \<and> \<not> flag_on (ev_flags (events ?w1 ev)) EVENT_TIMEOUT_MANUAL
        then timeout_reset ev now ?w1 else Some ?w1) = Some w2"
    and w': "w' = ev_upd ev (\<lambda>e. e\<lparr>next_ready := rdy\<rparr>) w2"
    unfolding evq_activate_def Let_def by (auto split: bind_splits)
  have "loop_fields (evqs w2 q) = loop_fields (evqs ?w1 q) \<and> ev_id (events w2 e) = ev_id (events ?w1 e)"
    using w2 evq_del_loop_fields [of os ev True ?w1 w2] timeout_reset_evqs [of ev now ?w1 w2]
      timeout_reset_id [of ev now ?w1 w2]
    by (auto split: if_splits simp del: upd_simps)
  then show ?thesis by (auto simp: w' split: if_splits)
qed

lemma evq_activate_sig_ready:
  "evq_activate os ev rdy now w = Some (w', rdy') \<Longrightarrow> sig_ready (evqs w' q) = sig_ready (evqs w q)"
  using evq_activate_loop_fields [of os ev rdy now w w' rdy' q ev] by (simp add: loop_fields_def)

lemma epoll_res_flags:
  assumes "m \<in> {EVENT_ACTIVE, EVENT_PID, EVENT_SIGNAL, EVENT_TIMER, EVENT_DIRWATCH, EVENT_READ, EVENT_WRITE}"
  shows "flag_on (f OR epoll_res revents f') m = flag_on f m"
  using assms flag_on_set_other [of "epoll_res revents f'" m f]
  by (auto simp: epoll_res_def Let_def event_flag_defs set_flag_def)

text \<open>
  The reported events: each is on the queue or active already, and a descriptor is reported
  once.
\<close>

definition epevs_ok :: "evq_store \<Rightarrow> nat \<Rightarrow> (u32 \<times> ptr) list \<Rightarrow> bool" where
  "epevs_ok w q epevs \<longleftrightarrow> distinct (map snd epevs) \<and>
     (\<forall>r e. (r, Some e) \<in> set epevs \<longrightarrow> r \<noteq> 0 \<and> (ev_active w e \<or> ev_evq (events w e) = Some q)) \<and>
     (\<forall>r. (r, None) \<in> set epevs \<longrightarrow> r \<noteq> 0 \<and> sigs_known w q)"

lemma epoll_process_spec:
  assumes good: "evq_good w q rs" and ok: "epevs_ok w q ((r, p) # epevs)"
  shows "\<exists>w' ns. epoll_process os q now (r, p) (w, hdp rs None) = Some (w', hdp (ns @ rs) None) \<and>
    evq_good w' q (ns @ rs) \<and> evq_step q ns w w' \<and> epevs_ok w' q epevs \<and>
    (\<forall>e. p = Some e \<longrightarrow> ev_active w' e) \<and>
    (\<forall>n e. p = None \<longrightarrow> bit (sig_ready (evqs w q)) n \<longrightarrow> n \<notin> {EVQ_SIGCHLD, EVQ_SIGEVQ} \<longrightarrow>
       waits_for w q n e \<longrightarrow> ev_active w' e) \<and>
    (p \<noteq> None \<longrightarrow> sig_ready (evqs w' q) = sig_ready (evqs w q))"
proof -
  have r: "r \<noteq> 0" using ok by (cases p) (auto simp: epevs_ok_def)
  have keep: "epevs_ok w' q epevs"
    if st: "evq_step q ns w w'" and s: "None \<in> snd ` set epevs \<Longrightarrow> sigs_known w' q" for w' ns
  proof -
    have "ev_active w' e \<or> ev_evq (events w' e) = Some q" if "(x, Some e) \<in> set epevs" for x e
    proof -
      have "ev_active w e \<or> ev_evq (events w e) = Some q"
        using ok that unfolding epevs_ok_def by (meson list.set_intros(2))
      with st show ?thesis unfolding evq_step_def by metis
    qed
    moreover have "distinct (map snd epevs)" "\<And>x y. (x, y) \<in> set epevs \<Longrightarrow> x \<noteq> 0"
      using ok unfolding epevs_ok_def by (simp, metis list.set_intros(2) option.exhaust)
    ultimately show ?thesis using s unfolding epevs_ok_def by (metis image_eqI snd_conv)
  qed
  show ?thesis
  proof (cases p)
    case None
    then have "sigs_known w q" and n: "None \<notin> snd ` set epevs" using ok by (auto simp: epevs_ok_def)
    from signal_process_interrupt_spec [OF good this(1), of os now] obtain w' ns where
      s: "signal_process_interrupt os q (hdp rs None) now w = Some (w', hdp (ns @ rs) None)"
      "evq_good w' q (ns @ rs)" "evq_step q ns w w'"
      "\<forall>n e. bit (sig_ready (evqs w q)) n \<longrightarrow> n \<notin> {EVQ_SIGCHLD, EVQ_SIGEVQ} \<longrightarrow>
         waits_for w q n e \<longrightarrow> ev_active w' e" by blast
    with keep [OF s(3)] n r None show ?thesis
      by (intro exI [of _ w'] exI [of _ ns]) (simp add: epoll_process_def)
  next
    case (Some ev)
    define w1 where "w1 = ev_upd ev (\<lambda>e. e\<lparr>ev_flags := ev_flags e OR epoll_res r (ev_flags e)\<rparr>) w"
    have g: "evq_good w1 q rs \<and> evq_step q [] w w1 \<and>
      (\<forall>e. next_ready (events w1 e) = next_ready (events w e) \<and> ev_evq (events w1 e) = ev_evq (events w e))"
      unfolding w1_def by (rule evq_good_flags [OF good]) (rule epoll_res_flags)
    have "ev_active w1 e = ev_active w e" for e using g by (simp add: evq_step_def)
    then have ev1: "ev_active w1 ev \<or> ev_evq (events w1 ev) = Some q"
      using ok Some g by (auto simp: epevs_ok_def)
    from evq_activate_good [OF conjunct1 [OF g] ev1, of os now] obtain w' ns where
      a: "evq_activate os ev (hdp rs None) now w1 = Some (w', hdp (ns @ rs) None)"
      "evq_good w' q (ns @ rs)" "evq_step q ns w1 w'" and ns: "ns = (if ev_active w1 ev then [] else [ev])"
      by blast
    have st: "evq_step q ns w w'" using evq_step_trans [OF conjunct1 [OF conjunct2 [OF g]] a(3)] by simp
    have sr: "sig_ready (evqs w' q) = sig_ready (evqs w q)"
      using evq_activate_sig_ready [OF a(1), of q] by (simp add: w1_def)
    have "ev_active w' ev = (ev_active w1 ev \<or> ev \<in> set ns)" using a(3) unfolding evq_step_def by blast
    then have "ev_active w' ev" by (simp add: ns)
    moreover have "None \<in> snd ` set epevs \<Longrightarrow> sigs_known w' q"
      using ok sr by (force simp: epevs_ok_def sigs_known_def)
    ultimately show ?thesis using a st sr keep [OF st] r Some
      by (intro exI [of _ w'] exI [of _ ns]) (simp add: epoll_process_def w1_def)
  qed
qed

lemma epoll_loop_spec:
  assumes "evq_good w q rs" and "epevs_ok w q epevs"
  shows "\<exists>w' ns. epoll_loop os q now epevs (w, hdp rs None) = Some (w', hdp (ns @ rs) None) \<and>
    evq_good w' q (ns @ rs) \<and> evq_step q ns w w' \<and>
    (\<forall>e. Some e \<in> snd ` set epevs \<longrightarrow> ev_active w' e) \<and>
    (None \<in> snd ` set epevs \<longrightarrow> (\<forall>n e. bit (sig_ready (evqs w q)) n \<longrightarrow> n \<notin> {EVQ_SIGCHLD, EVQ_SIGEVQ} \<longrightarrow>
       waits_for w q n e \<longrightarrow> ev_active w' e))"
  using assms
proof (induction epevs arbitrary: w rs)
  case Nil
  then show ?case using evq_step_refl [of q w] by (auto intro!: exI [of _ "[]"])
next
  case (Cons ep epevs)
  obtain r p where ep: "ep = (r, p)" by (cases ep)
  from epoll_process_spec [OF Cons.prems(1) Cons.prems(2) [unfolded ep], of os now] obtain w1 ns where
    s: "epoll_process os q now ep (w, hdp rs None) = Some (w1, hdp (ns @ rs) None)"
    "evq_good w1 q (ns @ rs)" "evq_step q ns w w1" "epevs_ok w1 q epevs"
    "\<forall>e. p = Some e \<longrightarrow> ev_active w1 e"
    "\<forall>n e. p = None \<longrightarrow> bit (sig_ready (evqs w q)) n \<longrightarrow> n \<notin> {EVQ_SIGCHLD, EVQ_SIGEVQ} \<longrightarrow>
       waits_for w q n e \<longrightarrow> ev_active w1 e"
    "p \<noteq> None \<longrightarrow> sig_ready (evqs w1 q) = sig_ready (evqs w q)"
    unfolding ep by blast
  from Cons.IH [OF s(2,4)] obtain w' ms where
    i: "epoll_loop os q now epevs (w1, hdp (ns @ rs) None) = Some (w', hdp (ms @ ns @ rs) None)"
    "evq_good w' q (ms @ ns @ rs)" "evq_step q ms w1 w'"
    "\<forall>e. Some e \<in> snd ` set epevs \<longrightarrow> ev_active w' e"
    "None \<in> snd ` set epevs \<longrightarrow> (\<forall>n e. bit (sig_ready (evqs w1 q)) n \<longrightarrow> n \<notin> {EVQ_SIGCHLD, EVQ_SIGEVQ} \<longrightarrow>
       waits_for w1 q n e \<longrightarrow> ev_active w' e)" by blast
  have "ev_active w' e" if "Some e \<in> snd ` set (ep # epevs)" for e
    using that ep s(5) i(4) evq_step_active [OF i(3)] by auto
  moreover have "ev_active w' e" if "None \<in> snd ` set (ep # epevs)" "bit (sig_ready (evqs w q)) n"
      "n \<notin> {EVQ_SIGCHLD, EVQ_SIGEVQ}" "waits_for w q n e" for n e
  proof (cases "p = None")
    case True
    with s(6) that show ?thesis using evq_step_active [OF i(3)] by blast
  next
    case False
    then have "None \<in> snd ` set epevs" using that(1) ep by auto
    with i(5) s(7) False that evq_step_waits [OF s(3) that(4)] show ?thesis
      using evq_step_active [OF i(3)] by metis
  qed
  ultimately show ?case using s(1) i(1,2) evq_step_trans [OF s(3) i(3)]
    by (intro exI [of _ w'] exI [of _ "ms @ ns"]) auto
qed

text \<open>Signal delivery from the handler: the loop ends and marks every queue that waits.\<close>

lemma evq_signal_marks:
  assumes "\<And>q. os_write os q \<noteq> -1"
    and "\<And>q. sig_ready (evqs w q) \<noteq> 0 \<Longrightarrow> sig_pending (evqs w q)" and "signo < 32"
  shows "let w' = fst (evq_signal os q signo w) in
     events w' = events w \<and> tqs w' = tqs w \<and> sig_events w' = sig_events w \<and>
     bit (sig_ready (evqs w' q)) signo \<and>
     (\<forall>p n. bit (sig_ready (evqs w p)) n \<longrightarrow> bit (sig_ready (evqs w' p)) n) \<and>
     (\<forall>p. sig_ready (evqs w' p) \<noteq> 0 \<longrightarrow> sig_pending (evqs w' p)) \<and>
     (\<forall>p. p \<noteq> q \<longrightarrow> evqs w' p = evqs w p)"
  using assms by (auto simp: evq_signal_def evq_interrupt_def Let_def bit_simps)

lemma signal_handler_loop_spec:
  assumes "slist (\<lambda>e. next_object (events w e)) es None" and "\<And>q. os_write os q \<noteq> -1"
    and "\<And>q. sig_ready (evqs w q) \<noteq> 0 \<Longrightarrow> sig_pending (evqs w q)" and "signo < 32"
  shows "\<exists>w'. signal_handler_loop os signo (hdp es None) w = Some w' \<and>
    events w' = events w \<and> tqs w' = tqs w \<and> sig_events w' = sig_events w \<and>
    (\<forall>e \<in> set es. \<forall>q. ev_evq (events w e) = Some q \<longrightarrow> bit (sig_ready (evqs w' q)) signo) \<and>
    (\<forall>q n. bit (sig_ready (evqs w q)) n \<longrightarrow> bit (sig_ready (evqs w' q)) n) \<and>
    (\<forall>q. sig_ready (evqs w' q) \<noteq> 0 \<longrightarrow> sig_pending (evqs w' q)) \<and>
    (\<forall>q. (\<forall>e \<in> set es. ev_evq (events w e) \<noteq> Some q) \<longrightarrow> evqs w' q = evqs w q)"
  using assms
proof (induction es arbitrary: w)
  case Nil
  then show ?case by (subst signal_handler_loop.simps) simp
next
  case (Cons e es)
  define v where "v = (case ev_evq (events w e) of Some q \<Rightarrow> fst (evq_signal os q signo w) | None \<Rightarrow> w)"
  have f: "events v = events w" "tqs v = tqs w" "sig_events v = sig_events w"
    "\<And>q. ev_evq (events w e) = Some q \<Longrightarrow> bit (sig_ready (evqs v q)) signo"
    "\<And>q n. bit (sig_ready (evqs w q)) n \<Longrightarrow> bit (sig_ready (evqs v q)) n"
    "\<And>q. sig_ready (evqs v q) \<noteq> 0 \<Longrightarrow> sig_pending (evqs v q)"
    "\<And>q. ev_evq (events w e) \<noteq> Some q \<Longrightarrow> evqs v q = evqs w q"
    using evq_signal_marks [OF Cons.prems(2,3,4)] Cons.prems(3)
    by (auto simp: Let_def v_def split: option.splits)
  have "signal_handler_loop os signo (hdp (e # es) None) w = signal_handler_loop os signo (hdp es None) v"
    using Cons.prems(1) f(1) by (subst signal_handler_loop.simps) (simp add: Let_def v_def)
  moreover from Cons.IH [of v, OF _ Cons.prems(2) f(6) Cons.prems(4)] Cons.prems(1) f(1)
  obtain w' where i: "signal_handler_loop os signo (hdp es None) v = Some w'" "events w' = events w"
    "tqs w' = tqs v" "sig_events w' = sig_events v"
    "\<forall>e \<in> set es. \<forall>q. ev_evq (events w e) = Some q \<longrightarrow> bit (sig_ready (evqs w' q)) signo"
    "\<forall>q n. bit (sig_ready (evqs v q)) n \<longrightarrow> bit (sig_ready (evqs w' q)) n"
    "\<forall>q. sig_ready (evqs w' q) \<noteq> 0 \<longrightarrow> sig_pending (evqs w' q)"
    "\<forall>q. (\<forall>e \<in> set es. ev_evq (events w e) \<noteq> Some q) \<longrightarrow> evqs w' q = evqs v q" by auto
  moreover have "bit (sig_ready (evqs w' q)) signo" if "x \<in> set (e # es)" "ev_evq (events w x) = Some q" for x q
    using that i(5,6) f(4) by auto
  moreover have "evqs w' q = evqs w q" if "\<forall>x \<in> set (e # es). ev_evq (events w x) \<noteq> Some q" for q
    using that i(8) f(7) by auto
  ultimately show ?case using f(2,3,5) i by (intro exI [of _ w']) simp
qed

section \<open>Properties\<close>

text \<open>
  Setting a timeout moves the event to the end of the queue of its new period with
  the deadline \<open>now + ms\<close>, whatever timeout it had before; the other events keep their
  order and their deadlines, and the timeout queues stay well formed.
\<close>

lemma evq_set_timeout_moves:
  assumes "evq_timers w q qs fs" and "ev_evq (events w ev) = Some q" and "tq_complete w q qs"
    and "ms \<noteq> TIMEOUT_INFINITE" and "fs \<noteq> [] \<or> ms \<in> (\<lambda>x. fst (snd x)) ` set qs"
  shows "\<exists>w' qs' fs'. evq_set_timeout ev ms w = Some (w', 0) \<and> evq_timers w' q qs' fs' \<and>
    (\<forall>m. tq_list qs' m = remove1 ev (tq_list qs m) @ (if m = ms then [ev] else [])) \<and>
    (\<forall>e. timeout_at (events w' e) =
       (if e = ev then wrap32 (evq_now (evqs w q) + ms) else timeout_at (events w e)))"
  using assms by (rule evq_set_timeout_spec)

text \<open>A system in which every call succeeds.\<close>

definition os_demo :: evq_os where
  "os_demo = \<lparr>os_sigaction = (\<lambda>_ _. 0), os_write = (\<lambda>_. 8), os_epoll_create = 3,
     os_eventfd = 4, os_epoll_add = (\<lambda>_ _ _. 0), os_epoll_mod = (\<lambda>_ _ _. 0), os_close = (\<lambda>_. 0), os_waitpid = (\<lambda>pid. (pid, Some 0)),
     os_inotify = 5, os_add_watch = (\<lambda>_ _ _. 0)\<rparr>"

lemma timer_demo_inv: "evq_inv timer_demo 0 [(7, 100, [5, 6])] [8] []"
  using timer_demo_timers
  by (simp add: evq_inv_def tq_complete_def) (simp add: timer_demo_def zero_defs)

lemma timer_demo_sig: "sig_ok timer_demo 0"
proof -
  have "sig_list timer_demo i []" for i by (simp add: sig_list_def timer_demo_def zero_defs)
  moreover have "ev_flags (events timer_demo e) = 0" for e by (simp add: timer_demo_def zero_defs)
  ultimately show ?thesis unfolding sig_ok_def sig_event_ok_def by auto
qed

lemma timer_demo_good: "evq_good timer_demo 0 []"
  using timer_demo_inv timer_demo_sig by (auto simp: evq_good_def)

lemma timer_demo_event: "ev_evq (events timer_demo 5) = Some 0" "ev_evq (events timer_demo 9) = Some 0"
  "evq_now (evqs timer_demo 0) = 0" "ev_ready (evqs timer_demo 0) = None" "nevents (evqs timer_demo 0) = 0"
  by (simp_all add: timer_demo_def zero_defs)

lemma evq_set_timeout_moves_witness:
  "\<exists>w' qs' fs'. evq_set_timeout 5 30 timer_demo = Some (w', 0) \<and> evq_timers w' 0 qs' fs' \<and>
     tq_list qs' 100 = [6] \<and> tq_list qs' 30 = [5] \<and> timeout_at (events w' 5) = 30"
proof -
  have "\<exists>w' qs' fs'. evq_set_timeout 5 30 timer_demo = Some (w', 0) \<and> evq_timers w' 0 qs' fs' \<and>
    (\<forall>m. tq_list qs' m = remove1 5 (tq_list [(7, 100, [5, 6])] m) @ (if m = 30 then [5] else [])) \<and>
    (\<forall>e. timeout_at (events w' e) =
       (if e = 5 then wrap32 (evq_now (evqs timer_demo 0) + 30) else timeout_at (events timer_demo e)))"
    by (rule evq_set_timeout_moves [where fs = "[8]"])
       (use timer_demo_timers timer_demo_event evq_invD(2) [OF timer_demo_inv] in
         \<open>simp_all add: TIMEOUT_INFINITE_def\<close>)
  then obtain w' qs' fs' where "evq_set_timeout 5 30 timer_demo = Some (w', 0)" "evq_timers w' 0 qs' fs'"
    and "\<forall>m. tq_list qs' m = remove1 5 (tq_list [(7, 100, [5, 6])] m) @ (if m = 30 then [5] else [])"
    and "\<forall>e. timeout_at (events w' e) =
       (if e = 5 then wrap32 (evq_now (evqs timer_demo 0) + 30) else timeout_at (events timer_demo e))"
    by blast
  then show ?thesis
    by (intro exI [of _ w'] exI [of _ qs'] exI [of _ fs']) (simp add: timer_demo_event wrap32_def)
qed


lemma upd_os_fields [simp]:
  "ep_set (ev_upd e f w) = ep_set w" "ep_set (tq_upd t g w) = ep_set w" "ep_set (evq_upd q h w) = ep_set w"
  "fd_closed (ev_upd e f w) = fd_closed w" "fd_closed (tq_upd t g w) = fd_closed w"
  "fd_closed (evq_upd q h w) = fd_closed w"
  by (simp_all add: ev_upd_def tq_upd_def evq_upd_def)






text \<open>
  Claim C6: \<open>evq_wait\<close> makes every event that the system reports ready exactly once: the
  ready list stays a list of distinct active events of well-formed structure, extended by
  events of this queue that were not active; every reported event, and every event waiting for
  a signal that was pending when the interruption was reported (exited children apart), is
  active afterwards, and the head of the ready list is stored in the queue.
\<close>

theorem evq_wait_collects:
  assumes tm: "timeout = 0 \<and> t1 = 0 \<or>
      timeout \<noteq> 0 \<and> t1 \<noteq> 0 \<and> timeout_get w (evq_tq (evqs w q)) timeout (evq_now (evqs w q)) = Some t1"
    and ep: "epoll t1 w = (w1, EpollReady epevs)" "epevs \<noteq> []"
    and good: "evq_good w1 q rs" "ev_ready (evqs w1 q) = hdp rs None" and ok: "epevs_ok w1 q epevs"
  shows "\<exists>w' ns. evq_wait os epoll time q timeout w = Some (w', 0) \<and> evq_good w' q (ns @ rs) \<and>
    (ns @ rs \<noteq> [] \<longrightarrow> ev_ready (evqs w' q) = hdp (ns @ rs) None) \<and> distinct (ns @ rs) \<and>
    (\<forall>e \<in> set ns. \<not> ev_active w1 e \<and> ev_evq (events w1 e) = Some q) \<and>
    (\<forall>e. ev_active w' e \<longleftrightarrow> ev_active w1 e \<or> e \<in> set ns) \<and>
    (\<forall>e. Some e \<in> snd ` set epevs \<longrightarrow> ev_active w' e) \<and>
    (None \<in> snd ` set epevs \<longrightarrow> (\<forall>n e. bit (sig_ready (evqs w1 q)) n \<longrightarrow>
       n \<notin> {EVQ_SIGCHLD, EVQ_SIGEVQ} \<longrightarrow> waits_for w1 q n e \<longrightarrow> ev_active w' e))"
proof -
  define w2 where "w2 = evq_upd q (\<lambda>r. r\<lparr>evq_now := time\<rparr>) w1"
  define now where "now = (if t1 \<noteq> TIMEOUT_INFINITE then time else t1)"
  have g2: "evq_good w2 q rs" "evq_step q [] w1 w2"
    using evq_good_evq [OF good(1), of "\<lambda>r. r\<lparr>evq_now := time\<rparr>"] by (simp_all add: w2_def)
  have s2: "events w2 = events w1" "sig_ready (evqs w2 q) = sig_ready (evqs w1 q)"
    "ev_ready (evqs w2 q) = hdp rs None" using good(2) by (simp_all add: w2_def)
  have ok2: "epevs_ok w2 q epevs" using ok by (simp add: epevs_ok_def sigs_known_def s2)
  from epoll_loop_spec [OF g2(1) ok2, of os now] obtain w3 ns where
    l: "epoll_loop os q now epevs (w2, hdp rs None) = Some (w3, hdp (ns @ rs) None)"
    "evq_good w3 q (ns @ rs)" "evq_step q ns w2 w3"
    "\<forall>e. Some e \<in> snd ` set epevs \<longrightarrow> ev_active w3 e"
    "None \<in> snd ` set epevs \<longrightarrow> (\<forall>n e. bit (sig_ready (evqs w2 q)) n \<longrightarrow> n \<notin> {EVQ_SIGCHLD, EVQ_SIGEVQ} \<longrightarrow>
       waits_for w2 q n e \<longrightarrow> ev_active w3 e)" by blast
  define w' where "w' = (if hdp (ns @ rs) None = None then w3
     else evq_upd q (\<lambda>r. r\<lparr>ev_ready := hdp (ns @ rs) None\<rparr>) w3)"
  have g3: "evq_good w' q (ns @ rs)"
    using l(2) evq_good_evq [OF l(2), of "\<lambda>r. r\<lparr>ev_ready := hdp (ns @ rs) None\<rparr>"] by (simp add: w'_def)
  have e3: "events w' = events w3" by (simp add: w'_def)
  have rd: "ns @ rs \<noteq> [] \<longrightarrow> ev_ready (evqs w' q) = hdp (ns @ rs) None"
    by (cases "ns @ rs") (auto simp: w'_def)
  have "evq_wait os epoll time q timeout w = Some (w', 0)"
    using tm
  proof (elim disjE conjE)
    assume "timeout = 0" "t1 = 0"
    then show ?thesis using ep l(1) good(2) s2(3)
      by (simp add: evq_wait_def Let_def w2_def [symmetric] now_def w'_def TIMEOUT_INFINITE_def)
  next
    assume "timeout \<noteq> 0" "t1 \<noteq> 0" "timeout_get w (evq_tq (evqs w q)) timeout (evq_now (evqs w q)) = Some t1"
    then show ?thesis using ep l(1) good(2) s2(3)
      by (simp add: evq_wait_def Let_def w2_def [symmetric] now_def w'_def split: if_splits)
  qed
  moreover have "waits_for w2 q n e = waits_for w1 q n e" for n e by (simp add: waits_for_def s2)
  moreover have "(\<forall>e \<in> set ns. \<not> ev_active w1 e \<and> ev_evq (events w1 e) = Some q)"
    "(\<forall>e. ev_active w3 e \<longleftrightarrow> ev_active w1 e \<or> e \<in> set ns)"
    using l(3) s2(1) unfolding evq_step_def by simp_all
  ultimately show ?thesis using g3 rd l(4,5) evq_good_distinct [OF g3] s2(2) e3
    by (intro exI [of _ w'] exI [of _ ns]) simp
qed

theorem evq_wait_collects_witness:
  "\<exists>w' ns. evq_wait os_demo (\<lambda>t w. (w, EpollReady [(EPOLLIN, Some 9)])) 40 0 0 timer_demo = Some (w', 0) \<and>
     evq_good w' 0 ns \<and> ev_active w' 9 \<and> \<not> ev_active timer_demo 9"
proof -
  have "epevs_ok timer_demo 0 [(EPOLLIN, Some 9)]"
    by (simp add: epevs_ok_def EPOLLIN_def timer_demo_event)
  moreover have "\<not> ev_active timer_demo 9" by (simp add: timer_demo_def zero_defs)
  ultimately show ?thesis
    using evq_wait_collects [of 0 0 timer_demo 0 "\<lambda>t w. (w, EpollReady [(EPOLLIN, Some 9)])" timer_demo
      "[(EPOLLIN, Some 9)]" "[]" os_demo 40] timer_demo_good timer_demo_event(4)
    by auto
qed

text \<open>
  Claim C30: no signal is lost between the handler and the loop: when the handler of a signal
  returns, which it does, every queue with an event for the signal has the signal's bit set and
  its interruption descriptor is readable; other queues and the pending signals are untouched.
  The write to the descriptor happens only for the first pending signal.
\<close>

theorem signal_handler_wakes:
  assumes "signal_gethead signo = Some i" and "sig_list w i es" and "\<And>q. os_write os q \<noteq> -1"
    and "\<And>q. sig_ready (evqs w q) \<noteq> 0 \<Longrightarrow> sig_pending (evqs w q)"
  shows "\<exists>w'. signal_handler os signo w = Some w' \<and> events w' = events w \<and> sig_events w' = sig_events w \<and>
    (\<forall>e \<in> set es. \<forall>q. ev_evq (events w e) = Some q \<longrightarrow>
       bit (sig_ready (evqs w' q)) signo \<and> sig_pending (evqs w' q)) \<and>
    (\<forall>q n. bit (sig_ready (evqs w q)) n \<longrightarrow> bit (sig_ready (evqs w' q)) n) \<and>
    (\<forall>q. (\<forall>e \<in> set es. ev_evq (events w e) \<noteq> Some q) \<longrightarrow> evqs w' q = evqs w q)"
proof -
  have s: "signo < 32" "signo \<noteq> SYS_SIGINTR"
    using assms(1) by (auto simp: signal_gethead_def signo_defs split: if_splits)
  have l: "slist (\<lambda>e. next_object (events w e)) es None" "sig_events w i = hdp es None"
    using assms(2) by (simp_all add: sig_list_def)
  from signal_handler_loop_spec [OF l(1) assms(3,4) s(1)] obtain w' where
    w': "signal_handler_loop os signo (hdp es None) w = Some w'" "events w' = events w"
    "sig_events w' = sig_events w"
    "\<forall>e \<in> set es. \<forall>q. ev_evq (events w e) = Some q \<longrightarrow> bit (sig_ready (evqs w' q)) signo"
    "\<forall>q n. bit (sig_ready (evqs w q)) n \<longrightarrow> bit (sig_ready (evqs w' q)) n"
    "\<forall>q. sig_ready (evqs w' q) \<noteq> 0 \<longrightarrow> sig_pending (evqs w' q)"
    "\<forall>q. (\<forall>e \<in> set es. ev_evq (events w e) \<noteq> Some q) \<longrightarrow> evqs w' q = evqs w q" by blast
  moreover have "sig_pending (evqs w' q)" if "bit (sig_ready (evqs w' q)) signo" for q
    using that w'(6) by (metis bit_0_eq bot_apply bot_bool_def)
  ultimately show ?thesis using assms(1) s(2) l(2)
    by (intro exI [of _ w']) (simp add: signal_handler_def)
qed

definition signal_demo :: evq_store where
  "signal_demo = evq_store0\<lparr>
     events := (\<lambda>_. event0)(4 := event0\<lparr>ev_evq := Some 1, ev_flags := EVENT_SIGNAL, ev_fd := 15\<rparr>),
     sig_events := (\<lambda>_. None)(3 := Some 4)\<rparr>"

theorem signal_handler_wakes_witness:
  "\<exists>w'. signal_handler os_demo EVQ_SIGTERM signal_demo = Some w' \<and>
     bit (sig_ready (evqs w' 1)) EVQ_SIGTERM \<and> sig_pending (evqs w' 1)"
proof -
  have "signal_gethead EVQ_SIGTERM = Some 3" by (simp add: signal_gethead_def signo_defs)
  moreover have "sig_list signal_demo 3 [4]"
    by (simp add: sig_list_def signal_demo_def zero_defs event_signo_def event_bits signal_gethead_def
        signo_defs flag_on_def)
  ultimately show ?thesis
    using signal_handler_wakes [of EVQ_SIGTERM 3 signal_demo "[4]" os_demo]
    by (auto simp: os_demo_def) (auto simp: signal_demo_def zero_defs)
qed

text \<open>
  Adding a signal event and deleting it again restores the list of its signal; the
  first event installs the handler and the deletion of the last one restores the default action.
\<close>

lemma signal_add_del_roundtrip:
  assumes "signal_gethead (event_signo (events w ev)) = Some i" and "sig_list w i es" and "ev \<notin> set es"
    and "\<And>act. os_sigaction os (int (event_signo (events w ev))) act = 0"
  shows "\<exists>w1 w2 res. signal_add os q ev w = (w1, 0) \<and> sig_list w1 i (ev # es) \<and>
    (es = [] \<longrightarrow> sig_set w1 (int (event_signo (events w ev))) = SigHandler) \<and>
    signal_del os ev w1 = Some (w2, res) \<and> sig_list w2 i es \<and>
    (\<forall>j. j \<noteq> i \<longrightarrow> sig_events w2 j = sig_events w j) \<and>
    (es = [] \<longrightarrow> sig_set w2 (int (event_signo (events w ev))) = SigDefault)"
proof -
  from signal_add_spec [OF assms(1-3) assms(4), of q] obtain w1 where
    a: "signal_add os q ev w = (w1, 0)" "sig_list w1 i (ev # es)"
    "\<forall>j. j \<noteq> i \<longrightarrow> sig_events w1 j = sig_events w j"
    "es = [] \<longrightarrow> sig_set w1 (int (event_signo (events w ev))) = SigHandler" by blast
  have s: "event_signo (events w1 ev) = event_signo (events w ev)"
    using a(1) assms(1) by (auto simp: signal_add_def signal_set_def Let_def split: if_splits)
  then have i1: "signal_gethead (event_signo (events w1 ev)) = Some i" using assms(1) by simp
  from signal_del_spec [OF i1, of "[]" es os] a(2) obtain w2 res where
    "signal_del os ev w1 = Some (w2, res)" "sig_list w2 i es"
    "\<forall>j. j \<noteq> i \<longrightarrow> sig_events w2 j = sig_events w1 j"
    "es = [] \<longrightarrow> sig_set w2 (int (event_signo (events w ev))) = SigDefault"
    using assms(4) s by auto
  with a show ?thesis by (intro exI [of _ w1] exI [of _ w2] exI [of _ res]) simp
qed

lemma signal_add_del_roundtrip_witness:
  "\<exists>w1 w2 res. signal_add os_demo 1 4 (signal_demo\<lparr>sig_events := (\<lambda>_. None)\<rparr>) = (w1, 0) \<and>
     sig_set w1 15 = SigHandler \<and> signal_del os_demo 4 w1 = Some (w2, res) \<and> sig_set w2 15 = SigDefault"
proof -
  let ?w = "signal_demo\<lparr>sig_events := (\<lambda>_. None)\<rparr>"
  have "event_signo (events ?w 4) = 15"
    by (simp add: signal_demo_def zero_defs event_signo_def event_bits flag_on_def)
  then show ?thesis
    using signal_add_del_roundtrip [of ?w 4 3 "[]" os_demo 1]
    by (simp add: signal_gethead_def signo_defs sig_list_def os_demo_def) blast
qed

end
