(* ===== verification/Levq.thy ===== *)
theory Levq
  imports Evq
begin

text \<open>
  The Lua methods of an event queue, src/src/sys_evq.c: allocation of events in growing
  buffers, adding and deleting events, timeouts, the calls of other threads and the loop that
  dispatches ready events. What a method decodes from the Lua stack is its arguments; the
  Lua functions it runs, other threads and the scheduler are the functions of a record
  \<open>levq_env\<close>.
\<close>

section \<open>The environment of the loop\<close>

text \<open>What a callback receives after the event: the result letter and one more value.\<close>

datatype cb_extra = ExtraNil | ExtraTrue | ExtraStatus int

text \<open>
  The arguments of a callback: the event and its object (unless the callback is a task of the
  scheduler), the letter of the result, and the extra value.
\<close>

record levq_call =
  c_event :: "(nat \<times> lua_value) option"
  c_res :: string
  c_extra :: cb_extra

datatype coro_result = CoroDone | CoroYield | CoroError

text \<open>
  \<open>lv_buf\<close> is the address of a new buffer of events, \<open>lv_switch k\<close> is the \<open>k\<close>-th
  call of \<open>sys_thread_switch\<close>, \<open>lv_pcall\<close> and \<open>lv_resume\<close> run a callback,
  \<open>lv_ready\<close> and \<open>lv_added\<close> notify the scheduler, \<open>lv_call\<close> and
  \<open>lv_sync\<close> run the function of a synchronous operation, \<open>lv_thread_resume\<close> and
  \<open>lv_suspend\<close> wake and suspend a thread. \<open>lv_flags\<close> are the thread's flags at the
  \<open>k\<close>-th check (\<open>None\<close> when threading is not initialised), \<open>lv_idle\<close> and
  \<open>lv_epoll\<close> are the \<open>k\<close>-th waits and \<open>lv_time\<close> the clock after the latter.
\<close>

record levq_env =
  lv_os :: evq_os
  lv_buf :: "evq_store \<Rightarrow> nat"
  lv_switch :: "nat \<Rightarrow> evq_store \<Rightarrow> evq_store"
  lv_pcall :: "lua_value \<Rightarrow> levq_call \<Rightarrow> evq_store \<Rightarrow> evq_store \<times> bool"
  lv_resume :: "lua_value \<Rightarrow> levq_call \<Rightarrow> evq_store \<Rightarrow> evq_store \<times> coro_result"
  lv_ready :: "lua_value \<Rightarrow> nat \<Rightarrow> levq_call \<Rightarrow> evq_store \<Rightarrow> evq_store"
  lv_added :: "nat \<Rightarrow> ptr \<Rightarrow> evq_store \<Rightarrow> evq_store"
  lv_call :: "nat \<Rightarrow> evq_store \<Rightarrow> evq_store \<times> ptr"
  lv_sync :: "nat \<Rightarrow> evq_store \<Rightarrow> evq_store \<times> int"
  lv_thread_resume :: "nat \<Rightarrow> evq_store \<Rightarrow> evq_store"
  lv_suspend :: "evq_store \<Rightarrow> evq_store"
  lv_flags :: "nat \<Rightarrow> nat option"
  lv_idle :: "nat \<Rightarrow> evq_store \<Rightarrow> evq_store \<times> int"
  lv_epoll :: "nat \<Rightarrow> int \<Rightarrow> evq_store \<Rightarrow> evq_store \<times> epoll_result"
  lv_time :: "nat \<Rightarrow> int"

section \<open>Events in buffers\<close>

definition EVQ_ENV_BUF_IDX :: nat where "EVQ_ENV_BUF_IDX = 6"
definition EVQ_ENV_BUF_MAX :: nat where "EVQ_ENV_BUF_MAX = 24"

definition bit_position :: "nat list" where
  "bit_position = [
     0, 9, 1, 10, 13, 21, 2, 29, 11, 14, 16, 18, 22, 25, 3, 30,
     8, 12, 20, 28, 15, 17, 24, 7, 19, 27, 23, 6, 26, 5, 4, 31]"

text \<open>\<open>getmaxbit\<close>: smear the highest bit downwards, multiply and look up.\<close>

definition smear :: "u32 \<Rightarrow> u32" where
  "smear v0 =
     (let v1 = v0 OR drop_bit 1 v0;
          v2 = v1 OR drop_bit 2 v1;
          v3 = v2 OR drop_bit 4 v2;
          v4 = v3 OR drop_bit 8 v3
      in v4 OR drop_bit 16 v4)"

definition getmaxbit :: "u32 \<Rightarrow> nat" where
  "getmaxbit v = bit_position ! unat (drop_bit 27 (smear v * 0x07C4ACDD))"

text \<open>The number of the first event of the buffer with \<open>2 ^ b\<close> events.\<close>

definition buf_first :: "nat \<Rightarrow> int" where
  "buf_first b = (2 ^ b - 1) AND NOT (2 ^ EVQ_ENV_BUF_IDX - 1)"

text \<open>The macro \<open>levq_free_event\<close>.\<close>

definition levq_free_event :: "nat \<Rightarrow> nat \<Rightarrow> evq_store \<Rightarrow> evq_store" where
  "levq_free_event q ev w =
     evq_upd q (\<lambda>r. r\<lparr>ev_free := Some ev\<rparr>)
       (ev_upd ev (\<lambda>e. e\<lparr>next_ready := ev_free (evqs w q)\<rparr>) w)"

definition levq_new_event :: "(evq_store \<Rightarrow> nat) \<Rightarrow> nat \<Rightarrow> evq_store \<Rightarrow> evq_store \<times> (lua_error + nat)" where
  "levq_new_event newbuf q w =
     (case ev_free (evqs w q) of
        Some ev \<Rightarrow>
          (ev_upd ev (\<lambda>e. event0\<lparr>ev_id := ev_id e\<rparr>)
             (evq_upd q (\<lambda>r. r\<lparr>ev_free := next_ready (events w ev)\<rparr>) w), Inr ev)
      | None \<Rightarrow>
          (let n = buf_nevents (evqs w q);
               buf_idx = buf_index (evqs w q) + EVQ_ENV_BUF_IDX;
               nmax = 2 ^ buf_idx;
               ev_no = nat (int n + buf_first buf_idx);
               slot = buf_idx - EVQ_ENV_BUF_IDX + 1
           in case evq_env (evqs w q) slot of
                Some base \<Rightarrow>
                  (ev_upd (base + n) (\<lambda>_. event0\<lparr>ev_id := ev_no\<rparr>)
                     (evq_upd q (\<lambda>r. if n + 1 \<ge> nmax then r\<lparr>buf_nevents := 0, buf_index := buf_index r + 1\<rparr>
                                     else r\<lparr>buf_nevents := n + 1\<rparr>) w), Inr (base + n))
              | None \<Rightarrow>
                  if buf_idx > EVQ_ENV_BUF_MAX then (w, Inl (ArgError 1 ''too many events''))
                  else let base = newbuf w
                       in (ev_upd base (\<lambda>_. event0\<lparr>ev_id := ev_no\<rparr>)
                            (evq_upd q (\<lambda>r. r\<lparr>evq_env := (evq_env r)(slot := Some base), buf_nevents := 1\<rparr>) w),
                           Inr base)))"

definition levq_del_event :: "nat \<Rightarrow> nat \<Rightarrow> evq_store \<Rightarrow> evq_store" where
  "levq_del_event q ev w =
     (let n = ev_id (events w ev);
          w1 = (if flag_on (ev_flags (events w ev)) EVENT_CALLBACK
                then evq_upd q (\<lambda>r. r\<lparr>evq_callback := (evq_callback r)(n := LNil)\<rparr>) w else w);
          w2 = evq_upd q (\<lambda>r. r\<lparr>evq_udata := (evq_udata r)(n := LNil)\<rparr>) w1
      in levq_free_event q ev w2)"

section \<open>Stopping the wait of the loop\<close>

partial_function (option) levq_switch_loop ::
  "(nat \<Rightarrow> evq_store \<Rightarrow> evq_store) \<Rightarrow> nat \<Rightarrow> nat \<Rightarrow> evq_store \<Rightarrow> evq_store option" where
  "levq_switch_loop switch k q w =
     (let w1 = switch k w
      in if flag_on (evq_flags (evqs w1 q)) EVQ_FLAG_WAITING then levq_switch_loop switch (Suc k) q w1
         else Some w1)"

definition levq_control_wait :: "levq_env \<Rightarrow> nat \<Rightarrow> bool \<Rightarrow> evq_store \<Rightarrow> evq_store option" where
  "levq_control_wait env q stop w =
     (if stop then
        (let w1 = evq_upd q (\<lambda>r. r\<lparr>nactives := u32_add (nactives r) 1\<rparr>) w
         in if nactives (evqs w q) = 0 \<and> flag_on (evq_flags (evqs w1 q)) EVQ_FLAG_WAITING
            then levq_switch_loop (lv_switch env) 0 q (fst (evq_signal (lv_os env) q EVQ_SIGEVQ w1))
            else Some w1)
      else
        (let w1 = evq_upd q (\<lambda>r. r\<lparr>nactives := u32_sub (nactives r) 1\<rparr>) w
         in Some (if nactives (evqs w1 q) = 0 \<and> nidles (evqs w1 q) \<noteq> 0
                  then evq_upd q (\<lambda>r. r\<lparr>wait_tev := thread_event_signal (wait_tev r)\<rparr>) w1
                  else w1)))"

section \<open>A queue and its end\<close>

text \<open>
  \<open>levq_new\<close>: a queue at a fresh address \<open>q\<close>; \<open>thread_ok\<close> and \<open>tev_ok\<close> say
  that the coroutine and the wait event could be made.
\<close>

definition levq_new :: "levq_env \<Rightarrow> bool \<Rightarrow> bool \<Rightarrow> int \<Rightarrow> nat \<Rightarrow> evq_store \<Rightarrow> evq_store \<times> ptr" where
  "levq_new env thread_ok tev_ok time q w =
     (let (w1, res) = evq_init (lv_os env) time q (evq_upd q (\<lambda>_. event_queue0) w)
      in if res = 0 \<and> thread_ok \<and> tev_ok
         then (evq_upd q (\<lambda>r. r\<lparr>tq_map_fn := True, evq_alive := True\<rparr>) w1, Some q)
         else (w1, None))"

text \<open>
  The event with a number. The source caches the buffer addresses it has looked up in the
  environment table; the lookups have no side effect.
\<close>

definition levq_event_at :: "event_queue \<Rightarrow> nat \<Rightarrow> nat option" where
  "levq_event_at r n =
     (let buf_idx = getmaxbit ((word_of_nat n OR (push_bit EVQ_ENV_BUF_IDX 1 - 1)) + 1)
      in map_option (\<lambda>base. nat (int base + (int n - buf_first buf_idx)))
           (evq_env r (buf_idx - EVQ_ENV_BUF_IDX + 1)))"

text \<open>The loop of \<open>levq_done\<close> over the table of objects, in the order \<open>lua_next\<close> gives.\<close>

fun levq_done_loop :: "evq_os \<Rightarrow> nat \<Rightarrow> nat list \<Rightarrow> evq_store \<Rightarrow> evq_store option" where
  "levq_done_loop os q [] w = Some w"
| "levq_done_loop os q (n # ns) w =
     do {
       ev \<leftarrow> levq_event_at (evqs w q) n;
       w1 \<leftarrow> (if event_deleted w ev then Some w else map_option fst (evq_del os ev False w));
       levq_done_loop os q ns w1
     }"

definition levq_done :: "levq_env \<Rightarrow> nat \<Rightarrow> nat list \<Rightarrow> evq_store \<Rightarrow> evq_store option" where
  "levq_done env q ns w =
     (if \<not> evq_alive (evqs w q) then Some w
      else do {
        w1 \<leftarrow> levq_done_loop (lv_os env) q ns w;
        Some (evq_upd q (\<lambda>r. r\<lparr>evq_alive := False\<rparr>) (evq_done q w1))
      })"

section \<open>Adding events\<close>

text \<open>
  The decoded arguments of \<open>levq_add\<close>: \<open>a_fd\<close> is the descriptor behind a userdata
  object, \<open>a_num\<close> the object as an integer, \<open>a_path\<close> the object as a string;
  \<open>a_flags\<close> and \<open>a_evstr\<close> are the third argument as an integer and as a string.
\<close>

record levq_add_args =
  a_obj :: lua_value
  a_fd :: "int option"
  a_num :: int
  a_path :: "byte list option"
  a_flags :: u32
  a_evstr :: "byte list option"
  a_cb :: lua_value
  a_timeout :: "int option"
  a_oneshot :: bool

definition ascii :: "char \<Rightarrow> byte" where
  "ascii c = word_of_nat (of_char c)"

text \<open>The flags of the event: those given, the direction and the kind of callback.\<close>

definition levq_add_flags :: "levq_add_args \<Rightarrow> u32" where
  "levq_add_flags a =
     (let f0 = a_flags a OR (if a_oneshot a then EVENT_ONESHOT else 0);
          f1 = (if flag_on f0 (EVENT_READ OR EVENT_WRITE) then f0
                else case a_evstr a of
                    None \<Rightarrow> f0 OR EVENT_READ
                  | Some s \<Rightarrow> f0 OR (if s \<noteq> [] \<and> hd s = ascii CHR ''r'' then EVENT_READ else EVENT_WRITE))
      in case a_cb a of
           LFunction _ \<Rightarrow> f1 OR EVENT_CALLBACK
         | LThread _ \<Rightarrow> f1 OR EVENT_CALLBACK OR EVENT_CALLBACK_CORO
         | _ \<Rightarrow> f1)"

text \<open>Reserving a cell for a timeout queue.\<close>

definition levq_reserve :: "levq_env \<Rightarrow> nat \<Rightarrow> evq_store \<Rightarrow> evq_store \<times> lua_error option" where
  "levq_reserve env q w =
     (if ev_free (evqs w q) \<noteq> None then (w, None)
      else case levq_new_event (lv_buf env) q w of
          (w1, Inl err) \<Rightarrow> (w1, Some err)
        | (w1, Inr ev) \<Rightarrow> (evq_upd q (\<lambda>r. r\<lparr>ev_free := Some ev\<rparr>) w1, None))"

text \<open>Registration of the new event with the backend.\<close>

definition levq_register ::
  "evq_os \<Rightarrow> nat \<Rightarrow> nat \<Rightarrow> u32 \<Rightarrow> byte list \<Rightarrow> int \<Rightarrow> evq_store \<Rightarrow> (evq_store \<times> int) option" where
  "levq_register os q ev fl path timeout w =
     (if flag_on fl EVENT_TIMER then evq_add_timer q ev timeout w
      else do {
        let (w1, res) = (if flag_on fl EVENT_DIRWATCH then evq_add_dirwatch os q ev path w
                         else evq_add os q ev w);
        w2 \<leftarrow> (if res = 0 \<and> timeout \<noteq> TIMEOUT_INFINITE
               then map_option fst (evq_set_timeout ev timeout w1) else Some w1);
        Some (w2, res)
      })"

text \<open>
  \<open>levq_add\<close>: \<open>Inr (Some ev)\<close> is the new event, \<open>Inr None\<close> the error results of
  \<open>sys_seterror\<close>.
\<close>

definition levq_add :: "levq_env \<Rightarrow> nat \<Rightarrow> levq_add_args \<Rightarrow> evq_store \<Rightarrow> (evq_store \<times> (lua_error + ptr)) option" where
  "levq_add env q a w =
     (let f0 = a_flags a OR (if a_oneshot a then EVENT_ONESHOT else 0);
          timeout = (case a_timeout a of None \<Rightarrow> TIMEOUT_INFINITE | Some t \<Rightarrow> t)
      in case levq_new_event (lv_buf env) q w of
           (w1, Inl err) \<Rightarrow> Some (w1, Inl err)
         | (w1, Inr ev) \<Rightarrow>
             if flag_on f0 EVENT_DIRWATCH \<and> a_path a = None
             then Some (w1, Inl (ArgError 2 ''string expected''))
             else
               (let w2 = (if flag_on f0 (EVENT_TIMER OR EVENT_DIRWATCH OR EVENT_REGWATCH) then w1
                          else ev_upd ev (\<lambda>e. e\<lparr>ev_fd := (case a_fd a of Some fd \<Rightarrow> fd | None \<Rightarrow> a_num a)\<rparr>) w1);
                    fl = levq_add_flags a;
                    w3 = ev_upd ev (\<lambda>e. e\<lparr>ev_flags := fl\<rparr>) w2
                in case levq_reserve env q w3 of
                     (w4, Some err) \<Rightarrow> Some (w4, Inl err)
                   | (w4, None) \<Rightarrow> do {
                       w5 \<leftarrow> levq_control_wait env q True w4;
                       (w6, res) \<leftarrow> levq_register (lv_os env) q ev fl
                          (case a_path a of Some p \<Rightarrow> p | None \<Rightarrow> []) timeout w5;
                       w7 \<leftarrow> levq_control_wait env q False w6;
                       let n = ev_id (events w7 ev);
                       (if res = 0 then
                          (let w8 = (if flag_on fl EVENT_CALLBACK
                                     then evq_upd q (\<lambda>r. r\<lparr>evq_callback := (evq_callback r)(n := a_cb a)\<rparr>) w7
                                     else w7)
                           in Some (evq_upd q (\<lambda>r. r\<lparr>evq_udata := (evq_udata r)(n := a_obj a)\<rparr>) w8, Inr (Some ev)))
                        else Some (levq_del_event q ev w7, Inr None))
                     }))"

text \<open>The methods that call it with fixed flags.\<close>

definition levq_add_timer :: "levq_env \<Rightarrow> nat \<Rightarrow> lua_value \<Rightarrow> int option \<Rightarrow> bool \<Rightarrow> lua_value \<Rightarrow> evq_store \<Rightarrow>
    (evq_store \<times> (lua_error + ptr)) option" where
  "levq_add_timer env q cb timeout one_shot obj =
     levq_add env q \<lparr>a_obj = obj, a_fd = None, a_num = 0, a_path = None,
       a_flags = EVENT_READ OR EVENT_TIMER, a_evstr = None, a_cb = cb, a_timeout = timeout,
       a_oneshot = one_shot\<rparr>"

definition levq_add_pid :: "levq_env \<Rightarrow> nat \<Rightarrow> lua_value \<Rightarrow> int \<Rightarrow> lua_value \<Rightarrow> int option \<Rightarrow> evq_store \<Rightarrow>
    (evq_store \<times> (lua_error + ptr)) option" where
  "levq_add_pid env q obj pid cb timeout =
     levq_add env q \<lparr>a_obj = obj, a_fd = Some pid, a_num = 0, a_path = None,
       a_flags = EVENT_READ OR EVENT_PID OR EVENT_ONESHOT OR EVENT_SIGNAL, a_evstr = None, a_cb = cb,
       a_timeout = timeout, a_oneshot = False\<rparr>"

definition levq_add_winmsg :: "levq_env \<Rightarrow> nat \<Rightarrow> lua_value \<Rightarrow> int option \<Rightarrow> int \<Rightarrow> lua_value \<Rightarrow> int option \<Rightarrow> bool \<Rightarrow>
    evq_store \<Rightarrow> (evq_store \<times> (lua_error + ptr)) option" where
  "levq_add_winmsg env q obj fd num cb timeout one_shot =
     levq_add env q \<lparr>a_obj = obj, a_fd = fd, a_num = num, a_path = None,
       a_flags = EVENT_READ OR EVENT_WINMSG, a_evstr = None, a_cb = cb, a_timeout = timeout,
       a_oneshot = one_shot\<rparr>"

definition levq_add_dirwatch :: "levq_env \<Rightarrow> nat \<Rightarrow> lua_value \<Rightarrow> byte list option \<Rightarrow> lua_value \<Rightarrow> int option \<Rightarrow>
    bool \<Rightarrow> bool \<Rightarrow> evq_store \<Rightarrow> (evq_store \<times> (lua_error + ptr)) option" where
  "levq_add_dirwatch env q obj path cb timeout one_shot modify =
     levq_add env q \<lparr>a_obj = obj, a_fd = None, a_num = 0, a_path = path,
       a_flags = EVENT_READ OR EVENT_DIRWATCH OR (if modify then EVENT_WATCH_MODIFY else 0), a_evstr = None,
       a_cb = cb, a_timeout = timeout, a_oneshot = one_shot\<rparr>"

text \<open>Signal names: the index that \<open>luaL_checkoption\<close> finds, or an argument error.\<close>

definition sig_names :: "string list" where
  "sig_names = [''INT'', ''HUP'', ''QUIT'', ''TERM'']"

definition sig_flags :: "nat list" where
  "sig_flags = [EVQ_SIGINT, EVQ_SIGHUP, EVQ_SIGQUIT, EVQ_SIGTERM]"

definition sig_option :: "string \<Rightarrow> lua_error + nat" where
  "sig_option name =
     (case map_of (zip sig_names sig_flags) name of
        Some signo \<Rightarrow> Inr signo
      | None \<Rightarrow> Inl (ArgError 2 ''invalid option''))"

definition levq_add_signal :: "levq_env \<Rightarrow> nat \<Rightarrow> string \<Rightarrow> lua_value \<Rightarrow> int option \<Rightarrow> bool \<Rightarrow> evq_store \<Rightarrow>
    (evq_store \<times> (lua_error + ptr)) option" where
  "levq_add_signal env q name cb timeout one_shot w =
     (case sig_option name of
        Inl err \<Rightarrow> Some (w, Inl err)
      | Inr signo \<Rightarrow>
          levq_add env q \<lparr>a_obj = LNumber (word_of_nat signo), a_fd = None, a_num = int signo, a_path = None,
            a_flags = EVENT_READ OR EVENT_SIGNAL, a_evstr = None, a_cb = cb, a_timeout = timeout,
            a_oneshot = one_shot\<rparr> w)"

definition levq_ignore_signal :: "levq_env \<Rightarrow> string \<Rightarrow> bool \<Rightarrow> evq_store \<Rightarrow> evq_store \<times> (lua_error + bool)" where
  "levq_ignore_signal env name ignore w =
     (case sig_option name of
        Inl err \<Rightarrow> (w, Inl err)
      | Inr signo \<Rightarrow> (let (w1, res) = evq_ignore_signal (lv_os env) signo ignore w in (w1, Inr (res = 0))))"

definition levq_signal :: "levq_env \<Rightarrow> nat \<Rightarrow> string option \<Rightarrow> evq_store \<Rightarrow> evq_store \<times> (lua_error + bool)" where
  "levq_signal env q name w =
     (case (case name of None \<Rightarrow> Inr EVQ_SIGEVQ | Some s \<Rightarrow> sig_option s) of
        Inl err \<Rightarrow> (w, Inl err)
      | Inr signo \<Rightarrow> (let (w1, res) = evq_signal (lv_os env) q signo w in (w1, Inr (res = 0))))"

definition socket_flags :: "byte list option \<Rightarrow> u32" where
  "socket_flags evstr =
     EVENT_SOCKET OR
     (case evstr of
        None \<Rightarrow> EVENT_READ
      | Some s \<Rightarrow>
          if s \<noteq> [] \<and> hd s = ascii CHR ''a'' then EVENT_SOCKET_ACC_CONN OR EVENT_READ
          else if s \<noteq> [] \<and> hd s = ascii CHR ''c''
            then EVENT_SOCKET_ACC_CONN OR EVENT_WRITE OR EVENT_ONESHOT
          else if s \<noteq> [] \<and> hd s = ascii CHR ''r'' then EVENT_READ else EVENT_WRITE)"

definition levq_add_socket :: "levq_env \<Rightarrow> nat \<Rightarrow> lua_value \<Rightarrow> int \<Rightarrow> byte list option \<Rightarrow> lua_value \<Rightarrow>
    int option \<Rightarrow> bool \<Rightarrow> evq_store \<Rightarrow> (evq_store \<times> (lua_error + ptr)) option" where
  "levq_add_socket env q obj sd evstr cb timeout one_shot =
     levq_add env q \<lparr>a_obj = obj, a_fd = Some sd, a_num = 0, a_path = None, a_flags = socket_flags evstr,
       a_evstr = None, a_cb = cb, a_timeout = timeout, a_oneshot = one_shot\<rparr>"

section \<open>Changing and deleting events\<close>

definition levq_mod_socket :: "levq_env \<Rightarrow> nat \<Rightarrow> nat \<Rightarrow> byte list \<Rightarrow> evq_store \<Rightarrow> (evq_store \<times> bool) option" where
  "levq_mod_socket env q ev evstr w =
     do {
       let rw = (if evstr \<noteq> [] \<and> hd evstr = ascii CHR ''r'' then EVENT_READ else EVENT_WRITE);
       w1 \<leftarrow> levq_control_wait env q True w;
       (w2, res) \<leftarrow> evq_modify (lv_os env) ev rw w1;
       w3 \<leftarrow> levq_control_wait env q False w2;
       Some (if res = 0
             then (ev_upd ev (\<lambda>e. e\<lparr>ev_flags := clr_flag (ev_flags e) (EVENT_READ OR EVENT_WRITE) OR rw\<rparr>) w3, True)
             else (w3, False))
     }"

definition levq_del :: "levq_env \<Rightarrow> nat \<Rightarrow> nat \<Rightarrow> bool \<Rightarrow> evq_store \<Rightarrow> (evq_store \<times> bool) option" where
  "levq_del env q ev reuse_fd w =
     do {
       w1 \<leftarrow> levq_control_wait env q True w;
       (w2, res) \<leftarrow> (if event_deleted w1 ev then Some (w1, 0) else evq_del (lv_os env) ev reuse_fd w1);
       w3 \<leftarrow> levq_control_wait env q False w2;
       let w4 = (if flag_on (ev_flags (events w3 ev)) (EVENT_ACTIVE OR EVENT_DELETE) then w3
                 else levq_del_event q ev w3);
       Some (ev_upd ev (\<lambda>e. e\<lparr>ev_flags := set_flag (ev_flags e) EVENT_DELETE\<rparr>) w4, res = 0)
     }"

text \<open>\<open>levq_callback\<close>: read the callback, or replace it (\<open>LNil\<close> removes it).\<close>

definition levq_callback :: "nat \<Rightarrow> nat \<Rightarrow> lua_value option \<Rightarrow> evq_store \<Rightarrow> evq_store \<times> lua_value" where
  "levq_callback q ev cb w =
     (let n = ev_id (events w ev)
      in case cb of
           None \<Rightarrow> (w, evq_callback (evqs w q) n)
         | Some c \<Rightarrow>
             (let w1 = ev_upd ev (\<lambda>e. e\<lparr>ev_flags :=
                         clr_flag (ev_flags e) (EVENT_CALLBACK OR EVENT_CALLBACK_CORO) OR
                         (if c = LNil then 0
                          else EVENT_CALLBACK OR (if lua_type c = 8 then EVENT_CALLBACK_CORO else 0))\<rparr>) w
              in (evq_upd q (\<lambda>r. r\<lparr>evq_callback := (evq_callback r)(n := c)\<rparr>) w1, LUserdata q)))"

definition levq_timeout :: "levq_env \<Rightarrow> nat \<Rightarrow> nat \<Rightarrow> int option \<Rightarrow> evq_store \<Rightarrow> (evq_store \<times> (lua_error + bool)) option" where
  "levq_timeout env q ev timeout w =
     do {
       w1 \<leftarrow> levq_control_wait env q True w;
       (case levq_reserve env q w1 of
          (w2, Some err) \<Rightarrow> Some (w2, Inl err)
        | (w2, None) \<Rightarrow> do {
            (w3, res) \<leftarrow> evq_set_timeout ev (case timeout of None \<Rightarrow> TIMEOUT_INFINITE | Some t \<Rightarrow> t) w2;
            w4 \<leftarrow> levq_control_wait env q False w3;
            Some (w4, Inr (res = 0))
          })
     }"

definition levq_timeout_manual :: "nat \<Rightarrow> bool \<Rightarrow> evq_store \<Rightarrow> evq_store" where
  "levq_timeout_manual ev manual =
     ev_upd ev (\<lambda>e. e\<lparr>ev_flags := (if manual then set_flag (ev_flags e) EVENT_TIMEOUT_MANUAL
                                   else clr_flag (ev_flags e) EVENT_TIMEOUT_MANUAL)\<rparr>)"

section \<open>Calls from other threads\<close>

text \<open>A value stored in a signed bit field of one bit.\<close>

definition bitfield1 :: "int \<Rightarrow> int" where
  "bitfield1 x = (if odd x then -1 else 0)"

text \<open>\<open>levq_sync_process\<close> over the list of operations.\<close>

partial_function (option) levq_sync_process :: "levq_env \<Rightarrow> nat \<Rightarrow> nat \<Rightarrow> evq_store \<Rightarrow> evq_store option" where
  "levq_sync_process env q op w =
     (let nl = op_L (ops w op) in
      do {
        (w1, nx) \<leftarrow>
          (if is_sched_add (ops w op) then
             (let nx = op_next (ops w op);
                  w1 = levq_free_event q op w
              in case nl of
                   None \<Rightarrow> Some (w1, nx)
                 | Some L \<Rightarrow>
                     (case lv_call env L w1 of (w2, ev) \<Rightarrow>
                        let w3 = (case ev of
                                    Some e \<Rightarrow> ev_upd e (\<lambda>r. r\<lparr>ev_flags := set_flag (ev_flags r) EVENT_CALLBACK_SCHED\<rparr>) w2
                                  | None \<Rightarrow> w2)
                        in Some (lv_added env L ev w3, nx)))
           else do {
             L \<leftarrow> nl;
             let (w1, st) = lv_sync env L w;
             let w2 = op_upd op (\<lambda>r. r\<lparr>op_status := bitfield1 st\<rparr>) w1;
             let w3 = lv_thread_resume env (op_td (ops w2 op)) w2;
             Some (w3, op_next (ops w3 op))
           });
        (case nx of None \<Rightarrow> Some w1 | Some op' \<Rightarrow> levq_sync_process env q op' w1)
      })"

text \<open>
  \<open>levq_sync_call\<close>: post an operation. A scheduler operation returns at once (\<open>Inr False\<close>:
  the operation is left on the stack of the task); another one waits for its result and raises
  the error or returns the results (\<open>Inr True\<close>).
\<close>

definition levq_sync_post :: "levq_env \<Rightarrow> nat \<Rightarrow> nat \<Rightarrow> nat \<Rightarrow> bool \<Rightarrow> int \<Rightarrow> evq_store \<Rightarrow> evq_store" where
  "levq_sync_post env L q op sched_add idx w =
     (let w1 = op_upd op (\<lambda>r. r\<lparr>op_L := Some L, fn_idx := idx, op_status := 0, is_sched_add := sched_add,
                 op_next := sync_op (evqs w q)\<rparr>) w;
          w2 = evq_upd q (\<lambda>r. r\<lparr>sync_op := Some op\<rparr>) w1
      in if flag_on (evq_flags (evqs w2 q)) EVQ_FLAG_WAITING
         then fst (evq_signal (lv_os env) q EVQ_SIGEVQ w2) else w2)"

definition levq_sync_call ::
  "levq_env \<Rightarrow> nat \<Rightarrow> nat option \<Rightarrow> nat \<Rightarrow> nat \<Rightarrow> bool \<Rightarrow> int \<Rightarrow> evq_store \<Rightarrow> evq_store \<times> (lua_error + bool)" where
  "levq_sync_call env L td q op sched_add idx w =
     (let w1 = levq_sync_post env L q op sched_add idx w
      in if sched_add then (w1, Inr False)
         else case td of
             None \<Rightarrow> (w1, Inl (ArgError 0 ''Threading not initialized''))
           | Some t \<Rightarrow>
               (let w2 = lv_suspend env (op_upd op (\<lambda>r. r\<lparr>op_td := t\<rparr>) w1)
                in if op_status (ops w2 op) \<noteq> 0 then (w2, Inl Raised) else (w2, Inr True)))"

definition levq_sync :: "levq_env \<Rightarrow> nat \<Rightarrow> nat option \<Rightarrow> nat \<Rightarrow> lua_value \<Rightarrow> nat \<Rightarrow> evq_store \<Rightarrow>
    evq_store \<times> (lua_error + bool)" where
  "levq_sync env L td q func op w =
     (if lua_type func \<noteq> 6 then (w, Inl (ArgError 2 ''function expected''))
      else levq_sync_call env L td q op False 2 w)"

section \<open>The loop\<close>

text \<open>The letter and the extra value that a callback receives for the flags of its event.\<close>

definition event_letter :: "u32 \<Rightarrow> string" where
  "event_letter fl =
     (if flag_on fl EVENT_READ_RES then ''r''
      else if flag_on fl EVENT_WRITE_RES then ''w''
      else if flag_on fl EVENT_TIMEOUT_RES then ''t'' else ''e'')"

definition event_extra :: "u32 \<Rightarrow> cb_extra" where
  "event_extra fl =
     (if flag_on fl EVENT_EOF_RES then ExtraTrue
      else if flag_on fl EVENT_PID then ExtraStatus (sint fl div 2 ^ EVENT_STATUS_SHIFT)
      else ExtraNil)"

text \<open>Running the callback of a dispatched event.\<close>

definition levq_run :: "levq_env \<Rightarrow> nat \<Rightarrow> nat \<Rightarrow> u32 \<Rightarrow> lua_value \<Rightarrow> levq_call \<Rightarrow> evq_store \<Rightarrow> (evq_store \<times> int) option" where
  "levq_run env q ev fl cb call w =
     (if flag_on fl EVENT_CALLBACK_SCHED then Some (lv_ready env cb ev call w, 0)
      else if flag_on fl EVENT_CALLBACK_CORO then
        (case lv_resume env cb call w of
           (w1, CoroDone) \<Rightarrow>
             if event_deleted w1 ev then Some (w1, 0)
             else do {
               (w2, r) \<leftarrow> evq_del (lv_os env) ev False w1;
               Some (levq_del_event q ev w2, 0)
             }
         | (w1, CoroYield) \<Rightarrow> Some (w1, 0)
         | (w1, CoroError) \<Rightarrow> Some (w1, SYS_ERR_THROW))
      else if flag_on fl EVENT_CALLBACK then
        (case lv_pcall env cb call w of (w1, err) \<Rightarrow> Some (w1, if err then SYS_ERR_THROW else 0))
      else Some (w, 0))"

text \<open>The body of the loop over the ready events.\<close>

definition levq_dispatch :: "levq_env \<Rightarrow> nat \<Rightarrow> nat \<Rightarrow> evq_store \<Rightarrow> (evq_store \<times> int) option" where
  "levq_dispatch env q ev w =
     (let fl = ev_flags (events w ev);
          w1 = evq_upd q (\<lambda>r. r\<lparr>ev_ready := next_ready (events w ev)\<rparr>)
                 (ev_upd ev (\<lambda>e. e\<lparr>ev_flags := clr_flag (ev_flags e) EVENT_MASK_RES\<rparr>) w)
      in if flag_on fl EVENT_DELETE then Some (levq_del_event q ev w1, 0)
         else do {
           let n = ev_id (events w1 ev);
           let cb = evq_callback (evqs w1 q) n;
           let call = \<lparr>c_event = (if flag_on fl EVENT_CALLBACK_SCHED then None
                                  else Some (ev, evq_udata (evqs w1 q) n)),
                       c_res = event_letter fl, c_extra = event_extra fl\<rparr>;
           w2 \<leftarrow> (if flag_on fl EVENT_ONESHOT \<and> \<not> event_deleted w1 ev
                  then map_option fst (evq_del (lv_os env) ev True w1) else Some w1);
           let w3 = (if event_deleted w2 ev then levq_del_event q ev w2 else w2);
           levq_run env q ev fl cb call w3
         })"

partial_function (option) levq_ready_loop :: "levq_env \<Rightarrow> nat \<Rightarrow> nat \<Rightarrow> evq_store \<Rightarrow> (evq_store \<times> int) option" where
  "levq_ready_loop env q ev w =
     do {
       (w1, res) \<leftarrow> levq_dispatch env q ev w;
       (if res \<noteq> 0 then Some (w1, res)
        else case ev_ready (evqs w1 q) of
            None \<Rightarrow> Some (w1, 0)
          | Some e \<Rightarrow> levq_ready_loop env q e w1)
     }"

text \<open>
  The wait for the other threads: \<open>Inl\<close> when this thread is to exit or is interrupted,
  \<open>Inr None\<close> when it may wait for events itself, \<open>Inr (Some res)\<close> when it goes on to
  \<open>no_wait\<close>.
\<close>

partial_function (option) levq_idle_loop ::
  "levq_env \<Rightarrow> nat \<Rightarrow> nat \<Rightarrow> evq_store \<Rightarrow> (evq_store \<times> nat \<times> (check_result + int option)) option" where
  "levq_idle_loop env k q w =
     (case lv_flags env k of
        None \<Rightarrow> Some (w, k, Inr None)
      | Some fl \<Rightarrow>
          if snd (sys_thread_check fl) \<noteq> Continue then Some (w, k, Inl (snd (sys_thread_check fl)))
          else if nactives (evqs w q) = 0 \<and> \<not> flag_on (evq_flags (evqs w q)) EVQ_FLAG_WAITING
            then Some (w, k, Inr None)
          else
            (let w1 = evq_upd q (\<lambda>r. r\<lparr>nidles := u32_add (nidles r) 1\<rparr>) w;
                 (w2, res) = lv_idle env k w1;
                 w3 = evq_upd q (\<lambda>r. r\<lparr>nidles := u32_sub (nidles r) 1\<rparr>) w2
             in if res \<noteq> 0 \<or> ev_ready (evqs w3 q) \<noteq> None \<or> flag_on (evq_flags (evqs w3 q)) EVQ_FLAG_STOP
                then Some (w3, Suc k, Inr (Some res))
                else levq_idle_loop env (Suc k) q w3))"

text \<open>
  One round of \<open>sys_evq_loop\<close>: \<open>Inl\<close> leaves the loop (\<open>Inl (Inl c)\<close> by a thread
  exit or interrupt, \<open>Inl (Inr res)\<close> by a break), \<open>Inr\<close> goes on.
\<close>

definition levq_process :: "levq_env \<Rightarrow> nat \<Rightarrow> nat \<Rightarrow> bool \<Rightarrow> evq_store \<Rightarrow>
    (evq_store \<times> nat \<times> ((check_result + int) + unit)) option" where
  "levq_process env k q once w =
     (case ev_ready (evqs w q) of
        None \<Rightarrow> Some (w, k, Inr ())
      | Some ev \<Rightarrow> do {
          let w1 = evq_upd q (\<lambda>r. r\<lparr>nactives := u32_add (nactives r) 1\<rparr>) w;
          let w2 = (if nidles (evqs w1 q) \<noteq> 0 \<and> next_ready (events w1 ev) \<noteq> None
                    then evq_upd q (\<lambda>r. r\<lparr>wait_tev := thread_event_signal (wait_tev r)\<rparr>) w1 else w1);
          (w3, res) \<leftarrow> levq_ready_loop env q ev w2;
          let w4 = evq_upd q (\<lambda>r. r\<lparr>nactives := u32_sub (nactives r) 1\<rparr>) w3;
          Some (w4, k, if res \<noteq> 0 \<or> once then Inl (Inr res) else Inr ())
        })"

definition levq_round :: "levq_env \<Rightarrow> nat \<Rightarrow> nat \<Rightarrow> int \<Rightarrow> bool \<Rightarrow> bool \<Rightarrow> evq_store \<Rightarrow>
    (evq_store \<times> nat \<times> ((check_result + int) + unit)) option" where
  "levq_round env k q timeout linger once w =
     do {
       w1 \<leftarrow> (case sync_op (evqs w q) of
                None \<Rightarrow> Some w
              | Some op \<Rightarrow> levq_sync_process env q op (evq_upd q (\<lambda>r. r\<lparr>sync_op := None\<rparr>) w));
       (if ev_ready (evqs w1 q) \<noteq> None then levq_process env k q once w1
        else if \<not> linger \<and> nevents (evqs w1 q) = 0 then Some (w1, k, Inl (Inr 0))
        else do {
          (w2, k2, wt) \<leftarrow> levq_idle_loop env k q w1;
          (case wt of
             Inl c \<Rightarrow> Some (w2, k2, Inl (Inl c))
           | Inr (Some res) \<Rightarrow> if res \<noteq> 0 then Some (w2, k2, Inl (Inr res)) else levq_process env k2 q once w2
           | Inr None \<Rightarrow> do {
               (w3, res) \<leftarrow> evq_wait (lv_os env) (lv_epoll env k2) (lv_time env k2) q timeout
                  (evq_upd q (\<lambda>r. r\<lparr>evq_flags := set_flag (evq_flags r) EVQ_FLAG_WAITING\<rparr>) w2);
               let w4 = evq_upd q (\<lambda>r. r\<lparr>evq_flags := clr_flag (evq_flags r) EVQ_FLAG_WAITING\<rparr>) w3;
               (if res \<noteq> 0 then Some (w4, Suc k2, Inl (Inr res)) else levq_process env (Suc k2) q once w4)
             })
        })
     }"

partial_function (option) sys_evq_loop :: "levq_env \<Rightarrow> nat \<Rightarrow> nat \<Rightarrow> int \<Rightarrow> bool \<Rightarrow> bool \<Rightarrow> evq_store \<Rightarrow>
    (evq_store \<times> (check_result + int)) option" where
  "sys_evq_loop env k q timeout linger once w =
     (let leave = (\<lambda>v r. Some (if nidles (evqs v q) \<noteq> 0 \<and> \<not> flag_on (evq_flags (evqs v q)) EVQ_FLAG_WAITING
                              then evq_upd q (\<lambda>r. r\<lparr>wait_tev := thread_event_signal (wait_tev r)\<rparr>) v else v, Inr r))
      in if flag_on (evq_flags (evqs w q)) EVQ_FLAG_STOP then leave w 0
         else do {
           (w1, k1, r) \<leftarrow> levq_round env k q timeout linger once w;
           (case r of
              Inr _ \<Rightarrow> sys_evq_loop env k1 q timeout linger once w1
            | Inl (Inl c) \<Rightarrow> Some (w1, Inl c)
            | Inl (Inr res) \<Rightarrow> leave w1 res)
         })"

text \<open>The result of \<open>levq_loop\<close>: the queue, \<open>false\<close> on a timeout, the error results or a raised error.\<close>

datatype loop_result = LoopDone | LoopTimeout | LoopError | LoopThrow | LoopExit check_result

definition levq_loop :: "levq_env \<Rightarrow> nat \<Rightarrow> int option \<Rightarrow> bool \<Rightarrow> bool \<Rightarrow> evq_store \<Rightarrow> (evq_store \<times> loop_result) option" where
  "levq_loop env q timeout linger once w =
     do {
       (w1, r) \<leftarrow> sys_evq_loop env 0 q (case timeout of None \<Rightarrow> TIMEOUT_INFINITE | Some t \<Rightarrow> t) linger once w;
       Some (w1, case r of
                   Inl c \<Rightarrow> LoopExit c
                 | Inr res \<Rightarrow>
                     if res = SYS_ERR_TIMEOUT then LoopTimeout
                     else if res = SYS_ERR_SYSTEM then LoopError
                     else if res = SYS_ERR_THROW then LoopThrow
                     else LoopDone)
     }"

definition levq_stop :: "levq_env \<Rightarrow> nat \<Rightarrow> bool \<Rightarrow> evq_store \<Rightarrow> evq_store" where
  "levq_stop env q stop w =
     (let w1 = evq_upd q (\<lambda>r. r\<lparr>evq_flags := (if stop then set_flag (evq_flags r) EVQ_FLAG_STOP
                                             else NOT EVQ_FLAG_STOP)\<rparr>) w
      in if flag_on (evq_flags (evqs w1 q)) EVQ_FLAG_WAITING
         then fst (evq_signal (lv_os env) q EVQ_SIGEVQ w1) else w1)"

definition levq_now :: "nat \<Rightarrow> int \<Rightarrow> bool \<Rightarrow> evq_store \<Rightarrow> evq_store \<times> int" where
  "levq_now q time reset w =
     (let w1 = (if reset then evq_upd q (\<lambda>r. r\<lparr>evq_now := time\<rparr>) w else w)
      in (w1, evq_now (evqs w1 q)))"

definition levq_notify :: "levq_env \<Rightarrow> nat \<Rightarrow> nat \<Rightarrow> evq_store \<Rightarrow> (evq_store \<times> lua_error option) option" where
  "levq_notify env q ev w =
     (if \<not> flag_on (ev_flags (events w ev)) EVENT_TIMER then Some (w, Some (ArgError 2 ''timer expected''))
      else do {
        (w1, rdy) \<leftarrow> evq_process_active (lv_os env) ev (ev_ready (evqs w q)) (evq_now (evqs w q)) w;
        let w2 = evq_upd q (\<lambda>r. r\<lparr>ev_ready := rdy\<rparr>) w1;
        Some (if flag_on (evq_flags (evqs w2 q)) EVQ_FLAG_WAITING
              then fst (evq_signal (lv_os env) q EVQ_SIGEVQ w2) else w2, None)
      })"

definition levq_size :: "nat \<Rightarrow> evq_store \<Rightarrow> nat" where
  "levq_size q w = nevents (evqs w q)"

section \<open>Events of the scheduler\<close>

text \<open>
  \<open>sys_evq_sched_add\<close>: \<open>add\<close> is the method the type selects, with its arguments. When
  no thread waits in the loop the event is added at once and the scheduler is told,
  otherwise the call is posted to the loop.
\<close>

datatype evq_sched_type = EVQ_SCHED_OBJ | EVQ_SCHED_TIMER | EVQ_SCHED_PID | EVQ_SCHED_DIRWATCH
  | EVQ_SCHED_SIGNAL | EVQ_SCHED_SOCKET

record sched_add_args =
  s_args :: levq_add_args
  s_name :: string
  s_sd :: int
  s_modify :: bool

definition sched_add_func :: "levq_env \<Rightarrow> nat \<Rightarrow> evq_sched_type \<Rightarrow> sched_add_args \<Rightarrow> evq_store \<Rightarrow>
    (evq_store \<times> (lua_error + ptr)) option" where
  "sched_add_func env q ty s =
     (let a = s_args s in
      case ty of
        EVQ_SCHED_TIMER \<Rightarrow> levq_add_timer env q (a_cb a) (a_timeout a) (a_oneshot a) (a_obj a)
      | EVQ_SCHED_PID \<Rightarrow> levq_add_pid env q (a_obj a) (s_sd s) (a_cb a) (a_timeout a)
      | EVQ_SCHED_DIRWATCH \<Rightarrow>
          levq_add_dirwatch env q (a_obj a) (a_path a) (a_cb a) (a_timeout a) (a_oneshot a) (s_modify s)
      | EVQ_SCHED_SIGNAL \<Rightarrow> levq_add_signal env q (s_name s) (a_cb a) (a_timeout a) (a_oneshot a)
      | EVQ_SCHED_SOCKET \<Rightarrow>
          levq_add_socket env q (a_obj a) (s_sd s) (a_evstr a) (a_cb a) (a_timeout a) (a_oneshot a)
      | EVQ_SCHED_OBJ \<Rightarrow> levq_add env q a)"

text \<open>What the call leaves: the event that was added, the operation posted to the loop (both
  return 0), or the error results (-1).\<close>

datatype sched_added = SchedAdded nat | SchedPosted nat | SchedFailed

definition sys_evq_sched_add :: "levq_env \<Rightarrow> nat \<Rightarrow> nat \<Rightarrow> evq_sched_type \<Rightarrow> sched_add_args \<Rightarrow> int \<Rightarrow> evq_store \<Rightarrow>
    (evq_store \<times> (lua_error + sched_added)) option" where
  "sys_evq_sched_add env L q ty s idx w =
     (if \<not> flag_on (evq_flags (evqs w q)) EVQ_FLAG_WAITING then do {
        (w1, r) \<leftarrow> sched_add_func env q ty s w;
        Some (case r of
                Inl err \<Rightarrow> (w1, Inl err)
              | Inr (Some ev) \<Rightarrow>
                  (lv_added env L (Some ev)
                     (ev_upd ev (\<lambda>e. e\<lparr>ev_flags := set_flag (ev_flags e) EVENT_CALLBACK_SCHED\<rparr>) w1),
                   Inr (SchedAdded ev))
              | Inr None \<Rightarrow> (w1, Inr SchedFailed))
      }
      else case levq_new_event (lv_buf env) q w of
          (w1, Inl err) \<Rightarrow> Some (w1, Inl err)
        | (w1, Inr op) \<Rightarrow> Some (levq_sync_post env L q op True idx w1, Inr (SchedPosted op)))"

definition sys_evq_sched_del :: "levq_env \<Rightarrow> nat \<Rightarrow> nat \<Rightarrow> bool \<Rightarrow> evq_store \<Rightarrow> evq_store" where
  "sys_evq_sched_del env q ev_op ev_added w =
     (if ev_added \<and> (event_deleted w ev_op \<or> flag_on (ev_flags (events w ev_op)) EVENT_ACTIVE) then w
      else
        (let w1 = (if ev_added then
                     evq_upd q (\<lambda>r. r\<lparr>ev_ready := Some ev_op\<rparr>)
                      (ev_upd ev_op (\<lambda>e. e\<lparr>
                         ev_flags := clr_flag (ev_flags e OR (EVENT_ACTIVE OR EVENT_ONESHOT))
                           (EVENT_CALLBACK OR EVENT_CALLBACK_CORO OR EVENT_CALLBACK_SCHED),
                         next_ready := ev_ready (evqs w q)\<rparr>) w)
                   else op_upd ev_op (\<lambda>r. r\<lparr>op_L := None\<rparr>) w)
         in if flag_on (evq_flags (evqs w1 q)) EVQ_FLAG_WAITING
            then fst (evq_signal (lv_os env) q EVQ_SIGEVQ w1) else w1))"

section \<open>Lemmas: the number of an event\<close>

lemma bit_or_drop:
  assumes "\<And>n. bit a n \<longleftrightarrow> (\<exists>d<k. bit v (n + d))"
  shows "bit (a OR drop_bit k a) n \<longleftrightarrow> (\<exists>d<2 * k. bit (v :: u32) (n + d))"
proof
  assume "bit (a OR drop_bit k a) n"
  then have "bit a n \<or> bit a (k + n)" by (simp add: bit_simps)
  then consider d where "d < k" "bit v (n + d)" | d where "d < k" "bit v (k + n + d)"
    using assms by blast
  then show "\<exists>d<2 * k. bit v (n + d)"
  proof cases
    case (1 d)
    then show ?thesis by (intro exI [of _ d]) simp
  next
    case (2 d)
    then show ?thesis by (intro exI [of _ "k + d"]) (simp add: add.left_commute add.assoc)
  qed
next
  assume "\<exists>d<2 * k. bit v (n + d)"
  then obtain d where d: "d < 2 * k" "bit v (n + d)" by blast
  show "bit (a OR drop_bit k a) n"
  proof (cases "d < k")
    case True
    with d(2) have "bit a n" using assms by blast
    then show ?thesis by (simp add: bit_simps)
  next
    case False
    then have "d - k < k" "n + d = (k + n) + (d - k)" using d(1) by simp_all
    with d(2) have "bit a (k + n)" using assms [of "k + n"] by metis
    then show ?thesis by (simp add: bit_simps)
  qed
qed

lemma bit_smear: "bit (smear v) n \<longleftrightarrow> (\<exists>d<32. bit v (n + d))"
proof -
  have "bit v n \<longleftrightarrow> (\<exists>d<1. bit v (n + d))" for n by simp
  from bit_or_drop [OF bit_or_drop [OF bit_or_drop [OF bit_or_drop [OF bit_or_drop [OF this]]]]]
  show ?thesis by (simp add: smear_def Let_def)
qed

lemma smear_mask:
  assumes "bit v k" and "\<And>n. k < n \<Longrightarrow> \<not> bit v n"
  shows "smear v = mask (Suc k)"
proof (rule bit_word_eqI)
  fix n assume "n < LENGTH(32)"
  have k: "k < 32" using assms(1) by (auto dest: bit_imp_le_length)
  show "bit (smear v) n = bit (mask (Suc k) :: u32) n"
  proof (cases "n \<le> k")
    case True
    then have "n + (k - n) = k" "k - n < 32" using k by simp_all
    then have "\<exists>d<32. bit v (n + d)" using assms(1) by metis
    with True k show ?thesis by (simp add: bit_smear bit_mask_iff)
  next
    case False
    then have "\<not> bit v (n + d)" for d using assms(2) by simp
    with False show ?thesis by (simp add: bit_smear bit_mask_iff)
  qed
qed

lemma bit_position_table:
  "k < 32 \<Longrightarrow> bit_position ! unat (drop_bit 27 (mask (Suc k) * 0x07C4ACDD :: u32)) = k"
proof -
  have "\<forall>k \<in> set [0..<32]. bit_position ! unat (drop_bit 27 (mask (Suc k) * 0x07C4ACDD :: u32)) = k"
    by code_simp
  then show "k < 32 \<Longrightarrow> bit_position ! unat (drop_bit 27 (mask (Suc k) * 0x07C4ACDD :: u32)) = k" by simp
qed

lemma getmaxbit_eq:
  assumes "2 ^ k \<le> unat v" and "unat v < 2 ^ Suc k"
  shows "getmaxbit v = k"
proof -
  have k: "k < 32"
  proof (rule ccontr)
    assume "\<not> k < 32"
    then have "(2::nat) ^ 32 \<le> 2 ^ k" by (intro power_increasing) simp_all
    moreover have "unat v < 2 ^ 32" by (rule order_less_le_trans [OF unsigned_less]) simp
    ultimately show False using assms(1) by linarith
  qed
  have b: "bit v n \<longleftrightarrow> odd (unat v div 2 ^ n)" for n
    by (metis bit_iff_odd bit_unsigned_iff bit_imp_possible_bit possible_bit_nat)
  have "unat v div 2 ^ k = 1"
    using assms by (intro div_nat_eqI) simp_all
  then have "bit v k" by (simp add: b)
  moreover have "\<not> bit v n" if "k < n" for n
  proof -
    have "(2::nat) ^ Suc k \<le> 2 ^ n" using that by (intro power_increasing) simp_all
    then have "unat v div 2 ^ n = 0" using assms(2) by simp
    then show ?thesis by (simp add: b)
  qed
  ultimately have "smear v = mask (Suc k)" by (rule smear_mask)
  then show ?thesis by (simp only: getmaxbit_def bit_position_table [OF k])
qed

lemma buf_first_eq: "6 \<le> b \<Longrightarrow> buf_first b = 2 ^ b - 64"
proof -
  assume b: "6 \<le> b"
  have "(mask b :: int) AND NOT (mask 6) = push_bit 6 (mask (b - 6))"
    by (rule bit_eqI) (use b in \<open>auto simp: bit_simps\<close>)
  moreover have "(2::int) ^ (b - 6) * 2 ^ 6 = 2 ^ b" using b by (simp only: flip: power_add) simp
  then have "push_bit 6 (mask (b - 6) :: int) = 2 ^ b - 64"
    by (simp add: push_bit_eq_mult mask_eq_exp_minus_1 algebra_simps)
  ultimately show ?thesis by (simp add: buf_first_def EVQ_ENV_BUF_IDX_def mask_eq_exp_minus_1)
qed

lemma or_mask_succ:
  assumes "n < 2 ^ 26"
  shows "unat ((word_of_nat n OR (push_bit EVQ_ENV_BUF_IDX 1 - 1)) + 1 :: u32) = (n div 64 + 1) * 64"
proof -
  let ?m = "word_of_nat n :: u32"
  have "?m OR mask 6 = push_bit 6 (drop_bit 6 ?m) OR mask 6"
    by (rule bit_word_eqI) (auto simp: bit_simps)
  also have "\<dots> = push_bit 6 (drop_bit 6 ?m) + mask 6"
    by (rule disjunctive_add_eq_or [symmetric]) (auto simp: bit_simps intro!: bit_word_eqI)
  finally have "(?m OR mask 6) + 1 = push_bit 6 (drop_bit 6 ?m) + 64"
    by (simp add: mask_eq_exp_minus_1)
  also have "\<dots> = word_of_nat ((n div 64 + 1) * 64)"
  proof -
    have "unat ?m = n" using assms by (simp add: unat_of_nat take_bit_nat_eq_self)
    then have "unat (drop_bit 6 ?m) = n div 64" by (subst unat_drop_bit_eq) (simp add: drop_bit_eq_div)
    moreover have "word_of_nat (unat x) = x" for x :: u32 by simp
    ultimately have "drop_bit 6 ?m = word_of_nat (n div 64)" by metis
    then show ?thesis by (simp add: push_bit_eq_mult algebra_simps)
  qed
  finally have e: "(?m OR mask 6) + 1 = word_of_nat ((n div 64 + 1) * 64)" .
  have "(n div 64 + 1) * 64 < 2 ^ 32" using assms by simp
  then have "unat (word_of_nat ((n div 64 + 1) * 64) :: u32) = (n div 64 + 1) * 64"
    by (subst unat_of_nat, intro mod_less) simp
  with e show ?thesis
    by (simp add: EVQ_ENV_BUF_IDX_def mask_eq_exp_minus_1 push_bit_eq_mult)
qed

text \<open>The numbers of the buffer with \<open>2 ^ b\<close> events, and the way back.\<close>

lemma event_number_buf:
  assumes b: "6 \<le> b" "b \<le> 24" and i: "i < 2 ^ b"
  defines "n \<equiv> nat (int i + buf_first b)"
  shows "getmaxbit ((word_of_nat n OR (push_bit EVQ_ENV_BUF_IDX 1 - 1)) + 1) = b"
    and "int n - buf_first b = int i"
proof -
  define c where "c = (2::nat) ^ (b - 6)"
  have "(2::nat) ^ (6 + (b - 6)) = 64 * c" unfolding c_def power_add by simp
  then have c: "(2::nat) ^ b = 64 * c" using b(1) by simp
  have c0: "0 < c" by (simp add: c_def)
  have "int (2 ^ b) = int (64 * c)" by (simp only: c)
  then have f: "buf_first b = int (64 * c) - 64" using b(1) by (simp add: buf_first_eq)
  have i': "i < 64 * c" using i c by simp
  obtain e where e: "c = Suc e" using c0 by (cases c) auto
  have n: "n = i + 64 * e" by (simp add: n_def f e nat_eq_iff)
  show "int n - buf_first b = int i" by (simp add: n f e)
  have "(2::nat) ^ b \<le> 2 ^ 24" by (intro power_increasing b) simp
  then have small: "n < 2 ^ 26" using i' n e c by simp
  have d: "n div 64 + 1 = i div 64 + c" "i div 64 < c" using n e i' by auto
  have "unat ((word_of_nat n OR (push_bit EVQ_ENV_BUF_IDX 1 - 1)) + 1 :: u32) = (i div 64 + c) * 64"
    using or_mask_succ [OF small] d(1) by simp
  then show "getmaxbit ((word_of_nat n OR (push_bit EVQ_ENV_BUF_IDX 1 - 1)) + 1) = b"
    by (intro getmaxbit_eq) (use c d(2) in simp_all)
qed

section \<open>Lemmas: the buffers of events\<close>

definition levq_range :: "event_queue \<Rightarrow> nat \<Rightarrow> nat set" where
  "levq_range r j = (case evq_env r (j + 1) of None \<Rightarrow> {} | Some base \<Rightarrow> {base ..< base + 2 ^ (j + 6)})"

text \<open>How many cells of the \<open>j\<close>-th buffer are used.\<close>

definition levq_used :: "event_queue \<Rightarrow> nat \<Rightarrow> nat" where
  "levq_used r j = (if j < buf_index r then 2 ^ (j + 6) else if j = buf_index r then buf_nevents r else 0)"

text \<open>The cell \<open>i\<close> of the \<open>j\<close>-th buffer.\<close>

definition levq_cell :: "event_queue \<Rightarrow> nat \<Rightarrow> nat \<Rightarrow> nat \<Rightarrow> bool" where
  "levq_cell r j i a \<longleftrightarrow> i < levq_used r j \<and> (\<exists>base. evq_env r (j + 1) = Some base \<and> a = base + i)"

definition levq_alloc_ok :: "evq_store \<Rightarrow> nat \<Rightarrow> bool" where
  "levq_alloc_ok w q \<longleftrightarrow>
     (\<forall>j. evq_env (evqs w q) (j + 1) \<noteq> None \<longleftrightarrow> 0 < levq_used (evqs w q) j) \<and>
     buf_nevents (evqs w q) < 2 ^ (buf_index (evqs w q) + 6) \<and> buf_index (evqs w q) \<le> 19 \<and>
     (buf_index (evqs w q) = 19 \<longrightarrow> buf_nevents (evqs w q) = 0) \<and>
     (\<forall>j j'. j \<noteq> j' \<longrightarrow> levq_range (evqs w q) j \<inter> levq_range (evqs w q) j' = {}) \<and>
     (\<forall>j i a. levq_cell (evqs w q) j i a \<longrightarrow> ev_id (events w a) = nat (int i + buf_first (j + 6)))"

lemma levq_allocD:
  assumes "levq_alloc_ok w q"
  shows "\<And>j. evq_env (evqs w q) (j + 1) \<noteq> None \<longleftrightarrow> 0 < levq_used (evqs w q) j"
    and "buf_nevents (evqs w q) < 2 ^ (buf_index (evqs w q) + 6)" and "buf_index (evqs w q) \<le> 19"
    and "buf_index (evqs w q) = 19 \<Longrightarrow> buf_nevents (evqs w q) = 0"
    and "\<And>j j'. j \<noteq> j' \<Longrightarrow> levq_range (evqs w q) j \<inter> levq_range (evqs w q) j' = {}"
    and "\<And>j i a. levq_cell (evqs w q) j i a \<Longrightarrow> ev_id (events w a) = nat (int i + buf_first (j + 6))"
  using assms unfolding levq_alloc_ok_def by blast+

lemma levq_used_le:
  assumes "levq_alloc_ok w q"
  shows "levq_used (evqs w q) j \<le> 2 ^ (j + 6)"
  using assms by (auto simp: levq_alloc_ok_def levq_used_def)

lemma levq_cell_range:
  assumes ok: "levq_alloc_ok w q" and c: "levq_cell (evqs w q) j i a"
  shows "a \<in> levq_range (evqs w q) j"
proof -
  have "i < 2 ^ (j + 6)" using c levq_used_le [OF ok, of j] by (simp add: levq_cell_def)
  with c show ?thesis by (auto simp: levq_cell_def levq_range_def)
qed

lemma levq_cell_unique:
  assumes ok: "levq_alloc_ok w q" and "levq_cell (evqs w q) j i a" and "levq_cell (evqs w q) j' i' a"
  shows "j = j' \<and> i = i'"
proof -
  have "a \<in> levq_range (evqs w q) j" "a \<in> levq_range (evqs w q) j'"
    using assms levq_cell_range by blast+
  then have "j = j'" using ok unfolding levq_alloc_ok_def by blast
  with assms(2,3) show ?thesis by (auto simp: levq_cell_def)
qed

text \<open>The number of a used cell leads back to it.\<close>

lemma levq_event_at_cell:
  assumes ok: "levq_alloc_ok w q" and c: "levq_cell (evqs w q) j i a"
  shows "levq_event_at (evqs w q) (ev_id (events w a)) = Some a"
proof -
  have u: "i < levq_used (evqs w q) j" using c by (simp add: levq_cell_def)
  then have i: "i < 2 ^ (j + 6)" using levq_used_le [OF ok, of j] by simp
  have "j \<le> buf_index (evqs w q)" using u by (auto simp: levq_used_def split: if_splits)
  moreover have "\<not> (j = 19 \<and> buf_index (evqs w q) = 19)"
    using u ok by (auto simp: levq_used_def levq_alloc_ok_def)
  ultimately have j: "j + 6 \<le> 24" using ok by (auto simp: levq_alloc_ok_def)
  have "ev_id (events w a) = nat (int i + buf_first (j + 6))" using ok c by (auto simp: levq_alloc_ok_def)
  with event_number_buf [of "j + 6" i] j i c show ?thesis
    by (auto simp: levq_event_at_def Let_def levq_cell_def EVQ_ENV_BUF_IDX_def)
qed

text \<open>A new buffer does not overlap the others.\<close>

definition levq_fresh :: "(evq_store \<Rightarrow> nat) \<Rightarrow> nat \<Rightarrow> evq_store \<Rightarrow> bool" where
  "levq_fresh newbuf q w \<longleftrightarrow>
     (\<forall>j. {newbuf w ..< newbuf w + 2 ^ (buf_index (evqs w q) + 6)} \<inter> levq_range (evqs w q) j = {})"

lemma levq_new_event_free:
  assumes ok: "levq_alloc_ok w q" and f: "ev_free (evqs w q) = Some ev"
  shows "\<exists>w'. levq_new_event newbuf q w = (w', Inr ev) \<and> levq_alloc_ok w' q \<and> event_deleted w' ev \<and>
    events w' ev = event0\<lparr>ev_id := ev_id (events w' ev)\<rparr> \<and> ev_free (evqs w' q) = next_ready (events w ev) \<and>
    (\<forall>e. e \<noteq> ev \<longrightarrow> events w' e = events w e) \<and> ev_id (events w' ev) = ev_id (events w ev) \<and>
    (\<forall>j i a. levq_cell (evqs w' q) j i a = levq_cell (evqs w q) j i a)"
proof -
  let ?w = "ev_upd ev (\<lambda>e. event0\<lparr>ev_id := ev_id e\<rparr>)
             (evq_upd q (\<lambda>r. r\<lparr>ev_free := next_ready (events w ev)\<rparr>) w)"
  have c: "levq_cell (evqs ?w q) j i a = levq_cell (evqs w q) j i a" for j i a
    by (simp add: levq_cell_def levq_used_def)
  have "levq_alloc_ok ?w q"
    using ok c unfolding levq_alloc_ok_def by (simp add: levq_used_def levq_range_def)
  then show ?thesis using f c
    by (intro exI [of _ ?w]) (simp add: levq_new_event_def event_deleted_def event0_def)
qed

lemma levq_new_event_next:
  assumes ok: "levq_alloc_ok w q" and f: "ev_free (evqs w q) = None"
    and b: "evq_env (evqs w q) (buf_index (evqs w q) + 1) = Some base"
  defines "ev \<equiv> base + buf_nevents (evqs w q)"
  shows "\<exists>w'. levq_new_event newbuf q w = (w', Inr ev) \<and> levq_alloc_ok w' q \<and> event_deleted w' ev \<and>
    events w' ev = event0\<lparr>ev_id := ev_id (events w' ev)\<rparr> \<and> ev_free (evqs w' q) = None \<and>
    (\<forall>e. e \<noteq> ev \<longrightarrow> events w' e = events w e) \<and>
    (\<forall>j i a. levq_cell (evqs w' q) j i a \<longleftrightarrow>
       levq_cell (evqs w q) j i a \<or> j = buf_index (evqs w q) \<and> i = buf_nevents (evqs w q) \<and> a = ev)"
proof -
  define r n x where "r = evqs w q" and "n = buf_nevents (evqs w q)" and "x = buf_index (evqs w q)"
  define r' where "r' = (if n + 1 \<ge> 2 ^ (x + 6) then r\<lparr>buf_nevents := 0, buf_index := x + 1\<rparr>
                         else r\<lparr>buf_nevents := n + 1\<rparr>)"
  define w' where "w' = ev_upd ev (\<lambda>_. event0\<lparr>ev_id := nat (int n + buf_first (x + 6))\<rparr>) (evq_upd q (\<lambda>_. r') w)"
  have r: "evq_env r' = evq_env r" "ev_free r' = ev_free r" by (simp_all add: r'_def)
  have k: "n < 2 ^ (x + 6)" "x \<le> 19" "x = 19 \<longrightarrow> n = 0" "0 < levq_used r x"
    using levq_allocD(1) [OF ok, of x] levq_allocD(2-4) [OF ok] b by (simp_all add: r_def n_def x_def)
  have ux: "levq_used r x = n" by (simp add: levq_used_def r_def n_def x_def)
  with k(4) have n0: "0 < n" by simp
  have b': "evq_env r (Suc x) = Some base" "ev = base + n" using b by (simp_all add: r_def x_def ev_def n_def)
  have u: "levq_used r' j = (if j = x then n + 1 else levq_used r j)" for j
    using k(1) by (auto simp: levq_used_def r'_def r_def n_def x_def)
  have c: "levq_cell r' j i a \<longleftrightarrow> levq_cell r j i a \<or> j = x \<and> i = n \<and> a = ev" for j i a
  proof (cases "j = x")
    case True
    then show ?thesis using b' ux by (auto simp: levq_cell_def u r less_Suc_eq)
  next
    case False
    then show ?thesis by (simp add: levq_cell_def u r)
  qed
  have run: "levq_new_event newbuf q w = (w', Inr ev)"
    using f b by (simp add: levq_new_event_def Let_def w'_def r'_def r_def n_def x_def ev_def EVQ_ENV_BUF_IDX_def
        evq_upd_def)
  have e: "evqs w' q = r'" "events w' ev = event0\<lparr>ev_id := nat (int n + buf_first (x + 6))\<rparr>"
    "\<And>a. a \<noteq> ev \<Longrightarrow> events w' a = events w a" by (simp_all add: w'_def)
  have new: "\<not> levq_cell r j i ev" for j i
  proof
    assume l: "levq_cell r j i ev"
    then have "ev \<in> levq_range r j" using levq_cell_range [OF ok] by (simp add: r_def)
    moreover have "ev \<in> levq_range r x" using b k(1) by (simp add: levq_range_def r_def x_def ev_def n_def)
    ultimately have "j = x" using ok unfolding levq_alloc_ok_def r_def by blast
    with l ux b' show False by (auto simp: levq_cell_def)
  qed
  have "levq_alloc_ok w' q"
    unfolding levq_alloc_ok_def e(1)
  proof (intro conjI)
    have "evq_env r (j + 1) \<noteq> None \<longleftrightarrow> 0 < levq_used r j" for j
      using ok by (simp add: levq_alloc_ok_def r_def)
    then show "\<forall>j. (evq_env r' (j + 1) \<noteq> None) = (0 < levq_used r' j)"
      using b by (auto simp: r u r_def x_def)
    show "buf_nevents r' < 2 ^ (buf_index r' + 6)" "buf_index r' \<le> 19" "buf_index r' = 19 \<longrightarrow> buf_nevents r' = 0"
      using k n0 by (auto simp: r'_def r_def x_def n_def)
    show "\<forall>j j'. j \<noteq> j' \<longrightarrow> levq_range r' j \<inter> levq_range r' j' = {}"
      using ok by (simp add: levq_range_def r levq_alloc_ok_def r_def)
    show "\<forall>j i a. levq_cell r' j i a \<longrightarrow> ev_id (events w' a) = nat (int i + buf_first (j + 6))"
    proof (intro allI impI)
      fix j i a assume "levq_cell r' j i a"
      with c consider "levq_cell r j i a" | "j = x" "i = n" "a = ev" by blast
      then show "ev_id (events w' a) = nat (int i + buf_first (j + 6))"
      proof cases
        case 1
        then have "a \<noteq> ev" using new by blast
        with 1 e(3) show ?thesis using levq_allocD(6) [OF ok] by (simp add: r_def)
      next
        case 2
        with e(2) show ?thesis by simp
      qed
    qed
  qed
  with run c e f show ?thesis
    by (intro exI [of _ w']) (simp add: event_deleted_def event0_def r r_def n_def x_def)
qed

lemma levq_new_event_buffer:
  assumes ok: "levq_alloc_ok w q" and f: "ev_free (evqs w q) = None"
    and b: "evq_env (evqs w q) (buf_index (evqs w q) + 1) = None"
    and lim: "buf_index (evqs w q) < 19" and fresh: "levq_fresh newbuf q w"
  defines "ev \<equiv> newbuf w"
  shows "\<exists>w'. levq_new_event newbuf q w = (w', Inr ev) \<and> levq_alloc_ok w' q \<and> event_deleted w' ev \<and>
    events w' ev = event0\<lparr>ev_id := ev_id (events w' ev)\<rparr> \<and> ev_free (evqs w' q) = None \<and>
    (\<forall>e. e \<noteq> ev \<longrightarrow> events w' e = events w e) \<and>
    (\<forall>j i a. levq_cell (evqs w' q) j i a \<longleftrightarrow>
       levq_cell (evqs w q) j i a \<or> j = buf_index (evqs w q) \<and> i = buf_nevents (evqs w q) \<and> a = ev)"
proof -
  define r n x where "r = evqs w q" and "n = buf_nevents (evqs w q)" and "x = buf_index (evqs w q)"
  define r' where "r' = r\<lparr>evq_env := (evq_env r)(Suc x := Some ev), buf_nevents := 1\<rparr>"
  define w' where "w' = ev_upd ev (\<lambda>_. event0\<lparr>ev_id := nat (int n + buf_first (x + 6))\<rparr>) (evq_upd q (\<lambda>_. r') w)"
  have ux: "levq_used r x = n" by (simp add: levq_used_def r_def n_def x_def)
  have n0: "n = 0" using levq_allocD(1) [OF ok, of x] b ux by (simp add: r_def x_def)
  have u: "levq_used r' j = (if j = x then 1 else levq_used r j)" for j
    by (simp add: levq_used_def r'_def r_def x_def)
  have rg: "levq_range r' j = (if j = x then {ev ..< ev + 2 ^ (x + 6)} else levq_range r j)" for j
    by (simp add: levq_range_def r'_def)
  have c: "levq_cell r' j i a \<longleftrightarrow> levq_cell r j i a \<or> j = x \<and> i = n \<and> a = ev" for j i a
  proof (cases "j = x")
    case True
    then show ?thesis using ux n0 by (auto simp: levq_cell_def u) (simp_all add: r'_def)
  next
    case False
    then show ?thesis by (simp add: levq_cell_def u) (simp add: r'_def)
  qed
  have run: "levq_new_event newbuf q w = (w', Inr ev)"
    using f b lim by (simp add: levq_new_event_def Let_def w'_def r'_def r_def n_def x_def ev_def EVQ_ENV_BUF_IDX_def
        EVQ_ENV_BUF_MAX_def evq_upd_def)
  have e: "evqs w' q = r'" "events w' ev = event0\<lparr>ev_id := nat (int n + buf_first (x + 6))\<rparr>"
    "\<And>a. a \<noteq> ev \<Longrightarrow> events w' a = events w a" by (simp_all add: w'_def)
  have dis: "{ev ..< ev + 2 ^ (x + 6)} \<inter> levq_range r j = {}" for j
    using fresh by (simp add: levq_fresh_def r_def x_def ev_def)
  have new: "\<not> levq_cell r j i ev" for j i
    using levq_cell_range [OF ok, of j i ev] dis [of j] by (auto simp: r_def disjoint_iff)
  have "levq_alloc_ok w' q"
    unfolding levq_alloc_ok_def e(1)
  proof (intro conjI)
    show "\<forall>j. (evq_env r' (j + 1) \<noteq> None) = (0 < levq_used r' j)"
      using levq_allocD(1) [OF ok] by (simp add: u) (simp add: r'_def r_def)
    show "buf_nevents r' < 2 ^ (buf_index r' + 6)" "buf_index r' \<le> 19" "buf_index r' = 19 \<longrightarrow> buf_nevents r' = 0"
      using lim one_less_power [of "2::nat" "buf_index (evqs w q) + 6"] by (simp_all add: r'_def r_def)
    show "\<forall>j j'. j \<noteq> j' \<longrightarrow> levq_range r' j \<inter> levq_range r' j' = {}"
      using levq_allocD(5) [OF ok] dis by (auto simp: rg r_def)
    show "\<forall>j i a. levq_cell r' j i a \<longrightarrow> ev_id (events w' a) = nat (int i + buf_first (j + 6))"
    proof (intro allI impI)
      fix j i a assume "levq_cell r' j i a"
      with c consider "levq_cell r j i a" | "j = x" "i = n" "a = ev" by blast
      then show "ev_id (events w' a) = nat (int i + buf_first (j + 6))"
      proof cases
        case 1
        then have "a \<noteq> ev" using new by blast
        with 1 e(3) show ?thesis using levq_allocD(6) [OF ok] by (simp add: r_def)
      next
        case 2
        with e(2) show ?thesis by simp
      qed
    qed
  qed
  with run c e f show ?thesis
    by (intro exI [of _ w']) (simp add: event_deleted_def event0_def r_def n_def x_def, simp add: r'_def r_def)
qed

text \<open>Allocation: a free cell, or a cell that was not used before; it fails only when all is used.\<close>

definition levq_full :: "evq_store \<Rightarrow> nat \<Rightarrow> bool" where
  "levq_full w q \<longleftrightarrow> ev_free (evqs w q) = None \<and> buf_index (evqs w q) = 19"

lemma levq_new_event_spec:
  assumes ok: "levq_alloc_ok w q" and fresh: "levq_fresh newbuf q w"
  shows "if levq_full w q then levq_new_event newbuf q w = (w, Inl (ArgError 1 ''too many events''))
    else \<exists>w' ev. levq_new_event newbuf q w = (w', Inr ev) \<and> levq_alloc_ok w' q \<and> event_deleted w' ev \<and>
      events w' ev = event0\<lparr>ev_id := ev_id (events w' ev)\<rparr> \<and>
      (ev_free (evqs w q) = Some ev \<or> (\<forall>j i. \<not> levq_cell (evqs w q) j i ev)) \<and>
      ev_free (evqs w' q) = (if ev_free (evqs w q) = None then None else next_ready (events w ev)) \<and>
      (\<forall>e. e \<noteq> ev \<longrightarrow> events w' e = events w e) \<and>
      (\<forall>j i a. levq_cell (evqs w q) j i a \<longrightarrow> levq_cell (evqs w' q) j i a) \<and>
      (ev_free (evqs w q) = None \<longrightarrow> (\<exists>j i. levq_cell (evqs w' q) j i ev))"
proof (cases "ev_free (evqs w q)")
  case (Some ev)
  with levq_new_event_free [OF ok Some, of newbuf] show ?thesis by (auto simp: levq_full_def)
next
  case None
  show ?thesis
  proof (cases "evq_env (evqs w q) (buf_index (evqs w q) + 1)")
    case (Some base)
    have "buf_index (evqs w q) \<noteq> 19"
      using levq_allocD(1) [OF ok, of "buf_index (evqs w q)"] levq_allocD(4) [OF ok] Some
      by (auto simp: levq_used_def)
    moreover have "\<not> levq_cell (evqs w q) j i (base + buf_nevents (evqs w q))" for j i
    proof
      assume c: "levq_cell (evqs w q) j i (base + buf_nevents (evqs w q))"
      have "base + buf_nevents (evqs w q) \<in> levq_range (evqs w q) (buf_index (evqs w q))"
        using Some levq_allocD(2) [OF ok] by (simp add: levq_range_def)
      with levq_cell_range [OF ok c] levq_allocD(5) [OF ok] have "j = buf_index (evqs w q)" by blast
      with c Some show False by (simp add: levq_cell_def levq_used_def) linarith
    qed
    ultimately show ?thesis
      using levq_new_event_next [OF ok None Some, of newbuf] None by (auto simp: levq_full_def)
  next
    case b: None
    show ?thesis
    proof (cases "buf_index (evqs w q) < 19")
      case True
      have "\<not> levq_cell (evqs w q) j i (newbuf w)" for j i
        using levq_cell_range [OF ok, of j i "newbuf w"] fresh by (auto simp: levq_fresh_def disjoint_iff)
      with levq_new_event_buffer [OF ok None b True fresh] True None show ?thesis
        by (auto simp: levq_full_def)
    next
      case False
      then have "buf_index (evqs w q) = 19" using levq_allocD(3) [OF ok] by simp
      with None b show ?thesis
        by (simp add: levq_full_def levq_new_event_def Let_def EVQ_ENV_BUF_IDX_def EVQ_ENV_BUF_MAX_def)
    qed
  qed
qed

section \<open>Lemmas: dispatch of the ready events\<close>

lemma levq_free_event_inv:
  assumes inv: "evq_inv w q qs fs rs" and ev: "ev \<notin> set rs" "ev \<notin> set (map fst qs @ fs)"
    "ev_evq (events w ev) \<noteq> Some q"
  shows "evq_inv (levq_free_event q ev w) q qs (ev # fs) rs"
proof -
  let ?w = "levq_free_event q ev w"
  note t = evq_invD(1) [OF inv]
  have e: "ev_next (events ?w e) = ev_next (events w e)" "ev_prev (events ?w e) = ev_prev (events w e)"
    "ev_tq (events ?w e) = ev_tq (events w e)" "ev_evq (events ?w e) = ev_evq (events w e)"
    "ev_flags (events ?w e) = ev_flags (events w e)"
    "next_ready (events ?w e) = (if e = ev then hdp fs None else next_ready (events w e))" for e
    using evq_timersD(8) [OF t] by (simp_all add: levq_free_event_def)
  have s: "tqs ?w = tqs w" "evq_tq (evqs ?w q) = evq_tq (evqs w q)" "tq_map_fn (evqs ?w q) = tq_map_fn (evqs w q)"
    "tq_map (evqs ?w q) = tq_map (evqs w q)" "ev_free (evqs ?w q) = Some ev"
    by (simp_all add: levq_free_event_def)
  have "evq_timers ?w q qs (ev # fs)"
  proof (rule evq_timersI)
    show "tq_holds ?w q x" if x: "x \<in> set qs" for x
    proof -
      obtain u m es where y: "x = (u, m, es)" by (cases x)
      show ?thesis unfolding y
        by (rule tq_holds_cong [OF evq_timersD(6) [OF t x, unfolded y]]) (simp_all add: s e)
    qed
    show "slist (\<lambda>e. next_ready (events ?w e)) (ev # fs) None"
      using evq_timersD(9) [OF t] ev(2) by (simp add: e)
    show "ev_evq (events ?w a) \<noteq> Some q" if "a \<in> set (map fst qs @ ev # fs)" for a
      using that evq_timersD(7) [OF t, of a] ev(3) e(4) by auto
    show "distinct (map fst qs @ ev # fs)" using evq_timersD(3) [OF t] ev(2) by simp
  qed (use evq_timersD(1,2,4,5,8,10,11) [OF t] s in simp_all)
  moreover have "slist (\<lambda>e. next_ready (events ?w e)) rs None"
    using evq_invD(3) [OF inv] ev(1)
    by (subst slist_cong [of rs _ "\<lambda>e. next_ready (events w e)"]) (auto simp: e)
  ultimately show ?thesis
    using evq_invD(2,4,5,6) [OF inv] ev(1) by (simp add: evq_inv_def tq_complete_def e)
qed

lemma levq_del_event_inv:
  assumes inv: "evq_inv w q qs fs rs" and ev: "ev \<notin> set rs" "ev \<notin> set (map fst qs @ fs)"
    "ev_evq (events w ev) \<noteq> Some q"
  shows "evq_inv (levq_del_event q ev w) q qs (ev # fs) rs"
proof -
  define w2 where "w2 = evq_upd q (\<lambda>r. r\<lparr>evq_udata := (evq_udata r)(ev_id (events w ev) := LNil)\<rparr>)
    (if flag_on (ev_flags (events w ev)) EVENT_CALLBACK
     then evq_upd q (\<lambda>r. r\<lparr>evq_callback := (evq_callback r)(ev_id (events w ev) := LNil)\<rparr>) w else w)"
  have "evq_inv w2 q qs fs rs"
    by (rule evq_inv_frame [OF inv]) (use evq_invD(6) [OF inv] in \<open>auto simp: w2_def\<close>)
  moreover have "events w2 = events w" by (simp add: w2_def)
  moreover have "levq_del_event q ev w = levq_free_event q ev w2"
    by (simp add: levq_del_event_def Let_def w2_def)
  ultimately show ?thesis using levq_free_event_inv [of w2 q qs fs rs ev] ev by simp
qed

lemma levq_del_event_simps [simp]:
  "events (levq_del_event q ev w) e =
     (if e = ev then (events w e)\<lparr>next_ready := ev_free (evqs w q)\<rparr> else events w e)"
  "sig_events (levq_del_event q ev w) = sig_events w"
  "ev_free (evqs (levq_del_event q ev w) q) = Some ev"
  "ev_ready (evqs (levq_del_event q ev w) q) = ev_ready (evqs w q)"
  "evq_udata (evqs (levq_del_event q ev w) q) = (evq_udata (evqs w q))(ev_id (events w ev) := LNil)"
  "evq_callback (evqs (levq_del_event q ev w) q) =
     (if flag_on (ev_flags (events w ev)) EVENT_CALLBACK
      then (evq_callback (evqs w q))(ev_id (events w ev) := LNil) else evq_callback (evqs w q))"
  by (simp_all add: levq_del_event_def levq_free_event_def Let_def)

lemma sig_ok_del_event: "sig_ok w q \<Longrightarrow> sig_ok (levq_del_event q ev w) q"
  by (rule sig_ok_frame) (auto split: if_splits)

text \<open>Taking the first event off the ready list.\<close>

lemma levq_take_ready:
  assumes inv: "evq_inv w q qs fs (ev # rs)" and sig: "sig_ok w q"
  defines "w1 \<equiv> evq_upd q (\<lambda>r. r\<lparr>ev_ready := next_ready (events w ev)\<rparr>)
     (ev_upd ev (\<lambda>e. e\<lparr>ev_flags := clr_flag (ev_flags e) EVENT_MASK_RES\<rparr>) w)"
  shows "evq_inv w1 q qs fs rs" and "sig_ok w1 q" and "ev_ready (evqs w1 q) = hdp rs None"
    and "\<not> ev_active w1 ev" and "ev \<notin> set rs" and "ev \<notin> set (map fst qs @ fs)"
proof -
  have r: "distinct (ev # rs)" "slist (\<lambda>e. next_ready (events w e)) (ev # rs) None"
    "\<And>e. e \<in> set rs \<Longrightarrow> ev_active w e" "set (ev # rs) \<inter> set (map fst qs @ fs) = {}"
    using evq_invD [OF inv] by auto
  have inv': "evq_inv w q qs fs rs"
    using inv by (simp add: evq_inv_def)
  show "evq_inv w1 q qs fs rs"
    by (rule evq_inv_frame [OF inv']) (use r in \<open>auto simp: w1_def\<close>)
  have fl: "flag_on (clr_flag f EVENT_MASK_RES) EVENT_PID = flag_on f EVENT_PID"
    "flag_on (clr_flag f EVENT_MASK_RES) EVENT_SIGNAL = flag_on f EVENT_SIGNAL"
    "\<not> flag_on (clr_flag f EVENT_MASK_RES) EVENT_ACTIVE" for f :: u32
    by (simp_all add: event_bits)
  show "sig_ok w1 q"
    by (rule sig_ok_frame [OF sig]) (auto simp: w1_def event_signo_def fl split: if_splits)
  show "ev_ready (evqs w1 q) = hdp rs None" using r(2) by (simp add: w1_def)
  show "\<not> ev_active w1 ev" by (simp add: w1_def fl)
  show "ev \<notin> set rs" "ev \<notin> set (map fst qs @ fs)" using r by auto
qed

text \<open>What is known of the events on the ready list.\<close>

definition ready_ok :: "evq_store \<Rightarrow> nat \<Rightarrow> nat list \<Rightarrow> bool" where
  "ready_ok w q rs \<longleftrightarrow>
     (\<forall>e \<in> set rs. (ev_evq (events w e) = Some q \<or> event_deleted w e) \<and>
        (flag_on (ev_flags (events w e)) EVENT_DELETE \<longrightarrow> event_deleted w e))"

text \<open>
  Dispatch up to the callback: the event leaves the ready list; a deleted or one-shot event is
  freed; the callback and its object are those stored for the event.
\<close>

lemma levq_dispatch_spec:
  assumes inv: "evq_inv w q qs fs (ev # rs)" and sig: "sig_ok w q" and rok: "ready_ok w q (ev # rs)"
  defines "fl \<equiv> ev_flags (events w ev)"
  defines "call \<equiv> \<lparr>c_event = (if flag_on fl EVENT_CALLBACK_SCHED then None
       else Some (ev, evq_udata (evqs w q) (ev_id (events w ev)))),
     c_res = event_letter fl, c_extra = event_extra fl\<rparr>"
  defines "gone \<equiv> event_deleted w ev \<or> flag_on fl EVENT_ONESHOT"
  shows "\<exists>w' qs' fs'. levq_dispatch env q ev w =
      (if flag_on fl EVENT_DELETE then Some (w', 0)
       else levq_run env q ev fl (evq_callback (evqs w q) (ev_id (events w ev))) call w') \<and>
    evq_inv w' q qs' fs' rs \<and> sig_ok w' q \<and> ready_ok w' q rs \<and> ev_ready (evqs w' q) = hdp rs None \<and>
    \<not> ev_active w' ev \<and> (gone \<longrightarrow> event_deleted w' ev \<and> ev_free (evqs w' q) = Some ev \<and>
      evq_udata (evqs w' q) (ev_id (events w ev)) = LNil) \<and>
    (\<not> gone \<longrightarrow> ev_evq (events w' ev) = Some q \<and> qs' = qs \<and> fs' = fs)"
proof -
  define w1 where "w1 = evq_upd q (\<lambda>r. r\<lparr>ev_ready := next_ready (events w ev)\<rparr>)
     (ev_upd ev (\<lambda>e. e\<lparr>ev_flags := clr_flag (ev_flags e) EVENT_MASK_RES\<rparr>) w)"
  note t = levq_take_ready [OF inv sig, folded w1_def]
  have e1: "ev_evq (events w1 e) = ev_evq (events w e)" "ev_id (events w1 e) = ev_id (events w e)" for e
    by (simp_all add: w1_def)
  have q1: "evq_callback (evqs w1 q) = evq_callback (evqs w q)" "evq_udata (evqs w1 q) = evq_udata (evqs w q)"
    by (simp_all add: w1_def)
  have fl1: "flag_on (ev_flags (events w1 e)) EVENT_DELETE = flag_on (ev_flags (events w e)) EVENT_DELETE" for e
    by (simp add: w1_def event_bits)
  have r1: "ready_ok w1 q rs" using rok by (simp add: ready_ok_def e1 fl1 event_deleted_def)
  have evq: "ev_evq (events w ev) = Some q \<or> event_deleted w ev" "flag_on fl EVENT_DELETE \<longrightarrow> event_deleted w ev"
    using rok by (auto simp: ready_ok_def fl_def)
  define go where "go = (flag_on fl EVENT_ONESHOT \<and> \<not> event_deleted w1 ev)"
  have "\<exists>w2 qs' fs'. (if go then map_option fst (evq_del (lv_os env) ev True w1) else Some w1) = Some w2 \<and>
    evq_inv w2 q qs' fs' rs \<and> sig_ok w2 q \<and> ready_ok w2 q rs \<and> ev_ready (evqs w2 q) = hdp rs None \<and>
    \<not> ev_active w2 ev \<and> ev \<notin> set (map fst qs' @ fs') \<and> event_deleted w2 ev = gone \<and>
    (\<not> gone \<longrightarrow> qs' = qs \<and> fs' = fs) \<and> (\<forall>e. e \<noteq> ev \<longrightarrow> ev_evq (events w2 e) = ev_evq (events w1 e)) \<and>
    ev_id (events w2 ev) = ev_id (events w ev)"
  proof (cases go)
    case False
    then have "event_deleted w1 ev = gone" by (auto simp: go_def gone_def event_deleted_def e1)
    then show ?thesis using False t r1 e1 by (intro exI [of _ w1] exI [of _ qs] exI [of _ fs]) simp
  next
    case True
    then have q: "ev_evq (events w1 ev) = Some q" and g: gone
      using evq by (auto simp: go_def e1 event_deleted_def gone_def)
    from evq_del_spec [OF t(1) q t(2), of "lv_os env" True] obtain w2 res qs' fs' where
      d: "evq_del (lv_os env) ev True w1 = Some (w2, res)" "evq_inv w2 q qs' fs' rs" "sig_ok w2 q"
      "set (map fst qs' @ fs') = set (map fst qs @ fs)" "event_deleted w2 ev"
      "\<forall>e. ev_flags (events w2 e) = ev_flags (events w1 e) \<and> ev_fd (events w2 e) = ev_fd (events w1 e)"
      "\<forall>e. e \<noteq> ev \<longrightarrow> ev_evq (events w2 e) = ev_evq (events w1 e)" by blast
    have lf: "ev_ready (evqs w2 q) = ev_ready (evqs w1 q)" "ev_id (events w2 ev) = ev_id (events w1 ev)"
      using evq_del_loop_fields [OF d(1), of q ev] by (simp_all add: loop_fields_def)
    have "ready_ok w2 q rs"
      using r1 d(6,7) t(5) unfolding ready_ok_def event_deleted_def by metis
    then show ?thesis using True g d t lf e1
      by (intro exI [of _ w2] exI [of _ qs'] exI [of _ fs']) simp
  qed
  then obtain w2 qs' fs' where d: "(if go then map_option fst (evq_del (lv_os env) ev True w1) else Some w1) = Some w2"
    and i2: "evq_inv w2 q qs' fs' rs" "sig_ok w2 q" "ready_ok w2 q rs" "ev_ready (evqs w2 q) = hdp rs None"
      "\<not> ev_active w2 ev" "ev \<notin> set (map fst qs' @ fs')"
    and g: "event_deleted w2 ev = gone" "\<not> gone \<longrightarrow> qs' = qs \<and> fs' = fs"
      "\<forall>e. e \<noteq> ev \<longrightarrow> ev_evq (events w2 e) = ev_evq (events w1 e)" "ev_id (events w2 ev) = ev_id (events w ev)"
    by blast
  define w3 where "w3 = (if event_deleted w2 ev then levq_del_event q ev w2 else w2)"
  have i3: "evq_inv w3 q qs' (if gone then ev # fs' else fs') rs"
    using levq_del_event_inv [OF i2(1) t(5) i2(6)] i2(1) g(1) by (auto simp: w3_def event_deleted_def)
  have s3: "sig_ok w3 q" using i2(2) sig_ok_del_event by (simp add: w3_def)
  have r3: "ready_ok w3 q rs" using i2(3) t(5) by (auto simp: w3_def ready_ok_def event_deleted_def)
  have m3: "ev_ready (evqs w3 q) = hdp rs None" "\<not> ev_active w3 ev" using i2(4,5) by (simp_all add: w3_def)
  have g3: "gone \<Longrightarrow> event_deleted w3 ev \<and> ev_free (evqs w3 q) = Some ev \<and>
      evq_udata (evqs w3 q) (ev_id (events w ev)) = LNil"
    using g(1,4) by (simp add: w3_def event_deleted_def)
  have n3: "\<not> gone \<Longrightarrow> ev_evq (events w3 ev) = Some q"
    using g(1) d evq e1 by (auto simp: w3_def gone_def go_def event_deleted_def split: if_splits)
  show ?thesis
  proof (cases "flag_on fl EVENT_DELETE")
    case False
    have "levq_dispatch env q ev w = levq_run env q ev fl (evq_callback (evqs w q) (ev_id (events w ev))) call w3"
      using False d by (simp add: levq_dispatch_def Let_def w1_def [symmetric] fl_def [symmetric]
          go_def [symmetric] w3_def [symmetric] e1 q1 call_def)
    with False i3 s3 r3 m3 g3 n3 g(2) show ?thesis
      by (intro exI [of _ w3] exI [of _ qs'] exI [of _ "if gone then ev # fs' else fs'"]) simp
  next
    case True
    then have g': gone and del: "event_deleted w1 ev" using evq by (simp_all add: gone_def event_deleted_def e1)
    let ?w = "levq_del_event q ev w1"
    have "levq_dispatch env q ev w = Some (?w, 0)"
      using True by (simp add: levq_dispatch_def Let_def w1_def [symmetric] fl_def [symmetric])
    moreover have "evq_inv ?w q qs (ev # fs) rs"
      using levq_del_event_inv [OF t(1,5,6)] del by (simp add: event_deleted_def)
    moreover have "sig_ok ?w q" by (rule sig_ok_del_event [OF t(2)])
    moreover have "ready_ok ?w q rs" using r1 t(5) by (auto simp: ready_ok_def event_deleted_def)
    moreover have "event_deleted ?w ev" using del by (simp add: event_deleted_def)
    ultimately show ?thesis using True g' t(3,4) e1
      by (intro exI [of _ ?w] exI [of _ qs] exI [of _ "ev # fs"]) simp
  qed
qed

text \<open>The state between two callbacks, and callbacks that leave it and the ready list alone.\<close>

definition loop_good :: "evq_store \<Rightarrow> nat \<Rightarrow> nat list \<Rightarrow> bool" where
  "loop_good w q rs \<longleftrightarrow> evq_good w q rs \<and> ready_ok w q rs \<and> ev_ready (evqs w q) = hdp rs None"

definition keeps :: "nat \<Rightarrow> (evq_store \<Rightarrow> evq_store) \<Rightarrow> bool" where
  "keeps q f \<longleftrightarrow>
     (\<forall>w rs. loop_good w q rs \<longrightarrow> loop_good (f w) q rs) \<and>
     (\<forall>w e. ev_evq (events w e) \<in> {None, Some q} \<longrightarrow> ev_evq (events (f w) e) \<in> {None, Some q})"

definition callbacks_ok :: "levq_env \<Rightarrow> nat \<Rightarrow> bool" where
  "callbacks_ok env q \<longleftrightarrow>
     (\<forall>cb c. keeps q (\<lambda>w. fst (lv_pcall env cb c w))) \<and>
     (\<forall>cb c. keeps q (\<lambda>w. fst (lv_resume env cb c w))) \<and>
     (\<forall>cb ev c. keeps q (lv_ready env cb ev c))"

lemma levq_run_spec:
  assumes ok: "callbacks_ok env q" and good: "loop_good w q rs" and ev: "ev \<notin> set rs"
    "ev_evq (events w ev) \<in> {None, Some q}"
  shows "\<exists>w' res. levq_run env q ev fl cb call w = Some (w', res) \<and> loop_good w' q rs \<and>
    res \<in> {0, SYS_ERR_THROW}"
proof -
  have k: "loop_good (fst (lv_pcall env cb call w)) q rs" "loop_good (fst (lv_resume env cb call w)) q rs"
    "loop_good (lv_ready env cb ev call w) q rs"
    "ev_evq (events (fst (lv_resume env cb call w)) ev) \<in> {None, Some q}"
    using ok good ev(2) unfolding callbacks_ok_def keeps_def by blast+
  obtain w1 r where res: "lv_resume env cb call w = (w1, r)" by (cases "lv_resume env cb call w")
  have done_case: "\<exists>w2 x. evq_del (lv_os env) ev False w1 = Some (w2, x) \<and> loop_good (levq_del_event q ev w2) q rs"
    if nd: "\<not> event_deleted w1 ev"
  proof -
    have q: "ev_evq (events w1 ev) = Some q" using nd k(4) res by (auto simp: event_deleted_def)
    from k(2) res obtain qs fs where inv: "evq_inv w1 q qs fs rs" and sig: "sig_ok w1 q"
      and ro: "ready_ok w1 q rs" and rd: "ev_ready (evqs w1 q) = hdp rs None"
      by (auto simp: loop_good_def evq_good_def)
    from evq_del_spec [OF inv q sig, of "lv_os env" False] obtain w2 x qs' fs' where
      d: "evq_del (lv_os env) ev False w1 = Some (w2, x)" "evq_inv w2 q qs' fs' rs" "sig_ok w2 q"
      "set (map fst qs' @ fs') = set (map fst qs @ fs)" "event_deleted w2 ev"
      "\<forall>e. ev_flags (events w2 e) = ev_flags (events w1 e) \<and> ev_fd (events w2 e) = ev_fd (events w1 e)"
      "\<forall>e. e \<noteq> ev \<longrightarrow> ev_evq (events w2 e) = ev_evq (events w1 e)" by blast
    have nc: "ev \<notin> set (map fst qs' @ fs')" using d(4) evq_invD(7) [OF inv, of ev] q by auto
    have "evq_inv (levq_del_event q ev w2) q qs' (ev # fs') rs"
      using levq_del_event_inv [OF d(2) ev(1) nc] d(5) by (simp add: event_deleted_def)
    moreover have "ready_ok (levq_del_event q ev w2) q rs"
      using ro d(6,7) ev(1) by (auto simp: ready_ok_def event_deleted_def)
    moreover have "ev_ready (evqs w2 q) = hdp rs None"
      using evq_del_loop_fields [OF d(1), of q] rd by (simp add: loop_fields_def)
    ultimately have "loop_good (levq_del_event q ev w2) q rs"
      using sig_ok_del_event [OF d(3), of ev] by (auto simp: loop_good_def evq_good_def)
    with d(1) show ?thesis by blast
  qed
  show ?thesis
    using k res done_case good
    by (auto simp: levq_run_def split: prod.splits coro_result.splits)
qed

text \<open>One step of the loop over the ready events.\<close>

lemma levq_dispatch_step:
  assumes ok: "callbacks_ok env q" and good: "loop_good w q (ev # rs)"
  shows "\<exists>w' res. levq_dispatch env q ev w = Some (w', res) \<and> loop_good w' q rs \<and> res \<in> {0, SYS_ERR_THROW}"
proof -
  from good obtain qs fs where inv: "evq_inv w q qs fs (ev # rs)" and sig: "sig_ok w q"
    and ro: "ready_ok w q (ev # rs)" by (auto simp: loop_good_def evq_good_def)
  from levq_dispatch_spec [OF inv sig ro, of env] obtain w' qs' fs' call where
    d: "levq_dispatch env q ev w =
      (if flag_on (ev_flags (events w ev)) EVENT_DELETE then Some (w', 0)
       else levq_run env q ev (ev_flags (events w ev)) (evq_callback (evqs w q) (ev_id (events w ev))) call w')"
    and i: "evq_inv w' q qs' fs' rs" "sig_ok w' q" "ready_ok w' q rs" "ev_ready (evqs w' q) = hdp rs None"
    and g: "(event_deleted w ev \<or> flag_on (ev_flags (events w ev)) EVENT_ONESHOT) \<longrightarrow> event_deleted w' ev"
      "\<not> (event_deleted w ev \<or> flag_on (ev_flags (events w ev)) EVENT_ONESHOT) \<longrightarrow> ev_evq (events w' ev) = Some q"
    by blast
  have good': "loop_good w' q rs" using i by (auto simp: loop_good_def evq_good_def)
  have "ev \<notin> set rs" using evq_invD(4) [OF inv] by simp
  moreover have "ev_evq (events w' ev) \<in> {None, Some q}" using g by (auto simp: event_deleted_def)
  ultimately show ?thesis using levq_run_spec [OF ok good'] d good' by auto
qed

text \<open>
  What the loop is to do with a given list of events: dispatch them one after the other and stop
  at the first one whose callback fails. The result are the events that were not dispatched, the
  state and the code of the last dispatch.
\<close>

fun dispatch_list :: "levq_env \<Rightarrow> nat \<Rightarrow> nat list \<Rightarrow> evq_store \<Rightarrow> (nat list \<times> evq_store \<times> int) option" where
  "dispatch_list env q [] w = Some ([], w, 0)"
| "dispatch_list env q (ev # evs) w = do {
     (w1, res) \<leftarrow> levq_dispatch env q ev w;
     if res \<noteq> 0 then Some (evs, w1, res) else dispatch_list env q evs w1
   }"

lemma levq_ready_loop_spec:
  assumes ok: "callbacks_ok env q" and "loop_good w q (ev # rs)"
  shows "\<exists>w' res rs'. dispatch_list env q (ev # rs) w = Some (rs', w', res) \<and>
    levq_ready_loop env q ev w = Some (w', res) \<and> loop_good w' q rs' \<and>
    (res = 0 \<and> rs' = [] \<or> res = SYS_ERR_THROW)"
  using assms(2)
proof (induction rs arbitrary: ev w)
  case Nil
  from levq_dispatch_step [OF ok Nil] obtain w' res where
    d: "levq_dispatch env q ev w = Some (w', res)" "loop_good w' q []" "res \<in> {0, SYS_ERR_THROW}" by blast
  then have "levq_ready_loop env q ev w = Some (w', res)"
    by (subst levq_ready_loop.simps) (auto simp: loop_good_def)
  with d show ?case by auto
next
  case (Cons e rs)
  from levq_dispatch_step [OF ok Cons.prems] obtain w1 res where
    d: "levq_dispatch env q ev w = Some (w1, res)" "loop_good w1 q (e # rs)" "res \<in> {0, SYS_ERR_THROW}" by blast
  show ?case
  proof (cases "res = 0")
    case False
    then have "levq_ready_loop env q ev w = Some (w1, res)"
      using d by (subst levq_ready_loop.simps) simp
    with d False show ?thesis by auto
  next
    case True
    from Cons.IH [OF d(2)] obtain w' res' rs' where
      i: "dispatch_list env q (e # rs) w1 = Some (rs', w', res')"
      "levq_ready_loop env q e w1 = Some (w', res')" "loop_good w' q rs'"
      "res' = 0 \<and> rs' = [] \<or> res' = SYS_ERR_THROW" by blast
    have "levq_ready_loop env q ev w = Some (w', res')"
      using d True i(2) by (subst levq_ready_loop.simps) (simp add: loop_good_def)
    moreover have "dispatch_list env q (ev # e # rs) w = Some (rs', w', res')"
      using d(1) True i(1) by (simp only: dispatch_list.simps(2) [of env q ev]) simp
    ultimately show ?thesis using i(3,4) by blast
  qed
qed

section \<open>Lemmas: adding a timer\<close>

lemma evq_inv_take:
  assumes inv: "evq_inv w q qs (ps @ fs) rs"
    and ev: "ev \<notin> set (map fst qs @ fs)" "ev \<notin> set (tqv_events qs)" "ev \<notin> set rs"
    and e: "\<And>e. e \<noteq> ev \<Longrightarrow> events w' e = events w e" and d: "ev_evq (events w' ev) \<noteq> Some q"
    and s: "tqs w' = tqs w" "evq_tq (evqs w' q) = evq_tq (evqs w q)" "ev_free (evqs w' q) = hdp fs None"
      "tq_map_fn (evqs w' q) = tq_map_fn (evqs w q)" "tq_map (evqs w' q) = tq_map (evqs w q)"
  shows "evq_inv w' q qs fs rs"
proof -
  note t = evq_invD(1) [OF inv]
  have e': "events w' x = events w x" if "x \<in> set (map fst qs @ fs) \<union> set (tqv_events qs) \<union> set rs" for x
    by (rule e) (use that ev in auto)
  have "evq_timers w' q qs fs"
  proof (rule evq_timersI)
    show "tq_holds w' q x" if x: "x \<in> set qs" for x
    proof -
      obtain u m es where y: "x = (u, m, es)" by (cases x)
      have "events w' a = events w a" if "a \<in> set es" for a
        by (rule e') (use that x y in force)
      then show ?thesis unfolding y
        by (intro tq_holds_cong [OF evq_timersD(6) [OF t x, unfolded y]]) (simp_all add: s)
    qed
    show "slist (\<lambda>e. next_ready (events w' e)) fs None"
      using evq_timersD(9) [OF t] by (subst slist_cong [of fs _ "\<lambda>e. next_ready (events w e)"]) (simp_all add: e')
    show "ev_evq (events w' a) \<noteq> Some q" if "a \<in> set (map fst qs @ fs)" for a
    proof -
      have "a \<in> set (map fst qs @ ps @ fs)" using that by auto
      then have "ev_evq (events w a) \<noteq> Some q" by (rule evq_timersD(7) [OF t])
      moreover have "events w' a = events w a" by (rule e') (use that in auto)
      ultimately show ?thesis by simp
    qed
    show "distinct (map fst qs @ fs)" using evq_timersD(3) [OF t] by auto
  qed (use evq_timersD(1,2,4,5,10,11) [OF t] s in simp_all)
  moreover have "slist (\<lambda>e. next_ready (events w' e)) rs None"
    using evq_invD(3) [OF inv] by (subst slist_cong [of rs _ "\<lambda>e. next_ready (events w e)"]) (simp_all add: e')
  moreover have "tq_complete w' q qs"
    unfolding tq_complete_def
  proof (intro allI impI)
    fix a assume a: "ev_evq (events w' a) = Some q" "ev_tq (events w' a) \<noteq> None"
    then have "a \<noteq> ev" using d by auto
    with a e show "a \<in> set (tqv_events qs)" using evq_invD(2) [OF inv] by (simp add: tq_complete_def)
  qed
  ultimately show ?thesis using evq_invD(4-6) [OF inv] e' by (auto simp: evq_inv_def)
qed

text \<open>The whole invariant: every cell in a list is a used cell of a buffer.\<close>

definition levq_inv :: "evq_store \<Rightarrow> nat \<Rightarrow> tqv list \<Rightarrow> nat list \<Rightarrow> nat list \<Rightarrow> bool" where
  "levq_inv w q qs fs rs \<longleftrightarrow> evq_inv w q qs fs rs \<and> levq_alloc_ok w q \<and>
     (\<forall>a \<in> set (map fst qs @ fs @ tqv_events qs @ rs). \<exists>j i. levq_cell (evqs w q) j i a)"

lemma levq_new_event_frame:
  assumes "levq_new_event newbuf q w = (w', Inr ev)"
  shows "tqs w' = tqs w" "evq_tq (evqs w' q) = evq_tq (evqs w q)" "tq_map_fn (evqs w' q) = tq_map_fn (evqs w q)"
    "tq_map (evqs w' q) = tq_map (evqs w q)" "evq_flags (evqs w' q) = evq_flags (evqs w q)"
    "nactives (evqs w' q) = nactives (evqs w q)" "nidles (evqs w' q) = nidles (evqs w q)"
    "evq_now (evqs w' q) = evq_now (evqs w q)" "nevents (evqs w' q) = nevents (evqs w q)"
  using assms by (auto simp: levq_new_event_def Let_def split: option.splits if_splits)

lemma levq_new_event_inv:
  assumes inv: "levq_inv w q qs fs rs" and fresh: "levq_fresh newbuf q w" and nf: "\<not> levq_full w q"
  shows "\<exists>w' ev. levq_new_event newbuf q w = (w', Inr ev) \<and> levq_inv w' q qs (drop 1 fs) rs \<and>
    event_deleted w' ev \<and> events w' ev = event0\<lparr>ev_id := ev_id (events w' ev)\<rparr> \<and>
    ev \<notin> set (map fst qs @ drop 1 fs @ tqv_events qs @ rs) \<and> (\<exists>j i. levq_cell (evqs w' q) j i ev) \<and>
    (fs = [] \<longrightarrow> (\<forall>j i. \<not> levq_cell (evqs w q) j i ev)) \<and>
    (\<forall>e. e \<noteq> ev \<longrightarrow> events w' e = events w e) \<and>
    (\<forall>j i a. levq_cell (evqs w q) j i a \<longrightarrow> levq_cell (evqs w' q) j i a)"
proof -
  have i: "evq_inv w q qs fs rs" and ok: "levq_alloc_ok w q"
    and cells: "\<And>a. a \<in> set (map fst qs @ fs @ tqv_events qs @ rs) \<Longrightarrow> \<exists>j i. levq_cell (evqs w q) j i a"
    using inv by (auto simp: levq_inv_def)
  have f: "ev_free (evqs w q) = hdp fs None" by (rule evq_timersD(8) [OF evq_invD(1) [OF i]])
  from levq_new_event_spec [OF ok fresh] nf obtain w' ev where
    n: "levq_new_event newbuf q w = (w', Inr ev)" "levq_alloc_ok w' q" "event_deleted w' ev"
    and ev0: "events w' ev = event0\<lparr>ev_id := ev_id (events w' ev)\<rparr>"
    and new: "ev_free (evqs w q) = Some ev \<or> (\<forall>j i. \<not> levq_cell (evqs w q) j i ev)"
    and fr: "ev_free (evqs w' q) = (if ev_free (evqs w q) = None then None else next_ready (events w ev))"
    and e: "\<forall>e. e \<noteq> ev \<longrightarrow> events w' e = events w e"
    and mono: "\<forall>j i a. levq_cell (evqs w q) j i a \<longrightarrow> levq_cell (evqs w' q) j i a"
    and cell: "ev_free (evqs w q) = None \<longrightarrow> (\<exists>j i. levq_cell (evqs w' q) j i ev)"
    by auto
  have dc: "distinct (map fst qs @ fs)" "set rs \<inter> set (map fst qs @ fs) = {}"
    "\<And>a. a \<in> set (map fst qs @ fs) \<Longrightarrow> ev_evq (events w a) \<noteq> Some q"
    using evq_timersD(3) [OF evq_invD(1) [OF i]] evq_invD(5,7) [OF i] by auto
  have tqe: "ev_evq (events w a) = Some q" if h: "a \<in> set (tqv_events qs)" for a
  proof -
    obtain A u m as bs B where "qs = A @ (u, m, as @ a # bs) # B" using tqv_events_split [OF h] .
    then show ?thesis using evq_timers_at(6) [of w q A u m "as @ a # bs" B fs a] evq_invD(1) [OF i] by simp
  qed
  have all: "\<exists>ps. fs = ps @ drop 1 fs \<and> ev \<notin> set (map fst qs @ drop 1 fs @ tqv_events qs @ rs) \<and>
      (\<exists>j i. levq_cell (evqs w' q) j i ev) \<and> ev_free (evqs w' q) = hdp (drop 1 fs) None"
  proof (cases fs)
    case Nil
    then have "\<forall>j i. \<not> levq_cell (evqs w q) j i ev" using f new by simp
    then have "ev \<notin> set (map fst qs @ fs @ tqv_events qs @ rs)" using cells by blast
    then show ?thesis using Nil f fr cell by (intro exI [of _ "[]"]) auto
  next
    case (Cons a fs')
    then have "ev = a" using f n(1) by (simp add: levq_new_event_def)
    moreover have "next_ready (events w a) = hdp fs' None"
      using evq_timersD(9) [OF evq_invD(1) [OF i]] Cons by simp
    moreover have "a \<notin> set (tqv_events qs)" using tqe [of a] dc(3) [of a] Cons by auto
    moreover have "\<exists>j i. levq_cell (evqs w q) j i a" using cells [of a] Cons by simp
    then have "\<exists>j i. levq_cell (evqs w' q) j i a" using mono by blast
    ultimately show ?thesis using Cons f fr dc(1,2) by (intro exI [of _ "[a]"]) auto
  qed
  then obtain ps where ps: "fs = ps @ drop 1 fs"
    and out: "ev \<notin> set (map fst qs @ drop 1 fs @ tqv_events qs @ rs)"
    and c: "\<exists>j i. levq_cell (evqs w' q) j i ev" and hd: "ev_free (evqs w' q) = hdp (drop 1 fs) None" by blast
  have "evq_inv w' q qs (drop 1 fs) rs"
    by (rule evq_inv_take [of w q qs ps "drop 1 fs" rs ev])
       (use i ps out e hd n(3) levq_new_event_frame [OF n(1)] in \<open>auto simp: event_deleted_def\<close>)
  moreover have "\<exists>j i. levq_cell (evqs w' q) j i a" if "a \<in> set (map fst qs @ drop 1 fs @ tqv_events qs @ rs)" for a
  proof -
    have "a \<in> set (map fst qs @ fs @ tqv_events qs @ rs)" using that set_drop_subset [of 1 fs] by auto
    then show ?thesis using cells mono by blast
  qed
  ultimately have "levq_inv w' q qs (drop 1 fs) rs" using n(2) by (simp add: levq_inv_def)
  moreover have "fs = [] \<longrightarrow> (\<forall>j i. \<not> levq_cell (evqs w q) j i ev)" using new f by auto
  ultimately show ?thesis using n(1,3) ev0 out c e mono by blast
qed

lemma levq_alloc_ok_cong:
  assumes "levq_alloc_ok w q" and "\<And>e. ev_id (events w' e) = ev_id (events w e)"
    and "evq_env (evqs w' q) = evq_env (evqs w q)" and "buf_index (evqs w' q) = buf_index (evqs w q)"
    and "buf_nevents (evqs w' q) = buf_nevents (evqs w q)"
  shows "levq_alloc_ok w' q" and "levq_cell (evqs w' q) = levq_cell (evqs w q)"
proof -
  have u: "levq_used (evqs w' q) = levq_used (evqs w q)" "levq_range (evqs w' q) = levq_range (evqs w q)"
    by (auto simp: levq_used_def levq_range_def assms)
  then show c: "levq_cell (evqs w' q) = levq_cell (evqs w q)" by (auto simp: levq_cell_def assms fun_eq_iff)
  show "levq_alloc_ok w' q" using assms(1) unfolding levq_alloc_ok_def u c by (simp add: assms)
qed

text \<open>The flags of a new event are set before it stands in any list.\<close>

lemma levq_inv_new_flags:
  fixes fl :: u32
  assumes inv: "levq_inv w q qs fs rs" and ev: "ev \<notin> set (map fst qs @ fs @ tqv_events qs @ rs)"
    and d: "event_deleted w ev"
  defines "w' \<equiv> ev_upd ev (\<lambda>e. e\<lparr>ev_flags := fl\<rparr>) w"
  shows "levq_inv w' q qs fs rs" and "levq_cell (evqs w' q) = levq_cell (evqs w q)"
proof -
  have i: "evq_inv w q qs ([] @ fs) rs" and ok: "levq_alloc_ok w q" using inv by (auto simp: levq_inv_def)
  have "evq_inv w' q qs fs rs"
    by (rule evq_inv_take [OF i, of ev])
       (use ev d evq_timersD(8) [OF evq_invD(1) [OF i]] in \<open>auto simp: w'_def event_deleted_def\<close>)
  moreover have "levq_alloc_ok w' q" "levq_cell (evqs w' q) = levq_cell (evqs w q)"
    by (rule levq_alloc_ok_cong [OF ok]; simp add: w'_def)+
  ultimately show "levq_inv w' q qs fs rs" "levq_cell (evqs w' q) = levq_cell (evqs w q)"
    using inv by (simp_all add: levq_inv_def)
qed

text \<open>After \<open>levq_reserve\<close> there is a free cell.\<close>

lemma levq_reserve_spec:
  assumes inv: "levq_inv w q qs fs rs" and fresh: "\<And>v. levq_alloc_ok v q \<Longrightarrow> levq_fresh (lv_buf env) q v"
    and nf: "buf_index (evqs w q) < 19" and ev: "ev \<notin> set (map fst qs @ fs @ tqv_events qs @ rs)"
    "\<exists>j i. levq_cell (evqs w q) j i ev"
  shows "\<exists>w' fs'. levq_reserve env q w = (w', None) \<and> evq_inv w' q qs fs' rs \<and> fs' \<noteq> [] \<and>
    ev \<notin> set (map fst qs @ fs' @ tqv_events qs @ rs) \<and> events w' ev = events w ev \<and>
    evq_flags (evqs w' q) = evq_flags (evqs w q) \<and> evq_now (evqs w' q) = evq_now (evqs w q)"
proof (cases fs)
  case (Cons a fs')
  have i: "evq_inv w q qs fs rs" using inv by (simp add: levq_inv_def)
  then have "ev_free (evqs w q) = Some a" using evq_timersD(8) [OF evq_invD(1) [OF i]] Cons by simp
  then show ?thesis using i Cons ev(1)
    by (intro exI [of _ w] exI [of _ fs]) (simp add: levq_reserve_def)
next
  case Nil
  have f: "ev_free (evqs w q) = None"
    using inv Nil evq_timersD(8) [OF evq_invD(1), of w q qs fs rs] by (simp add: levq_inv_def)
  have ok: "levq_alloc_ok w q" using inv by (simp add: levq_inv_def)
  from levq_new_event_inv [OF inv fresh [OF ok]] nf Nil obtain w1 c where
    n: "levq_new_event (lv_buf env) q w = (w1, Inr c)" "levq_inv w1 q qs [] rs" "event_deleted w1 c"
      "events w1 c = event0\<lparr>ev_id := ev_id (events w1 c)\<rparr>" "c \<notin> set (map fst qs @ tqv_events qs @ rs)"
      "\<forall>j i. \<not> levq_cell (evqs w q) j i c" "\<forall>e. e \<noteq> c \<longrightarrow> events w1 e = events w e"
    by (auto simp: levq_full_def)
  have "c \<noteq> ev" using n(6) ev(2) by blast
  let ?w = "evq_upd q (\<lambda>r. r\<lparr>ev_free := Some c\<rparr>) w1"
  have i1: "evq_inv w1 q qs [] rs" using n(2) by (simp add: levq_inv_def)
  have fr: "ev_free (evqs w1 q) = None" using evq_timersD(8) [OF evq_invD(1) [OF i1]] by simp
  have "levq_free_event q c w1 = ?w"
  proof -
    have "(events w1 c)\<lparr>next_ready := None\<rparr> = events w1 c" by (subst (1 2) n(4)) (simp add: event0_def)
    then show ?thesis by (simp add: levq_free_event_def fr ev_upd_def)
  qed
  then have "evq_inv ?w q qs [c] rs"
    using levq_free_event_inv [OF i1, of c] n(3,5) by (simp add: event_deleted_def)
  then show ?thesis using n \<open>c \<noteq> ev\<close> ev(1) Nil f levq_new_event_frame [OF n(1)]
    by (intro exI [of _ ?w] exI [of _ "[c]"]) (simp add: levq_reserve_def)
qed

lemma levq_control_on:
  "\<not> flag_on (evq_flags (evqs w q)) EVQ_FLAG_WAITING \<Longrightarrow>
   levq_control_wait env q True w = Some (evq_upd q (\<lambda>r. r\<lparr>nactives := u32_add (nactives r) 1\<rparr>) w)"
  by (simp add: levq_control_wait_def Let_def)

lemma levq_control_off:
  "\<exists>w'. levq_control_wait env q False w = Some w' \<and> events w' = events w \<and> tqs w' = tqs w \<and>
     evq_tq (evqs w' q) = evq_tq (evqs w q) \<and> ev_free (evqs w' q) = ev_free (evqs w q) \<and>
     tq_map_fn (evqs w' q) = tq_map_fn (evqs w q) \<and> tq_map (evqs w' q) = tq_map (evqs w q)"
  by (simp add: levq_control_wait_def Let_def)

definition timer_args :: "lua_value \<Rightarrow> int option \<Rightarrow> bool \<Rightarrow> lua_value \<Rightarrow> levq_add_args" where
  "timer_args cb timeout one_shot obj = \<lparr>a_obj = obj, a_fd = None, a_num = 0, a_path = None,
     a_flags = EVENT_READ OR EVENT_TIMER, a_evstr = None, a_cb = cb, a_timeout = timeout,
     a_oneshot = one_shot\<rparr>"

lemma timer_flags:
  "flag_on (levq_add_flags (timer_args cb timeout one_shot obj)) EVENT_TIMER"
  "flag_on (levq_add_flags (timer_args (LFunction f) timeout one_shot obj)) EVENT_CALLBACK"
  "\<not> flag_on (a_flags (timer_args cb timeout one_shot obj) OR (if one_shot then EVENT_ONESHOT else 0)) EVENT_DIRWATCH"
  "flag_on (a_flags (timer_args cb timeout one_shot obj) OR (if one_shot then EVENT_ONESHOT else 0))
     (EVENT_TIMER OR EVENT_DIRWATCH OR EVENT_REGWATCH)"
  by (cases cb; cases one_shot; simp add: levq_add_flags_def timer_args_def Let_def flag_on_def event_flag_defs)+

lemma evq_add_timer_spec:
  assumes inv: "evq_inv w q qs fs rs" and ev: "ev \<notin> set (map fst qs @ fs @ tqv_events qs @ rs)"
    "ev_tq (events w ev) = None" and fs: "fs \<noteq> []" and ms: "ms \<noteq> TIMEOUT_INFINITE"
  shows "\<exists>w' qs' fs'. evq_add_timer q ev ms w = Some (w', 0) \<and> evq_timers w' q qs' fs' \<and>
    (\<forall>m. tq_list qs' m = tq_list qs m @ (if m = ms then [ev] else [])) \<and>
    timeout_at (events w' ev) = wrap32 (evq_now (evqs w q) + ms)"
proof -
  let ?w = "ev_upd ev (\<lambda>e. e\<lparr>ev_evq := Some q\<rparr>) w"
  note t = evq_invD(1) [OF inv]
  have t1: "evq_timers ?w q qs fs"
    by (rule evq_timers_frame [OF t]) (use ev evq_timersD(7) [OF t] in \<open>auto simp: image_iff split: if_splits\<close>)
  have c1: "tq_complete ?w q qs" using evq_invD(2) [OF inv] ev(2) by (auto simp: tq_complete_def split: if_splits)
  have "remove1 ev (tq_list qs m) = tq_list qs m" for m
    using ev(1) tq_list_sub [of qs m] by (intro remove1_idem) auto
  with evq_set_timeout_spec [OF t1 _ c1 ms, of ev] fs obtain w1 qs' fs' where
    s: "evq_set_timeout ev ms ?w = Some (w1, 0)" "evq_timers w1 q qs' fs'"
      "\<forall>m. tq_list qs' m = tq_list qs m @ (if m = ms then [ev] else [])"
      "timeout_at (events w1 ev) = wrap32 (evq_now (evqs w q) + ms)"
    by auto
  let ?w' = "evq_upd q (\<lambda>r. r\<lparr>nevents := u32_add (nevents r) 1\<rparr>) w1"
  have "evq_timers ?w' q qs' fs'"
    by (rule evq_timers_frame [OF s(2)]) (use evq_timersD(7) [OF s(2)] in simp_all)
  with s show ?thesis by (intro exI [of _ ?w'] exI [of _ qs'] exI [of _ fs']) (simp add: evq_add_timer_def)
qed

text \<open>The steps of a successful \<open>levq_add\<close> of an event without descriptor.\<close>

lemma levq_add_run:
  assumes "levq_new_event (lv_buf env) q w = (w1, Inr ev)"
    and "\<not> flag_on (a_flags a OR (if a_oneshot a then EVENT_ONESHOT else 0)) EVENT_DIRWATCH"
    and "flag_on (a_flags a OR (if a_oneshot a then EVENT_ONESHOT else 0))
      (EVENT_TIMER OR EVENT_DIRWATCH OR EVENT_REGWATCH)"
    and "levq_reserve env q (ev_upd ev (\<lambda>e. e\<lparr>ev_flags := levq_add_flags a\<rparr>) w1) = (w4, None)"
    and "levq_control_wait env q True w4 = Some w5" and "a_timeout a = Some ms" and "a_path a = None"
    and "levq_register (lv_os env) q ev (levq_add_flags a) [] ms w5 = Some (w6, 0)"
    and "levq_control_wait env q False w6 = Some w7" and "flag_on (levq_add_flags a) EVENT_CALLBACK"
  shows "levq_add env q a w = Some (evq_upd q (\<lambda>r. r\<lparr>evq_udata := (evq_udata r)(ev_id (events w7 ev) := a_obj a)\<rparr>)
     (evq_upd q (\<lambda>r. r\<lparr>evq_callback := (evq_callback r)(ev_id (events w7 ev) := a_cb a)\<rparr>) w7), Inr (Some ev))"
  unfolding levq_add_def Let_def using assms by (simp del: or.assoc)

lemma levq_add_timer_spec:
  assumes inv: "levq_inv w q qs fs rs" and fresh: "\<And>v. levq_alloc_ok v q \<Longrightarrow> levq_fresh (lv_buf env) q v"
    and room: "buf_index (evqs w q) < 18" and idle: "\<not> flag_on (evq_flags (evqs w q)) EVQ_FLAG_WAITING"
    and ms: "ms \<noteq> TIMEOUT_INFINITE"
  shows "\<exists>w' ev qs' fs'. levq_add_timer env q (LFunction f) (Some ms) one_shot obj w = Some (w', Inr (Some ev)) \<and>
    evq_timers w' q qs' fs' \<and> (\<forall>m. tq_list qs' m = tq_list qs m @ (if m = ms then [ev] else [])) \<and>
    timeout_at (events w' ev) = wrap32 (evq_now (evqs w q) + ms) \<and>
    evq_udata (evqs w' q) (ev_id (events w' ev)) = obj \<and>
    evq_callback (evqs w' q) (ev_id (events w' ev)) = LFunction f"
proof -
  define a where "a = timer_args (LFunction f) (Some ms) one_shot obj"
  have ok: "levq_alloc_ok w q" using inv by (simp add: levq_inv_def)
  have nf: "\<not> levq_full w q" using room by (simp add: levq_full_def)
  from levq_new_event_inv [OF inv fresh [OF ok] nf] obtain w1 ev where
    n: "levq_new_event (lv_buf env) q w = (w1, Inr ev)" "levq_inv w1 q qs (drop 1 fs) rs" "event_deleted w1 ev"
      "events w1 ev = event0\<lparr>ev_id := ev_id (events w1 ev)\<rparr>"
      "ev \<notin> set (map fst qs @ drop 1 fs @ tqv_events qs @ rs)" "\<exists>j i. levq_cell (evqs w1 q) j i ev" by blast
  have b1: "buf_index (evqs w1 q) < 19"
    using n(1) room by (auto simp: levq_new_event_def Let_def split: option.splits if_splits)
  define w3 where "w3 = ev_upd ev (\<lambda>e. e\<lparr>ev_flags := levq_add_flags a\<rparr>) w1"
  note i3 = levq_inv_new_flags [OF n(2,5,3), of "levq_add_flags a", folded w3_def]
  have e3: "ev_tq (events w3 ev) = None" "evqs w3 = evqs w1"
  proof -
    have "ev_tq (events w1 ev) = None" by (subst n(4)) (simp add: event0_def)
    then show "ev_tq (events w3 ev) = None" by (simp add: w3_def)
  qed (simp add: w3_def)
  from levq_reserve_spec [OF i3(1) fresh _ n(5)] b1 n(6) e3 i3(2) obtain w4 fs4 where
    r: "levq_reserve env q w3 = (w4, None)" "evq_inv w4 q qs fs4 rs" "fs4 \<noteq> []"
      "ev \<notin> set (map fst qs @ fs4 @ tqv_events qs @ rs)" "events w4 ev = events w3 ev"
      "evq_flags (evqs w4 q) = evq_flags (evqs w3 q)" "evq_now (evqs w4 q) = evq_now (evqs w3 q)" by auto
  have w4: "\<not> flag_on (evq_flags (evqs w4 q)) EVQ_FLAG_WAITING" "evq_now (evqs w4 q) = evq_now (evqs w q)"
    using idle r(6,7) e3(2) levq_new_event_frame [OF n(1)] by simp_all
  let ?h = "\<lambda>r. r\<lparr>nactives := u32_add (nactives r) 1\<rparr>"
  let ?w5 = "evq_upd q ?h w4"
  have i5: "evq_inv ?w5 q qs fs4 rs"
    by (rule evq_inv_frame [OF r(2)]) (use evq_invD(6) [OF r(2)] in simp_all)
  have "ev_tq (events ?w5 ev) = None" "evq_now (evqs ?w5 q) = evq_now (evqs w q)"
    using r(5) e3(1) w4(2) by simp_all
  with evq_add_timer_spec [OF i5 r(4) _ r(3) ms] obtain w6 qs' fs' where
    t: "evq_add_timer q ev ms ?w5 = Some (w6, 0)" "evq_timers w6 q qs' fs'"
      "\<forall>m. tq_list qs' m = tq_list qs m @ (if m = ms then [ev] else [])"
      "timeout_at (events w6 ev) = wrap32 (evq_now (evqs w q) + ms)" by auto
  from levq_control_off [of env q w6] obtain w7 where
    c: "levq_control_wait env q False w6 = Some w7" "events w7 = events w6" "tqs w7 = tqs w6"
      "evq_tq (evqs w7 q) = evq_tq (evqs w6 q)" "ev_free (evqs w7 q) = ev_free (evqs w6 q)"
      "tq_map_fn (evqs w7 q) = tq_map_fn (evqs w6 q)" "tq_map (evqs w7 q) = tq_map (evqs w6 q)" by blast
  define w9 where "w9 = evq_upd q (\<lambda>r. r\<lparr>evq_udata := (evq_udata r)(ev_id (events w7 ev) := obj)\<rparr>)
     (evq_upd q (\<lambda>r. r\<lparr>evq_callback := (evq_callback r)(ev_id (events w7 ev) := LFunction f)\<rparr>) w7)"
  have reg: "levq_register (lv_os env) q ev (levq_add_flags a) [] ms ?w5 = Some (w6, 0)"
    using t(1) timer_flags(1) [of "LFunction f" "Some ms" one_shot obj] by (simp add: levq_register_def a_def)
  have aa: "a_oneshot a = one_shot" "a_timeout a = Some ms" "a_path a = None" "a_obj a = obj" "a_cb a = LFunction f"
    by (simp_all add: a_def timer_args_def)
  note fl = timer_flags(3,4) [of "LFunction f" "Some ms" one_shot obj, folded a_def aa(1)]
    timer_flags(2) [of f "Some ms" one_shot obj, folded a_def]
  have "levq_add env q a w = Some (w9, Inr (Some ev))"
    using levq_add_run [OF n(1) fl(1,2) r(1) [unfolded w3_def] levq_control_on [OF w4(1)] aa(2,3) reg c(1) fl(3)]
    by (simp add: aa w9_def)
  then have "levq_add_timer env q (LFunction f) (Some ms) one_shot obj w = Some (w9, Inr (Some ev))"
    by (simp add: levq_add_timer_def a_def timer_args_def)
  moreover have "evq_timers w9 q qs' fs'"
    by (rule evq_timers_frame [OF t(2)]) (use evq_timersD(7) [OF t(2)] c in \<open>simp_all add: w9_def\<close>)
  moreover have "events w9 = events w6" by (simp add: w9_def c(2))
  moreover have "evq_udata (evqs w9 q) (ev_id (events w9 ev)) = obj"
    "evq_callback (evqs w9 q) (ev_id (events w9 ev)) = LFunction f" by (simp_all add: w9_def)
  ultimately show ?thesis using t(3,4)
    by (intro exI [of _ w9] exI [of _ ev] exI [of _ qs'] exI [of _ fs']) simp
qed

section \<open>Properties\<close>

text \<open>
  \<open>getmaxbit\<close>, with its multiplication and table, is the logarithm to base 2 of
  every non-zero 32-bit number.
\<close>

lemma getmaxbit_log2:
  assumes "v \<noteq> 0"
  shows "2 ^ getmaxbit v \<le> unat v \<and> unat v < 2 ^ Suc (getmaxbit v)"
proof -
  have "1 \<le> unat v" using assms by (metis less_one linorder_not_le unsigned_eq_0_iff)
  then obtain k where k: "2 ^ k \<le> unat v" "unat v < 2 ^ (k + 1)"
    using ex_power_ivl1 [of 2 "unat v"] by auto
  with getmaxbit_eq [of k v] show ?thesis by simp
qed

lemma getmaxbit_log2_witness:
  "2 ^ getmaxbit 0x12345 \<le> (0x12345 :: nat) \<and> (0x12345 :: nat) < 2 ^ Suc (getmaxbit 0x12345)"
  using getmaxbit_log2 [of "0x12345"] by simp

text \<open>An environment in which every call succeeds and the callbacks do nothing.\<close>

definition demo_buf :: "evq_store \<Rightarrow> nat" where
  "demo_buf w = (\<Sum>j<20. case evq_env (evqs w 0) (j + 1) of None \<Rightarrow> 0 | Some base \<Rightarrow> base + 2 ^ (j + 6))"

definition levq_demo_env :: levq_env where
  "levq_demo_env = \<lparr>lv_os = os_demo, lv_buf = demo_buf, lv_switch = (\<lambda>_ w. w), lv_pcall = (\<lambda>_ _ w. (w, False)),
     lv_resume = (\<lambda>_ _ w. (w, CoroYield)), lv_ready = (\<lambda>_ _ _ w. w), lv_added = (\<lambda>_ _ w. w),
     lv_call = (\<lambda>_ w. (w, None)), lv_sync = (\<lambda>_ w. (w, 0)), lv_thread_resume = (\<lambda>_ w. w), lv_suspend = (\<lambda>w. w),
     lv_flags = (\<lambda>_. None), lv_idle = (\<lambda>_ w. (w, 0)), lv_epoll = (\<lambda>_ _ w. (w, EpollReady [])),
     lv_time = (\<lambda>_. 0)\<rparr>"

definition levq_demo :: evq_store where
  "levq_demo = evq_upd 0 (\<lambda>r. r\<lparr>tq_map_fn := True\<rparr>) evq_store0"

lemma demo_buf_fresh:
  assumes ok: "levq_alloc_ok v 0"
  shows "levq_fresh demo_buf 0 v"
  unfolding levq_fresh_def
proof
  fix j
  show "{demo_buf v ..< demo_buf v + 2 ^ (buf_index (evqs v 0) + 6)} \<inter> levq_range (evqs v 0) j = {}"
  proof (cases "evq_env (evqs v 0) (j + 1)")
    case None
    then show ?thesis by (simp add: levq_range_def)
  next
    case (Some base)
    then have "0 < levq_used (evqs v 0) j" using levq_allocD(1) [OF ok, of j] by simp
    then have "j \<in> {..<20}" using levq_allocD(3) [OF ok] by (auto simp: levq_used_def split: if_splits)
    then have "(case evq_env (evqs v 0) (j + 1) of None \<Rightarrow> 0 | Some base \<Rightarrow> base + 2 ^ (j + 6)) \<le> demo_buf v"
      unfolding demo_buf_def by (intro member_le_sum) simp_all
    then show ?thesis using Some by (auto simp: levq_range_def)
  qed
qed

lemma levq_demo_inv: "levq_inv levq_demo 0 [] [] []"
proof -
  have "levq_alloc_ok levq_demo 0"
    by (simp add: levq_alloc_ok_def levq_demo_def zero_defs levq_used_def levq_range_def levq_cell_def)
  moreover have "evq_inv levq_demo 0 [] [] []"
    by (simp add: evq_inv_def evq_timers_def tq_complete_def levq_demo_def zero_defs)
  ultimately show ?thesis by (simp add: levq_inv_def)
qed

text \<open>
  A new event is a cell that no list holds; its number, and the number of every
  other event of the queue, leads \<open>levq_done\<close> back to the event, whatever buffers were
  allocated.
\<close>

lemma levq_event_numbers:
  assumes "levq_inv w q qs fs rs" and "levq_fresh newbuf q w" and "\<not> levq_full w q"
  shows "\<exists>w' ev. levq_new_event newbuf q w = (w', Inr ev) \<and> levq_inv w' q qs (drop 1 fs) rs \<and>
    ev \<notin> set (map fst qs @ drop 1 fs @ tqv_events qs @ rs) \<and>
    levq_event_at (evqs w' q) (ev_id (events w' ev)) = Some ev \<and>
    (\<forall>j i a. levq_cell (evqs w q) j i a \<longrightarrow> levq_event_at (evqs w' q) (ev_id (events w' a)) = Some a)"
proof -
  from levq_new_event_inv [OF assms] obtain w' ev where
    n: "levq_new_event newbuf q w = (w', Inr ev)" "levq_inv w' q qs (drop 1 fs) rs"
      "ev \<notin> set (map fst qs @ drop 1 fs @ tqv_events qs @ rs)" "\<exists>j i. levq_cell (evqs w' q) j i ev"
      "\<forall>j i a. levq_cell (evqs w q) j i a \<longrightarrow> levq_cell (evqs w' q) j i a" by blast
  have "levq_alloc_ok w' q" using n(2) by (simp add: levq_inv_def)
  with n levq_event_at_cell show ?thesis by blast
qed

lemma levq_event_numbers_witness:
  "\<exists>w' ev. levq_new_event demo_buf 0 levq_demo = (w', Inr ev) \<and> levq_event_at (evqs w' 0) (ev_id (events w' ev)) = Some ev"
proof -
  have "levq_alloc_ok levq_demo 0" using levq_demo_inv by (simp add: levq_inv_def)
  moreover have "\<not> levq_full levq_demo 0" by (simp add: levq_full_def levq_demo_def zero_defs)
  ultimately show ?thesis
    using levq_event_numbers [OF levq_demo_inv demo_buf_fresh] by blast
qed

text \<open>
  \<open>levq_add_timer\<close> adds the timer: the new event comes last in the queue of its
  period with the deadline \<open>now + ms\<close>, no other timer moves, and its object and callback
  are stored under its number.
\<close>

lemma levq_add_timer_adds:
  assumes "levq_inv w q qs fs rs" and "\<And>v. levq_alloc_ok v q \<Longrightarrow> levq_fresh (lv_buf env) q v"
    and "buf_index (evqs w q) < 18" and "\<not> flag_on (evq_flags (evqs w q)) EVQ_FLAG_WAITING"
    and "ms \<noteq> TIMEOUT_INFINITE"
  shows "\<exists>w' ev qs' fs'. levq_add_timer env q (LFunction f) (Some ms) one_shot obj w = Some (w', Inr (Some ev)) \<and>
    evq_timers w' q qs' fs' \<and> (\<forall>m. tq_list qs' m = tq_list qs m @ (if m = ms then [ev] else [])) \<and>
    timeout_at (events w' ev) = wrap32 (evq_now (evqs w q) + ms) \<and>
    evq_udata (evqs w' q) (ev_id (events w' ev)) = obj \<and>
    evq_callback (evqs w' q) (ev_id (events w' ev)) = LFunction f"
  by (rule levq_add_timer_spec) (fact assms)+

lemma levq_add_timer_adds_witness:
  "\<exists>w' ev qs' fs'. levq_add_timer levq_demo_env 0 (LFunction 7) (Some 50) False LNil levq_demo
      = Some (w', Inr (Some ev)) \<and> evq_timers w' 0 qs' fs' \<and> tq_list qs' 50 = [ev] \<and>
      timeout_at (events w' ev) = 50"
proof -
  have "\<exists>w' ev qs' fs'. levq_add_timer levq_demo_env 0 (LFunction 7) (Some 50) False LNil levq_demo
      = Some (w', Inr (Some ev)) \<and> evq_timers w' 0 qs' fs' \<and>
    (\<forall>m. tq_list qs' m = tq_list [] m @ (if m = 50 then [ev] else [])) \<and>
    timeout_at (events w' ev) = wrap32 (evq_now (evqs levq_demo 0) + 50) \<and>
    evq_udata (evqs w' 0) (ev_id (events w' ev)) = LNil \<and>
    evq_callback (evqs w' 0) (ev_id (events w' ev)) = LFunction 7"
  proof (rule levq_add_timer_adds [OF levq_demo_inv])
    show "levq_fresh (lv_buf levq_demo_env) 0 v" if "levq_alloc_ok v 0" for v
      using demo_buf_fresh [OF that] by (simp add: levq_demo_env_def)
  qed (simp_all add: levq_demo_def zero_defs TIMEOUT_INFINITE_def)
  then obtain w' ev qs' fs' where
    "levq_add_timer levq_demo_env 0 (LFunction 7) (Some 50) False LNil levq_demo = Some (w', Inr (Some ev))"
    "evq_timers w' 0 qs' fs'" "\<forall>m. tq_list qs' m = tq_list [] m @ (if m = 50 then [ev] else [])"
    "timeout_at (events w' ev) = wrap32 (evq_now (evqs levq_demo 0) + 50)" by blast
  moreover have "evq_now (evqs levq_demo 0) = 0" by (simp add: levq_demo_def zero_defs)
  ultimately show ?thesis
    by (intro exI [of _ w'] exI [of _ ev] exI [of _ qs'] exI [of _ fs']) (simp add: wrap32_def)
qed

text \<open>
  Claim C20: dispatching a ready event takes it off the ready list and keeps the invariant. A
  deleted or one-shot event is freed, with its object forgotten, before its callback runs; any
  other event stays on the queue. The callback that runs is the one stored for the event, and it
  is told the object and the kind of event.
\<close>

theorem levq_dispatch_event:
  assumes "evq_inv w q qs fs (ev # rs)" and "sig_ok w q" and "ready_ok w q (ev # rs)"
  shows "let fl = ev_flags (events w ev);
      gone = (event_deleted w ev \<or> flag_on fl EVENT_ONESHOT);
      call = \<lparr>c_event = (if flag_on fl EVENT_CALLBACK_SCHED then None
         else Some (ev, evq_udata (evqs w q) (ev_id (events w ev)))),
       c_res = event_letter fl, c_extra = event_extra fl\<rparr>
    in \<exists>w' qs' fs'. levq_dispatch env q ev w =
      (if flag_on fl EVENT_DELETE then Some (w', 0)
       else levq_run env q ev fl (evq_callback (evqs w q) (ev_id (events w ev))) call w') \<and>
    evq_inv w' q qs' fs' rs \<and> sig_ok w' q \<and> ev_ready (evqs w' q) = hdp rs None \<and> \<not> ev_active w' ev \<and>
    (gone \<longrightarrow> event_deleted w' ev \<and> ev_free (evqs w' q) = Some ev \<and>
      evq_udata (evqs w' q) (ev_id (events w ev)) = LNil) \<and>
    (\<not> gone \<longrightarrow> ev_evq (events w' ev) = Some q \<and> qs' = qs \<and> fs' = fs)"
  unfolding Let_def using levq_dispatch_spec [OF assms, of env] by blast

text \<open>Two ready events: a one-shot event and one that stays.\<close>

definition ready_demo :: evq_store where
  "ready_demo = evq_store0\<lparr>
     events := (\<lambda>_. event0)(
       3 := event0\<lparr>ev_flags := 0x90005, ev_evq := Some 0, ev_id := 3, next_ready := Some 4\<rparr>,
       4 := event0\<lparr>ev_flags := 0x90001, ev_evq := Some 0, ev_id := 4\<rparr>),
     evqs := (\<lambda>_. event_queue0)(0 := event_queue0\<lparr>tq_map_fn := True, ev_ready := Some 3, nevents := 2,
       evq_udata := (\<lambda>_. LNil)(3 := LUserdata 30), evq_callback := (\<lambda>_. LNil)(3 := LFunction 1, 4 := LFunction 2)\<rparr>)\<rparr>"

lemma ready_demo_good:
  "evq_inv ready_demo 0 [] [] [3, 4]" "sig_ok ready_demo 0" "ready_ok ready_demo 0 [3, 4]"
  "ev_ready (evqs ready_demo 0) = Some 3" "ev_flags (events ready_demo 3) = 0x90005"
  "ev_evq (events ready_demo 3) = Some 0"
proof -
  show "evq_inv ready_demo 0 [] [] [3, 4]"
    by (simp add: evq_inv_def evq_timers_def tq_complete_def ready_demo_def zero_defs flag_on_def EVENT_ACTIVE_def)
  have "sig_list ready_demo i []" for i by (simp add: sig_list_def ready_demo_def zero_defs)
  moreover have "\<not> flag_on (ev_flags (events ready_demo e)) EVENT_SIGNAL" for e
    by (simp add: ready_demo_def zero_defs flag_on_def EVENT_SIGNAL_def)
  ultimately show "sig_ok ready_demo 0" unfolding sig_ok_def sig_event_ok_def by blast
  show "ready_ok ready_demo 0 [3, 4]"
    by (simp add: ready_ok_def ready_demo_def zero_defs flag_on_def EVENT_DELETE_def)
qed (simp_all add: ready_demo_def zero_defs)

theorem levq_dispatch_event_witness:
  "\<exists>w' r. levq_dispatch levq_demo_env 0 3 ready_demo = levq_run levq_demo_env 0 3 0x90005 r
      \<lparr>c_event = Some (3, LUserdata 30), c_res = ''e'', c_extra = ExtraNil\<rparr> w' \<and>
     event_deleted w' 3 \<and> ev_ready (evqs w' 0) = Some 4 \<and> ev_free (evqs w' 0) = Some 3"
proof -
  have "\<not> flag_on (0x90005 :: u32) EVENT_DELETE" "\<not> flag_on (0x90005 :: u32) EVENT_CALLBACK_SCHED"
    "flag_on (0x90005 :: u32) EVENT_ONESHOT" "event_letter 0x90005 = ''e''" "event_extra 0x90005 = ExtraNil"
    by (simp_all add: flag_on_def event_flag_defs event_letter_def event_extra_def)
  moreover have "evq_udata (evqs ready_demo 0) (ev_id (events ready_demo 3)) = LUserdata 30"
    by (simp add: ready_demo_def zero_defs)
  ultimately show ?thesis
    using levq_dispatch_event [OF ready_demo_good(1-3), of levq_demo_env]
    by (auto simp: Let_def ready_demo_good)
qed

text \<open>
  Claim C9: the loop over the ready events ends and does what \<open>dispatch_list\<close> prescribes for
  the ready list it starts with: every event of the list is dispatched, once and in order, until
  the list is empty or a callback fails; the failure ends the loop at once with the code
  \<open>SYS_ERR_THROW\<close>, and exactly the events behind the failing one stay in the ready list, for
  the next round. This holds for callbacks that keep the invariant of the queue and neither add
  to nor take from its ready list (\<open>callbacks_ok\<close>).
\<close>

theorem levq_ready_loop_dispatches:
  assumes "callbacks_ok env q" and "loop_good w q (ev # rs)"
  shows "\<exists>w' res rs'. dispatch_list env q (ev # rs) w = Some (rs', w', res) \<and>
    levq_ready_loop env q ev w = Some (w', res) \<and> loop_good w' q rs' \<and>
    (res = 0 \<and> rs' = [] \<or> res = SYS_ERR_THROW)"
  by (rule levq_ready_loop_spec) (fact assms)+

lemma levq_demo_callbacks: "callbacks_ok levq_demo_env q"
  by (simp add: callbacks_ok_def keeps_def levq_demo_env_def)

theorem levq_ready_loop_dispatches_witness:
  "\<exists>w' res rs'. levq_ready_loop levq_demo_env 0 3 ready_demo = Some (w', res) \<and>
     dispatch_list levq_demo_env 0 [3, 4] ready_demo = Some (rs', w', res)"
proof -
  have "loop_good ready_demo 0 [3, 4]"
    using ready_demo_good by (auto simp: loop_good_def evq_good_def)
  from levq_ready_loop_dispatches [OF levq_demo_callbacks this] show ?thesis by blast
qed

text \<open>
  Claim C33: deleting an event from its own callback frees it twice. The cell of a one-shot
  event is freed before the callback runs, and its flags no longer say that it is active or
  deleted; \<open>levq_del\<close> then frees the cell again and the free list of the queue becomes a
  cycle: the same cell is handed out for ever.
\<close>

theorem levq_del_frees_twice:
  assumes "event_deleted w ev" and "ev_free (evqs w q) = Some ev"
    and "\<not> flag_on (ev_flags (events w ev)) (EVENT_ACTIVE OR EVENT_DELETE)"
    and "\<not> flag_on (evq_flags (evqs w q)) EVQ_FLAG_WAITING"
  shows "\<exists>w'. levq_del env q ev reuse_fd w = Some (w', True) \<and>
    ev_free (evqs w' q) = Some ev \<and> next_ready (events w' ev) = Some ev"
proof -
  let ?w1 = "evq_upd q (\<lambda>r. r\<lparr>nactives := u32_add (nactives r) 1\<rparr>) w"
  from levq_control_off [of env q ?w1] obtain w3 where
    w3: "levq_control_wait env q False ?w1 = Some w3" "events w3 = events w" "ev_free (evqs w3 q) = Some ev"
    using assms(2) by auto
  have "event_deleted ?w1 ev" using assms(1) by (simp add: event_deleted_def)
  then have "levq_del env q ev reuse_fd w = Some (ev_upd ev (\<lambda>e. e\<lparr>ev_flags := set_flag (ev_flags e) EVENT_DELETE\<rparr>)
      (levq_del_event q ev w3), True)"
    using w3 assms(3) levq_control_on [OF assms(4), of env] by (simp add: levq_del_def)
  then show ?thesis using w3(3) by simp
qed

text \<open>The state in which the callback of a one-shot event runs.\<close>

definition oneshot_demo :: evq_store where
  "oneshot_demo = fst (the (levq_dispatch levq_demo_env 0 3 ready_demo))"

theorem levq_del_frees_twice_witness:
  "\<exists>w'. levq_del levq_demo_env 0 3 False oneshot_demo = Some (w', True) \<and>
     ev_free (evqs w' 0) = Some 3 \<and> next_ready (events w' 3) = Some 3"
proof -
  have d: "levq_dispatch levq_demo_env 0 3 ready_demo = Some (oneshot_demo, 0) \<and>
     event_deleted oneshot_demo 3 \<and> ev_free (evqs oneshot_demo 0) = Some 3 \<and>
     \<not> flag_on (ev_flags (events oneshot_demo 3)) (EVENT_ACTIVE OR EVENT_DELETE) \<and>
     \<not> flag_on (evq_flags (evqs oneshot_demo 0)) EVQ_FLAG_WAITING"
    unfolding oneshot_demo_def
    by (simp add: levq_dispatch_def Let_def ready_demo_def zero_defs flag_on_def event_flag_defs event_deleted_def
        evq_del_def levq_demo_env_def levq_del_event_def levq_free_event_def levq_run_def clr_flag_def
        ep_upd_def EVQ_FLAG_WAITING_def event_letter_def event_extra_def)
  then show ?thesis using levq_del_frees_twice [of oneshot_demo 3 0 levq_demo_env False] by blast
qed

text \<open>
  An error of a synchronous call is lost. The status of \<open>lua_pcall\<close> is kept in a
  signed bit field of one bit: of the error codes only the odd ones survive, and a run-time
  error (2) or a memory error (4) is stored as 0, so that the waiting thread returns the error
  message as a result instead of raising it.
\<close>

lemma levq_sync_error_lost:
  assumes "\<not> is_sched_add (ops w op)" and "op_L (ops w op) = Some L" and "op_next (ops w op) = None"
    and "lv_sync env L w = (w1, st)" and "ops w1 = ops w" and "\<And>v. ops (lv_thread_resume env t v) = ops v"
    and "op_td (ops w op) = t"
  shows "\<exists>w'. levq_sync_process env q op w = Some w' \<and> (op_status (ops w' op) \<noteq> 0 \<longleftrightarrow> odd st)"
  using assms by (subst levq_sync_process.simps) (simp add: bitfield1_def)

lemma levq_sync_error_lost_witness:
  "\<exists>w'. levq_sync_process (levq_demo_env\<lparr>lv_sync := (\<lambda>_ w. (w, 2))\<rparr>) 0 5
     (op_upd 5 (\<lambda>r. r\<lparr>op_L := Some 9\<rparr>) evq_store0) = Some w' \<and> op_status (ops w' 5) = 0"
  using levq_sync_error_lost [of "op_upd 5 (\<lambda>r. r\<lparr>op_L := Some 9\<rparr>) evq_store0" 5 9
      "levq_demo_env\<lparr>lv_sync := (\<lambda>_ w. (w, 2))\<rparr>" "op_upd 5 (\<lambda>r. r\<lparr>op_L := Some 9\<rparr>) evq_store0" 2 0 0]
  by (simp add: evq_store0_def evq_sync_op0_def levq_demo_env_def)

text \<open>
  \<open>levq_stop\<close> with a false argument does not clear the stop flag, it sets every
  other flag: the queue then looks as if a thread waited in it.
\<close>

lemma levq_stop_false_waiting:
  "evq_flags (evqs (levq_stop env q False w) q) = NOT EVQ_FLAG_STOP \<and>
   flag_on (evq_flags (evqs (levq_stop env q False w) q)) EVQ_FLAG_WAITING"
  by (simp add: levq_stop_def Let_def evq_signal_def evq_interrupt_def flag_on_def EVQ_FLAG_STOP_def
      EVQ_FLAG_WAITING_def)

text \<open>Flags below the status byte, and the word with the status byte as a signed number.\<close>

lemma uint_bounded: "take_bit 24 fl = fl \<Longrightarrow> 0 \<le> uint fl \<and> uint fl < 2 ^ 24"
  by (metis take_bit_int_less_exp take_bit_nonnegative unsigned_take_bit_eq)

lemma sint_status:
  assumes c: "c < 256" and fl: "take_bit 24 fl = (fl :: u32)"
  shows "sint (fl OR push_bit 24 (word_of_nat c)) =
    uint fl + (if c < 128 then int c else int c - 256) * 2 ^ 24"
proof -
  let ?f = "fl OR push_bit 24 (word_of_nat c) :: u32"
  have "?f = fl + push_bit 24 (word_of_nat c)"
  proof (rule disjunctive_add_eq_or [symmetric])
    have "take_bit 24 fl AND push_bit 24 (word_of_nat c) = 0" by (rule bit_word_eqI) (simp add: bit_simps)
    then show "fl AND push_bit 24 (word_of_nat c) = 0" by (simp add: fl)
  qed
  also have "\<dots> = word_of_int (uint fl + int c * 2 ^ 24)" by (simp add: push_bit_eq_mult)
  finally have "uint ?f = (uint fl + int c * 2 ^ 24) mod 2 ^ 32"
    by (simp only: uint_word_of_int) simp
  also have "\<dots> = uint fl + int c * 2 ^ 24"
    by (rule mod_pos_pos_trivial) (use uint_bounded [OF fl] c in auto)
  finally have u: "uint ?f = uint fl + int c * 2 ^ 24" .
  have "sint ?f = uint ?f - 2 ^ 32 * of_bool (bit (uint ?f) 31)"
  proof -
    have "take_bit 32 (uint x) = uint x" for x :: u32
      using uint_lt2p [of x] by (intro take_bit_int_eq_self) simp_all
    then show ?thesis by (simp add: sint_uint signed_take_bit_eq_take_bit_minus)
  qed
  moreover have "bit (uint ?f) 31 \<longleftrightarrow> 128 \<le> c"
  proof -
    have "uint ?f div 2 ^ 31 = (if c < 128 then 0 else 1)"
    proof (cases "c < 128")
      case True
      then have "uint ?f < 2 ^ 31" using u uint_bounded [OF fl] by auto
      then show ?thesis using True by (simp add: div_pos_pos_trivial)
    next
      case False
      then have "128 \<le> int c" "int c < 256" using c by simp_all
      then have "2 ^ 31 \<le> uint ?f" "uint ?f < 2 * 2 ^ 31"
        unfolding u using uint_bounded [OF fl] by (simp_all, linarith+)
      then have "uint ?f div 2 ^ 31 = 1" by (intro int_div_pos_eq [of _ _ _ "uint ?f - 2 ^ 31"]) simp_all
      then show ?thesis using False by simp
    qed
    then show ?thesis by (simp add: bit_iff_odd)
  qed
  ultimately show ?thesis using u by (cases "c < 128") (simp_all add: algebra_simps)
qed

text \<open>
  The exit status of a child that a callback receives is the status byte read as a
  signed number: statuses from 128 on arrive as negative numbers, 255 like a killed child.
\<close>

lemma levq_pid_status:
  assumes "c < 256" and "take_bit 24 fl = fl" and "flag_on fl EVENT_PID" and "\<not> flag_on fl EVENT_EOF_RES"
  shows "event_extra (fl OR push_bit EVENT_STATUS_SHIFT (word_of_nat c)) =
    ExtraStatus (if c < 128 then int c else int c - 256)"
proof -
  let ?f = "fl OR push_bit 24 (word_of_nat c) :: u32"
  have "flag_on ?f EVENT_PID" "\<not> flag_on ?f EVENT_EOF_RES"
    using assms(3,4) flag_on_status [of EVENT_PID fl] flag_on_status [of EVENT_EOF_RES fl]
    by (simp_all add: take_bit_eq_mod event_flag_defs)
  moreover have "sint ?f div 2 ^ 24 = (if c < 128 then int c else int c - 256)"
    by (subst sint_status [OF assms(1,2)]) (use uint_bounded [OF assms(2)] in auto)
  ultimately show ?thesis by (simp add: event_extra_def EVENT_STATUS_SHIFT_def)
qed

lemma levq_pid_status_witness:
  "event_extra (EVENT_PID OR push_bit EVENT_STATUS_SHIFT (word_of_nat 200)) = ExtraStatus (- 56)"
  using levq_pid_status [of 200 EVENT_PID] by (simp add: EVENT_PID_def EVENT_EOF_RES_def flag_on_def take_bit_eq_mod)

end
