(* ===== verification/Sched.thy ===== *)
theory Sched
  imports Sched_List Levq
begin

text \<open>
  The scheduler of coroutines, src/src/thread/thread_sched.c: the table of tasks with its
  lists of active and free tasks, the loop of a worker thread, the methods that put, suspend,
  resume and terminate tasks, and the tasks that wait for an event of an event queue (theory
  \<open>Levq\<close>, whose store is a part of the state). The Lua interpreter (running a coroutine,
  calling the controller), memory allocation and what other threads do while the VM lock is
  released are the functions of a record \<open>sched_env\<close>.
\<close>

section \<open>State\<close>

definition SCHED_BUF_MIN :: int where "SCHED_BUF_MIN = 32"
definition SCHED_WORKER_TIMEOUT :: int where "SCHED_WORKER_TIMEOUT = 3000"

record sched_context =
  cx_co :: ptr
  cx_task_id :: int

text \<open>
  The fields of \<open>struct scheduler\<close>; \<open>cond_signals\<close> counts the signals of its condition and
  \<open>has_buffer\<close> says that the buffer is not NULL. The rest is what the operations reach from
  it: the table of the coroutines of the tasks (\<open>SCHED_CORO_ENV\<close>), the event queue object
  (\<open>SCHED_CORO_EVQ\<close>), the stacks and debug hooks of coroutines, the contexts of the running
  loops by address, the context of each thread and the store of the event queues.
\<close>

record scheduler =
  s_evq :: ptr
  active_task_id :: int
  free_task_id :: int
  ntasks :: nat
  tick :: nat
  s_ctx :: ptr
  buffer :: task_buffer
  has_buffer :: bool
  buf_idx :: int
  buf_max :: int
  s_stop :: bool
  cb_coctl :: bool
  evq_waiting :: bool
  worker_timeout :: int
  min_workers :: nat
  max_workers :: nat
  nworkers :: nat
  nwaiters :: nat
  cond_signals :: nat
  coro_env :: "int \<Rightarrow> nat option"
  coro_evq :: lua_value
  stacks :: "nat \<Rightarrow> lua_value list"
  hooks :: "nat \<Rightarrow> bool"
  ctxs :: "nat \<Rightarrow> sched_context"
  td_ctx :: "nat \<Rightarrow> ptr"
  evq_st :: evq_store

text \<open>
  \<open>sv_realloc\<close>, \<open>sv_newthread\<close> and \<open>sv_checkstack\<close> say whether an allocation succeeds;
  \<open>sv_coctl_new\<close> and \<open>sv_coctl\<close> call the coroutines controller (without arguments for a new
  coroutine, or with a finished coroutine and an error), \<open>sv_resume\<close> is \<open>lua_resume\<close>. In the
  loop of a worker \<open>sv_evq_loop k\<close>, \<open>sv_wait k\<close> and \<open>sv_flags k\<close> are the event loop,
  the condition wait and the thread's flags of the \<open>k\<close>-th round (the event loop gives its
  code, or nothing when an error is raised out of it); \<open>sv_thread_run\<close> starts a
  worker and waits until it runs, \<open>sv_sleep\<close> is a sleep of the preempting thread.
  \<open>sv_num\<close>/\<open>sv_int\<close> convert integers and Lua numbers, \<open>sv_args\<close> decodes the arguments of a
  method of an event queue and \<open>sv_func\<close> is its C function. \<open>sv_levq\<close> are the parameters of
  the event queue; its \<open>lv_added\<close> leaves the store of events alone, since
  \<open>sys_sched_event_added\<close> below is what it runs.
\<close>

record sched_env =
  sv_levq :: levq_env
  sv_realloc :: "scheduler \<Rightarrow> int \<Rightarrow> bool"
  sv_newthread :: "scheduler \<Rightarrow> nat option"
  sv_checkstack :: "nat \<Rightarrow> nat \<Rightarrow> bool"
  sv_coctl_new :: "scheduler \<Rightarrow> scheduler \<times> lua_value option"
  sv_coctl :: "nat \<Rightarrow> lua_value option \<Rightarrow> scheduler \<Rightarrow> scheduler \<times> bool"
  sv_resume :: "nat \<Rightarrow> int \<Rightarrow> scheduler \<Rightarrow> scheduler \<times> nat"
  sv_evq_loop :: "nat \<Rightarrow> scheduler \<Rightarrow> scheduler \<times> int option"
  sv_wait :: "nat \<Rightarrow> int \<Rightarrow> scheduler \<Rightarrow> scheduler \<times> int"
  sv_flags :: "nat \<Rightarrow> nat"
  sv_thread_run :: "scheduler \<Rightarrow> scheduler"
  sv_sleep :: "nat \<Rightarrow> scheduler \<Rightarrow> scheduler"
  sv_num :: "int \<Rightarrow> 64 word"
  sv_int :: "64 word \<Rightarrow> int"
  sv_args :: "evq_sched_type \<Rightarrow> lua_value list \<Rightarrow> sched_add_args"
  sv_func :: "evq_sched_type \<Rightarrow> nat"

definition sched_is_empty :: "scheduler \<Rightarrow> bool" where
  "sched_is_empty s \<longleftrightarrow> ntasks s = 0"

definition sched_check_task_id :: "scheduler \<Rightarrow> int \<Rightarrow> bool" where
  "sched_check_task_id s i \<longleftrightarrow> 0 \<le> i \<and> i < buf_idx s"

text \<open>An update of one task, and the list macros on the two lists of a scheduler.\<close>

definition set_task :: "int \<Rightarrow> (sched_task \<Rightarrow> sched_task) \<Rightarrow> scheduler \<Rightarrow> scheduler" where
  "set_task i f s = s\<lparr>buffer := task_upd i f (buffer s)\<rparr>"

definition active_add :: "int \<Rightarrow> scheduler \<Rightarrow> scheduler" where
  "active_add i s = (case sched_tasklist_add i (active_task_id s) (buffer s) of (b, h) \<Rightarrow>
     s\<lparr>buffer := b, active_task_id := h\<rparr>)"

definition active_del :: "int \<Rightarrow> scheduler \<Rightarrow> scheduler" where
  "active_del i s = (case sched_tasklist_del i (active_task_id s) (buffer s) of (b, h) \<Rightarrow>
     s\<lparr>buffer := b, active_task_id := h\<rparr>)"

definition free_add :: "int \<Rightarrow> scheduler \<Rightarrow> scheduler" where
  "free_add i s = (case sched_tasklist_add i (free_task_id s) (buffer s) of (b, h) \<Rightarrow>
     s\<lparr>buffer := b, free_task_id := h\<rparr>)"

definition free_del :: "int \<Rightarrow> scheduler \<Rightarrow> scheduler" where
  "free_del i s = (case sched_tasklist_del i (free_task_id s) (buffer s) of (b, h) \<Rightarrow>
     s\<lparr>buffer := b, free_task_id := h\<rparr>)"

definition set_stack :: "nat \<Rightarrow> lua_value list \<Rightarrow> scheduler \<Rightarrow> scheduler" where
  "set_stack co st s = s\<lparr>stacks := (stacks s)(co := st)\<rparr>"

definition cond_signal :: "scheduler \<Rightarrow> scheduler" where
  "cond_signal s = s\<lparr>cond_signals := Suc (cond_signals s)\<rparr>"

section \<open>Allocation of tasks\<close>

definition sched_task_alloc :: "sched_env \<Rightarrow> scheduler \<Rightarrow> (scheduler \<times> int) option" where
  "sched_task_alloc env s =
     (if free_task_id s \<noteq> -1 then Some (free_del (free_task_id s) s, free_task_id s)
      else do {
        s1 \<leftarrow> (if buf_idx s = buf_max s then
                 (let newlen = (if buf_max s \<noteq> 0 then wrap32 (buf_max s * 2) else SCHED_BUF_MIN)
                  in if sv_realloc env s newlen then Some (s\<lparr>has_buffer := True, buf_max := newlen\<rparr>)
                     else None)
               else Some s);
        Some (s1\<lparr>buf_idx := buf_idx s1 + 1\<rparr>, buf_idx s1)
      })"

text \<open>The second component says that the controller raised an error.\<close>

definition sched_task_del :: "sched_env \<Rightarrow> int \<Rightarrow> bool \<Rightarrow> scheduler \<Rightarrow> scheduler \<times> bool" where
  "sched_task_del env i err s =
     (let co = t_co (buffer s i);
          s1 = (free_add i s)\<lparr>ntasks := u32_sub (ntasks s) 1\<rparr>;
          msg = (if err then Some (last (stacks s co)) else None);
          s2 = (if cb_coctl s then set_stack co [] s1 else s1);
          s3 = s2\<lparr>coro_env := (coro_env s2)(i := None)\<rparr>
      in if cb_coctl s then sv_coctl env co msg s3 else (s3, False))"

section \<open>Creating and closing a scheduler\<close>

text \<open>
  \<open>sched_new\<close> on the surrounding state \<open>s0\<close>. \<open>None\<close>: no coroutine could be made, nothing is
  returned; \<open>Some (Inl _)\<close>: the critical section or condition could not be made.
\<close>

definition sched_new :: "bool \<Rightarrow> bool \<Rightarrow> bool \<Rightarrow> int \<Rightarrow> int option \<Rightarrow> int option \<Rightarrow> scheduler \<Rightarrow>
    (scheduler + scheduler) option" where
  "sched_new newthread sync_ok is_function minw maxw wtimeout s0 =
     (if \<not> newthread then None
      else (let s = s0\<lparr>
              s_evq := None, active_task_id := -1, free_task_id := -1, ntasks := 0, tick := 0,
              s_ctx := None, has_buffer := False, buf_idx := 0, buf_max := 0,
              s_stop := False, cb_coctl := is_function, evq_waiting := False,
              worker_timeout := (case wtimeout of Some t \<Rightarrow> t | None \<Rightarrow> SCHED_WORKER_TIMEOUT),
              min_workers := nat (minw mod 65536),
              max_workers := nat ((case maxw of Some m \<Rightarrow> m | None \<Rightarrow> minw) mod 65536),
              nworkers := 0, nwaiters := 0, cond_signals := 0,
              coro_env := (\<lambda>_. None), coro_evq := LNil\<rparr>
            in Some (if sync_ok then Inr s else Inl s)))"

definition sched_close :: "scheduler \<Rightarrow> scheduler" where
  "sched_close s = (if has_buffer s then s\<lparr>has_buffer := False\<rparr> else s)"

definition sched_event_queue :: "nat option \<Rightarrow> scheduler \<Rightarrow> scheduler \<times> (lua_error + lua_value)" where
  "sched_event_queue arg s =
     (case arg of
        Some q \<Rightarrow>
          if \<not> sched_is_empty s then (s, Inl (ArgError 2 ''Scheduler must be empty''))
          else (s\<lparr>s_evq := Some q, coro_evq := LUserdata q\<rparr>, Inr (LUserdata q))
      | None \<Rightarrow> (s, Inr (if s_evq s \<noteq> None then coro_evq s else LNil)))"

section \<open>The loop of a worker\<close>

text \<open>\<open>sched_vm_switch\<close>, called when a thread with a context enters or leaves the VM.\<close>

definition sched_vm_switch :: "nat \<Rightarrow> bool \<Rightarrow> scheduler \<Rightarrow> scheduler" where
  "sched_vm_switch cx enter_vm s = s\<lparr>s_ctx := (if enter_vm then Some cx else None)\<rparr>"

text \<open>Whether the thread runs this scheduler.\<close>

definition sched_self :: "nat \<Rightarrow> scheduler \<Rightarrow> bool" where
  "sched_self td s \<longleftrightarrow> td_ctx s td \<noteq> None"

definition LUA_YIELD :: nat where "LUA_YIELD = 1"

text \<open>\<open>Throw\<close>: an error is raised inside the loop, which is left without its epilogue.\<close>

datatype round_result = Again | Finish int | Throw

definition set_ctx :: "nat \<Rightarrow> (sched_context \<Rightarrow> sched_context) \<Rightarrow> scheduler \<Rightarrow> scheduler" where
  "set_ctx cx f s = s\<lparr>ctxs := (ctxs s)(cx := f (ctxs s cx))\<rparr>"

text \<open>The branch of the loop for an empty list of active tasks.\<close>

definition sched_idle :: "sched_env \<Rightarrow> nat \<Rightarrow> int \<Rightarrow> nat \<Rightarrow> scheduler \<Rightarrow> scheduler \<times> round_result" where
  "sched_idle env td timeout k s =
     (if int (nwaiters s) = int (nworkers s) - 1 \<and> s_evq s \<noteq> None \<and> \<not> evq_waiting s then
        (case sv_evq_loop env k (s\<lparr>evq_waiting := True\<rparr>) of
           (s1, None) \<Rightarrow> (s1, Throw)
         | (s1, Some err) \<Rightarrow> (s1\<lparr>evq_waiting := False\<rparr>, if err = 0 then Again else Finish err))
      else
        (case sv_wait env k timeout (s\<lparr>nwaiters := (nwaiters s + 1) mod 65536\<rparr>) of (s1, res) \<Rightarrow>
           let s2 = s1\<lparr>nwaiters := (nwaiters s1 + 65535) mod 65536\<rparr>
           in case sys_thread_check (sv_flags env k) of
                (_, Continue) \<Rightarrow>
                  (s2, if res \<noteq> 0 then Finish (if res = 1 then SYS_ERR_TIMEOUT else SYS_ERR_SYSTEM)
                       else Again)
              | (_, ThreadExit) \<Rightarrow> (s2\<lparr>td_ctx := (td_ctx s2)(td := None)\<rparr>, Throw)
              | (_, InterruptError) \<Rightarrow> (s2, Throw)))"

text \<open>The coroutine of a task is called: the context of the worker names it, the number of
  arguments leaves out the function of a coroutine that was not started yet.\<close>

definition sched_call_narg :: "int \<Rightarrow> scheduler \<Rightarrow> int" where
  "sched_call_narg i s =
     int (length (stacks s (t_co (buffer s i)))) - (if t_started (buffer s i) then 0 else 1)"

definition sched_call_enter :: "nat \<Rightarrow> int \<Rightarrow> scheduler \<Rightarrow> scheduler" where
  "sched_call_enter cx i s =
     (let s1 = set_task i (\<lambda>t. t\<lparr>t_started := True\<rparr>) s
      in (set_ctx cx (\<lambda>c. c\<lparr>cx_task_id := i, cx_co := Some (t_co (buffer s i))\<rparr>) s1)
           \<lparr>tick := u32_add (tick s1) 1\<rparr>)"

definition sched_call_leave :: "nat \<Rightarrow> scheduler \<Rightarrow> scheduler" where
  "sched_call_leave cx s = set_ctx cx (\<lambda>c. c\<lparr>cx_co := None\<rparr>) s"

definition sched_call :: "sched_env \<Rightarrow> nat \<Rightarrow> int \<Rightarrow> scheduler \<Rightarrow> scheduler \<times> nat" where
  "sched_call env cx i s =
     (case sv_resume env (t_co (buffer s i)) (sched_call_narg i s) (sched_call_enter cx i s) of
        (s1, res) \<Rightarrow> (sched_call_leave cx s1, res))"

text \<open>The task after its coroutine has yielded, ended or failed with the code \<open>res\<close>.\<close>

definition sched_after :: "sched_env \<Rightarrow> bool \<Rightarrow> int \<Rightarrow> scheduler \<times> nat \<Rightarrow> scheduler \<times> round_result" where
  "sched_after env once i r =
     (case r of (s, res) \<Rightarrow>
        if res = LUA_YIELD \<and> \<not> t_terminate (buffer s i) then
          (if t_suspended (buffer s i) then s else active_add i s, if once then Finish 0 else Again)
        else
          (let failed = (res \<noteq> 0 \<and> res \<noteq> LUA_YIELD)
           in case sched_task_del env i failed s of (s1, raised) \<Rightarrow>
                (s1, if raised then Throw else if failed then Finish SYS_ERR_THROW
                     else if once then Finish 0 else Again)))"

definition sched_round :: "sched_env \<Rightarrow> nat \<Rightarrow> nat \<Rightarrow> int \<Rightarrow> bool \<Rightarrow> bool \<Rightarrow> nat \<Rightarrow> scheduler \<Rightarrow>
    scheduler \<times> round_result" where
  "sched_round env td cx timeout not_linger once k s =
     (let i = active_task_id s in
      if s_stop s then (cond_signal s, Finish 0)
      else if i = -1 then (if not_linger then (s, Finish 0) else sched_idle env td timeout k s)
      else
        (let s1 = active_del i s in
         if t_terminate (buffer s1 i) then
           (case sched_task_del env i False s1 of (s2, raised) \<Rightarrow> (s2, if raised then Throw else Again))
         else sched_after env once i (sched_call env cx i s1)))"

text \<open>The rounds up to the label \<open>end\<close>; a loop that does not end is \<open>None\<close>.\<close>

partial_function (option) sched_rounds ::
  "(nat \<Rightarrow> scheduler \<Rightarrow> scheduler \<times> round_result) \<Rightarrow> nat \<Rightarrow> scheduler \<Rightarrow> (scheduler \<times> int option) option" where
  "sched_rounds round k s =
     (case round k s of
        (s1, Again) \<Rightarrow> sched_rounds round (Suc k) s1
      | (s1, Finish err) \<Rightarrow> Some (s1, Some err)
      | (s1, Throw) \<Rightarrow> Some (s1, None))"

text \<open>What \<open>sched_loop\<close> returns or raises; \<open>SchedUnwound\<close> is an error from within the loop.\<close>

datatype sched_ret = SchedUdata | SchedTimedOut | SchedSysError | SchedRaise | SchedUnwound

definition sched_enter :: "nat \<Rightarrow> nat \<Rightarrow> scheduler \<Rightarrow> scheduler" where
  "sched_enter td cx s =
     (set_ctx cx (\<lambda>c. c\<lparr>cx_co := None\<rparr>) (s\<lparr>nworkers := (nworkers s + 1) mod 65536\<rparr>))
       \<lparr>td_ctx := (td_ctx s)(td := Some cx), s_ctx := Some cx\<rparr>"

definition sched_leave :: "nat \<Rightarrow> scheduler \<Rightarrow> scheduler" where
  "sched_leave td s =
     (let s1 = s\<lparr>s_ctx := None, td_ctx := (td_ctx s)(td := None), nworkers := (nworkers s + 65535) mod 65536\<rparr>
      in if \<not> s_stop s1 \<and> \<not> evq_waiting s1 \<and> s_evq s1 \<noteq> None \<and> nwaiters s1 = nworkers s1
         then cond_signal s1 else s1)"

definition sched_ret_of :: "int \<Rightarrow> sched_ret" where
  "sched_ret_of err =
     (if err = SYS_ERR_TIMEOUT then SchedTimedOut
      else if err = SYS_ERR_SYSTEM then SchedSysError
      else if err = SYS_ERR_THROW then SchedRaise else SchedUdata)"

definition sched_loop :: "sched_env \<Rightarrow> nat option \<Rightarrow> nat \<Rightarrow> int option \<Rightarrow> bool \<Rightarrow> bool \<Rightarrow> scheduler \<Rightarrow>
    (scheduler \<times> (lua_error + sched_ret)) option" where
  "sched_loop env td cx timeout not_linger once s =
     (case td of
        None \<Rightarrow> Some (s, Inl (ArgError 0 ''Threading not initialized''))
      | Some t \<Rightarrow> do {
          (s1, err) \<leftarrow> sched_rounds
             (sched_round env t cx (case timeout of None \<Rightarrow> TIMEOUT_INFINITE | Some ms \<Rightarrow> ms) not_linger once)
             0 (sched_enter t cx s);
          Some (case err of
                  None \<Rightarrow> (s1, Inr SchedUnwound)
                | Some e \<Rightarrow> (sched_leave t s1, Inr (sched_ret_of e)))
        })"

definition sched_stop :: "bool option \<Rightarrow> scheduler \<Rightarrow> scheduler" where
  "sched_stop arg s = cond_signal (s\<lparr>s_stop := (case arg of None \<Rightarrow> True | Some b \<Rightarrow> b)\<rparr>)"

text \<open>A new worker: it has a timeout when it is the first one above the minimum.\<close>

definition sched_thread_start :: "sched_env \<Rightarrow> nat \<Rightarrow> nat \<Rightarrow> scheduler \<Rightarrow>
    (scheduler \<times> (lua_error + sched_ret)) option" where
  "sched_thread_start env td cx s =
     sched_loop env (Some td) cx
       (if nworkers s = min_workers s then Some (worker_timeout s) else None) False False s"

section \<open>Methods\<close>

text \<open>The coroutine of a new task: given, made by the controller, or a fresh one.\<close>

definition sched_put_co :: "sched_env \<Rightarrow> lua_value \<Rightarrow> scheduler \<Rightarrow> scheduler \<times> (lua_error + nat option)" where
  "sched_put_co env arg s =
     (case arg of
        LThread co \<Rightarrow> (s, Inr (Some co))
      | _ \<Rightarrow>
          if cb_coctl s then
            (case sv_coctl_new env s of
               (s1, None) \<Rightarrow> (s1, Inl Raised)
             | (s1, Some (LThread co)) \<Rightarrow> (s1, Inr (Some co))
             | (s1, Some _) \<Rightarrow> (s1, Inr (sv_newthread env s1)))
          else (s, Inr (sv_newthread env s)))"

definition task0 :: sched_task where
  "task0 = \<lparr>t_co = 0, prev_id = 0, next_id = 0, t_ev_op = None, t_started = False,
     t_suspended = False, t_ev_added = False, t_terminate = False\<rparr>"

text \<open>Notify a waiting worker, or start a new one.\<close>

definition sched_notify :: "sched_env \<Rightarrow> bool \<Rightarrow> scheduler \<Rightarrow> scheduler" where
  "sched_notify env is_empty s =
     (if is_empty then
        if nwaiters s \<noteq> 0 then cond_signal s
        else if nworkers s < max_workers s then sv_thread_run env s else s
      else s)"

text \<open>
  \<open>sched_put\<close>: the stack holds the function or coroutine and the arguments; the result is the
  number of the task, or nothing when memory is short.
\<close>

definition sched_put :: "sched_env \<Rightarrow> lua_value \<Rightarrow> lua_value list \<Rightarrow> scheduler \<Rightarrow>
    scheduler \<times> (lua_error + int option)" where
  "sched_put env arg args s =
     (let moved = (case arg of LThread _ \<Rightarrow> args | _ \<Rightarrow> arg # args)
      in case sched_put_co env arg s of
           (s1, Inl err) \<Rightarrow> (s1, Inl err)
         | (s1, Inr None) \<Rightarrow> (s1, Inr None)
         | (s1, Inr (Some co)) \<Rightarrow>
             if \<not> sv_checkstack env co (length moved) then (s1, Inl Raised)
             else (case sched_task_alloc env s1 of
                 None \<Rightarrow> (s1, Inr None)
               | Some (s2, i) \<Rightarrow>
                   (let s3 = set_task i (\<lambda>_. task0\<lparr>t_co := co\<rparr>) s2;
                        s4 = s3\<lparr>coro_env := (coro_env s3)(i := Some co)\<rparr>;
                        s5 = set_stack co (stacks s4 co @ moved) s4;
                        is_empty = (active_task_id s5 = -1);
                        s6 = (active_add i s5)\<lparr>ntasks := u32_add (ntasks s5) 1\<rparr>
                    in (sched_notify env is_empty s6, Inr (Some i)))))"

definition sched_running :: "nat \<Rightarrow> scheduler \<Rightarrow> int option" where
  "sched_running L s =
     (case s_ctx s of
        Some cx \<Rightarrow> if cx_co (ctxs s cx) = Some L then Some (cx_task_id (ctxs s cx)) else None
      | None \<Rightarrow> None)"

text \<open>\<open>sched_terminate\<close>; the event queue is the third value on the stack of a waiting task.\<close>

definition sched_terminate_ev :: "sched_env \<Rightarrow> int \<Rightarrow> scheduler \<Rightarrow> (scheduler \<times> (lua_error + unit))" where
  "sched_terminate_ev env i s =
     (let t = buffer s i; co = t_co t; st = lua_settop 3 (stacks s co)
      in case t_ev_op t of
           None \<Rightarrow> (s, Inr ())
         | Some op \<Rightarrow>
             (case st ! 2 of
                LUserdata q \<Rightarrow>
                  (set_stack co []
                     (set_task i (\<lambda>t. t\<lparr>t_ev_op := None, t_ev_added := False\<rparr>)
                       (s\<lparr>evq_st := sys_evq_sched_del (sv_levq env) q op (t_ev_added t) (evq_st s)\<rparr>)),
                   Inr ())
              | _ \<Rightarrow> (set_stack co st s, Inl (ArgError 3 ''userdata expected''))))"

definition sched_terminate :: "sched_env \<Rightarrow> int \<Rightarrow> scheduler \<Rightarrow> scheduler \<times> (lua_error + unit)" where
  "sched_terminate env i s =
     (if sched_check_task_id s i then
        (let s1 = set_task i (\<lambda>t. t\<lparr>t_terminate := True\<rparr>) s;
             s2 = (if t_suspended (buffer s1 i)
                   then active_add i (set_task i (\<lambda>t. t\<lparr>t_suspended := False\<rparr>) s1) else s1)
         in sched_terminate_ev env i s2)
      else (s, Inr ()))"

text \<open>\<open>sched_suspend\<close> in the coroutine \<open>L\<close>; \<open>Inr ()\<close>: the coroutine yields without values.\<close>

definition sched_suspend :: "nat \<Rightarrow> scheduler \<Rightarrow> scheduler \<times> (lua_error + unit)" where
  "sched_suspend L s =
     (case s_ctx s of
        None \<Rightarrow> (s, Inl (ArgError 2 ''Running coroutine expected''))
      | Some cx \<Rightarrow>
          (let i = cx_task_id (ctxs s cx); t = buffer s i
           in if t_ev_op t \<noteq> None \<or> t_co t \<noteq> L then (s, Inl (ArgError 2 ''Running coroutine expected''))
              else (set_stack L [] (set_task i (\<lambda>t. t\<lparr>t_suspended := True\<rparr>) s), Inr ())))"

definition sched_resume :: "int \<Rightarrow> lua_value list \<Rightarrow> scheduler \<Rightarrow> scheduler \<times> (lua_error + unit)" where
  "sched_resume i args s =
     (if \<not> sched_check_task_id s i \<or> \<not> t_suspended (buffer s i) \<or> t_ev_op (buffer s i) \<noteq> None
      then (s, Inl (ArgError 2 ''Suspended coroutine expected''))
      else
        (let s1 = set_task i (\<lambda>t. t\<lparr>t_suspended := False\<rparr>) (active_add i s)
         in (if args \<noteq> [] then set_stack (t_co (buffer s1 i)) args s1 else s1, Inr ())))"

section \<open>Waiting for an event\<close>

text \<open>The task number on the stack of a waiting coroutine.\<close>

definition stack_task :: "sched_env \<Rightarrow> nat \<Rightarrow> scheduler \<Rightarrow> int" where
  "stack_task env co s =
     (case stacks s co of _ # LNumber x # _ \<Rightarrow> sv_int env x | _ \<Rightarrow> 0)"

definition sys_sched_event_ready :: "sched_env \<Rightarrow> nat \<Rightarrow> ptr \<Rightarrow> scheduler \<Rightarrow> scheduler" where
  "sys_sched_event_ready env co ev s =
     (let i = stack_task env co s in
      if t_ev_op (buffer s i) \<noteq> ev then s
      else
        (let s1 = set_task i (\<lambda>t. t\<lparr>t_ev_op := None, t_ev_added := False, t_suspended := False\<rparr>) s;
             s2 = (if active_task_id s1 = -1 \<and> nwaiters s1 \<noteq> 0 then cond_signal s1 else s1);
             s3 = active_add i s2
         in set_stack co (lua_remove 1 (lua_remove 1 (lua_remove 1 (stacks s3 co)))) s3))"

definition sys_sched_event_added :: "sched_env \<Rightarrow> nat \<Rightarrow> ptr \<Rightarrow> scheduler \<Rightarrow> scheduler" where
  "sys_sched_event_added env co ev s =
     (let i = stack_task env co s;
          s1 = set_task i (\<lambda>t. t\<lparr>t_ev_op := ev, t_ev_added := True\<rparr>) s
      in if ev = None \<and> t_suspended (buffer s1 i) then sys_sched_event_ready env co None s1 else s1)"

text \<open>The end of \<open>sched_event_add\<close>, after the event queue took the request: the number of
  values the coroutine yields with.\<close>

definition sched_event_wait :: "nat \<Rightarrow> int \<Rightarrow> scheduler \<Rightarrow> scheduler \<times> nat" where
  "sched_event_wait L i s =
     (let s1 = set_task i (\<lambda>t. t\<lparr>t_suspended := True\<rparr>) s;
          t = buffer s1 i; st = stacks s1 L
      in if \<not> t_ev_added t then
           (set_stack L (butlast st) (set_task i (\<lambda>t. t\<lparr>t_ev_op := lua_touserdata (last st)\<rparr>) s1),
            length st - 1)
         else if t_ev_op t = None then
           (set_task i (\<lambda>t. t\<lparr>t_ev_added := False, t_suspended := False\<rparr>) s1, 2)
         else (s1, length st))"

text \<open>The stack of the request: the event queue is copied in front of its arguments and the
  number of the task goes to the second place.\<close>

definition wait_stack :: "sched_env \<Rightarrow> int \<Rightarrow> lua_value list \<Rightarrow> lua_value list" where
  "wait_stack env i st = lua_insert 2 (lua_insert 3 (st @ [st ! 1]) @ [LNumber (sv_num env i)])"

text \<open>What follows the call of \<open>sys_evq_sched_add\<close>, by its outcome.\<close>

definition sched_event_result :: "sched_env \<Rightarrow> nat \<Rightarrow> evq_sched_type \<Rightarrow> lua_value \<Rightarrow> int \<Rightarrow> lua_value list \<Rightarrow>
    scheduler \<Rightarrow> lua_error + sched_added \<Rightarrow> scheduler \<times> (lua_error + nat)" where
  "sched_event_result env L type msg i st s r =
     (case r of
        Inl err \<Rightarrow> (set_stack L st s, Inl err)
      | Inr SchedFailed \<Rightarrow> (set_stack L (take 3 st @ [LNil, msg]) s, Inr 2)
      | Inr (SchedAdded ev) \<Rightarrow>
          (let r = sched_event_wait L i (sys_sched_event_added env L (Some ev) (set_stack L (take 3 st) s))
           in (fst r, Inr (snd r)))
      | Inr (SchedPosted op) \<Rightarrow>
          (let r = sched_event_wait L i
               (set_stack L (take 3 st @ LFunction (sv_func env type) # drop 3 st @ [LLight op]) s)
           in (fst r, Inr (snd r))))"

definition sched_event_add :: "sched_env \<Rightarrow> nat \<Rightarrow> evq_sched_type \<Rightarrow> lua_value \<Rightarrow> scheduler \<Rightarrow>
    (scheduler \<times> (lua_error + nat)) option" where
  "sched_event_add env L type msg s =
     (case s_ctx s of
        None \<Rightarrow> Some (s, Inl (ArgError 0 ''Scheduler coroutine expected''))
      | Some cx \<Rightarrow>
          if cx_co (ctxs s cx) \<noteq> Some L then Some (s, Inl (ArgError 0 ''Scheduler coroutine expected''))
          else
            (let i = cx_task_id (ctxs s cx);
                 st = wait_stack env i (stacks s L)
             in case st ! 3 of
                  LUserdata q \<Rightarrow> do {
                    (w, r) \<leftarrow> sys_evq_sched_add (sv_levq env) L q type (sv_args env type (drop 3 st)) 4 (evq_st s);
                    Some (sched_event_result env L type msg i st (s\<lparr>evq_st := w\<rparr>) r)
                  }
                | _ \<Rightarrow> Some (set_stack L st s, Inl (ArgError 4 ''userdata expected''))))"

text \<open>
  \<open>sched_wait_obj\<close>: the coroutine becomes the callback, and yields with the values counted by
  \<open>sched_event_add\<close>, which stay on its stack. \<open>msg\<close> is the error message of a failed request.
\<close>

definition sched_wait_obj :: "sched_env \<Rightarrow> nat \<Rightarrow> evq_sched_type \<Rightarrow> nat \<Rightarrow> nat \<Rightarrow> nat \<Rightarrow> lua_value \<Rightarrow>
    scheduler \<Rightarrow> (scheduler \<times> (lua_error + unit)) option" where
  "sched_wait_obj env L type cb_idx oneshot_idx narg msg s =
     (let st = lua_insert cb_idx (lua_settop narg (stacks s L) @ [LThread L]);
          st' = st @ [LBool True];
          st'' = (if oneshot_idx \<le> narg + 1 then lua_insert oneshot_idx st' else st')
      in do {
        (s1, r) \<leftarrow> sched_event_add env L type msg (set_stack L st'' s);
        Some (case r of
                Inl err \<Rightarrow> (s1, Inl err)
              | Inr n \<Rightarrow> (set_stack L (drop (length (stacks s1 L) - n) (stacks s1 L)) s1, Inr ()))
      })"

definition sched_wait_event where
  "sched_wait_event env L = sched_wait_obj env L EVQ_SCHED_OBJ 5 7 5"

definition sched_wait_timer where
  "sched_wait_timer env L = sched_wait_obj env L EVQ_SCHED_TIMER 3 5 3"

definition sched_wait_pid where
  "sched_wait_pid env L = sched_wait_obj env L EVQ_SCHED_PID 4 6 4"

definition sched_wait_dirwatch where
  "sched_wait_dirwatch env L = sched_wait_obj env L EVQ_SCHED_DIRWATCH 4 6 5"

definition sched_wait_signal where
  "sched_wait_signal env L = sched_wait_obj env L EVQ_SCHED_SIGNAL 4 6 4"

definition sched_wait_socket where
  "sched_wait_socket env L = sched_wait_obj env L EVQ_SCHED_SOCKET 5 7 5"

section \<open>Preemption\<close>

text \<open>The hook clears itself; its coroutine then yields.\<close>

definition sched_preempt_tasks_hook :: "nat \<Rightarrow> scheduler \<Rightarrow> scheduler" where
  "sched_preempt_tasks_hook co s = s\<lparr>hooks := (hooks s)(co := False)\<rparr>"

text \<open>One time slice: a task that still runs since the last slice gets the hook.\<close>

definition sched_preempt_slice :: "nat \<Rightarrow> scheduler \<Rightarrow> scheduler" where
  "sched_preempt_slice old_tick s =
     (if tick s = old_tick \<and> active_task_id s \<noteq> -1 then
        (case s_ctx s of
           None \<Rightarrow> s
         | Some cx \<Rightarrow>
             (case cx_co (ctxs s cx) of
                None \<Rightarrow> s
              | Some co \<Rightarrow> if hooks s co then s else s\<lparr>hooks := (hooks s)(co := True)\<rparr>))
      else s)"

partial_function (option) sched_preempt_loop :: "sched_env \<Rightarrow> nat \<Rightarrow> nat \<Rightarrow> scheduler \<Rightarrow> scheduler option" where
  "sched_preempt_loop env k old_tick s =
     (if s_stop s then Some s
      else (let s1 = sv_sleep env k s
            in sched_preempt_loop env (Suc k) (tick s1) (sched_preempt_slice old_tick s1)))"

definition sched_preempt_tasks :: "sched_env \<Rightarrow> nat \<Rightarrow> scheduler \<Rightarrow> scheduler option" where
  "sched_preempt_tasks env td s =
     (let vm = (\<lambda>enter s. case td_ctx s td of None \<Rightarrow> s | Some cx \<Rightarrow> sched_vm_switch cx enter s)
      in do {
        s1 \<leftarrow> sched_preempt_loop env 0 0 (vm False s);
        Some (vm True s1)
      })"

definition sched_size :: "scheduler \<Rightarrow> nat" where
  "sched_size s = ntasks s"

section \<open>The invariant of the task table\<close>

text \<open>
  \<open>act\<close> and \<open>fre\<close> are the tasks of the two lists and \<open>run\<close> the tasks that workers run. A task
  in a list or running does not count as suspended or waiting; every other task below
  \<open>buf_idx\<close> is suspended, so that it can be resumed. The table of coroutines holds the coroutine
  of every task that is not free, and \<open>ntasks\<close> counts these tasks.
\<close>

definition sched_inv :: "scheduler \<Rightarrow> int list \<Rightarrow> int list \<Rightarrow> int set \<Rightarrow> bool" where
  "sched_inv s act fre run \<longleftrightarrow>
     task_list (buffer s) (active_task_id s) act \<and> task_list (buffer s) (free_task_id s) fre \<and>
     set act \<inter> set fre = {} \<and> run \<inter> (set act \<union> set fre) = {} \<and>
     set act \<union> set fre \<union> run \<subseteq> {0..<buf_idx s} \<and>
     0 \<le> buf_idx s \<and> buf_idx s \<le> buf_max s \<and> in_int32 (buf_max s) \<and>
     (\<forall>i\<in>set act \<union> set fre \<union> run. \<not> t_suspended (buffer s i) \<and> t_ev_op (buffer s i) = None) \<and>
     (\<forall>i\<in>{0..<buf_idx s} - (set act \<union> set fre \<union> run). t_suspended (buffer s i)) \<and>
     (\<forall>i\<in>{0..<buf_idx s} - set fre. coro_env s i = Some (t_co (buffer s i))) \<and>
     int (ntasks s) + int (length fre) = buf_idx s"

text \<open>The fields the invariant speaks of.\<close>

definition sched_frame :: "scheduler \<Rightarrow> scheduler \<Rightarrow> bool" where
  "sched_frame s s' \<longleftrightarrow>
     buffer s' = buffer s \<and> active_task_id s' = active_task_id s \<and> free_task_id s' = free_task_id s \<and>
     buf_idx s' = buf_idx s \<and> buf_max s' = buf_max s \<and> coro_env s' = coro_env s \<and> ntasks s' = ntasks s"

lemma sched_inv_frame: "sched_frame s s' \<Longrightarrow> sched_inv s' act fre run = sched_inv s act fre run"
  by (simp add: sched_inv_def sched_frame_def)

lemma sched_frame_simps [simp]:
  "sched_frame s s" "sched_frame s (cond_signal s)" "sched_frame s (set_stack co st s)"
  "sched_frame s (set_ctx cx f s)" "sched_frame s (sched_call_leave cx s)"
  "sched_frame s (s\<lparr>evq_st := w\<rparr>)"
  by (simp_all add: sched_frame_def cond_signal_def set_stack_def set_ctx_def sched_call_leave_def)

lemma sched_frame_trans: "sched_frame s s1 \<Longrightarrow> sched_frame s1 s2 \<Longrightarrow> sched_frame s s2"
  by (simp add: sched_frame_def)

section \<open>The lists under the operations\<close>

text \<open>The fields the list operations leave alone.\<close>

lemma list_op_fields [simp]:
  "free_task_id (active_add i s) = free_task_id s" "free_task_id (active_del i s) = free_task_id s"
  "active_task_id (free_add i s) = active_task_id s" "active_task_id (free_del i s) = active_task_id s"
  by (simp_all add: active_add_def active_del_def free_add_def free_del_def split: prod.split)

lemma list_op_rest [simp]:
  "buf_idx (active_add i s) = buf_idx s" "buf_max (active_add i s) = buf_max s"
  "coro_env (active_add i s) = coro_env s" "ntasks (active_add i s) = ntasks s"
  "stacks (active_add i s) = stacks s" "nwaiters (active_add i s) = nwaiters s"
  "buf_idx (active_del i s) = buf_idx s" "buf_max (active_del i s) = buf_max s"
  "coro_env (active_del i s) = coro_env s" "ntasks (active_del i s) = ntasks s"
  "stacks (active_del i s) = stacks s" "cb_coctl (active_del i s) = cb_coctl s"
  "buf_idx (free_add i s) = buf_idx s" "buf_max (free_add i s) = buf_max s"
  "coro_env (free_add i s) = coro_env s" "ntasks (free_add i s) = ntasks s"
  "stacks (free_add i s) = stacks s" "cb_coctl (free_add i s) = cb_coctl s"
  "buf_idx (free_del i s) = buf_idx s" "buf_max (free_del i s) = buf_max s"
  "coro_env (free_del i s) = coro_env s" "ntasks (free_del i s) = ntasks s"
  "stacks (free_del i s) = stacks s"
  by (simp_all add: active_add_def active_del_def free_add_def free_del_def split: prod.split)

lemma set_task_fields [simp]:
  "active_task_id (set_task i f s) = active_task_id s" "free_task_id (set_task i f s) = free_task_id s"
  "buf_idx (set_task i f s) = buf_idx s" "buf_max (set_task i f s) = buf_max s"
  "coro_env (set_task i f s) = coro_env s" "ntasks (set_task i f s) = ntasks s"
  "stacks (set_task i f s) = stacks s" "nwaiters (set_task i f s) = nwaiters s"
  "cb_coctl (set_task i f s) = cb_coctl s"
  "buffer (set_task i f s) = (buffer s)(i := f (buffer s i))"
  by (simp_all add: set_task_def task_upd_def)

text \<open>Two lists without a common task, under the operations on one of them.\<close>

definition two_lists :: "task_buffer \<Rightarrow> int \<Rightarrow> int list \<Rightarrow> int \<Rightarrow> int list \<Rightarrow> bool" where
  "two_lists b h xs h' ys \<longleftrightarrow> task_list b h xs \<and> task_list b h' ys \<and> set xs \<inter> set ys = {}"

lemma two_lists_add:
  assumes "two_lists b h xs h' ys" and "x \<notin> set xs \<union> set ys" and "0 \<le> x"
  shows "two_lists (fst (sched_tasklist_add x h b)) (snd (sched_tasklist_add x h b)) (xs @ [x]) h' ys"
proof -
  have l: "task_list b h xs" "task_list b h' ys" "set xs \<inter> set ys = {}"
    using assms(1) by (simp_all add: two_lists_def)
  have o: "fst (sched_tasklist_add x h b) y = b y" if "y \<in> set ys" for y
    by (rule sched_tasklist_add_other [OF l(1)]) (use l(3) assms(2) that in auto)
  have "task_list (fst (sched_tasklist_add x h b)) h' ys = task_list b h' ys"
    by (rule task_list_cong) (simp add: o)
  moreover have "set (xs @ [x]) \<inter> set ys = {}" using l(3) assms(2) by auto
  ultimately show ?thesis
    using task_list_add [OF l(1) _ assms(3)] assms(2) l(2) by (simp add: two_lists_def)
qed

lemma two_lists_del:
  assumes "two_lists b h (xs @ x # zs) h' ys"
  shows "two_lists (fst (sched_tasklist_del x h b)) (snd (sched_tasklist_del x h b)) (xs @ zs) h' ys"
proof -
  have l: "task_list b h (xs @ x # zs)" "task_list b h' ys" "set (xs @ x # zs) \<inter> set ys = {}"
    using assms(1) by (simp_all only: two_lists_def)
  have o: "fst (sched_tasklist_del x h b) y = b y" if "y \<in> set ys" for y
    by (rule sched_tasklist_del_other [OF l(1)]) (use l(3) that in auto)
  have "task_list (fst (sched_tasklist_del x h b)) h' ys = task_list b h' ys"
    by (rule task_list_cong) (simp add: o)
  moreover have "set (xs @ zs) \<inter> set ys = {}" using l(3) by auto
  ultimately show ?thesis
    using task_list_del [OF l(1)] l(2) by (simp add: two_lists_def)
qed

lemma two_lists_sym: "two_lists b h xs h' ys = two_lists b h' ys h xs"
  by (auto simp: two_lists_def)

lemma two_lists_upd:
  assumes "next_id t = next_id (b i)" and "prev_id t = prev_id (b i)"
  shows "two_lists (b(i := t)) h xs h' ys = two_lists b h xs h' ys"
  using assms task_list_cong [of xs "b(i := t)" b h] task_list_cong [of ys "b(i := t)" b h']
  by (simp add: two_lists_def)

lemma two_lists_upd_other:
  assumes "i \<notin> set xs \<union> set ys"
  shows "two_lists (b(i := t)) h xs h' ys = two_lists b h xs h' ys"
proof -
  have "task_list (b(i := t)) h xs = task_list b h xs" "task_list (b(i := t)) h' ys = task_list b h' ys"
    using assms by (auto intro!: task_list_cong)
  then show ?thesis by (simp add: two_lists_def)
qed

text \<open>The lists of a scheduler, and the flags of its tasks.\<close>

definition sched_lists :: "scheduler \<Rightarrow> int list \<Rightarrow> int list \<Rightarrow> bool" where
  "sched_lists s act fre \<longleftrightarrow> two_lists (buffer s) (active_task_id s) act (free_task_id s) fre"

lemma sched_lists_active_add:
  "sched_lists s act fre \<Longrightarrow> i \<notin> set act \<union> set fre \<Longrightarrow> 0 \<le> i \<Longrightarrow> sched_lists (active_add i s) (act @ [i]) fre"
  using two_lists_add [of "buffer s" "active_task_id s" act "free_task_id s" fre i]
  by (simp add: sched_lists_def active_add_def split_beta)

lemma sched_lists_free_add:
  assumes "sched_lists s act fre" and "i \<notin> set act \<union> set fre" and "0 \<le> i"
  shows "sched_lists (free_add i s) act (fre @ [i])"
proof -
  have "two_lists (buffer s) (free_task_id s) fre (active_task_id s) act"
    using assms(1) by (simp add: sched_lists_def two_lists_sym [of _ _ act])
  from two_lists_add [OF this, of i] assms(2,3) show ?thesis
    by (simp add: sched_lists_def free_add_def split_beta two_lists_sym [of _ _ act])
qed

lemma sched_lists_active_del:
  "sched_lists s (i # act) fre \<Longrightarrow> sched_lists (active_del i s) act fre"
  using two_lists_del [of "buffer s" "active_task_id s" "[]" i act "free_task_id s" fre]
  by (simp add: sched_lists_def active_del_def split_beta)

lemma sched_lists_free_del:
  assumes "sched_lists s act (i # fre)"
  shows "sched_lists (free_del i s) act fre"
proof -
  have "two_lists (buffer s) (free_task_id s) (i # fre) (active_task_id s) act"
    using assms by (simp add: sched_lists_def two_lists_sym [of _ _ act])
  from two_lists_del [of _ _ "[]", simplified, OF this] show ?thesis
    by (simp add: sched_lists_def free_del_def split_beta two_lists_sym [of _ _ act])
qed

lemma list_op_same:
  "same_task (buffer s j) (buffer (active_add i s) j)" "same_task (buffer s j) (buffer (active_del i s) j)"
  "same_task (buffer s j) (buffer (free_add i s) j)" "same_task (buffer s j) (buffer (free_del i s) j)"
  using sched_tasklist_add_same [of "buffer s" j i] sched_tasklist_del_same [of "buffer s" j i]
  by (simp_all add: active_add_def active_del_def free_add_def free_del_def split_beta)

lemmas list_op_flags [simp] = list_op_same [THEN same_taskD(1)] list_op_same [THEN same_taskD(2)]
  list_op_same [THEN same_taskD(3)] list_op_same [THEN same_taskD(4)] list_op_same [THEN same_taskD(5)]
  list_op_same [THEN same_taskD(6)]

lemma sched_inv_alt:
  "sched_inv s act fre run \<longleftrightarrow>
     sched_lists s act fre \<and> run \<inter> (set act \<union> set fre) = {} \<and>
     set act \<union> set fre \<union> run \<subseteq> {0..<buf_idx s} \<and>
     0 \<le> buf_idx s \<and> buf_idx s \<le> buf_max s \<and> in_int32 (buf_max s) \<and>
     (\<forall>i\<in>set act \<union> set fre \<union> run. \<not> t_suspended (buffer s i) \<and> t_ev_op (buffer s i) = None) \<and>
     (\<forall>i\<in>{0..<buf_idx s} - (set act \<union> set fre \<union> run). t_suspended (buffer s i)) \<and>
     (\<forall>i\<in>{0..<buf_idx s} - set fre. coro_env s i = Some (t_co (buffer s i))) \<and>
     int (ntasks s) + int (length fre) = buf_idx s"
  by (auto simp: sched_inv_def sched_lists_def two_lists_def)

text \<open>The moves of a task: it becomes active, is taken by a worker, is freed, is suspended.\<close>

lemma sched_invI:
  assumes "sched_lists s act fre" "run \<inter> (set act \<union> set fre) = {}"
    "set act \<union> set fre \<union> run \<subseteq> {0..<buf_idx s}"
    "0 \<le> buf_idx s" "buf_idx s \<le> buf_max s" "in_int32 (buf_max s)"
    "\<And>i. i \<in> set act \<union> set fre \<union> run \<Longrightarrow> \<not> t_suspended (buffer s i) \<and> t_ev_op (buffer s i) = None"
    "\<And>i. i \<in> {0..<buf_idx s} \<Longrightarrow> i \<notin> set act \<union> set fre \<union> run \<Longrightarrow> t_suspended (buffer s i)"
    "\<And>i. i \<in> {0..<buf_idx s} \<Longrightarrow> i \<notin> set fre \<Longrightarrow> coro_env s i = Some (t_co (buffer s i))"
    "int (ntasks s) + int (length fre) = buf_idx s"
  shows "sched_inv s act fre run"
  unfolding sched_inv_alt using assms by blast

lemma sched_invD:
  assumes "sched_inv s act fre run"
  shows "sched_lists s act fre" "run \<inter> (set act \<union> set fre) = {}"
    "set act \<union> set fre \<union> run \<subseteq> {0..<buf_idx s}"
    "0 \<le> buf_idx s" "buf_idx s \<le> buf_max s" "in_int32 (buf_max s)"
    "\<And>i. i \<in> set act \<union> set fre \<union> run \<Longrightarrow> \<not> t_suspended (buffer s i) \<and> t_ev_op (buffer s i) = None"
    "\<And>i. i \<in> {0..<buf_idx s} \<Longrightarrow> i \<notin> set act \<union> set fre \<union> run \<Longrightarrow> t_suspended (buffer s i)"
    "\<And>i. i \<in> {0..<buf_idx s} \<Longrightarrow> i \<notin> set fre \<Longrightarrow> coro_env s i = Some (t_co (buffer s i))"
    "int (ntasks s) + int (length fre) = buf_idx s"
  using assms unfolding sched_inv_alt by blast+

lemma sched_listsD:
  assumes "sched_lists s act fre"
  shows "distinct act" "distinct fre" "set act \<inter> set fre = {}"
    "active_task_id s = list_head act" "free_task_id s = list_head fre"
  using assms by (auto simp: sched_lists_def two_lists_def task_list_def)

lemma sched_inv_activate:
  assumes inv: "sched_inv s act fre run" and i: "i \<in> {0..<buf_idx s}" "i \<notin> set act \<union> set fre"
    and ti: "\<not> t_suspended (buffer s' i) \<and> t_ev_op (buffer s' i) = None"
    and co: "\<And>j. t_co (buffer s' j) = t_co (buffer s j)"
    and fl: "\<And>j. j \<noteq> i \<Longrightarrow> t_suspended (buffer s' j) = t_suspended (buffer s j) \<and> t_ev_op (buffer s' j) = t_ev_op (buffer s j)"
    and li: "sched_lists s' (act @ [i]) fre"
    and f: "buf_idx s' = buf_idx s" "buf_max s' = buf_max s" "coro_env s' = coro_env s" "ntasks s' = ntasks s"
  shows "sched_inv s' (act @ [i]) fre (run - {i})"
proof (rule sched_invI [OF li])
  note D = sched_invD [OF inv]
  show "(run - {i}) \<inter> (set (act @ [i]) \<union> set fre) = {}" using D(2) by auto
  show "set (act @ [i]) \<union> set fre \<union> (run - {i}) \<subseteq> {0..<buf_idx s'}" using D(3) i(1) f(1) by auto
  show "\<not> t_suspended (buffer s' j) \<and> t_ev_op (buffer s' j) = None"
    if "j \<in> set (act @ [i]) \<union> set fre \<union> (run - {i})" for j
    using that D(7) [of j] ti fl [of j] by (cases "j = i") auto
  show "t_suspended (buffer s' j)"
    if "j \<in> {0..<buf_idx s'}" "j \<notin> set (act @ [i]) \<union> set fre \<union> (run - {i})" for j
    using that D(8) [of j] fl [of j] f(1) by auto
  show "coro_env s' j = Some (t_co (buffer s' j))" if "j \<in> {0..<buf_idx s'}" "j \<notin> set fre" for j
    using D(9) [of j] that by (simp add: co f)
qed (use sched_invD [OF inv] f in simp_all)

lemma sched_inv_take:
  assumes inv: "sched_inv s (i # act) fre run"
  shows "sched_inv (active_del i s) act fre (insert i run)"
proof (rule sched_invI)
  note D = sched_invD [OF inv]
  show "sched_lists (active_del i s) act fre" by (rule sched_lists_active_del [OF D(1)])
  show "insert i run \<inter> (set act \<union> set fre) = {}" using D(2) sched_listsD [OF D(1)] by auto
  show "set act \<union> set fre \<union> insert i run \<subseteq> {0..<buf_idx (active_del i s)}" using D(3) by auto
  show "\<not> t_suspended (buffer (active_del i s) j) \<and> t_ev_op (buffer (active_del i s) j) = None"
    if "j \<in> set act \<union> set fre \<union> insert i run" for j using that D(7) [of j] by auto
  show "t_suspended (buffer (active_del i s) j)"
    if "j \<in> {0..<buf_idx (active_del i s)}" "j \<notin> set act \<union> set fre \<union> insert i run" for j
    using that D(8) [of j] by simp
  show "coro_env (active_del i s) j = Some (t_co (buffer (active_del i s) j))"
    if "j \<in> {0..<buf_idx (active_del i s)}" "j \<notin> set fre" for j using that D(9) [of j] by simp
qed (use sched_invD [OF inv] in simp_all)

lemma sched_inv_flags:
  assumes inv: "sched_inv s act fre run"
    and "i \<in> set act \<union> set fre \<union> run \<Longrightarrow> \<not> t_suspended (f (buffer s i)) \<and> t_ev_op (f (buffer s i)) = None"
    and "i \<notin> set act \<union> set fre \<union> run \<Longrightarrow> t_suspended (f (buffer s i))"
    and "t_co (f (buffer s i)) = t_co (buffer s i)" "next_id (f (buffer s i)) = next_id (buffer s i)"
      "prev_id (f (buffer s i)) = prev_id (buffer s i)"
  shows "sched_inv (set_task i f s) act fre run"
proof (rule sched_invI)
  note D = sched_invD [OF inv]
  show "sched_lists (set_task i f s) act fre"
    using D(1) two_lists_upd [of "f (buffer s i)" "buffer s" i] assms(5,6) by (simp add: sched_lists_def)
  show "\<not> t_suspended (buffer (set_task i f s) j) \<and> t_ev_op (buffer (set_task i f s) j) = None"
    if "j \<in> set act \<union> set fre \<union> run" for j using that D(7) [of j] assms(2) by auto
  show "t_suspended (buffer (set_task i f s) j)"
    if "j \<in> {0..<buf_idx (set_task i f s)}" "j \<notin> set act \<union> set fre \<union> run" for j
    using that D(8) [of j] assms(3) by auto
  show "coro_env (set_task i f s) j = Some (t_co (buffer (set_task i f s) j))"
    if "j \<in> {0..<buf_idx (set_task i f s)}" "j \<notin> set fre" for j using that D(9) [of j] assms(4) by simp
qed (use sched_invD [OF inv] in simp_all)

lemma sched_inv_park:
  assumes inv: "sched_inv s act fre run" and i: "i \<in> run" and "t_suspended (f (buffer s i))"
    and "t_co (f (buffer s i)) = t_co (buffer s i)" "next_id (f (buffer s i)) = next_id (buffer s i)"
      "prev_id (f (buffer s i)) = prev_id (buffer s i)"
  shows "sched_inv (set_task i f s) act fre (run - {i})"
proof (rule sched_invI)
  note D = sched_invD [OF inv]
  show "sched_lists (set_task i f s) act fre"
    using D(1) two_lists_upd [of "f (buffer s i)" "buffer s" i] assms(5,6) by (simp add: sched_lists_def)
  show "(run - {i}) \<inter> (set act \<union> set fre) = {}" using D(2) by auto
  show "set act \<union> set fre \<union> (run - {i}) \<subseteq> {0..<buf_idx (set_task i f s)}" using D(3) by auto
  show "\<not> t_suspended (buffer (set_task i f s) j) \<and> t_ev_op (buffer (set_task i f s) j) = None"
    if "j \<in> set act \<union> set fre \<union> (run - {i})" for j using that D(2) D(7) [of j] i by auto
  show "t_suspended (buffer (set_task i f s) j)"
    if "j \<in> {0..<buf_idx (set_task i f s)}" "j \<notin> set act \<union> set fre \<union> (run - {i})" for j
    using that D(8) [of j] assms(3) by auto
  show "coro_env (set_task i f s) j = Some (t_co (buffer (set_task i f s) j))"
    if "j \<in> {0..<buf_idx (set_task i f s)}" "j \<notin> set fre" for j using that D(9) [of j] assms(4) by simp
qed (use sched_invD [OF inv] in simp_all)

lemma sched_inv_free:
  assumes inv: "sched_inv s act fre run" and i: "i \<in> run"
  defines "s' \<equiv> (free_add i s)\<lparr>ntasks := ntasks s - 1, coro_env := (coro_env s)(i := None)\<rparr>"
  shows "sched_inv s' act (fre @ [i]) (run - {i})" and "0 < ntasks s"
proof -
  note D = sched_invD [OF inv]
  have i': "i \<notin> set act \<union> set fre" "0 \<le> i" "i < buf_idx s" using D(2,3) i by auto
  have d: "distinct fre" "set fre \<subseteq> {0..<buf_idx s} - {i}"
    using D(3) i' sched_listsD [OF D(1)] by auto
  have "length fre = card (set fre)" using d(1) by (simp add: distinct_card)
  also have "\<dots> \<le> card ({0..<buf_idx s} - {i})" by (rule card_mono) (use d(2) in auto)
  also have "\<dots> < nat (buf_idx s)" using i' by simp
  finally show n: "0 < ntasks s" using D(10) i' by linarith
  have b: "buffer s' = buffer (free_add i s)" "buf_idx s' = buf_idx s" "buf_max s' = buf_max s"
    "ntasks s' = ntasks s - 1" "coro_env s' = (coro_env s)(i := None)"
    by (simp_all add: s'_def)
  show "sched_inv s' act (fre @ [i]) (run - {i})"
  proof (rule sched_invI)
    show "sched_lists s' act (fre @ [i])"
      using sched_lists_free_add [OF D(1) i'(1,2)] by (simp add: sched_lists_def s'_def)
    show "(run - {i}) \<inter> (set act \<union> set (fre @ [i])) = {}" using D(2) by auto
    show "set act \<union> set (fre @ [i]) \<union> (run - {i}) \<subseteq> {0..<buf_idx s'}" using D(3) i' b(2) by auto
    show "\<not> t_suspended (buffer s' j) \<and> t_ev_op (buffer s' j) = None"
      if "j \<in> set act \<union> set (fre @ [i]) \<union> (run - {i})" for j
      using that D(7) [of j] i by (auto simp: b)
    show "t_suspended (buffer s' j)"
      if "j \<in> {0..<buf_idx s'}" "j \<notin> set act \<union> set (fre @ [i]) \<union> (run - {i})" for j
      using that D(8) [of j] by (auto simp: b)
    show "coro_env s' j = Some (t_co (buffer s' j))"
      if "j \<in> {0..<buf_idx s'}" "j \<notin> set (fre @ [i])" for j using that D(9) [of j] by (simp add: b)
  qed (use D n in \<open>simp_all add: b\<close>)
qed

text \<open>The task of a new put: a free one or the next of the buffer, with all flags clear.\<close>

definition alloc_result :: "int list \<Rightarrow> scheduler \<Rightarrow> int \<times> int list" where
  "alloc_result fre s = (case fre of [] \<Rightarrow> (buf_idx s, []) | i # fre' \<Rightarrow> (i, fre'))"

lemma sched_task_alloc_spec:
  assumes inv: "sched_inv s act fre run" and al: "sched_task_alloc env s = Some (s1, i)"
    and grow: "buf_max s < 1073741824" and res: "alloc_result fre s = (i0, fre')"
  shows "i = i0" "sched_lists s1 act fre'" "i \<notin> set act \<union> set fre' \<union> run"
    "set fre' = set fre - {i} \<and> (fre \<noteq> [] \<longrightarrow> i \<in> set fre)"
    "buf_idx s1 = buf_idx s + (if fre = [] then 1 else 0)" "buf_idx s1 \<le> buf_max s1"
    "in_int32 (buf_max s1)" "i \<in> {0..<buf_idx s1}"
    "int (length fre') = int (length fre) - (if fre = [] then 0 else 1)"
    "coro_env s1 = coro_env s" "ntasks s1 = ntasks s" "stacks s1 = stacks s" "nwaiters s1 = nwaiters s"
    "active_task_id s1 = active_task_id s" "nworkers s1 = nworkers s" "max_workers s1 = max_workers s"
    "\<And>j. same_task (buffer s j) (buffer s1 j)"
proof -
  note D = sched_invD [OF inv]
  note L = sched_listsD [OF D(1)]
  have *: "i = i0 \<and> sched_lists s1 act fre' \<and> i \<notin> set act \<union> set fre' \<union> run \<and>
    set fre' = set fre - {i} \<and> (fre \<noteq> [] \<longrightarrow> i \<in> set fre) \<and>
    buf_idx s1 = buf_idx s + (if fre = [] then 1 else 0) \<and> buf_idx s1 \<le> buf_max s1 \<and>
    in_int32 (buf_max s1) \<and> i \<in> {0..<buf_idx s1} \<and>
    int (length fre') = int (length fre) - (if fre = [] then 0 else 1) \<and>
    coro_env s1 = coro_env s \<and> ntasks s1 = ntasks s \<and> stacks s1 = stacks s \<and> nwaiters s1 = nwaiters s \<and>
    active_task_id s1 = active_task_id s \<and> nworkers s1 = nworkers s \<and> max_workers s1 = max_workers s \<and>
    (\<forall>j. same_task (buffer s j) (buffer s1 j))"
  proof (cases fre)
    case (Cons x ys)
    have r: "x \<ge> 0" "x < buf_idx s" "x \<notin> run" "x \<notin> set act" "x \<notin> set ys" using D(2,3) L Cons by auto
    then have "i = x" "s1 = free_del x s" using al L(5) Cons by (auto simp: sched_task_alloc_def)
    moreover have "sched_lists (free_del x s) act ys" using sched_lists_free_del D(1) Cons by blast
    moreover have "nwaiters (free_del x s) = nwaiters s" "nworkers (free_del x s) = nworkers s"
      "max_workers (free_del x s) = max_workers s"
      by (simp_all add: free_del_def split_beta)
    ultimately show ?thesis using D(4-6) L r res Cons list_op_same(4) by (auto simp: alloc_result_def)
  next
    case Nil
    define newlen where "newlen = (if buf_max s \<noteq> 0 then buf_max s * 2 else 32)"
    have w: "(if buf_max s \<noteq> 0 then wrap32 (buf_max s * 2) else SCHED_BUF_MIN) = newlen"
      using grow D(4,5) by (simp add: newlen_def SCHED_BUF_MIN_def wrap32_id in_int32_def)
    have nl: "buf_idx s < newlen" "in_int32 newlen"
      using grow D(4,5) by (auto simp: newlen_def in_int32_def)
    have "s1 = s\<lparr>has_buffer := True, buf_max := newlen, buf_idx := buf_idx s + 1\<rparr> \<or>
        s1 = s\<lparr>buf_idx := buf_idx s + 1\<rparr> \<and> buf_idx s \<noteq> buf_max s" "i = buf_idx s"
      using al L(5) Nil by (auto simp: sched_task_alloc_def Let_def w split: if_splits)
    then show ?thesis
      using D(1-6) nl Nil res by (auto simp: alloc_result_def sched_lists_def same_task_def)
  qed
  show "i = i0" "sched_lists s1 act fre'" "i \<notin> set act \<union> set fre' \<union> run"
    "set fre' = set fre - {i} \<and> (fre \<noteq> [] \<longrightarrow> i \<in> set fre)"
    "buf_idx s1 = buf_idx s + (if fre = [] then 1 else 0)" "buf_idx s1 \<le> buf_max s1"
    "in_int32 (buf_max s1)" "i \<in> {0..<buf_idx s1}"
    "int (length fre') = int (length fre) - (if fre = [] then 0 else 1)"
    "coro_env s1 = coro_env s" "ntasks s1 = ntasks s" "stacks s1 = stacks s" "nwaiters s1 = nwaiters s"
    "active_task_id s1 = active_task_id s" "nworkers s1 = nworkers s" "max_workers s1 = max_workers s"
    "\<And>j. same_task (buffer s j) (buffer s1 j)"
    using * by blast+
qed

definition sched_new_task :: "int \<Rightarrow> nat \<Rightarrow> scheduler \<Rightarrow> scheduler" where
  "sched_new_task i co s = (active_add i (set_task i (\<lambda>_. task0\<lparr>t_co := co\<rparr>) s))
    \<lparr>coro_env := (coro_env s)(i := Some co), ntasks := Suc (ntasks s)\<rparr>"

lemma sched_inv_new:
  assumes inv: "sched_inv s act fre run" and al: "sched_task_alloc env s = Some (s1, i)"
    and grow: "buf_max s < 1073741824" and res: "alloc_result fre s = (i0, fre')"
  shows "sched_inv (sched_new_task i co s1) (act @ [i]) fre' run"
proof (rule sched_invI)
  note D = sched_invD [OF inv]
  note A = sched_task_alloc_spec [OF inv al grow res]
  note S = same_taskD [OF A(17)]
  let ?s = "sched_new_task i co s1" and ?t = "set_task i (\<lambda>_. task0\<lparr>t_co := co\<rparr>) s1"
  have b: "t_suspended (buffer ?s j) = (if j = i then False else t_suspended (buffer s j))"
    "t_ev_op (buffer ?s j) = (if j = i then None else t_ev_op (buffer s j))"
    "t_co (buffer ?s j) = (if j = i then co else t_co (buffer s j))"
    "buf_idx ?s = buf_idx s1" "buf_max ?s = buf_max s1" "coro_env ?s = (coro_env s)(i := Some co)"
    "ntasks ?s = Suc (ntasks s)" for j
    using S [of j] by (simp_all add: sched_new_task_def task0_def A(10,11))
  have ie: "fre = [] \<Longrightarrow> i = buf_idx s" using A(1) res by (simp add: alloc_result_def)
  have "sched_lists ?t act fre'"
    using A(2,3) two_lists_upd_other [of i act fre'] by (simp add: sched_lists_def)
  from sched_lists_active_add [OF this, of i] A(3,8)
  show "sched_lists ?s (act @ [i]) fre'" by (simp add: sched_lists_def sched_new_task_def)
  show "run \<inter> (set (act @ [i]) \<union> set fre') = {}" using D(2) A(3,4) by (auto split: if_splits)
  show "set (act @ [i]) \<union> set fre' \<union> run \<subseteq> {0..<buf_idx ?s}"
    using D(3) A(4,5,8) by (auto simp: b split: if_splits)
  show "\<not> t_suspended (buffer ?s j) \<and> t_ev_op (buffer ?s j) = None"
    if "j \<in> set (act @ [i]) \<union> set fre' \<union> run" for j
    using that D(7) [of j] A(4) by (auto simp: b split: if_splits)
  show "t_suspended (buffer ?s j)"
    if "j \<in> {0..<buf_idx ?s}" "j \<notin> set (act @ [i]) \<union> set fre' \<union> run" for j
    using that D(8) [of j] A(4,5) ie by (auto simp: b split: if_splits)
  show "coro_env ?s j = Some (t_co (buffer ?s j))"
    if "j \<in> {0..<buf_idx ?s}" "j \<notin> set fre'" for j
    using that D(9) [of j] A(4,5) ie by (auto simp: b split: if_splits)
qed (use sched_invD [OF inv] sched_task_alloc_spec [OF inv al grow res] in
    \<open>auto simp: sched_new_task_def split: if_splits\<close>)

lemma sched_lists_set_task:
  assumes "next_id (f (buffer s i)) = next_id (buffer s i)" "prev_id (f (buffer s i)) = prev_id (buffer s i)"
  shows "sched_lists (set_task i f s) act fre = sched_lists s act fre"
  using two_lists_upd [of "f (buffer s i)" "buffer s" i] assms by (simp add: sched_lists_def)

section \<open>The operations keep the invariant\<close>

text \<open>Lua code that the operations run may call other operations: such calls are steps of their
  own in a run of the scheduler, right before or after the operation.\<close>

definition sched_quiet :: "sched_env \<Rightarrow> bool" where
  "sched_quiet env \<longleftrightarrow>
     (\<forall>s. sched_frame s (sv_thread_run env s)) \<and> (\<forall>s. sched_frame s (fst (sv_coctl_new env s))) \<and>
     (\<forall>co m s. sched_frame s (fst (sv_coctl env co m s))) \<and>
     (\<forall>i. in_int32 i \<longrightarrow> sv_int env (sv_num env i) = i)"

lemma sched_notify_frame: "sched_quiet env \<Longrightarrow> sched_frame s (sched_notify env e s)"
  by (simp add: sched_notify_def sched_quiet_def)

lemma sched_put_co_frame: "sched_quiet env \<Longrightarrow> sched_frame s (fst (sched_put_co env arg s))"
  unfolding sched_put_co_def sched_quiet_def
  by (auto split: lua_value.split option.split prod.split simp: split_pairs) (metis fst_conv)+

text \<open>What a put moves to the stack of the coroutine.\<close>

definition put_values :: "lua_value \<Rightarrow> lua_value list \<Rightarrow> lua_value list" where
  "put_values arg args = (case arg of LThread _ \<Rightarrow> args | _ \<Rightarrow> arg # args)"

lemma sched_put_eq:
  assumes "sched_put_co env arg s = (s1, Inr (Some co))" and "sv_checkstack env co (length (put_values arg args))"
    and "sched_task_alloc env s1 = Some (s2, i)" and "ntasks s2 < 4294967295"
  shows "sched_put env arg args s =
    (sched_notify env (active_task_id s2 = -1)
       (set_stack co (stacks s2 co @ put_values arg args) (sched_new_task i co s2)), Inr (Some i))"
  using assms
  by (simp add: sched_put_def put_values_def [symmetric] Let_def sched_new_task_def set_stack_def
      set_task_def active_add_def split_beta)
    (rule arg_cong [where f = "sched_notify env _"], rule scheduler.equality, simp_all)

lemma sched_put_keeps:
  assumes q: "sched_quiet env" and inv: "sched_inv s act fre run" and grow: "buf_max s < 1073741824"
    and put: "sched_put env arg args s = (s', r)"
  shows "\<exists>act' fre'. sched_inv s' act' fre' run"
proof -
  obtain s1 r1 where co: "sched_put_co env arg s = (s1, r1)" by fastforce
  have f1: "sched_frame s s1" using sched_put_co_frame [OF q, of s arg] co by simp
  have inv1: "sched_inv s1 act fre run" using sched_inv_frame [OF f1] inv by simp
  consider "s' = s1" | c s2 i where "r1 = Inr (Some c)" "sv_checkstack env c (length (put_values arg args))"
      "sched_task_alloc env s1 = Some (s2, i)"
    using put co unfolding sched_put_def Let_def put_values_def [symmetric]
    by (cases r1; auto split: option.splits if_splits)
  then show ?thesis
  proof cases
    case 1
    with inv1 show ?thesis by blast
  next
    case (2 c s2 i)
    obtain i0 fre' where res: "alloc_result fre s1 = (i0, fre')" by fastforce
    have g: "buf_max s1 < 1073741824" using f1 grow by (simp add: sched_frame_def)
    note A = sched_task_alloc_spec [OF inv1 2(3) g res]
    have "int (ntasks s1) \<le> buf_max s1" using sched_invD(5,10) [OF inv1] by linarith
    then have n: "ntasks s2 < 4294967295" using g A(11) by linarith
    let ?s = "set_stack c (stacks s2 c @ put_values arg args) (sched_new_task i c s2)"
    have "s' = sched_notify env (active_task_id s2 = -1) ?s"
      using sched_put_eq [OF _ 2(2,3) n] co put 2(1) by simp
    then have "sched_frame (sched_new_task i c s2) s'"
      using sched_notify_frame [OF q, of ?s] sched_frame_simps(3) sched_frame_trans by blast
    with sched_inv_new [OF inv1 2(3) g res, of c] show ?thesis
      using sched_inv_frame by blast
  qed
qed

lemma sched_resume_keeps:
  assumes inv: "sched_inv s act fre run" and res: "sched_resume i args s = (s', Inr ())"
  shows "sched_inv s' (act @ [i]) fre run" and "i \<notin> set act \<union> set fre \<union> run"
proof -
  note D = sched_invD [OF inv]
  have i: "0 \<le> i" "i < buf_idx s" "t_suspended (buffer s i)" "t_ev_op (buffer s i) = None"
    using res by (auto simp: sched_resume_def sched_check_task_id_def split: if_splits)
  show ni: "i \<notin> set act \<union> set fre \<union> run" using D(7) i(3) by blast
  let ?s = "set_task i (\<lambda>t. t\<lparr>t_suspended := False\<rparr>) (active_add i s)"
  have "sched_lists ?s (act @ [i]) fre"
    using sched_lists_active_add [OF D(1), of i] ni i(1) by (simp add: sched_lists_set_task)
  then have "sched_inv ?s (act @ [i]) fre (run - {i})"
    by (intro sched_inv_activate [OF inv]) (use i ni in auto)
  moreover have "sched_frame ?s s'"
    using res i by (auto simp: sched_resume_def sched_check_task_id_def Let_def split: if_splits)
  ultimately show "sched_inv s' (act @ [i]) fre run" using sched_inv_frame ni by auto
qed

lemma sched_terminate_keeps:
  assumes inv: "sched_inv s act fre run" and ter: "sched_terminate env i s = (s', Inr ())"
  shows "\<exists>act'. sched_inv s' act' fre run \<and>
    (\<not> sched_check_task_id s i \<and> s' = s \<or>
     act' = (if t_suspended (buffer s i) then act @ [i] else act) \<and> t_terminate (buffer s' i) \<and>
       t_ev_op (buffer s' i) = None)"
proof (cases "sched_check_task_id s i")
  case False
  with ter inv show ?thesis by (auto simp: sched_terminate_def)
next
  case True
  note D = sched_invD [OF inv]
  define s1 where "s1 = set_task i (\<lambda>t. t\<lparr>t_terminate := True\<rparr>) s"
  have i: "0 \<le> i" "i < buf_idx s" using True by (auto simp: sched_check_task_id_def)
  show ?thesis
  proof (cases "t_suspended (buffer s i)")
    case susp: True
    have ni: "i \<notin> set act \<union> set fre \<union> run" using D(7) susp by blast
    define s2 where "s2 = active_add i (set_task i (\<lambda>t. t\<lparr>t_suspended := False\<rparr>) s1)"
    have l2: "sched_lists s2 (act @ [i]) fre"
      unfolding s2_def
      by (rule sched_lists_active_add) (use D(1) ni i in \<open>simp_all add: s1_def sched_lists_set_task\<close>)
    have s': "sched_terminate_ev env i s2 = (s', Inr ())"
      using ter True susp by (simp add: sched_terminate_def s1_def s2_def)
    obtain s3 where s3: "s3 = s2 \<and> t_ev_op (buffer s2 i) = None \<or>
        s3 = set_task i (\<lambda>t. t\<lparr>t_ev_op := None, t_ev_added := False\<rparr>) s2" "sched_frame s3 s'"
      using s' unfolding sched_terminate_ev_def Let_def
      by (cases "t_ev_op (buffer s2 i)"; auto split: lua_value.splits
          simp: sched_frame_def set_stack_def set_task_def)
    have l3: "sched_lists s3 (act @ [i]) fre" using s3(1) l2 by (auto simp: sched_lists_set_task)
    have "sched_inv s3 (act @ [i]) fre (run - {i})"
      by (rule sched_inv_activate [OF inv _ _ _ _ _ l3]) (use i ni s3(1) in \<open>auto simp: s2_def s1_def\<close>)
    then have "sched_inv s' (act @ [i]) fre run" using sched_inv_frame [OF s3(2)] ni by simp
    moreover have "t_terminate (buffer s' i) \<and> t_ev_op (buffer s' i) = None"
      using s3 by (auto simp: sched_frame_def s2_def s1_def)
    ultimately show ?thesis using susp by auto
  next
    case nsusp: False
    then have ni: "i \<in> set act \<union> set fre \<union> run" "t_ev_op (buffer s i) = None"
      using D(7,8) i by auto
    then have "s' = s1"
      using ter True nsusp by (simp add: sched_terminate_def sched_terminate_ev_def Let_def s1_def)
    moreover have "sched_inv s1 act fre run"
      unfolding s1_def by (rule sched_inv_flags [OF inv]) (use ni nsusp in auto)
    ultimately show ?thesis using nsusp ni by (auto simp: s1_def)
  qed
qed

lemma sched_task_del_frame:
  assumes "sched_quiet env" and "sched_task_del env i err s = (s', raised)"
  shows "sched_frame ((free_add i s)\<lparr>ntasks := u32_sub (ntasks s) 1, coro_env := (coro_env s)(i := None)\<rparr>) s'"
proof -
  let ?t = "(if cb_coctl s then set_stack (t_co (buffer s i)) [] ((free_add i s)\<lparr>ntasks := u32_sub (ntasks s) 1\<rparr>)
              else (free_add i s)\<lparr>ntasks := u32_sub (ntasks s) 1\<rparr>)\<lparr>coro_env := (coro_env s)(i := None)\<rparr>"
  have *: "sched_frame s0 (fst (sv_coctl env co m s0))" for s0 co m
    using assms(1) by (simp add: sched_quiet_def)
  have "sched_frame ?t s'"
    using assms(2) * [of ?t]
    by (auto simp: sched_task_del_def Let_def set_stack_def split: if_splits) (metis fst_conv)+
  then show ?thesis by (simp add: sched_frame_def set_stack_def split: if_splits)
qed

lemma sched_task_del_keeps:
  assumes q: "sched_quiet env" and inv: "sched_inv s act fre run" and i: "i \<in> run"
    and del: "sched_task_del env i err s = (s', raised)"
  shows "sched_inv s' act (fre @ [i]) (run - {i})"
proof -
  note F = sched_inv_free [OF inv i]
  have "int (ntasks s) \<le> buf_max s" using sched_invD(5,10) [OF inv] by linarith
  moreover have "buf_max s < 2147483648" using sched_invD(6) [OF inv] by (simp add: in_int32_def)
  ultimately have n: "u32_sub (ntasks s) 1 = ntasks s - 1" using F(2) by (intro u32_sub_id) auto
  show ?thesis
    using F(1) sched_inv_frame [OF sched_task_del_frame [OF q del]] unfolding n by blast
qed

text \<open>After the coroutine of a running task has returned. A task that asked for its own
  termination must not be suspended or wait for an event when it yields.\<close>

lemma sched_after_keeps:
  assumes q: "sched_quiet env" and inv: "sched_inv s act fre run" and i: "i \<in> run"
    and aft: "sched_after env once i (s, res) = (s', r)"
  shows "\<exists>act' fre'. sched_inv s' act' fre' (run - {i})"
proof -
  note D = sched_invD [OF inv]
  have i': "i \<notin> set act \<union> set fre" "0 \<le> i" "i < buf_idx s" "\<not> t_suspended (buffer s i)"
    "t_ev_op (buffer s i) = None"
    using D(2,3) D(7) [of i] i by auto
  show ?thesis
  proof (cases "res = LUA_YIELD \<and> \<not> t_terminate (buffer s i)")
    case True
    then have s': "s' = active_add i s" using aft i'(4) by (simp add: sched_after_def)
    have "sched_inv s' (act @ [i]) fre (run - {i})"
      unfolding s'
      by (rule sched_inv_activate [OF inv _ _ _ _ _ sched_lists_active_add [OF D(1)]]) (use i' in auto)
    then show ?thesis by blast
  next
    case False
    then obtain raised where "sched_task_del env i (res \<noteq> 0 \<and> res \<noteq> LUA_YIELD) s = (s', raised)"
      using aft by (auto simp: sched_after_def Let_def split: prod.splits)
    from sched_task_del_keeps [OF q inv i this] show ?thesis by blast
  qed
qed

lemma sched_after_parked:
  assumes "sched_inv s act fre run" and "t_suspended (buffer s i)" and "\<not> t_terminate (buffer s i)"
  shows "fst (sched_after env once i (s, LUA_YIELD)) = s"
  using assms by (simp add: sched_after_def)

lemma sched_event_ready_keeps:
  assumes inv: "sched_inv s act fre run"
    and i: "sched_check_task_id s i" "i = stack_task env co s" "t_suspended (buffer s i)"
    and ev: "t_ev_op (buffer s i) = ev"
  shows "sched_inv (sys_sched_event_ready env co ev s) (act @ [i]) fre run"
proof -
  note D = sched_invD [OF inv]
  have ni: "i \<notin> set act \<union> set fre \<union> run" using D(7) i(3) by blast
  have i': "0 \<le> i" "i < buf_idx s" using i(1) by (auto simp: sched_check_task_id_def)
  define s1 where "s1 = set_task i (\<lambda>t. t\<lparr>t_ev_op := None, t_ev_added := False, t_suspended := False\<rparr>) s"
  define s2 where "s2 = (if active_task_id s1 = -1 \<and> nwaiters s1 \<noteq> 0 then cond_signal s1 else s1)"
  have f2: "sched_frame s1 s2" by (simp add: s2_def)
  have "sched_lists s1 act fre" using D(1) by (simp add: s1_def sched_lists_set_task)
  then have "sched_lists s2 act fre" using f2 by (simp add: sched_lists_def sched_frame_def)
  from sched_lists_active_add [OF this] ni i'
  have l: "sched_lists (active_add i s2) (act @ [i]) fre" by simp
  have "sched_inv (active_add i s2) (act @ [i]) fre (run - {i})"
    by (rule sched_inv_activate [OF inv _ _ _ _ _ l])
      (use i' ni f2 in \<open>auto simp: sched_frame_def s1_def\<close>)
  moreover have "sched_frame (active_add i s2) (sys_sched_event_ready env co ev s)"
    using ev i(2) by (simp add: sys_sched_event_ready_def Let_def s1_def s2_def)
  ultimately show ?thesis using sched_inv_frame ni by auto
qed

lemma sched_event_ready_other:
  "t_ev_op (buffer s (stack_task env co s)) \<noteq> ev \<Longrightarrow> sys_sched_event_ready env co ev s = s"
  by (simp add: sys_sched_event_ready_def)

lemma stack_task_set_task [simp]: "stack_task env co (set_task i f s) = stack_task env co s"
  by (simp add: stack_task_def)

lemma sched_event_added_keeps:
  assumes inv: "sched_inv s act fre run"
    and i: "sched_check_task_id s i" "i = stack_task env co s" "t_suspended (buffer s i)"
  shows "\<exists>act'. sched_inv (sys_sched_event_added env co ev s) act' fre run"
proof -
  let ?s = "set_task i (\<lambda>t. t\<lparr>t_ev_op := ev, t_ev_added := True\<rparr>) s"
  have ni: "i \<notin> set act \<union> set fre \<union> run" using sched_invD(7) [OF inv] i(3) by blast
  have inv': "sched_inv ?s act fre run" by (rule sched_inv_flags [OF inv]) (use ni i(3) in auto)
  show ?thesis
  proof (cases "ev = None")
    case False
    with inv' i show ?thesis by (auto simp: sys_sched_event_added_def Let_def)
  next
    case True
    have "sched_inv (sys_sched_event_ready env co None ?s) (act @ [i]) fre run"
      by (rule sched_event_ready_keeps [OF inv']) (use True i in \<open>auto simp: sched_check_task_id_def\<close>)
    then show ?thesis using True i by (auto simp: sys_sched_event_added_def Let_def)
  qed
qed

text \<open>A task that waits for an event: the number of the task is the second value on the stack
  that it yields with, so that the event finds it again.\<close>

lemma wait_stack_eq: "wait_stack env i (a # b # st) = a # LNumber (sv_num env i) # b # b # st"
  using lua_insert_snoc [of 3 "a # b # st" b] lua_insert_snoc [of 2 "a # b # b # st"]
  by (simp add: wait_stack_def numeral_eq_Suc)

lemma set_stack_fields [simp]:
  "buffer (set_stack co st s) = buffer s" "stacks (set_stack co st s) = (stacks s)(co := st)"
  "s_ctx (set_stack co st s) = s_ctx s" "ctxs (set_stack co st s) = ctxs s" "evq_st (set_stack co st s) = evq_st s"
  "active_task_id (set_stack co st s) = active_task_id s" "free_task_id (set_stack co st s) = free_task_id s"
  "buf_idx (set_stack co st s) = buf_idx s" "buf_max (set_stack co st s) = buf_max s"
  "coro_env (set_stack co st s) = coro_env s" "ntasks (set_stack co st s) = ntasks s"
  by (simp_all add: set_stack_def)

text \<open>The end of the request: the table of tasks changes in the running task only, which is
  suspended or, after an error, not.\<close>

definition waits_as :: "sched_task \<Rightarrow> sched_task \<Rightarrow> bool" where
  "waits_as t t' \<longleftrightarrow> t_co t' = t_co t \<and> next_id t' = next_id t \<and> prev_id t' = prev_id t \<and>
     t_terminate t' = t_terminate t \<and> (t_suspended t' \<or> t_suspended t' = t_suspended t \<and> t_ev_op t' = t_ev_op t \<or>
       \<not> t_suspended t' \<and> t_ev_op t' = None)"

lemma sched_event_wait_task:
  "\<exists>t. sched_frame (set_task i (\<lambda>_. t) s) (fst (sched_event_wait L i s)) \<and> waits_as (buffer s i) t"
  by (rule exI [of _ "buffer (fst (sched_event_wait L i s)) i"])
    (auto simp: sched_event_wait_def Let_def set_task_def task_upd_def set_stack_def sched_frame_def
      waits_as_def fun_upd_def)

lemma sched_event_result_task:
  assumes "sched_event_result env L type msg i (a # LNumber (sv_num env i) # st) s r = (s', Inr n)"
    and "sv_int env (sv_num env i) = i"
  shows "\<exists>t. sched_frame (set_task i (\<lambda>_. t) s) s' \<and> waits_as (buffer s i) t"
proof -
  obtain o' where r: "r = Inr o'" using assms(1) by (cases r) (auto simp: sched_event_result_def)
  show ?thesis
  proof (cases o')
    case SchedFailed
    then have "sched_frame (set_task i (\<lambda>_. buffer s i) s) s'"
      using assms(1) r by (auto simp: sched_event_result_def sched_frame_def)
    then show ?thesis by (intro exI [of _ "buffer s i"]) (simp add: waits_as_def)
  next
    case (SchedPosted op)
    let ?s = "set_stack L (take 3 (a # LNumber (sv_num env i) # st) @ LFunction (sv_func env type) #
                drop 3 (a # LNumber (sv_num env i) # st) @ [LLight op]) s"
    have "s' = fst (sched_event_wait L i ?s)"
      using assms(1) r SchedPosted by (simp add: sched_event_result_def Let_def)
    with sched_event_wait_task [of i ?s L] show ?thesis by (auto simp: sched_frame_def)
  next
    case (SchedAdded ev)
    let ?s = "set_stack L (take 3 (a # LNumber (sv_num env i) # st)) s"
    let ?a = "sys_sched_event_added env L (Some ev) ?s"
    have k: "stack_task env L ?s = i"
      using assms(2) by (simp add: stack_task_def numeral_3_eq_3 split: list.split)
    then have a: "?a = set_task i (\<lambda>t. t\<lparr>t_ev_op := Some ev, t_ev_added := True\<rparr>) ?s"
      by (simp add: sys_sched_event_added_def Let_def)
    have s': "s' = fst (sched_event_wait L i ?a)"
      using assms(1) r SchedAdded by (simp add: sched_event_result_def Let_def)
    let ?t = "buffer s' i"
    have "t_suspended ?t" "t_co ?t = t_co (buffer s i)" "next_id ?t = next_id (buffer s i)"
      "prev_id ?t = prev_id (buffer s i)" "t_terminate ?t = t_terminate (buffer s i)"
      "sched_frame (set_task i (\<lambda>_. ?t) s) s'"
      unfolding s' a
      by (simp_all add: sched_event_wait_def Let_def set_task_def task_upd_def sched_frame_def set_stack_def)
    then show ?thesis by (intro exI [of _ ?t]) (simp add: waits_as_def)
  qed
qed

lemma sched_event_add_task:
  assumes add: "sched_event_add env L type msg s = Some (s', Inr n)"
    and st: "2 \<le> length (stacks s L)" and num: "sv_int env (sv_num env i) = i"
    and cx: "s_ctx s = Some cx" "cx_task_id (ctxs s cx) = i"
  shows "\<exists>t. sched_frame (set_task i (\<lambda>_. t) s) s' \<and> waits_as (buffer s i) t"
proof -
  obtain a b xs where xs: "stacks s L = a # b # xs" using st by (cases "stacks s L"; cases "tl (stacks s L)") auto
  have co: "cx_co (ctxs s cx) = Some L" using add cx by (auto simp: sched_event_add_def split: if_splits)
  obtain w r where r: "sched_event_result env L type msg i (wait_stack env i (a # b # xs)) (s\<lparr>evq_st := w\<rparr>) r
      = (s', Inr n)"
    using add cx(2) unfolding sched_event_add_def cx(1) option.case Let_def co xs
    by (auto split: lua_value.splits bind_splits)
  from sched_event_result_task [OF r [unfolded wait_stack_eq] num] show ?thesis
    by (auto simp: sched_frame_def)
qed

lemma sched_wait_obj_task:
  assumes "sched_wait_obj env L type cb os narg msg s = Some (s', Inr ())"
    and "sv_int env (sv_num env i) = i" and "s_ctx s = Some cx" "cx_task_id (ctxs s cx) = i"
  shows "\<exists>t. sched_frame (set_task i (\<lambda>_. t) s) s' \<and> waits_as (buffer s i) t"
proof -
  obtain st s1 n where s1: "sched_event_add env L type msg (set_stack L st s) = Some (s1, Inr n)"
    and st: "2 \<le> length st" and s': "sched_frame s1 s'"
    using assms(1) unfolding sched_wait_obj_def Let_def
    by (auto split: bind_splits sum.splits if_splits simp: lua_insert_def)
  from sched_event_add_task [OF s1, of i cx] assms(2-4) st
  obtain t where "sched_frame (set_task i (\<lambda>_. t) (set_stack L st s)) s1" "waits_as (buffer s i) t" by auto
  with s' show ?thesis by (auto simp: sched_frame_def)
qed

section \<open>Runs of the scheduler\<close>

text \<open>
  The steps that the threads of a scheduler take under the VM lock, on the state and the set of
  running tasks, each with the call it makes. A worker takes the first active task and calls it
  (\<open>Take\<close>), or drops it when it was terminated (\<open>Drop\<close>); a running task yields, ends or
  fails (\<open>Return\<close>), suspends itself or waits for an event (these keep the lock until its
  coroutine is back in the loop), the event queue reports an added or a ready event, and any
  thread may put, resume or terminate tasks. \<open>Other\<close> is whatever does not concern the table
  of tasks: Lua code, calls that are refused, workers that come, wait and go.
\<close>

datatype sched_call_label =
    CallOther
  | CallPut
  | CallResume int
  | CallTerminate int
  | CallTake
  | CallDrop
  | CallReturn int
  | CallSuspend int
  | CallWait int
  | CallAdded nat
  | CallReady nat

inductive sched_step :: "sched_env \<Rightarrow> sched_call_label \<Rightarrow> scheduler \<times> int set \<Rightarrow> scheduler \<times> int set \<Rightarrow> bool"
  for env where
  Other: "sched_frame s s' \<Longrightarrow> sched_step env CallOther (s, run) (s', run)"
| Put: "sched_put env arg args s = (s', r) \<Longrightarrow> sched_step env CallPut (s, run) (s', run)"
| Resume: "sched_resume i args s = (s', r) \<Longrightarrow> sched_step env (CallResume i) (s, run) (s', run)"
| Terminate: "sched_terminate env i s = (s', r) \<Longrightarrow> sched_step env (CallTerminate i) (s, run) (s', run)"
| Take: "active_task_id s = i \<Longrightarrow> i \<noteq> -1 \<Longrightarrow> \<not> t_terminate (buffer s i) \<Longrightarrow>
    sched_step env CallTake (s, run) (sched_call_enter cx i (active_del i s), insert i run)"
| Drop: "active_task_id s = i \<Longrightarrow> i \<noteq> -1 \<Longrightarrow> t_terminate (buffer s i) \<Longrightarrow>
    sched_task_del env i False (active_del i s) = (s', raised) \<Longrightarrow> sched_step env CallDrop (s, run) (s', run)"
| Return: "i \<in> run \<Longrightarrow> sched_after env once i (sched_call_leave cx s, res) = (s', r) \<Longrightarrow>
    sched_step env (CallReturn i) (s, run) (s', run - {i})"
| Suspend: "i \<in> run \<Longrightarrow> s_ctx s = Some cx \<Longrightarrow> cx_task_id (ctxs s cx) = i \<Longrightarrow>
    sched_suspend L s = (s1, Inr ()) \<Longrightarrow>
    sched_after env once i (sched_call_leave cx s1, LUA_YIELD) = (s', r) \<Longrightarrow>
    sched_step env (CallSuspend i) (s, run) (s', run - {i})"
| Wait: "i \<in> run \<Longrightarrow> s_ctx s = Some cx \<Longrightarrow> cx_task_id (ctxs s cx) = i \<Longrightarrow>
    sched_wait_obj env L type cb os narg msg s = Some (s1, Inr ()) \<Longrightarrow>
    sched_after env once i (sched_call_leave cx s1, LUA_YIELD) = (s', r) \<Longrightarrow>
    sched_step env (CallWait i) (s, run) (s', run - {i})"
| Added: "sched_step env (CallAdded co) (s, run) (sys_sched_event_added env co ev s, run)"
| Ready: "sched_step env (CallReady co) (s, run) (sys_sched_event_ready env co (Some ev) s, run)"

text \<open>
  The calls for which the scheduler keeps its table: a put while the table is below \<open>2 ^ 30\<close>
  tasks (its size doubles in an \<open>int\<close>); a termination when the stack of the waiting task still
  has the event queue at its third place; no suspension and no wait of a task that was asked to
  terminate (the code does not refuse these, see \<open>sched_terminated_suspend_corrupts\<close>); reports
  of the event queue for coroutines whose stack names a task, suspended when an event is added.
\<close>

definition sched_proper :: "sched_env \<Rightarrow> sched_call_label \<Rightarrow> scheduler \<Rightarrow> bool" where
  "sched_proper env a s \<longleftrightarrow>
     (case a of
        CallPut \<Rightarrow> buf_max s < 1073741824
      | CallTerminate i \<Rightarrow> t_ev_op (buffer s i) \<noteq> None \<longrightarrow>
          (\<exists>q. lua_settop 3 (stacks s (t_co (buffer s i))) ! 2 = LUserdata q)
      | CallSuspend i \<Rightarrow> \<not> t_terminate (buffer s i)
      | CallWait i \<Rightarrow> \<not> t_terminate (buffer s i)
      | CallAdded co \<Rightarrow> sched_check_task_id s (stack_task env co s) \<and> t_suspended (buffer s (stack_task env co s))
      | CallReady co \<Rightarrow> sched_check_task_id s (stack_task env co s)
      | _ \<Rightarrow> True)"

text \<open>A run in which every call satisfies the condition \<open>P\<close>.\<close>

inductive sched_run :: "sched_env \<Rightarrow> (sched_call_label \<Rightarrow> scheduler \<Rightarrow> bool) \<Rightarrow> scheduler \<times> int set \<Rightarrow>
    scheduler \<times> int set \<Rightarrow> bool" for env P where
  Start: "sched_run env P x x"
| Step: "sched_run env P x y \<Longrightarrow> P a (fst y) \<Longrightarrow> sched_step env a y z \<Longrightarrow> sched_run env P x z"

inductive_cases sched_stepE: "sched_step env a x y"

definition sched_ok :: "scheduler \<times> int set \<Rightarrow> bool" where
  "sched_ok x \<longleftrightarrow> (\<exists>act fre. sched_inv (fst x) act fre (snd x))"

lemma sched_head:
  assumes "sched_inv s act fre run" and "active_task_id s = i" and "i \<noteq> -1"
  obtains act' where "act = i # act'"
  using assms sched_listsD(4) [OF sched_invD(1) [OF assms(1)]] by (cases act) auto

lemma sched_call_leave_inv: "sched_inv (sched_call_leave cx s) act fre run = sched_inv s act fre run"
  by (rule sched_inv_frame) simp

lemma sched_call_leave_buffer [simp]: "buffer (sched_call_leave cx s) = buffer s"
  by (simp add: sched_call_leave_def set_ctx_def)

text \<open>A running task that marked itself as suspended is parked by its yield.\<close>

lemma sched_yield_parked:
  assumes inv: "sched_inv s act fre run" and i: "i \<in> run"
    and f: "sched_frame (set_task i (\<lambda>_. t) s) s1" and w: "waits_as (buffer s i) t"
    and nt: "\<not> t_terminate (buffer s i)" and q: "sched_quiet env"
    and aft: "sched_after env once i (sched_call_leave cx s1, LUA_YIELD) = (s', r)"
  shows "sched_ok (s', run - {i})"
proof (cases "t_suspended t")
  case True
  have "sched_inv (set_task i (\<lambda>_. t) s) act fre (run - {i})"
    by (rule sched_inv_park [OF inv i True]) (use w in \<open>auto simp: waits_as_def\<close>)
  then have inv': "sched_inv (sched_call_leave cx s1) act fre (run - {i})"
    using sched_inv_frame [OF f] by (simp add: sched_call_leave_inv)
  have b: "buffer s1 i = t" using f by (simp add: sched_frame_def)
  have "s' = sched_call_leave cx s1"
    using aft True w nt by (simp add: sched_after_def b waits_as_def)
  with inv' show ?thesis by (auto simp: sched_ok_def)
next
  case False
  have "\<not> t_suspended (buffer s i)" "t_ev_op (buffer s i) = None"
    using sched_invD(7) [OF inv, of i] i by auto
  then have "sched_inv (set_task i (\<lambda>_. t) s) act fre run"
    by (intro sched_inv_flags [OF inv]) (use w False i in \<open>auto simp: waits_as_def\<close>)
  then have "sched_inv (sched_call_leave cx s1) act fre run"
    using sched_inv_frame [OF f] by (simp add: sched_call_leave_inv)
  from sched_after_keeps [OF q this i aft] show ?thesis by (auto simp: sched_ok_def)
qed

text \<open>A termination that finds the event queue on the stack of a waiting task is not refused.\<close>

lemma sched_terminate_accepted:
  "t_ev_op (buffer s i) \<noteq> None \<longrightarrow> (\<exists>q. lua_settop 3 (stacks s (t_co (buffer s i))) ! 2 = LUserdata q) \<Longrightarrow>
   sched_terminate env i s = (s', r) \<Longrightarrow> r = Inr ()"
  by (auto simp: sched_terminate_def sched_terminate_ev_def Let_def split: if_splits option.splits)

lemma sched_step_keeps:
  assumes q: "sched_quiet env" and step: "sched_step env a x y" and p: "sched_proper env a (fst x)"
    and ok: "sched_ok x"
  shows "sched_ok y"
  using step
proof cases
  case (Other s s' run)
  then show ?thesis using ok sched_inv_frame by (auto simp: sched_ok_def)
next
  case (Put arg args s s' r run)
  then have "buf_max s < 1073741824" using p by (simp add: sched_proper_def)
  with Put show ?thesis using ok sched_put_keeps [OF q] by (fastforce simp: sched_ok_def)
next
  case (Resume i args s s' r run)
  then obtain act fre where inv: "sched_inv s act fre run" using ok by (auto simp: sched_ok_def)
  show ?thesis
  proof (cases r)
    case (Inl e)
    then have "s' = s" using Resume by (auto simp: sched_resume_def Let_def split: if_splits)
    with inv Resume show ?thesis by (auto simp: sched_ok_def)
  next
    case (Inr u)
    with sched_resume_keeps(1) [OF inv, of i args s'] Resume show ?thesis by (auto simp: sched_ok_def)
  qed
next
  case (Terminate i s s' r run)
  then have "r = Inr ()" using p sched_terminate_accepted [of s i env] by (simp add: sched_proper_def)
  with Terminate show ?thesis using ok sched_terminate_keeps by (fastforce simp: sched_ok_def)
next
  case (Take s i run cx)
  then obtain act fre where inv: "sched_inv s act fre run" using ok by (auto simp: sched_ok_def)
  obtain act' where act: "act = i # act'" using sched_head [OF inv Take(4,5)] .
  have inv1: "sched_inv (active_del i s) act' fre (insert i run)"
    using sched_inv_take inv act by blast
  let ?f = "\<lambda>t. t\<lparr>t_started := True\<rparr>"
  have "sched_inv (set_task i ?f (active_del i s)) act' fre (insert i run)"
    by (rule sched_inv_flags [OF inv1]) (use sched_invD(7) [OF inv1, of i] in auto)
  moreover have "sched_frame (set_task i ?f (active_del i s)) (sched_call_enter cx i (active_del i s))"
    by (simp add: sched_call_enter_def Let_def sched_frame_def set_ctx_def)
  ultimately have "sched_inv (sched_call_enter cx i (active_del i s)) act' fre (insert i run)"
    using sched_inv_frame by blast
  then show ?thesis using Take by (auto simp: sched_ok_def)
next
  case (Drop s i s' raised run)
  then obtain act fre where inv: "sched_inv s act fre run" using ok by (auto simp: sched_ok_def)
  obtain act' where act: "act = i # act'" using sched_head [OF inv Drop(4,5)] .
  have ni: "i \<notin> run" using sched_invD(2) [OF inv] act by auto
  have "sched_inv (active_del i s) act' fre (insert i run)" using sched_inv_take inv act by blast
  from sched_task_del_keeps [OF q this _ Drop(7)] ni show ?thesis
    using Drop by (auto simp: sched_ok_def)
next
  case (Return i run once cx s res s' r)
  then obtain act fre where "sched_inv (sched_call_leave cx s) act fre run"
    using ok by (auto simp: sched_ok_def sched_call_leave_inv)
  from sched_after_keeps [OF q this Return(4,5)] show ?thesis using Return by (auto simp: sched_ok_def)
next
  case (Suspend i run s cx L s1 once s' r)
  then obtain act fre where inv: "sched_inv s act fre run" using ok by (auto simp: sched_ok_def)
  let ?t = "(buffer s i)\<lparr>t_suspended := True\<rparr>"
  have "sched_frame (set_task i (\<lambda>_. ?t) s) s1"
    using Suspend by (auto simp: sched_suspend_def Let_def sched_frame_def split: if_splits)
  moreover have "\<not> t_terminate (buffer s i)" using p Suspend by (simp add: sched_proper_def)
  ultimately show ?thesis
    using sched_yield_parked [OF inv Suspend(4) _ _ _ q Suspend(8)] Suspend(3) by (simp add: waits_as_def)
next
  case (Wait i run s cx L type cb os narg msg s1 once s' r)
  then obtain act fre where inv: "sched_inv s act fre run" using ok by (auto simp: sched_ok_def)
  have "in_int32 i" using sched_invD(3,5,6) [OF inv] Wait(4) by (auto simp: in_int32_def)
  then have "sv_int env (sv_num env i) = i" using q by (simp add: sched_quiet_def)
  from sched_wait_obj_task [OF Wait(7) this Wait(5,6)]
  obtain t where "sched_frame (set_task i (\<lambda>_. t) s) s1" "waits_as (buffer s i) t" by blast
  moreover have "\<not> t_terminate (buffer s i)" using p Wait by (simp add: sched_proper_def)
  ultimately show ?thesis using sched_yield_parked [OF inv Wait(4) _ _ _ q Wait(8)] Wait(3) by simp
next
  case (Added co s run ev)
  then have "sched_check_task_id s (stack_task env co s)" "t_suspended (buffer s (stack_task env co s))"
    using p by (simp_all add: sched_proper_def)
  with Added show ?thesis using ok sched_event_added_keeps [OF _ _ refl] by (fastforce simp: sched_ok_def)
next
  case (Ready co s run ev)
  let ?i = "stack_task env co s"
  have ch: "sched_check_task_id s ?i" using p Ready by (simp add: sched_proper_def)
  obtain act fre where inv: "sched_inv s act fre run" using ok Ready by (auto simp: sched_ok_def)
  show ?thesis
  proof (cases "t_ev_op (buffer s ?i) = Some ev")
    case False
    then show ?thesis using Ready ok by (simp add: sched_event_ready_other)
  next
    case True
    then have "t_suspended (buffer s ?i)"
      using sched_invD(7,8) [OF inv, of ?i] ch by (auto simp: sched_check_task_id_def)
    from sched_event_ready_keeps [OF inv ch refl this True] show ?thesis
      using Ready by (auto simp: sched_ok_def)
  qed
qed

lemma sched_run_keeps:
  "sched_run env (sched_proper env) x y \<Longrightarrow> sched_quiet env \<Longrightarrow> sched_ok x \<Longrightarrow> sched_ok y"
  by (induction rule: sched_run.induct) (auto intro: sched_step_keeps)

end
