(* ===== verification/Sched_Props.thy ===== *)
theory Sched_Props
  imports Sched
begin

text \<open>
  What the scheduler of theory \<open>Sched\<close> promises: the partition of the tasks along every run,
  the effect of putting a task, of waiting for an event and of the loop of a worker, and two
  situations in which the code breaks its own invariant.
\<close>

section \<open>The lists are determined by the table\<close>

lemma linked_unique:
  assumes "linked b (x # xs @ [h])" and "linked b (x # ys @ [h])" and "h \<notin> set xs" and "h \<notin> set ys"
  shows "xs = ys"
  using assms
proof (induction xs arbitrary: x ys)
  case Nil
  then show ?case by (cases ys) auto
next
  case (Cons a xs)
  then obtain ys' where ys: "ys = a # ys'" by (cases ys) auto
  with Cons.IH [of a ys'] Cons.prems show ?case by simp
qed

lemma task_list_unique:
  assumes "task_list b h xs" and "task_list b h ys"
  shows "xs = ys"
proof (cases xs)
  case Nil
  with assms show ?thesis by (cases ys) (auto simp: task_list_def)
next
  case (Cons x xs')
  with assms obtain ys' where ys: "ys = x # ys'" "h = x" by (cases ys) (auto simp: task_list_def)
  have "xs' = ys'"
    by (rule linked_unique [of b x _ x]) (use assms Cons ys in \<open>auto simp: task_list_def ring_def\<close>)
  with Cons ys show ?thesis by simp
qed

section \<open>Draining the list of active tasks\<close>

text \<open>The fields a coroutine leaves alone when it works on its own.\<close>

definition loop_frame :: "scheduler \<Rightarrow> scheduler \<Rightarrow> bool" where
  "loop_frame s s' \<longleftrightarrow> s_stop s' = s_stop s \<and> cb_coctl s' = cb_coctl s \<and>
     nworkers s' = nworkers s \<and> td_ctx s' = td_ctx s \<and> buf_idx s' = buf_idx s"

text \<open>
  \<open>left st co\<close> measures the work that the coroutine \<open>co\<close> has left on the stacks \<open>st\<close>. Every
  call of a coroutine ends it with no work left, or yields after a part of the work; it adds no
  work to other coroutines and leaves the tables of the scheduler alone.
\<close>

definition works :: "((nat \<Rightarrow> lua_value list) \<Rightarrow> nat \<Rightarrow> nat) \<Rightarrow> sched_env \<Rightarrow> bool" where
  "works left env \<longleftrightarrow> (\<forall>co narg s. case sv_resume env co narg s of (s', res) \<Rightarrow>
     sched_frame s s' \<and> loop_frame s s' \<and> (\<forall>c. left (stacks s') c \<le> left (stacks s) c) \<and>
     (res = 0 \<and> left (stacks s') co = 0 \<or> res = LUA_YIELD \<and> left (stacks s') co < left (stacks s) co))"

lemma worksD:
  assumes "works left env" and "sv_resume env co narg s = (s', res)"
  shows "sched_frame s s' \<and> loop_frame s s' \<and> (\<forall>c. left (stacks s') c \<le> left (stacks s) c) \<and>
     (res = 0 \<and> left (stacks s') co = 0 \<or> res = LUA_YIELD \<and> left (stacks s') co < left (stacks s) co)"
proof -
  have "case sv_resume env co narg s of (s', res) \<Rightarrow> sched_frame s s' \<and> loop_frame s s' \<and>
     (\<forall>c. left (stacks s') c \<le> left (stacks s) c) \<and>
     (res = 0 \<and> left (stacks s') co = 0 \<or> res = LUA_YIELD \<and> left (stacks s') co < left (stacks s) co)"
    by (rule assms(1) [unfolded works_def, THEN spec, THEN spec, THEN spec])
  then show ?thesis unfolding assms(2) case_prod_conv .
qed

text \<open>What the rounds keep of every task, and that no coroutine gets more to do.\<close>

definition progress :: "((nat \<Rightarrow> lua_value list) \<Rightarrow> nat \<Rightarrow> nat) \<Rightarrow> scheduler \<Rightarrow> scheduler \<Rightarrow> bool" where
  "progress left s s' \<longleftrightarrow> loop_frame s s' \<and> (\<forall>c. left (stacks s') c \<le> left (stacks s) c) \<and>
     (\<forall>j. t_co (buffer s' j) = t_co (buffer s j) \<and> t_terminate (buffer s' j) = t_terminate (buffer s j))"

lemma progress_trans: "progress left s s1 \<Longrightarrow> progress left s1 s2 \<Longrightarrow> progress left s s2"
  unfolding progress_def loop_frame_def by (metis order_trans)

text \<open>The work left to a list of tasks.\<close>

definition tasks_left :: "((nat \<Rightarrow> lua_value list) \<Rightarrow> nat \<Rightarrow> nat) \<Rightarrow> scheduler \<Rightarrow> int list \<Rightarrow> nat" where
  "tasks_left left s is = (\<Sum>i\<leftarrow>is. Suc (left (stacks s) (t_co (buffer s i))))"

lemma tasks_left_mono: "progress left s s' \<Longrightarrow> tasks_left left s' is \<le> tasks_left left s is"
  unfolding tasks_left_def by (rule sum_list_mono) (simp add: progress_def)

lemma tasks_left_simps [simp]:
  "tasks_left left s (i # is) = Suc (left (stacks s) (t_co (buffer s i))) + tasks_left left s is"
  "tasks_left left s (is @ js) = tasks_left left s is + tasks_left left s js"
  "tasks_left left s [] = 0"
  by (simp_all add: tasks_left_def)

lemma loop_frame_simps [simp]:
  "loop_frame s s" "loop_frame s (active_add i s)" "loop_frame s (active_del i s)"
  "loop_frame s (free_add i s)" "loop_frame s (sched_call_enter cx i s)" "loop_frame s (sched_call_leave cx s)"
  by (simp_all add: loop_frame_def active_add_def active_del_def free_add_def sched_call_enter_def
      sched_call_leave_def set_ctx_def set_task_def Let_def split_beta)

lemma loop_frame_trans: "loop_frame s s1 \<Longrightarrow> loop_frame s1 s2 \<Longrightarrow> loop_frame s s2"
  by (simp add: loop_frame_def)

lemma progress_simps [simp]:
  "progress left s s" "progress left s (active_add i s)" "progress left s (active_del i s)"
  "progress left s (sched_call_enter cx i s)" "progress left s (sched_call_leave cx s)"
  by (simp_all add: progress_def)
    (simp_all add: sched_call_enter_def sched_call_leave_def set_ctx_def set_task_def task_upd_def Let_def)

lemma sched_task_del_plain:
  assumes "\<not> cb_coctl s"
  shows "snd (sched_task_del env i e s) = False" "progress left s (fst (sched_task_del env i e s))"
    "stacks (fst (sched_task_del env i e s)) = stacks s"
  using assms list_op_same(3) [of s _ i, THEN same_taskD(1)] list_op_same(3) [of s _ i, THEN same_taskD(6)]
  by (simp_all add: sched_task_del_def Let_def progress_def loop_frame_def free_add_def split_beta)

lemma sched_call_spec:
  assumes w: "works left env" and inv: "sched_inv s act fre run" and i: "i \<in> run"
    and c: "sched_call env cx i s = (s', res)"
  shows "sched_inv s' act fre run" "progress left s s'"
    "res = 0 \<and> left (stacks s') (t_co (buffer s i)) = 0 \<or>
     res = LUA_YIELD \<and> left (stacks s') (t_co (buffer s i)) < left (stacks s) (t_co (buffer s i))"
proof -
  let ?e = "sched_call_enter cx i s"
  obtain s1 where r: "sv_resume env (t_co (buffer s i)) (sched_call_narg i s) ?e = (s1, res)"
    and s': "s' = sched_call_leave cx s1"
    using c by (auto simp: sched_call_def split: prod.splits)
  note W = worksD [OF w r]
  have w1: "sched_frame ?e s1" "progress left ?e s1" using W by (simp_all add: progress_def sched_frame_def)
  have e: "sched_frame (set_task i (\<lambda>t. t\<lparr>t_started := True\<rparr>) s) ?e" "stacks ?e = stacks s"
    by (simp_all add: sched_call_enter_def Let_def sched_frame_def set_ctx_def)
  have "sched_inv (set_task i (\<lambda>t. t\<lparr>t_started := True\<rparr>) s) act fre run"
    by (rule sched_inv_flags [OF inv]) (use sched_invD(7) [OF inv, of i] i in auto)
  then show "sched_inv s' act fre run"
    using sched_inv_frame [OF e(1)] sched_inv_frame [OF w1(1)] by (simp add: s' sched_call_leave_inv)
  show "progress left s s'"
    unfolding s' by (rule progress_trans [OF progress_trans [OF progress_simps(4) w1(2)] progress_simps(5)])
  show "res = 0 \<and> left (stacks s') (t_co (buffer s i)) = 0 \<or>
      res = LUA_YIELD \<and> left (stacks s') (t_co (buffer s i)) < left (stacks s) (t_co (buffer s i))"
    using W e(2) by (simp add: s' sched_call_leave_def set_ctx_def)
qed

text \<open>
  One round: the first task goes to the end of the list with less work left, or it is freed
  because it was terminated or has no work left.
\<close>

lemma sched_round_spec:
  assumes q: "sched_quiet env" and w: "works left env" and inv: "sched_inv s (i # act) fre run"
    and ns: "\<not> s_stop s" "\<not> cb_coctl s"
  obtains s' where "sched_round env td cx t True False k s = (s', Again)" "progress left s s'"
    "sched_inv s' (act @ [i]) fre run \<and>
       left (stacks s') (t_co (buffer s i)) < left (stacks s) (t_co (buffer s i)) \<or>
     sched_inv s' act (fre @ [i]) run \<and>
       (t_terminate (buffer s i) \<or> left (stacks s') (t_co (buffer s i)) = 0)"
proof -
  have L: "active_task_id s = i" "i \<noteq> -1" "i \<notin> run"
    using sched_listsD(4) [OF sched_invD(1) [OF inv]] sched_invD(2,3) [OF inv] by auto
  define s1 where "s1 = active_del i s"
  have inv1: "sched_inv s1 act fre (insert i run)" using sched_inv_take [OF inv] by (simp add: s1_def)
  have s1: "progress left s s1" "stacks s1 = stacks s" "\<not> cb_coctl s1"
    "t_co (buffer s1 i) = t_co (buffer s i)" "t_terminate (buffer s1 i) = t_terminate (buffer s i)"
    by (simp_all add: s1_def ns)
  have run: "insert i run - {i} = run" using L(3) by auto
  have rnd: "sched_round env td cx t True False k s =
      (if t_terminate (buffer s1 i) then
         (case sched_task_del env i False s1 of (s2, raised) \<Rightarrow> (s2, if raised then Throw else Again))
       else sched_after env False i (sched_call env cx i s1))"
    using ns L by (simp add: sched_round_def Let_def s1_def)
  show thesis
  proof (cases "t_terminate (buffer s1 i)")
    case True
    obtain s2 where d: "sched_task_del env i False s1 = (s2, False)" "progress left s1 s2"
      using sched_task_del_plain(1) [OF s1(3), of env i False] sched_task_del_plain(2) [OF s1(3), of left env i False]
      by (metis prod.collapse)
    have "sched_inv s2 act (fre @ [i]) run"
      using sched_task_del_keeps [OF q inv1 _ d(1)] run by simp
    then show thesis
      using that [of s2] rnd True d s1 progress_trans by auto
  next
    case False
    obtain s2 res where c: "sched_call env cx i s1 = (s2, res)" by fastforce
    note C = sched_call_spec [OF w inv1 insertI1 c]
    have cb: "\<not> cb_coctl s2" using C(2) s1(3) by (simp add: progress_def loop_frame_def)
    have nt: "\<not> t_terminate (buffer s2 i)" using C(2) False by (simp add: progress_def)
    show thesis
    proof (cases "res = LUA_YIELD")
      case True
      note D = sched_invD [OF C(1)]
      have i2: "i \<notin> set act \<union> set fre" "0 \<le> i" "i < buf_idx s2"
        "\<not> t_suspended (buffer s2 i)" "t_ev_op (buffer s2 i) = None"
        using D(2,3) D(7) [of i] by auto
      have "sched_inv (active_add i s2) (act @ [i]) fre (insert i run - {i})"
        by (rule sched_inv_activate [OF C(1) _ _ _ _ _ sched_lists_active_add [OF D(1)]]) (use i2 in auto)
      moreover have "sched_round env td cx t True False k s = (active_add i s2, Again)"
        using rnd False nt True i2(4) by (simp add: c sched_after_def)
      moreover have "progress left s (active_add i s2)"
        using s1(1) C(2) progress_simps(2) progress_trans by blast
      ultimately show thesis using that [of "active_add i s2"] C(3) s1(2,4) True run
        by (auto simp: LUA_YIELD_def)
    next
      case ended: False
      then have res: "res = 0" using C(3) by simp
      obtain s3 where d: "sched_task_del env i False s2 = (s3, False)" "progress left s2 s3" "stacks s3 = stacks s2"
        using sched_task_del_plain(1,3) [OF cb, of env i False] sched_task_del_plain(2) [OF cb, of left env i False]
        by (metis prod.collapse)
      have "sched_inv s3 act (fre @ [i]) run"
        using sched_task_del_keeps [OF q C(1) _ d(1)] run by simp
      moreover have "sched_round env td cx t True False k s = (s3, Again)"
        using rnd False res d by (simp add: c sched_after_def LUA_YIELD_def)
      moreover have "progress left s s3" using s1(1) C(2) d(2) progress_trans by blast
      ultimately show thesis using that [of s3] C(3) s1(4) d(3) ended by auto
    qed
  qed
qed

text \<open>The tasks of a list that were not terminated have no work left.\<close>

definition finished :: "((nat \<Rightarrow> lua_value list) \<Rightarrow> nat \<Rightarrow> nat) \<Rightarrow> scheduler \<Rightarrow> scheduler \<Rightarrow> int set \<Rightarrow> bool" where
  "finished left s s' is \<longleftrightarrow>
     (\<forall>i\<in>is. \<not> t_terminate (buffer s i) \<longrightarrow> left (stacks s') (t_co (buffer s i)) = 0)"

lemma finished_step:
  assumes "progress left s s1" and "progress left s1 s2" and "finished left s1 s2 (set act')"
    and "act = i # act'" and "t_terminate (buffer s i) \<or> left (stacks s1) (t_co (buffer s i)) = 0"
  shows "finished left s s2 (set act)"
proof -
  have "left (stacks s2) (t_co (buffer s i)) \<le> left (stacks s1) (t_co (buffer s i))"
    using assms(2) by (simp add: progress_def)
  moreover have "finished left s s2 (set act')" using assms(1,3) by (simp add: finished_def progress_def)
  ultimately show ?thesis using assms(4,5) by (auto simp: finished_def)
qed

lemma sched_rounds_drain:
  assumes q: "sched_quiet env" and w: "works left env" and "sched_inv s act fre run"
    and "\<not> s_stop s" "\<not> cb_coctl s"
  shows "\<exists>s' fre'. sched_rounds (sched_round env td cx t True False) k s = Some (s', Some 0) \<and>
    sched_inv s' [] fre' run \<and> set fre' = set fre \<union> set act \<and> progress left s s' \<and>
    finished left s s' (set act)"
  using assms(3-)
proof (induction "tasks_left left s act" arbitrary: s act fre k rule: less_induct)
  case less
  show ?case
  proof (cases act)
    case Nil
    then have "active_task_id s = -1" using sched_listsD(4) [OF sched_invD(1) [OF less.prems(1)]] by simp
    then have "sched_rounds (sched_round env td cx t True False) k s = Some (s, Some 0)"
      by (subst sched_rounds.simps) (simp add: sched_round_def less.prems)
    then show ?thesis using less.prems(1) Nil by (auto simp: finished_def)
  next
    case (Cons i act')
    note inv = less.prems(1) [unfolded Cons]
    obtain s1 where r: "sched_round env td cx t True False k s = (s1, Again)" and f: "progress left s s1"
      and out: "sched_inv s1 (act' @ [i]) fre run \<and>
          left (stacks s1) (t_co (buffer s i)) < left (stacks s) (t_co (buffer s i)) \<or>
        sched_inv s1 act' (fre @ [i]) run \<and>
          (t_terminate (buffer s i) \<or> left (stacks s1) (t_co (buffer s i)) = 0)"
      using sched_round_spec [OF q w inv less.prems(2,3)] .
    have st: "\<not> s_stop s1" "\<not> cb_coctl s1"
      using f less.prems(2,3) by (simp_all add: progress_def loop_frame_def)
    have eq: "sched_rounds (sched_round env td cx t True False) k s =
        sched_rounds (sched_round env td cx t True False) (Suc k) s1"
      by (subst sched_rounds.simps) (simp add: r)
    have co: "t_co (buffer s1 i) = t_co (buffer s i)" using f by (simp add: progress_def)
    note le = tasks_left_mono [OF f, of act']
    show ?thesis
    proof (rule disjE [OF out])
      assume a: "sched_inv s1 (act' @ [i]) fre run \<and>
        left (stacks s1) (t_co (buffer s i)) < left (stacks s) (t_co (buffer s i))"
      then have i1: "sched_inv s1 (act' @ [i]) fre run" by simp
      from a have n: "tasks_left left s1 (act' @ [i]) < tasks_left left s act"
        using le by (simp add: Cons co)
      from less.hyps [OF n i1 st, of "Suc k"] obtain s2 fre' where
        r2: "sched_rounds (sched_round env td cx t True False) (Suc k) s1 = Some (s2, Some 0)"
          "sched_inv s2 [] fre' run" "set fre' = set fre \<union> set (act' @ [i])" "progress left s1 s2"
          "finished left s1 s2 (set (act' @ [i]))" by blast
      moreover have "finished left s s2 (set act)"
        using r2(5) f by (simp add: finished_def progress_def Cons)
      ultimately show ?thesis unfolding eq using progress_trans [OF f r2(4)] by (auto simp: Cons)
    next
      assume a: "sched_inv s1 act' (fre @ [i]) run \<and>
        (t_terminate (buffer s i) \<or> left (stacks s1) (t_co (buffer s i)) = 0)"
      then have i1: "sched_inv s1 act' (fre @ [i]) run"
        and e: "t_terminate (buffer s i) \<or> left (stacks s1) (t_co (buffer s i)) = 0" by simp_all
      have n: "tasks_left left s1 act' < tasks_left left s act" using le by (simp add: Cons)
      from less.hyps [OF n i1 st, of "Suc k"] obtain s2 fre' where
        r2: "sched_rounds (sched_round env td cx t True False) (Suc k) s1 = Some (s2, Some 0)"
          "sched_inv s2 [] fre' run" "set fre' = set (fre @ [i]) \<union> set act'" "progress left s1 s2"
          "finished left s1 s2 (set act')" by blast
      then show ?thesis unfolding eq
        using progress_trans [OF f r2(4)] finished_step [OF f r2(4,5) Cons e] by (auto simp: Cons)
    qed
  qed
qed

text \<open>
  Claim C5: a worker that does not linger runs every active task to its end and returns. It is
  assumed that the scheduler is not stopped and has no coroutines controller, that fewer than
  65535 workers are counted, and that each call of a coroutine either ends it with no work left or
  yields with less work left than before, without touching the scheduler or giving other
  coroutines more work (\<open>works\<close>). Then \<open>sched_loop\<close> ends, reports no error, leaves no
  work to the coroutine of any task that was active and not marked for termination (so that each
  of them was called until it ended), frees exactly the tasks that were active and leaves no trace
  of the worker in the scheduler.
\<close>

theorem sched_loop_drains:
  assumes "sched_quiet env" and "works left env" and inv: "sched_inv s act fre run"
    and ns: "\<not> s_stop s" "\<not> cb_coctl s" and nw: "nworkers s < 65535"
  shows "\<exists>s' fre'. sched_loop env (Some td) cx timeout True False s = Some (s', Inr SchedUdata) \<and>
    sched_inv s' [] fre' run \<and> set fre' = set fre \<union> set act \<and>
    (\<forall>i\<in>set act. \<not> t_terminate (buffer s i) \<longrightarrow> left (stacks s') (t_co (buffer s i)) = 0) \<and>
    ntasks s' = ntasks s - length act \<and> nworkers s' = nworkers s \<and> td_ctx s' td = None \<and> s_ctx s' = None"
proof -
  let ?s = "sched_enter td cx s"
  let ?t = "case timeout of None \<Rightarrow> TIMEOUT_INFINITE | Some ms \<Rightarrow> ms"
  have "sched_frame s ?s" by (simp add: sched_enter_def sched_frame_def set_ctx_def)
  then have "sched_inv ?s act fre run" using inv sched_inv_frame by blast
  moreover have "\<not> s_stop ?s" "\<not> cb_coctl ?s" using ns by (simp_all add: sched_enter_def set_ctx_def)
  ultimately obtain s1 fre' where r: "sched_rounds (sched_round env td cx ?t True False) 0 ?s = Some (s1, Some 0)"
    and i1: "sched_inv s1 [] fre' run" "set fre' = set fre \<union> set act"
    and f: "progress left ?s s1" and fin: "finished left ?s s1 (set act)"
    using sched_rounds_drain [OF assms(1,2)] by blast
  let ?l = "sched_leave td s1"
  have "sched_frame s1 ?l" by (simp add: sched_leave_def Let_def sched_frame_def cond_signal_def)
  then have inv2: "sched_inv ?l [] fre' run" using i1(1) sched_inv_frame by blast
  have "nworkers s1 = nworkers s + 1"
    using f nw by (simp add: progress_def loop_frame_def sched_enter_def set_ctx_def)
  then have "nworkers ?l = nworkers s" using nw by (simp add: sched_leave_def Let_def cond_signal_def)
  moreover have "ntasks ?l = ntasks s - length act"
  proof -
    note L = sched_listsD [OF sched_invD(1) [OF inv]] and L' = sched_listsD [OF sched_invD(1) [OF inv2]]
    have "length fre' = length (act @ fre)"
      using distinct_card [OF L'(2)] distinct_card [of "act @ fre"] L(1-3) i1(2) by (simp add: Un_commute)
    moreover have "buf_idx ?l = buf_idx s"
      using f by (simp add: progress_def loop_frame_def sched_enter_def sched_leave_def Let_def set_ctx_def
          cond_signal_def)
    ultimately show ?thesis using sched_invD(10) [OF inv] sched_invD(10) [OF inv2] by simp
  qed
  moreover have "sched_loop env (Some td) cx timeout True False s = Some (?l, Inr SchedUdata)"
    using r by (simp add: sched_loop_def sched_ret_of_def SYS_ERR_TIMEOUT_def SYS_ERR_SYSTEM_def SYS_ERR_THROW_def)
  moreover have "td_ctx ?l td = None" "s_ctx ?l = None" "stacks ?l = stacks s1" "buffer ?s = buffer s"
    by (simp_all add: sched_leave_def Let_def cond_signal_def sched_enter_def set_ctx_def)
  ultimately show ?thesis using inv2 i1(2) fin unfolding finished_def by metis
qed

text \<open>A scheduler without tasks, and a Lua state in which a coroutine yields as long as there are
  values on its stack.\<close>

definition sched_demo0 :: scheduler where
  "sched_demo0 = \<lparr>s_evq = None, active_task_id = -1, free_task_id = -1, ntasks = 0, tick = 0, s_ctx = None,
     buffer = (\<lambda>_. task0), has_buffer = False, buf_idx = 0, buf_max = 0, s_stop = False, cb_coctl = False,
     evq_waiting = False, worker_timeout = 3000, min_workers = 0, max_workers = 0, nworkers = 0, nwaiters = 0,
     cond_signals = 0, coro_env = (\<lambda>_. None), coro_evq = LNil, stacks = (\<lambda>_. []), hooks = (\<lambda>_. False),
     ctxs = (\<lambda>_. \<lparr>cx_co = None, cx_task_id = 0\<rparr>), td_ctx = (\<lambda>_. None), evq_st = levq_demo\<rparr>"

definition sched_demo_env :: sched_env where
  "sched_demo_env = \<lparr>sv_levq = levq_demo_env, sv_realloc = (\<lambda>_ _. True), sv_newthread = (\<lambda>_. Some 5),
     sv_checkstack = (\<lambda>_ _. True), sv_coctl_new = (\<lambda>s. (s, None)), sv_coctl = (\<lambda>_ _ s. (s, False)),
     sv_resume = (\<lambda>co _ s. if co = 5 \<and> stacks s co \<noteq> [] then (set_stack co (tl (stacks s co)) s, LUA_YIELD) else (s, 0)),
     sv_evq_loop = (\<lambda>_ s. (s, Some 0)), sv_wait = (\<lambda>_ _ s. (s, 0)), sv_flags = (\<lambda>_. 0), sv_thread_run = (\<lambda>s. s),
     sv_sleep = (\<lambda>_ s. s), sv_num = of_int, sv_int = sint,
     sv_args = (\<lambda>_ _. \<lparr>s_args = \<lparr>a_obj = LNil, a_fd = None, a_num = 0, a_path = None, a_flags = 0, a_evstr = None,
          a_cb = LNil, a_timeout = None, a_oneshot = True\<rparr>,
        s_name = [], s_sd = 0, s_modify = False\<rparr>), sv_func = (\<lambda>_. 0)\<rparr>"

definition sched_demo :: scheduler where
  "sched_demo = fst (sched_put sched_demo_env (LFunction 1) [LNil] sched_demo0)"

lemma sched_demo0_inv: "sched_inv sched_demo0 [] [] {}"
  by (simp add: sched_inv_def task_list_def sched_demo0_def in_int32_def)

lemma sched_demo_quiet: "sched_quiet sched_demo_env"
proof -
  have "sint (word_of_int i :: 64 word) = i" if "in_int32 i" for i
    using that by (simp add: in_int32_def sint_sbintrunc' signed_take_bit_int_eq_self_iff)
  then show ?thesis by (simp add: sched_quiet_def sched_demo_env_def)
qed

definition demo_left :: "(nat \<Rightarrow> lua_value list) \<Rightarrow> nat \<Rightarrow> nat" where
  "demo_left st co = (if co = 5 then length (st 5) else 0)"

lemma sched_demo_works: "works demo_left sched_demo_env"
  by (auto simp: works_def sched_demo_env_def loop_frame_def set_stack_def sched_frame_def demo_left_def)

lemma sched_demo_eq:
  "sched_put sched_demo_env (LFunction 1) [LNil] sched_demo0 = (sched_demo, Inr (Some 0))"
  "sched_demo = sched_demo0\<lparr>has_buffer := True, buf_max := 32, buf_idx := 1, active_task_id := 0, ntasks := 1,
     buffer := (\<lambda>_. task0)(0 := task0\<lparr>t_co := 5\<rparr>), coro_env := [0 \<mapsto> 5],
     stacks := (\<lambda>_. [])(5 := [LFunction 1, LNil])\<rparr>"
  by (simp_all add: sched_demo_def sched_put_def sched_put_co_def sched_task_alloc_def sched_demo_env_def
      sched_demo0_def SCHED_BUF_MIN_def set_task_def task_upd_def set_stack_def active_add_def
      sched_tasklist_add_def sched_notify_def task0_def)

lemma sched_demo_inv: "sched_inv sched_demo [0] [] {}"
  by (auto simp: sched_inv_def task_list_def ring_single sched_demo_eq(2) sched_demo0_def in_int32_def task0_def)

theorem sched_loop_drains_witness:
  "\<exists>s'. sched_loop sched_demo_env (Some 9) 7 None True False sched_demo = Some (s', Inr SchedUdata) \<and>
     ntasks sched_demo = 1 \<and> ntasks s' = 0 \<and> td_ctx s' 9 = None \<and>
     stacks sched_demo 5 = [LFunction 1, LNil] \<and> stacks s' 5 = []"
proof -
  have "\<not> s_stop sched_demo" "\<not> cb_coctl sched_demo" "nworkers sched_demo < 65535" and n: "ntasks sched_demo = 1" "stacks sched_demo 5 = [LFunction 1, LNil]" "t_co (buffer sched_demo 0) = 5"
      "\<not> t_terminate (buffer sched_demo 0)"
    by (simp_all add: sched_demo_eq(2) sched_demo0_def task0_def)
  from sched_loop_drains [OF sched_demo_quiet sched_demo_works sched_demo_inv this(1-3), of 9 7 None] n
  show ?thesis by (auto simp: demo_left_def)
qed

section \<open>The table of tasks along a run\<close>

text \<open>
  Claim C2: along every run of the scheduler, from \<open>sched_new\<close> on, in which every call is proper
  (\<open>sched_proper\<close>: no task suspends itself or waits after it was asked to terminate, the table
  stays below \<open>2 ^ 30\<close> tasks when a task is put, and the stacks of waiting coroutines still name
  their task and their event queue), each task of the table is in exactly one place: in the list
  of active tasks, in the list of free tasks, running in a worker or suspended, so that no task is
  lost or scheduled twice. Both circular lists are well formed, \<open>ntasks\<close> counts the tasks that
  are not free, and the table of coroutines keeps the coroutine of each of them alive. The first
  condition is needed: \<open>sched_terminated_suspend_corrupts\<close> shows what happens without it.
\<close>

theorem sched_tasks_partition:
  assumes "sched_new True True f minw maxw wt s0 = Some (Inr s)" and "sched_quiet env"
    and "sched_run env (sched_proper env) (s, {}) (s', run)"
  shows "\<exists>act fre. let susp = {i. sched_check_task_id s' i \<and> t_suspended (buffer s' i)} in
    task_list (buffer s') (active_task_id s') act \<and> task_list (buffer s') (free_task_id s') fre \<and>
    {0..<buf_idx s'} = set act \<union> set fre \<union> run \<union> susp \<and>
    set act \<inter> set fre = {} \<and> run \<inter> (set act \<union> set fre) = {} \<and> susp \<inter> (set act \<union> set fre \<union> run) = {} \<and>
    int (ntasks s') = buf_idx s' - int (length fre) \<and> buf_idx s' \<le> buf_max s' \<and>
    (\<forall>i. sched_check_task_id s' i \<longrightarrow> i \<notin> set fre \<longrightarrow> coro_env s' i = Some (t_co (buffer s' i)))"
proof -
  have "sched_inv s [] [] {}"
    using assms(1) by (auto simp: sched_new_def sched_inv_def task_list_def in_int32_def)
  then have "sched_ok (s, {})" unfolding sched_ok_def by auto
  from sched_run_keeps [OF assms(3,2) this] obtain act fre where inv: "sched_inv s' act fre run"
    by (auto simp: sched_ok_def)
  note D = sched_invD [OF inv]
  show ?thesis
  proof (rule exI [of _ act], rule exI [of _ fre], unfold Let_def, intro conjI)
    show "task_list (buffer s') (active_task_id s') act" "task_list (buffer s') (free_task_id s') fre"
      "set act \<inter> set fre = {}"
      using D(1) by (simp_all add: sched_lists_def two_lists_def)
    show "{0..<buf_idx s'} = set act \<union> set fre \<union> run \<union> {i. sched_check_task_id s' i \<and> t_suspended (buffer s' i)}"
      using D(3,8) by (auto simp: sched_check_task_id_def)
    show "{i. sched_check_task_id s' i \<and> t_suspended (buffer s' i)} \<inter> (set act \<union> set fre \<union> run) = {}"
      using D(7) by auto
    show "\<forall>i. sched_check_task_id s' i \<longrightarrow> i \<notin> set fre \<longrightarrow> coro_env s' i = Some (t_co (buffer s' i))"
      using D(9) by (auto simp: sched_check_task_id_def)
  qed (use D(2,5,10) in auto)
qed

theorem sched_tasks_partition_witness:
  "sched_run sched_demo_env (sched_proper sched_demo_env) (sched_demo0, {}) (sched_demo, {}) \<and> sched_size sched_demo = 1 \<and>
   (\<exists>act fre. task_list (buffer sched_demo) (active_task_id sched_demo) act \<and> {0..<1} = set act \<union> set fre)"
proof -
  have new: "sched_new True True False 0 (Some 0) None sched_demo0 = Some (Inr sched_demo0)"
    by (simp add: sched_new_def sched_demo0_def SCHED_WORKER_TIMEOUT_def)
  have "sched_step sched_demo_env CallPut (sched_demo0, {}) (sched_demo, {})"
    by (rule sched_step.Put [OF sched_demo_eq(1)])
  moreover have "sched_proper sched_demo_env CallPut (fst (sched_demo0, {}))"
    by (simp add: sched_proper_def sched_demo0_def)
  ultimately have run: "sched_run sched_demo_env (sched_proper sched_demo_env) (sched_demo0, {}) (sched_demo, {})"
    using sched_run.intros by metis
  have s: "buf_idx sched_demo = 1" "sched_size sched_demo = 1" "\<not> t_suspended (buffer sched_demo i)" for i
    by (simp_all add: sched_demo_eq(2) sched_size_def sched_demo0_def task0_def)
  from sched_tasks_partition [OF new sched_demo_quiet run] run s show ?thesis
    by (auto simp: Let_def)
qed

text \<open>
  Claim C16: \<open>sched_put\<close> appends one task at the end of the active list: it takes the first free
  task or the next of the buffer, which starts with clear flags, keeps the coroutine in the table,
  moves the function and its arguments to the coroutine and counts the task; only a put into an
  empty list notifies a worker. When no memory is left nothing changes and nothing is returned.
\<close>

theorem sched_put_adds:
  assumes inv: "sched_inv s act fre run" and co: "sched_put_co env arg s = (s, Inr (Some co))"
    and stack: "sv_checkstack env co (length (put_values arg args))" and grow: "buf_max s < 1073741824"
  shows "(sched_task_alloc env s = None \<longrightarrow> sched_put env arg args s = (s, Inr None)) \<and>
    (sched_task_alloc env s \<noteq> None \<longrightarrow> (\<exists>i fre' s'. alloc_result fre s = (i, fre') \<and>
       sched_put env arg args s = (sched_notify env (act = []) s', Inr (Some i)) \<and>
       sched_inv s' (act @ [i]) fre' run \<and> i \<notin> set act \<union> run \<and> ntasks s' = Suc (ntasks s) \<and>
       t_co (buffer s' i) = co \<and> \<not> t_started (buffer s' i) \<and> \<not> t_terminate (buffer s' i) \<and>
       stacks s' = (stacks s)(co := stacks s co @ put_values arg args)))"
proof (intro conjI impI)
  assume "sched_task_alloc env s = None"
  then show "sched_put env arg args s = (s, Inr None)"
    using co stack by (simp add: sched_put_def put_values_def [symmetric])
next
  assume "sched_task_alloc env s \<noteq> None"
  then obtain s2 i where al: "sched_task_alloc env s = Some (s2, i)" by auto
  obtain i0 fre' where res: "alloc_result fre s = (i0, fre')" by fastforce
  note A = sched_task_alloc_spec [OF inv al grow res]
  have "ntasks s2 < 4294967295" using sched_invD(5,10) [OF inv] grow A(11) by linarith
  note eq = sched_put_eq [OF co stack al this]
  let ?s = "set_stack co (stacks s2 co @ put_values arg args) (sched_new_task i co s2)"
  have "(active_task_id s2 = -1) = (act = [])"
    using A(14) sched_listsD(4) [OF sched_invD(1) [OF inv]] sched_invD(3) [OF inv] by (cases act) auto
  moreover have "sched_inv ?s (act @ [i]) fre' run"
    using sched_inv_new [OF inv al grow res] sched_inv_frame [OF sched_frame_simps(3)] by blast
  moreover have "ntasks ?s = Suc (ntasks s)" "stacks ?s = (stacks s)(co := stacks s co @ put_values arg args)"
    "t_co (buffer ?s i) = co" "\<not> t_started (buffer ?s i)" "\<not> t_terminate (buffer ?s i)"
    using A(11,12) by (simp_all add: sched_new_task_def task0_def)
  ultimately show "\<exists>i fre' s'. alloc_result fre s = (i, fre') \<and>
       sched_put env arg args s = (sched_notify env (act = []) s', Inr (Some i)) \<and>
       sched_inv s' (act @ [i]) fre' run \<and> i \<notin> set act \<union> run \<and> ntasks s' = Suc (ntasks s) \<and>
       t_co (buffer s' i) = co \<and> \<not> t_started (buffer s' i) \<and> \<not> t_terminate (buffer s' i) \<and>
       stacks s' = (stacks s)(co := stacks s co @ put_values arg args)"
    using res A(1,3) eq by (intro exI [of _ i] exI [of _ fre'] exI [of _ ?s]) simp
qed

theorem sched_put_adds_witness:
  "\<exists>i s'. sched_put sched_demo_env (LThread 5) [LBool True] sched_demo0 = (s', Inr (Some i)) \<and> i = 0 \<and>
     stacks s' 5 = [LBool True]"
proof -
  have al: "sched_task_alloc sched_demo_env sched_demo0 \<noteq> None"
    by (simp add: sched_task_alloc_def sched_demo_env_def sched_demo0_def)
  have p: "sched_put_co sched_demo_env (LThread 5) sched_demo0 = (sched_demo0, Inr (Some 5))"
    "sv_checkstack sched_demo_env 5 (length (put_values (LThread 5) [LBool True]))"
    "buf_max sched_demo0 < 1073741824"
    by (simp_all add: sched_put_co_def sched_demo_env_def sched_demo0_def)
  have d: "stacks sched_demo0 5 = []" "buf_idx sched_demo0 = 0" by (simp_all add: sched_demo0_def)
  have n: "stacks (sched_notify sched_demo_env e s) = stacks s" for e s
    by (simp add: sched_notify_def sched_demo_env_def cond_signal_def)
  from sched_put_adds [OF sched_demo0_inv p] al d show ?thesis
    by (auto simp: alloc_result_def put_values_def n)
qed

section \<open>Waiting for an event\<close>

text \<open>
  The task \<open>i\<close> of the coroutine \<open>L\<close> waits for the event \<open>ev\<close>: the report of this event puts it
  at the end of the active list and takes the three values of the request off its stack, and the
  report of any other event changes nothing.
\<close>

definition wakes_on :: "sched_env \<Rightarrow> nat \<Rightarrow> int \<Rightarrow> int list \<Rightarrow> int list \<Rightarrow> int set \<Rightarrow> nat \<Rightarrow> scheduler \<Rightarrow> bool" where
  "wakes_on env L i act fre run ev s \<longleftrightarrow>
     t_ev_op (buffer s i) = Some ev \<and> t_suspended (buffer s i) \<and> sched_inv s act fre run \<and>
     sched_inv (sys_sched_event_ready env L (Some ev) s) (act @ [i]) fre run \<and>
     stacks (sys_sched_event_ready env L (Some ev) s) L = drop 3 (stacks s L) \<and>
     (\<forall>ev'. ev' \<noteq> Some ev \<longrightarrow> sys_sched_event_ready env L ev' s = s)"

lemma parked_wakes:
  assumes inv: "sched_inv s act fre run" and i: "sched_check_task_id s i" "i \<notin> run"
    and st: "stacks s L = a # LNumber (sv_num env i) # b # st" and num: "sv_int env (sv_num env i) = i"
    and ev: "t_ev_op (buffer s i) = Some ev" and su: "t_suspended (buffer s i)"
  shows "wakes_on env L i act fre run ev s"
proof -
  have k: "stack_task env L s = i" using st num by (simp add: stack_task_def)
  have "sched_inv (sys_sched_event_ready env L (Some ev) s) (act @ [i]) fre run"
    using sched_event_ready_keeps [OF inv i(1) k [symmetric] su ev] i(2) by simp
  moreover have "stacks (sys_sched_event_ready env L (Some ev) s) L = drop 3 (stacks s L)"
    using st ev k by (simp add: sys_sched_event_ready_def Let_def lua_remove_def numeral_3_eq_3 cond_signal_def)
  moreover have "\<forall>ev'. ev' \<noteq> Some ev \<longrightarrow> sys_sched_event_ready env L ev' s = s"
    using ev k by (auto intro!: sched_event_ready_other)
  ultimately show ?thesis using inv ev su by (simp add: wakes_on_def)
qed

text \<open>The event or the posted operation that an accepted request leaves in its task.\<close>

fun accepted_op :: "sched_added \<Rightarrow> ptr" where
  "accepted_op (SchedAdded ev) = Some ev"
| "accepted_op (SchedPosted op) = Some op"
| "accepted_op SchedFailed = None"

lemma evq_st_kept [simp]: "evq_st (set_task i f s) = evq_st s" "evq_st (set_stack L st s) = evq_st s"
  by (simp_all add: set_task_def set_stack_def)

lemma sched_event_result_parked:
  assumes r: "sched_event_result env L type msg i (a # LNumber (sv_num env i) # b # st) s r = (s', Inr n)"
    and num: "sv_int env (sv_num env i) = i" and ns: "\<not> t_suspended (buffer s i)" "t_ev_op (buffer s i) = None"
    and p: "t_suspended (buffer s' i)"
  shows "n = length (stacks s' L) \<and> (\<exists>st'. stacks s' L = a # LNumber (sv_num env i) # b # st') \<and>
    evq_st s' = evq_st s \<and>
    (\<exists>res. r = Inr res \<and> t_ev_op (buffer s' i) = accepted_op res \<and> accepted_op res \<noteq> None)"
proof -
  obtain res where res: "r = Inr res" using r by (cases r) (auto simp: sched_event_result_def)
  show ?thesis
  proof (cases res)
    case SchedFailed
    then have False using r res ns p by (auto simp: sched_event_result_def)
    then show ?thesis ..
  next
    case (SchedPosted op)
    with r res p ns show ?thesis
      by (auto simp: sched_event_result_def sched_event_wait_def Let_def numeral_3_eq_3 split: if_splits)
  next
    case (SchedAdded ev)
    have "stack_task env L (set_stack L [a, LNumber (sv_num env i), b] s) = i"
      using num by (simp add: stack_task_def)
    with r res p SchedAdded show ?thesis
      by (auto simp: sched_event_result_def sched_event_wait_def sys_sched_event_added_def Let_def
          numeral_3_eq_3 split: if_splits)
  qed
qed

lemma sched_wait_obj_parked:
  assumes wait: "sched_wait_obj env L type cb os narg msg s = Some (s', Inr ())"
    and num: "sv_int env (sv_num env i) = i" and cx: "s_ctx s = Some cx" "cx_task_id (ctxs s cx) = i"
    and ns: "\<not> t_suspended (buffer s i)" "t_ev_op (buffer s i) = None" and p: "t_suspended (buffer s' i)"
  shows "\<exists>a q st args res. stacks s' L = a # LNumber (sv_num env i) # LUserdata q # st \<and>
    sys_evq_sched_add (sv_levq env) L q type args 4 (evq_st s) = Some (evq_st s', Inr res) \<and>
    t_ev_op (buffer s' i) = accepted_op res \<and> accepted_op res \<noteq> None"
proof -
  obtain st s1 n where s1: "sched_event_add env L type msg (set_stack L st s) = Some (s1, Inr n)"
    and st: "2 \<le> length st" and s': "s' = set_stack L (drop (length (stacks s1 L) - n) (stacks s1 L)) s1"
    using wait unfolding sched_wait_obj_def Let_def
    by (auto split: bind_splits sum.splits if_splits simp: lua_insert_def)
  obtain a b xs where xs: "st = a # b # xs" using st by (cases st; cases "tl st") auto
  have co: "cx_co (ctxs s cx) = Some L" using s1 cx by (auto simp: sched_event_add_def split: if_splits)
  let ?args = "sv_args env type (drop 3 (wait_stack env i (a # b # xs)))"
  obtain q w r where q: "b = LUserdata q"
    and add: "sys_evq_sched_add (sv_levq env) L q type ?args 4 (evq_st s) = Some (w, r)"
    and r: "sched_event_result env L type msg i (wait_stack env i (a # b # xs)) ((set_stack L st s)\<lparr>evq_st := w\<rparr>) r
      = (s1, Inr n)"
    using s1 cx(2) unfolding sched_event_add_def set_stack_fields cx(1) option.case Let_def co xs fun_upd_same
    by (auto split: lua_value.splits bind_splits simp: wait_stack_eq)
  have "t_suspended (buffer s1 i)" using p s' by simp
  from sched_event_result_parked [OF r [unfolded wait_stack_eq] num _ _ this] ns
  have *: "n = length (stacks s1 L)" "\<exists>st'. stacks s1 L = a # LNumber (sv_num env i) # b # st'"
    "evq_st s1 = w" "\<exists>res. r = Inr res \<and> t_ev_op (buffer s1 i) = accepted_op res \<and> accepted_op res \<noteq> None" by auto
  then obtain st' res where "stacks s1 L = a # LNumber (sv_num env i) # b # st'" "r = Inr res"
    "t_ev_op (buffer s1 i) = accepted_op res" "accepted_op res \<noteq> None" by blast
  then have "stacks s' L = a # LNumber (sv_num env i) # LUserdata q # st'" "evq_st s' = w"
    "t_ev_op (buffer s' i) = accepted_op res" "accepted_op res \<noteq> None"
    "sys_evq_sched_add (sv_levq env) L q type ?args 4 (evq_st s) = Some (w, Inr res)"
    using *(1,3) add q by (simp_all add: s')
  then show ?thesis by blast
qed

text \<open>
  Claim C10: a task that waits is woken by the event its request was given and by no other. When
  the event queue has accepted the request of a running task that is not marked for termination,
  the task leaves the lists as it yields, and its stack keeps the event queue that was asked. If the queue added the
  event at once, the task waits for exactly this event: its report puts the task at the end of
  the active list and takes the three values of the request off its stack, and the report of any
  other event leaves the scheduler as it is. If the queue is waiting and the request was posted,
  the task keeps the posted operation, and as soon as the queue reports the event it added for
  it, the task waits for that event in the same sense.
\<close>

theorem sched_wait_wakes:
  assumes q: "sched_quiet env" and inv: "sched_inv s act fre run" and i: "i \<in> run"
    and cx: "s_ctx s = Some cx" "cx_task_id (ctxs s cx) = i" and nt: "\<not> t_terminate (buffer s i)"
    and wait: "sched_wait_obj env L type cb os narg msg s = Some (s1, Inr ())"
    and acc: "t_suspended (buffer s1 i)"
    and aft: "sched_after env False i (sched_call_leave cx s1, LUA_YIELD) = (s2, r)"
  shows "sched_inv s2 act fre (run - {i}) \<and> (\<exists>q args res.
     stacks s2 L ! 2 = LUserdata q \<and>
     sys_evq_sched_add (sv_levq env) L q type args 4 (evq_st s) = Some (evq_st s2, Inr res) \<and>
     (case res of
        SchedAdded ev \<Rightarrow> wakes_on env L i act fre (run - {i}) ev s2
      | SchedPosted op \<Rightarrow> t_ev_op (buffer s2 i) = Some op \<and>
          (\<forall>ev. wakes_on env L i act fre (run - {i}) ev (sys_sched_event_added env L (Some ev) s2))
      | SchedFailed \<Rightarrow> False))"
proof -
  have i': "0 \<le> i" "i < buf_idx s" "\<not> t_suspended (buffer s i)" "t_ev_op (buffer s i) = None"
    using sched_invD(3,7) [OF inv] i by auto
  then have "in_int32 i" using sched_invD(5,6) [OF inv] by (auto simp: in_int32_def)
  then have num: "sv_int env (sv_num env i) = i" using q by (simp add: sched_quiet_def)
  from sched_wait_obj_task [OF wait num cx] obtain t where f: "sched_frame (set_task i (\<lambda>_. t) s) s1"
    and w: "waits_as (buffer s i) t" by blast
  have b: "buffer s1 i = t" using f by (simp add: sched_frame_def)
  have s2: "s2 = sched_call_leave cx s1" using aft acc w nt by (simp add: sched_after_def b waits_as_def)
  have "sched_inv (set_task i (\<lambda>_. t) s) act fre (run - {i})"
    by (rule sched_inv_park [OF inv i]) (use acc b w in \<open>auto simp: waits_as_def\<close>)
  then have inv2: "sched_inv s2 act fre (run - {i})"
    using sched_inv_frame [OF f] by (simp add: s2 sched_call_leave_inv)
  from sched_wait_obj_parked [OF wait num cx i'(3,4) acc] obtain a q st args res where
    st: "stacks s2 L = a # LNumber (sv_num env i) # LUserdata q # st"
    and add: "sys_evq_sched_add (sv_levq env) L q type args 4 (evq_st s) = Some (evq_st s2, Inr res)"
    and ev: "t_ev_op (buffer s2 i) = accepted_op res" "accepted_op res \<noteq> None"
    by (auto simp: s2 sched_call_leave_def set_ctx_def)
  have su: "t_suspended (buffer s2 i)" and ch: "sched_check_task_id s2 i"
    using acc f i' by (simp_all add: s2 sched_call_leave_def set_ctx_def sched_frame_def sched_check_task_id_def)
  have k: "stack_task env L s2 = i" using st num by (simp add: stack_task_def)
  note wk = parked_wakes [OF _ _ _ _ num, of _ act fre "run - {i}" L]
  have "case res of
        SchedAdded ev \<Rightarrow> wakes_on env L i act fre (run - {i}) ev s2
      | SchedPosted op \<Rightarrow> t_ev_op (buffer s2 i) = Some op \<and>
          (\<forall>ev. wakes_on env L i act fre (run - {i}) ev (sys_sched_event_added env L (Some ev) s2))
      | SchedFailed \<Rightarrow> False"
  proof (cases res)
    case (SchedAdded e)
    then show ?thesis using wk [OF inv2 ch _ st _ su] ev by simp
  next
    case (SchedPosted op)
    have "wakes_on env L i act fre (run - {i}) e (sys_sched_event_added env L (Some e) s2)" for e
    proof -
      let ?s = "sys_sched_event_added env L (Some e) s2"
      have eq: "?s = set_task i (\<lambda>t. t\<lparr>t_ev_op := Some e, t_ev_added := True\<rparr>) s2"
        by (simp add: sys_sched_event_added_def Let_def k)
      have "i \<notin> set act \<union> set fre \<union> (run - {i})" using sched_invD(7) [OF inv2, of i] su by auto
      then have "sched_inv ?s act fre (run - {i})"
        unfolding eq by (intro sched_inv_flags [OF inv2]) (use su in auto)
      from wk [OF this, of a "LUserdata q" st e] show ?thesis
        using st su ch by (simp add: eq sched_check_task_id_def)
    qed
    then show ?thesis using SchedPosted ev by simp
  next
    case SchedFailed
    then show ?thesis using ev by simp
  qed
  moreover have "stacks s2 L ! 2 = LUserdata q" using st by simp
  ultimately show ?thesis using inv2 add by blast
qed

text \<open>A task that runs in the context 7, while a thread waits in the loop of the event queue.\<close>

definition wait_demo :: scheduler where
  "wait_demo = sched_demo0\<lparr>has_buffer := True, buf_max := 32, buf_idx := 1, ntasks := 1,
     buffer := (\<lambda>_. task0)(0 := task0\<lparr>t_co := 5, t_started := True\<rparr>), coro_env := [0 \<mapsto> 5], s_ctx := Some 7,
     ctxs := (\<lambda>_. \<lparr>cx_co = Some 5, cx_task_id = 0\<rparr>),
     stacks := (\<lambda>_. [])(5 := [LUserdata 100, LUserdata 0, LNumber 50]),
     evq_st := evq_upd 0 (\<lambda>r. r\<lparr>evq_flags := EVQ_FLAG_WAITING\<rparr>) levq_demo\<rparr>"

lemma wait_demo_inv: "sched_inv wait_demo [] [] {0}"
  by (auto simp: sched_inv_def task_list_def wait_demo_def sched_demo0_def in_int32_def task0_def)

lemma wait_demo_waits:
  "\<exists>s1. sched_wait_timer sched_demo_env 5 LNil wait_demo = Some (s1, Inr ()) \<and> t_suspended (buffer s1 0)"
proof -
  let ?w = "evq_st wait_demo"
  obtain op w1 where n: "levq_new_event demo_buf 0 ?w = (w1, Inr op)"
    by (simp add: levq_new_event_def Let_def wait_demo_def levq_demo_def evq_upd_def zero_defs
        EVQ_ENV_BUF_IDX_def EVQ_ENV_BUF_MAX_def)
  have f: "flag_on (evq_flags (evqs ?w 0)) EVQ_FLAG_WAITING"
    by (simp add: wait_demo_def evq_upd_def flag_on_def EVQ_FLAG_WAITING_def)
  have d: "s_ctx wait_demo = Some 7" "ctxs wait_demo 7 = \<lparr>cx_co = Some 5, cx_task_id = 0\<rparr>"
    "stacks wait_demo 5 = [LUserdata 100, LUserdata 0, LNumber 50]" "\<not> t_ev_added (buffer wait_demo 0)"
    by (simp_all add: wait_demo_def task0_def)
  show ?thesis
    using n f d
    by (simp add: sched_wait_timer_def sched_wait_obj_def sched_event_add_def sys_evq_sched_add_def
        lua_settop_def lua_insert_def wait_stack_def sched_event_result_def sched_event_wait_def Let_def
        sched_demo_env_def levq_demo_env_def)
qed

theorem sched_wait_wakes_witness:
  "\<exists>s1 s2 s3 ev. sched_wait_timer sched_demo_env 5 LNil wait_demo = Some (s1, Inr ()) \<and>
     sched_inv s2 [] [] {} \<and> wakes_on sched_demo_env 5 0 [] [] {} ev s3 \<and>
     (s3 = s2 \<or> s3 = sys_sched_event_added sched_demo_env 5 (Some ev) s2)"
proof -
  obtain s1 where s1: "sched_wait_timer sched_demo_env 5 LNil wait_demo = Some (s1, Inr ())"
    "t_suspended (buffer s1 0)" using wait_demo_waits by blast
  obtain s2 r where aft: "sched_after sched_demo_env False 0 (sched_call_leave 7 s1, LUA_YIELD) = (s2, r)"
    by fastforce
  have d: "s_ctx wait_demo = Some 7" "cx_task_id (ctxs wait_demo 7) = 0" "\<not> t_terminate (buffer wait_demo 0)"
    by (simp_all add: wait_demo_def task0_def)
  have e: "{0} - {0} = ({} :: int set)" by simp
  from sched_wait_wakes [OF sched_demo_quiet wait_demo_inv singletonI d s1(1) [unfolded sched_wait_timer_def] s1(2) aft,
      unfolded e]
  obtain res where i: "sched_inv s2 [] [] {}" and c: "case res of
        SchedAdded ev \<Rightarrow> wakes_on sched_demo_env 5 0 [] [] {} ev s2
      | SchedPosted op \<Rightarrow> t_ev_op (buffer s2 0) = Some op \<and>
          (\<forall>ev. wakes_on sched_demo_env 5 0 [] [] {} ev (sys_sched_event_added sched_demo_env 5 (Some ev) s2))
      | SchedFailed \<Rightarrow> False" by blast
  show ?thesis using s1(1) i c by (cases res) auto
qed

section \<open>Two ways to break the table\<close>

text \<open>
  Claim C35: a task that has asked for its own termination and then suspends itself is freed with
  its mark of suspension, so that a later \<open>sched_resume\<close> of its number succeeds and links the
  freed task into the active list while it still is the first of the free list. No lists satisfy
  the invariant any more: the next put hands out a task that is active.
\<close>

theorem sched_terminated_suspend_corrupts:
  assumes q: "sched_quiet env" and inv: "sched_inv s act [] run" and i: "i \<in> run"
    and cx: "s_ctx s = Some cx" "cx_task_id (ctxs s cx) = i" and ter: "t_terminate (buffer s i)"
    and co: "t_co (buffer s i) = L"
  shows "\<exists>s1 s2 r s3. sched_suspend L s = (s1, Inr ()) \<and>
    sched_after env False i (sched_call_leave cx s1, LUA_YIELD) = (s2, r) \<and>
    sched_resume i [] s2 = (s3, Inr ()) \<and>
    task_list (buffer s3) (active_task_id s3) (act @ [i]) \<and> free_task_id s3 = i \<and>
    (\<nexists>act' fre' run'. sched_inv s3 act' fre' run')"
proof -
  have i': "0 \<le> i" "i < buf_idx s" "i \<notin> set act" "t_ev_op (buffer s i) = None" "\<not> t_suspended (buffer s i)"
    using sched_invD(2,3,7) [OF inv] i by auto
  let ?f = "\<lambda>t. t\<lparr>t_suspended := True\<rparr>"
  let ?s1 = "set_stack L [] (set_task i ?f s)"
  have s1: "sched_suspend L s = (?s1, Inr ())"
    using cx co i' by (simp add: sched_suspend_def Let_def)
  obtain s2 raised where del: "sched_task_del env i False (sched_call_leave cx ?s1) = (s2, raised)" by fastforce
  then have aft: "sched_after env False i (sched_call_leave cx ?s1, LUA_YIELD) = (s2, if raised then Throw else Again)"
    using ter by (simp add: sched_after_def)
  have "sched_lists (sched_call_leave cx ?s1) act []"
    using sched_invD(1) [OF inv]
    by (simp add: sched_lists_def sched_call_leave_def set_ctx_def two_lists_upd)
  from sched_lists_free_add [OF this, of i] i'
  have "sched_lists (free_add i (sched_call_leave cx ?s1)) act [i]" by simp
  moreover have f: "buffer s2 = buffer (free_add i (sched_call_leave cx ?s1))" "buf_idx s2 = buf_idx s"
    "active_task_id s2 = active_task_id s" "free_task_id s2 = free_task_id (free_add i (sched_call_leave cx ?s1))"
    using sched_task_del_frame [OF q del] by (simp_all add: sched_frame_def sched_call_leave_def set_ctx_def)
  ultimately have l2: "sched_lists s2 act [i]"
    by (simp add: sched_lists_def sched_call_leave_def set_ctx_def)
  let ?s3 = "set_task i (\<lambda>t. t\<lparr>t_suspended := False\<rparr>) (active_add i s2)"
  have res: "sched_resume i [] s2 = (?s3, Inr ())"
    using i' f by (simp add: sched_resume_def sched_check_task_id_def Let_def)
  have "task_list (buffer (active_add i s2)) (active_task_id (active_add i s2)) (act @ [i])"
    using task_list_add [of "buffer s2" "active_task_id s2" act i] l2 i'
    by (simp add: sched_lists_def two_lists_def active_add_def split_beta)
  then have l3: "task_list (buffer ?s3) (active_task_id ?s3) (act @ [i])"
    using task_list_cong [of "act @ [i]" "buffer ?s3" "buffer (active_add i s2)"] by simp
  have fr: "free_task_id ?s3 = i" using sched_listsD(5) [OF l2] by simp
  have "\<not> sched_inv ?s3 act' fre' run'" for act' fre' run'
  proof
    assume inv': "sched_inv ?s3 act' fre' run'"
    note L = sched_listsD [OF sched_invD(1) [OF inv']]
    have "i \<in> set fre'" using L(5) fr i'(1) by (cases fre') auto
    moreover have "act' = act @ [i]"
      by (rule task_list_unique [OF _ l3]) (use inv' in \<open>simp add: sched_inv_def\<close>)
    ultimately show False using L(3) by auto
  qed
  with s1 aft res l3 fr show ?thesis by blast
qed

theorem sched_terminated_suspend_corrupts_witness:
  "\<exists>s1 s2 r s3. sched_suspend 5 (set_task 0 (\<lambda>t. t\<lparr>t_terminate := True\<rparr>) wait_demo) = (s1, Inr ()) \<and>
    sched_after sched_demo_env False 0 (sched_call_leave 7 s1, LUA_YIELD) = (s2, r) \<and>
    sched_resume 0 [] s2 = (s3, Inr ()) \<and> free_task_id s3 = 0 \<and> active_task_id s3 = 0"
proof -
  let ?s = "set_task 0 (\<lambda>t. t\<lparr>t_terminate := True\<rparr>) wait_demo"
  have i: "sched_inv ?s [] [] {0}"
    by (rule sched_inv_flags [OF wait_demo_inv]) (auto simp: wait_demo_def task0_def)
  have d: "s_ctx ?s = Some 7" "cx_task_id (ctxs ?s 7) = 0" "t_terminate (buffer ?s 0)" "t_co (buffer ?s 0) = 5"
    by (simp_all add: wait_demo_def set_task_def task_upd_def)
  note c = sched_terminated_suspend_corrupts [OF sched_demo_quiet i singletonI d]
  have "active_task_id s3 = 0" if "task_list (buffer s3) (active_task_id s3) ([] @ [0])" for s3 :: scheduler
    using that by (simp add: task_list_def)
  with c show ?thesis by blast
qed

text \<open>
  Claim C36: a worker that is interrupted while it waits leaves \<open>sched_loop\<close> by an error that skips
  the end of the function: the worker stays counted in \<open>nworkers\<close>, and both the thread and the
  scheduler keep pointing to the context on the stack of the dead call.
\<close>

theorem sched_loop_interrupt_leaks:
  assumes "active_task_id s = -1" "\<not> s_stop s" "s_evq s = None" and "nworkers s < 65535"
    and flags: "sv_flags env 0 = SYS_THREAD_INTERRUPT"
    and wait: "\<And>t s. loop_frame s (fst (sv_wait env 0 t s)) \<and> s_ctx (fst (sv_wait env 0 t s)) = s_ctx s"
  shows "\<exists>s'. sched_loop env (Some td) cx timeout False once s = Some (s', Inr SchedUnwound) \<and>
    nworkers s' = Suc (nworkers s) \<and> td_ctx s' td = Some cx \<and> s_ctx s' = Some cx"
proof -
  let ?t = "case timeout of None \<Rightarrow> TIMEOUT_INFINITE | Some ms \<Rightarrow> ms"
  let ?e = "sched_enter td cx s"
  let ?w = "?e\<lparr>nwaiters := (nwaiters ?e + 1) mod 65536\<rparr>"
  obtain s1 res where w: "sv_wait env 0 ?t ?w = (s1, res)" by fastforce
  have f: "loop_frame ?w s1" "s_ctx s1 = s_ctx ?w" using wait [of ?w ?t] by (simp_all only: w fst_conv)
  have e: "active_task_id ?e = -1" "\<not> s_stop ?e" "s_evq ?e = None"
    using assms(1-3) by (simp_all add: sched_enter_def set_ctx_def)
  let ?s2 = "s1\<lparr>nwaiters := (nwaiters s1 + 65535) mod 65536\<rparr>"
  have idle: "sched_idle env td ?t 0 ?e = (?s2, Throw)"
    using e(3) flags w
    by (simp add: sched_idle_def sys_thread_check_def SYS_THREAD_INTERRUPT_def SYS_THREAD_TERMINATE_def Let_def)
  have "sched_round env td cx ?t False once 0 ?e = (?s2, Throw)"
    using e by (simp add: sched_round_def idle)
  then have "sched_rounds (sched_round env td cx ?t False once) 0 ?e = Some (?s2, None)"
    by (subst sched_rounds.simps) simp
  then have "sched_loop env (Some td) cx timeout False once s = Some (?s2, Inr SchedUnwound)"
    by (simp add: sched_loop_def)
  moreover have "nworkers ?s2 = Suc (nworkers s)" "td_ctx ?s2 td = Some cx" "s_ctx ?s2 = Some cx"
    using f assms(4) by (simp_all add: loop_frame_def sched_enter_def set_ctx_def)
  ultimately show ?thesis by blast
qed

theorem sched_loop_interrupt_leaks_witness:
  "\<exists>s'. sched_loop (sched_demo_env\<lparr>sv_flags := (\<lambda>_. SYS_THREAD_INTERRUPT)\<rparr>) (Some 9) 7 None False False sched_demo0
     = Some (s', Inr SchedUnwound) \<and> nworkers s' = 1 \<and> td_ctx s' 9 = Some 7"
proof -
  have "active_task_id sched_demo0 = -1" "\<not> s_stop sched_demo0" "s_evq sched_demo0 = None" "nworkers sched_demo0 = 0"
    by (simp_all add: sched_demo0_def)
  then show ?thesis
    using sched_loop_interrupt_leaks [of sched_demo0 "sched_demo_env\<lparr>sv_flags := (\<lambda>_. SYS_THREAD_INTERRUPT)\<rparr>" 9 7 None False]
    by (simp add: sched_demo_env_def) blast
qed

end
