(* ===== verification/Membuf.thy ===== *)
theory Membuf
  imports Lua_Api
begin

text \<open>
  Memory buffers, src/src/mem/sys_mem.c and membuf.c: typed access to raw memory, the buffers
  other modules read from and write to, and the streams on top of a buffer. Memory is one map
  from addresses to bytes. Allocation, memory mapping, the associated stream objects and the
  conversions between C and Lua numbers are the functions of a record \<open>mem_env\<close>; the bytes of a
  buffer, its bounds and the growth of a buffer are modelled as they are.
\<close>

section \<open>State\<close>

definition BUFF_INITIALSIZE :: int where "BUFF_INITIALSIZE = 128"
definition MEM_TYPE_SHIFT :: nat where "MEM_TYPE_SHIFT = 8"

definition MEM_TCHAR :: u32 where "MEM_TCHAR = 0x001"
definition MEM_TUCHAR :: u32 where "MEM_TUCHAR = 0x101"
definition MEM_TSHORT :: u32 where "MEM_TSHORT = 0x202"
definition MEM_TUSHORT :: u32 where "MEM_TUSHORT = 0x302"
definition MEM_TINT :: u32 where "MEM_TINT = 0x404"
definition MEM_TUINT :: u32 where "MEM_TUINT = 0x504"
definition MEM_TLONG :: u32 where "MEM_TLONG = 0x608"
definition MEM_TULONG :: u32 where "MEM_TULONG = 0x708"
definition MEM_TFLOAT :: u32 where "MEM_TFLOAT = 0x804"
definition MEM_TDOUBLE :: u32 where "MEM_TDOUBLE = 0x908"
definition MEM_TNUMBER :: u32 where "MEM_TNUMBER = 0xA08"
definition MEM_TBITSTRING :: u32 where "MEM_TBITSTRING = 0xB01"
definition MEM_SIZE_MASK :: u32 where "MEM_SIZE_MASK = 0x00FF"
definition MEM_TYPE_MASK :: u32 where "MEM_TYPE_MASK = 0xFFFF"
definition MEM_UDATA :: u32 where "MEM_UDATA = 0x010000"
definition MEM_ALLOC :: u32 where "MEM_ALLOC = 0x020000"
definition MEM_MAP :: u32 where "MEM_MAP = 0x080000"
definition MEM_ISTREAM :: u32 where "MEM_ISTREAM = 0x100000"
definition MEM_OSTREAM :: u32 where "MEM_OSTREAM = 0x200000"
definition MEM_ISTREAM_BUFIO :: u32 where "MEM_ISTREAM_BUFIO = 0x400000"
definition MEM_OSTREAM_BUFIO :: u32 where "MEM_OSTREAM_BUFIO = 0x800000"

lemmas mem_type_defs = MEM_TCHAR_def MEM_TUCHAR_def MEM_TSHORT_def MEM_TUSHORT_def MEM_TINT_def
  MEM_TUINT_def MEM_TLONG_def MEM_TULONG_def MEM_TFLOAT_def MEM_TDOUBLE_def MEM_TNUMBER_def
  MEM_TBITSTRING_def MEM_SIZE_MASK_def MEM_TYPE_MASK_def

lemmas mem_flag_defs = MEM_UDATA_def MEM_ALLOC_def MEM_MAP_def MEM_ISTREAM_def MEM_OSTREAM_def
  MEM_ISTREAM_BUFIO_def MEM_OSTREAM_BUFIO_def

definition type_flags :: "u32 list" where
  "type_flags = [MEM_TCHAR, MEM_TUCHAR, MEM_TSHORT, MEM_TUSHORT, MEM_TINT, MEM_TUINT, MEM_TLONG,
     MEM_TULONG, MEM_TFLOAT, MEM_TDOUBLE, MEM_TNUMBER, MEM_TBITSTRING]"

definition type_names :: "string list" where
  "type_names = [''char'', ''uchar'', ''short'', ''ushort'', ''int'', ''uint'', ''long'', ''ulong'',
     ''float'', ''double'', ''number'', ''bitstring'']"

record membuf =
  mb_data :: ptr
  mb_len :: int
  mb_offset :: int
  mb_flags :: u32

text \<open>
  The memory, the buffers by address, the streams in the environment of a buffer (\<open>MEM_INPUT\<close> and
  \<open>MEM_OUTPUT\<close>), and what was given to \<open>free\<close> and \<open>munmap\<close>.
\<close>

record mem_store =
  mheap :: mem
  mbufs :: "nat \<Rightarrow> membuf"
  mb_input :: "nat \<Rightarrow> lua_value"
  mb_output :: "nat \<Rightarrow> lua_value"
  mfreed :: "nat list"
  munmapped :: "(nat \<times> int) list"

text \<open>
  \<open>mv_malloc\<close> and \<open>mv_realloc\<close> give the address of a block and the memory after the call.
  \<open>mv_write\<close> and \<open>mv_read k\<close> call the method of a stream with the buffer itself or with
  bytes; \<open>mv_bufio\<close> tells whether a stream works on buffers. \<open>mv_num\<close>, \<open>mv_trunc\<close>,
  \<open>mv_of_float\<close> and \<open>mv_to_float\<close> convert between Lua numbers, integers and the four bytes of a
  \<open>float\<close>. \<open>mv_fstat\<close>, \<open>mv_mmap\<close> and \<open>mv_msync\<close> are the system calls.
\<close>

record mem_env =
  mv_malloc :: "mem_store \<Rightarrow> nat \<Rightarrow> (mem \<times> nat) option"
  mv_realloc :: "mem_store \<Rightarrow> ptr \<Rightarrow> nat \<Rightarrow> (mem \<times> nat) option"
  mv_write :: "nat \<Rightarrow> byte list option \<Rightarrow> mem_store \<Rightarrow> mem_store \<times> bool"
  mv_read :: "nat \<Rightarrow> nat \<Rightarrow> nat option \<Rightarrow> bool \<Rightarrow> mem_store \<Rightarrow> mem_store \<times> lua_value"
  mv_bufio :: "lua_value \<Rightarrow> bool"
  mv_num :: "int \<Rightarrow> 64 word"
  mv_trunc :: "64 word \<Rightarrow> int"
  mv_of_float :: "byte list \<Rightarrow> 64 word"
  mv_to_float :: "64 word \<Rightarrow> byte list"
  mv_fstat :: "int \<Rightarrow> nat option"
  mv_mmap :: "nat \<Rightarrow> bool \<Rightarrow> bool \<Rightarrow> bool \<Rightarrow> int \<Rightarrow> int \<Rightarrow> nat option"
  mv_msync :: "nat \<Rightarrow> int \<Rightarrow> bool"

definition mb_upd :: "nat \<Rightarrow> (membuf \<Rightarrow> membuf) \<Rightarrow> mem_store \<Rightarrow> mem_store" where
  "mb_upd m f st = st\<lparr>mbufs := (mbufs st)(m := f (mbufs st m))\<rparr>"

text \<open>The conversion of an \<open>int\<close> to \<open>size_t\<close>.\<close>

definition to_size :: "int \<Rightarrow> nat" where
  "to_size x = nat (x mod 18446744073709551616)"

definition memisptr :: "membuf \<Rightarrow> bool" where
  "memisptr mb \<longleftrightarrow> \<not> flag_on (mb_flags mb) (MEM_UDATA OR MEM_ALLOC OR MEM_MAP)"

definition memtype :: "membuf \<Rightarrow> u32" where
  "memtype mb = mb_flags mb AND MEM_TYPE_MASK"

definition memtypesize :: "membuf \<Rightarrow> int" where
  "memtypesize mb = uint (mb_flags mb AND MEM_SIZE_MASK)"

text \<open>The product of two \<open>int\<close>s, which wraps.\<close>

definition memlen :: "u32 \<Rightarrow> int \<Rightarrow> int" where
  "memlen ty nitems =
     (if ty \<noteq> MEM_TBITSTRING then wrap32 (nitems * uint (ty AND MEM_SIZE_MASK)) else nitems div 8 + 1)"

section \<open>Appending to a buffer\<close>

text \<open>\<open>stream_write\<close>: the buffered bytes go to the output stream.\<close>

definition stream_write :: "mem_env \<Rightarrow> nat \<Rightarrow> mem_store \<Rightarrow> (mem_store \<times> bool) option" where
  "stream_write env m st =
     (let mb = mbufs st m; bufio = flag_on (mb_flags mb) MEM_OSTREAM_BUFIO
      in if bufio then
           Some (mv_write env m None st)
         else do {
           d \<leftarrow> (if mb_offset mb = 0 then Some 0 else mb_data mb);
           (case mv_write env m (Some (read_bytes (mheap st) d (to_size (mb_offset mb)))) st of (st1, res) \<Rightarrow>
              Some (if res then mb_upd m (\<lambda>b. b\<lparr>mb_offset := 0\<rparr>) st1 else st1, res))
         })"

text \<open>\<open>while ((len *= 2) <= newlen)\<close> on \<open>size_t\<close>.\<close>

partial_function (option) membuf_grow :: "nat \<Rightarrow> nat \<Rightarrow> nat option" where
  "membuf_grow len newlen =
     (let len' = (len * 2) mod 18446744073709551616
      in if len' \<le> newlen then membuf_grow len' newlen else Some len')"

text \<open>
  The end of \<open>membuf_addlstring\<close>: copy the bytes, if there are any. The address is a null
  dereference when the buffer has no data.
\<close>

definition membuf_store :: "nat \<Rightarrow> byte list option \<Rightarrow> int \<Rightarrow> mem_store \<Rightarrow> mem_store option" where
  "membuf_store m s offset st =
     (case s of
        None \<Rightarrow> Some st
      | Some bs \<Rightarrow> do {
          d \<leftarrow> mb_data (mbufs st m);
          Some (mb_upd m (\<lambda>b. b\<lparr>mb_offset := wrap32 (offset + int (length bs))\<rparr>)
                  (st\<lparr>mheap := write_bytes (mheap st) (nat (int d + offset)) bs\<rparr>))
        })"

text \<open>The new block of a buffer that has to grow: \<open>None\<close> inside says that it cannot.\<close>

definition membuf_enlarge :: "mem_env \<Rightarrow> nat \<Rightarrow> bool \<Rightarrow> nat \<Rightarrow> nat \<Rightarrow> mem_store \<Rightarrow> mem_store option option" where
  "membuf_enlarge env m alloc len newlen st =
     do {
       len' \<leftarrow> membuf_grow len newlen;
       Some (if \<not> alloc then None
             else (case mv_realloc env st (mb_data (mbufs st m)) len' of
                 None \<Rightarrow> None
               | Some (h, p) \<Rightarrow>
                   Some (mb_upd m (\<lambda>b. b\<lparr>mb_len := wrap32 (int len'), mb_data := Some p\<rparr>) (st\<lparr>mheap := h\<rparr>))))
     }"

text \<open>
  \<open>membuf_addlstring\<close> with the bytes \<open>s\<close> (or NULL) and their number. \<open>None\<close>: the loop does not
  end, or NULL is dereferenced.
\<close>

definition membuf_addlstring :: "mem_env \<Rightarrow> nat \<Rightarrow> byte list option \<Rightarrow> nat \<Rightarrow> mem_store \<Rightarrow>
    (mem_store \<times> bool) option" where
  "membuf_addlstring env m s sz st =
     (let mb = mbufs st m;
          len = to_size (mb_len mb);
          newlen = (to_size (mb_offset mb) + sz) mod 18446744073709551616;
          alloc = flag_on (mb_flags mb) MEM_ALLOC
      in if newlen \<ge> len then do {
           (st1, written) \<leftarrow> (if flag_on (mb_flags mb) MEM_OSTREAM then stream_write env m st else Some (st, False));
           let offset = (if written then mb_offset (mbufs st1 m) else mb_offset mb);
           let len1 = (if written then to_size (mb_len (mbufs st1 m)) else len);
           if written \<and> sz < (len1 + 18446744073709551616 - to_size offset) mod 18446744073709551616
           then do { st2 \<leftarrow> membuf_store m s offset st1; Some (st2, True) }
           else do {
             r \<leftarrow> membuf_enlarge env m alloc len1 newlen st1;
             (case r of
                None \<Rightarrow> Some (st1, False)
              | Some st2 \<Rightarrow> do { st3 \<leftarrow> membuf_store m s offset st2; Some (st3, True) })
           }
         }
         else do { st1 \<leftarrow> membuf_store m s (mb_offset mb) st; Some (st1, True) })"

section \<open>Streams\<close>

text \<open>\<open>membuf_write\<close> over the arguments from the second on; the strings of length 0 are skipped.\<close>

fun membuf_write :: "mem_env \<Rightarrow> nat \<Rightarrow> byte list list \<Rightarrow> mem_store \<Rightarrow> (mem_store \<times> bool) option" where
  "membuf_write env m [] st = Some (st, True)"
| "membuf_write env m (s # ss) st =
     (if s = [] then membuf_write env m ss st
      else do {
        (st1, ok) \<leftarrow> membuf_addlstring env m (Some s) (length s) st;
        if ok then membuf_write env m ss st1 else Some (st1, False)
      })"

definition newline :: byte where "newline = 10"

definition membuf_writeln :: "mem_env \<Rightarrow> nat \<Rightarrow> byte list list \<Rightarrow> mem_store \<Rightarrow> (mem_store \<times> bool) option" where
  "membuf_writeln env m ss st = membuf_write env m (ss @ [[newline]]) st"

definition membuf_tostring :: "nat \<Rightarrow> int option \<Rightarrow> int \<Rightarrow> mem_store \<Rightarrow> byte list option" where
  "membuf_tostring m num off st =
     do {
       d \<leftarrow> mb_data (mbufs st m);
       let len = (case num of Some n \<Rightarrow> n | None \<Rightarrow> mb_offset (mbufs st m));
       Some (read_bytes (mheap st) (nat (int d + off)) (to_size len))
     }"

definition membuf_seek :: "nat \<Rightarrow> int option \<Rightarrow> mem_store \<Rightarrow> mem_store \<times> int option" where
  "membuf_seek m arg st =
     (case arg of
        Some off \<Rightarrow> (mb_upd m (\<lambda>b. b\<lparr>mb_offset := wrap32 off\<rparr>) st, None)
      | None \<Rightarrow> (st, Some (mb_offset (mbufs st m))))"

text \<open>\<open>membuf_assosiate\<close> for the input (\<open>True\<close>) or the output stream.\<close>

definition membuf_assosiate :: "mem_env \<Rightarrow> nat \<Rightarrow> bool \<Rightarrow> lua_value \<Rightarrow> mem_store \<Rightarrow> mem_store" where
  "membuf_assosiate env m input stream st =
     (let ty = (if input then MEM_ISTREAM else MEM_OSTREAM);
          bufio = (if input then MEM_ISTREAM_BUFIO else MEM_OSTREAM_BUFIO);
          st1 = mb_upd m (\<lambda>b. b\<lparr>mb_flags :=
                   (if stream = LNil then clr_flag (mb_flags b) ty
                    else if mv_bufio env stream then set_flag (set_flag (mb_flags b) ty) bufio
                    else set_flag (mb_flags b) ty)\<rparr>) st
      in if input then st1\<lparr>mb_input := (mb_input st1)(m := stream)\<rparr>
         else st1\<lparr>mb_output := (mb_output st1)(m := stream)\<rparr>)"

definition membuf_output :: "mem_env \<Rightarrow> nat \<Rightarrow> lua_value \<Rightarrow> mem_store \<Rightarrow> mem_store" where
  "membuf_output env m stream st = membuf_assosiate env m False stream st"

definition membuf_input :: "mem_env \<Rightarrow> nat \<Rightarrow> lua_value \<Rightarrow> mem_store \<Rightarrow> mem_store" where
  "membuf_input env m stream st = membuf_assosiate env m True stream st"

text \<open>\<open>memmove\<close> of \<open>n\<close> bytes from \<open>p + l\<close> to \<open>p\<close>.\<close>

definition move_down :: "nat \<Rightarrow> nat \<Rightarrow> nat \<Rightarrow> mem \<Rightarrow> mem" where
  "move_down p l n h = write_bytes h p (read_bytes h (p + l) n)"

text \<open>\<open>read_bytes\<close> of the source; the largest \<open>size_t\<close> stands for all bytes and is not passed to the
  stream.\<close>

definition membuf_read_bytes :: "mem_env \<Rightarrow> nat \<Rightarrow> nat \<Rightarrow> mem_store \<Rightarrow> (mem_store \<times> lua_value) option" where
  "membuf_read_bytes env m l st =
     (let mb = mbufs st m; n = mb_offset mb
      in if n = 0 \<and> flag_on (mb_flags mb) MEM_ISTREAM then
           Some (mv_read env 0 m (if l = 18446744073709551615 then None else Some l)
                   (flag_on (mb_flags mb) MEM_ISTREAM_BUFIO) st)
         else
           (let k = min l (to_size n)
            in if k \<noteq> 0 then do {
                 p \<leftarrow> mb_data mb;
                 let n' = wrap32 (n - int k);
                 Some (mb_upd m (\<lambda>b. b\<lparr>mb_offset := n'\<rparr>)
                         (if n' \<noteq> 0 then st\<lparr>mheap := move_down p k (to_size n') (mheap st)\<rparr> else st),
                       LString (read_bytes (mheap st) p k))
               }
               else Some (st, LNil)))"

definition MEM_BUFLINE :: nat where "MEM_BUFLINE = 256"

text \<open>The bytes of a value as \<open>lua_tolstring\<close> gives them.\<close>

fun lua_bytes :: "lua_value \<Rightarrow> byte list" where
  "lua_bytes (LString bs) = bs"
| "lua_bytes _ = []"

text \<open>
  The loop of \<open>read_line\<close> over the input stream. It ends with the rest that is to be kept (after the
  newline), or with \<open>Inl\<close> when the buffer cannot grow.
\<close>

partial_function (option) read_line_loop :: "mem_env \<Rightarrow> nat \<Rightarrow> nat \<Rightarrow> mem_store \<Rightarrow>
    (mem_store \<times> (unit + byte list)) option" where
  "read_line_loop env m k st =
     (case mv_read env k m (Some MEM_BUFLINE) False st of (st1, v) \<Rightarrow>
        let s = lua_bytes v
        in if s = [] then Some (st1, Inr [])
           else if hd s = newline then Some (st1, Inr (tl s))
           else
             (let line = takeWhile (\<lambda>b. b \<noteq> newline) s
              in do {
                (st2, ok) \<leftarrow> membuf_addlstring env m (Some line) (length line) st1;
                if \<not> ok then Some (st2, Inl ())
                else if length line < length s then Some (st2, Inr (drop (Suc (length line)) s))
                else read_line_loop env m (Suc k) st2
              }))"

text \<open>The label \<open>end\<close> of \<open>read_line\<close>: the buffered bytes are the line, the rest is buffered again.\<close>

definition read_line_end :: "mem_env \<Rightarrow> nat \<Rightarrow> byte list \<Rightarrow> mem_store \<Rightarrow> (mem_store \<times> lua_value option) option" where
  "read_line_end env m rest st =
     do {
       let n = mb_offset (mbufs st m);
       v \<leftarrow> (if n \<noteq> 0 then do { p \<leftarrow> mb_data (mbufs st m); Some (LString (read_bytes (mheap st) p (to_size n))) }
             else Some LNil);
       let st1 = mb_upd m (\<lambda>b. b\<lparr>mb_offset := 0\<rparr>) st;
       if rest = [] then Some (st1, Some v)
       else do {
         (st2, ok) \<leftarrow> membuf_addlstring env m (Some rest) (length rest) st1;
         Some (st2, if ok then Some v else None)
       }
     }"

definition read_line :: "mem_env \<Rightarrow> nat \<Rightarrow> mem_store \<Rightarrow> (mem_store \<times> lua_value option) option" where
  "read_line env m st =
     do {
       let mb = mbufs st m;
       let n = to_size (mb_offset mb);
       bs \<leftarrow> (if n = 0 then Some [] else do { p \<leftarrow> mb_data mb; Some (read_bytes (mheap st) p n) });
       if newline \<in> set bs then do {
         p \<leftarrow> mb_data mb;
         let l = length (takeWhile (\<lambda>b. b \<noteq> newline) bs);
         let n' = n - (l + 1);
         Some (mb_upd m (\<lambda>b. b\<lparr>mb_offset := wrap32 (int n')\<rparr>)
                 (if n' \<noteq> 0 then st\<lparr>mheap := move_down p (l + 1) n' (mheap st)\<rparr> else st),
               Some (LString (take l bs)))
       }
       else if \<not> flag_on (mb_flags mb) MEM_ISTREAM then read_line_end env m [] st
       else do {
         (st1, r) \<leftarrow> read_line_loop env m 0 st;
         (case r of
            Inl _ \<Rightarrow> Some (st1, None)
          | Inr rest \<Rightarrow> read_line_end env m rest st1)
       }
     }"

text \<open>\<open>membuf_read\<close>: a count, or the second character of the mode.\<close>

datatype read_mode = ReadCount int | ReadMode char

definition membuf_read :: "mem_env \<Rightarrow> nat \<Rightarrow> read_mode \<Rightarrow> mem_store \<Rightarrow>
    (mem_store \<times> (lua_error + lua_value option)) option" where
  "membuf_read env m mode st =
     (case mode of
        ReadCount n \<Rightarrow> do { (st1, v) \<leftarrow> membuf_read_bytes env m (to_size n) st; Some (st1, Inr (Some v)) }
      | ReadMode c \<Rightarrow>
          if c = CHR ''l'' then do { (st1, r) \<leftarrow> read_line env m st; Some (st1, Inr r) }
          else if c = CHR ''a'' then
            do { (st1, v) \<leftarrow> membuf_read_bytes env m 18446744073709551615 st; Some (st1, Inr (Some v)) }
          else Some (st, Inl (ArgError 2 ''invalid option'')))"

definition mem_free :: "nat \<Rightarrow> mem_store \<Rightarrow> mem_store" where
  "mem_free m st =
     (let mb = mbufs st m in
      case mb_data mb of
        None \<Rightarrow> st
      | Some p \<Rightarrow>
          (let fl = mb_flags mb AND (MEM_ALLOC OR MEM_MAP);
               st1 = (if fl = MEM_ALLOC then st\<lparr>mfreed := p # mfreed st\<rparr>
                      else if fl = MEM_MAP then st\<lparr>munmapped := (p, mb_len mb) # munmapped st\<rparr>
                      else st)
           in mb_upd m (\<lambda>b. b\<lparr>mb_data := None, mb_flags := mb_flags b AND MEM_TYPE_MASK\<rparr>) st1))"

definition membuf_flush :: "mem_env \<Rightarrow> nat \<Rightarrow> bool \<Rightarrow> mem_store \<Rightarrow> (mem_store \<times> bool) option" where
  "membuf_flush env m is_close st =
     (if flag_on (mb_flags (mbufs st m)) MEM_OSTREAM then
        do {
          (st1, res) \<leftarrow> stream_write env m st;
          Some (if is_close then mem_free m st1 else st1, res)
        }
      else Some (st, True))"

definition membuf_close :: "mem_env \<Rightarrow> nat \<Rightarrow> mem_store \<Rightarrow> (mem_store \<times> bool) option" where
  "membuf_close env m st = membuf_flush env m True st"

section \<open>Buffers of other modules\<close>

text \<open>\<open>struct sys_buffer\<close>: where to read or write, how much, and the memory buffer behind it.\<close>

record sys_buffer =
  sb_ptr :: ptr
  sb_size :: nat
  sb_mb :: ptr

text \<open>The argument is a memory buffer, or a string that lies at an address.\<close>

datatype buf_arg = ArgMembuf nat | ArgString nat nat | ArgOther

definition sys_buffer_read_init :: "buf_arg \<Rightarrow> mem_store \<Rightarrow> sys_buffer option" where
  "sys_buffer_read_init arg st =
     (case arg of
        ArgMembuf m \<Rightarrow> Some \<lparr>sb_ptr = mb_data (mbufs st m), sb_size = to_size (mb_offset (mbufs st m)), sb_mb = Some m\<rparr>
      | ArgString p n \<Rightarrow> Some \<lparr>sb_ptr = Some p, sb_size = n, sb_mb = None\<rparr>
      | ArgOther \<Rightarrow> None)"

definition sys_buffer_read_next :: "sys_buffer \<Rightarrow> nat \<Rightarrow> mem_store \<Rightarrow> mem_store option" where
  "sys_buffer_read_next sb n st =
     (case sb_mb sb of
        None \<Rightarrow> Some st
      | Some m \<Rightarrow>
          (let mb = mbufs st m in
           if mb_offset mb = wrap32 (int n) then Some (mb_upd m (\<lambda>b. b\<lparr>mb_offset := 0\<rparr>) st)
           else do {
             p \<leftarrow> mb_data mb;
             let off = wrap32 (mb_offset mb - wrap32 (int n));
             Some (mb_upd m (\<lambda>b. b\<lparr>mb_offset := off\<rparr>) (st\<lparr>mheap := move_down p n (to_size off) (mheap st)\<rparr>))
           }))"

text \<open>\<open>buf\<close> is the caller's array with its length; without it the argument must be a memory buffer.\<close>

definition sys_buffer_write_init :: "buf_arg \<Rightarrow> nat option \<Rightarrow> nat \<Rightarrow> mem_store \<Rightarrow> lua_error + sys_buffer" where
  "sys_buffer_write_init arg buf buflen st =
     (case arg of
        ArgMembuf m \<Rightarrow>
          (let mb = mbufs st m
           in Inr \<lparr>sb_ptr = map_option (\<lambda>d. nat (int d + mb_offset mb)) (mb_data mb),
                   sb_size = to_size (mb_len mb - mb_offset mb), sb_mb = Some m\<rparr>)
      | _ \<Rightarrow> (case buf of
                None \<Rightarrow> Inl (ArgError 1 ''userdata expected'')
              | Some a \<Rightarrow> Inr \<lparr>sb_ptr = Some a, sb_size = buflen, sb_mb = None\<rparr>))"

text \<open>
  \<open>sys_buffer_write_next\<close> when the space is used up. With no memory buffer the bytes so far move
  from the caller's array \<open>buf\<close> to a block, that doubles each time; the source keeps the block and
  the number of bytes in it (\<open>osb\<close>) in the caller's array, which is not needed any more. The
  result is \<open>None\<close> inside when the space cannot grow.
\<close>

definition sys_buffer_write_next :: "mem_env \<Rightarrow> sys_buffer \<Rightarrow> nat \<Rightarrow> sys_buffer \<Rightarrow> nat \<Rightarrow> mem_store \<Rightarrow>
    (mem_store \<times> (sys_buffer \<times> sys_buffer) option) option" where
  "sys_buffer_write_next env sb buf osb buflen st =
     (case sb_mb sb of
        Some m \<Rightarrow>
          (let st1 = (if buflen = 0 then mb_upd m (\<lambda>b. b\<lparr>mb_offset := mb_len b\<rparr>) st else st) in
           do {
             (st2, ok) \<leftarrow> membuf_addlstring env m None buflen st1;
             let mb = mbufs st2 m;
             Some (st2, if \<not> ok then None
                        else Some (sb\<lparr>sb_ptr := map_option (\<lambda>d. nat (int d + mb_offset mb)) (mb_data mb),
                                      sb_size := to_size (mb_len mb - mb_offset mb)\<rparr>, osb))
           })
      | None \<Rightarrow>
          if sb_ptr sb = Some buf then
            (let n = sb_size sb in
             case mv_malloc env st (2 * n) of
               None \<Rightarrow> Some (st, None)
             | Some (h, p) \<Rightarrow>
                 Some (st\<lparr>mheap := write_bytes h p (read_bytes h buf n)\<rparr>,
                       Some (sb\<lparr>sb_ptr := Some (p + n)\<rparr>, osb\<lparr>sb_ptr := Some p, sb_size := n\<rparr>)))
          else
            (let n = 2 * sb_size osb in
             case mv_realloc env st (sb_ptr osb) (2 * n) of
               None \<Rightarrow> Some (st, None)
             | Some (h, p) \<Rightarrow>
                 Some (st\<lparr>mheap := h\<rparr>,
                       Some (sb\<lparr>sb_size := n, sb_ptr := Some (p + n)\<rparr>, osb\<lparr>sb_ptr := Some p, sb_size := n\<rparr>))))"

text \<open>The string that is returned, if there is no memory buffer.\<close>

definition sys_buffer_write_done :: "sys_buffer \<Rightarrow> nat option \<Rightarrow> sys_buffer \<Rightarrow> nat \<Rightarrow> mem_store \<Rightarrow>
    (mem_store \<times> byte list option) option" where
  "sys_buffer_write_done sb buf osb tail st =
     (case sb_mb sb of
        Some m \<Rightarrow> Some (mb_upd m (\<lambda>b. b\<lparr>mb_offset := wrap32 (mb_offset b + wrap32 (int tail))\<rparr>) st, None)
      | None \<Rightarrow>
          (case buf of
             None \<Rightarrow> Some (st, None)
           | Some a \<Rightarrow>
               if sb_ptr sb = Some a then Some (st, Some (read_bytes (mheap st) a tail))
               else do {
                 p \<leftarrow> sb_ptr osb;
                 Some (st\<lparr>mfreed := p # mfreed st\<rparr>, Some (read_bytes (mheap st) p ((sb_size osb + tail) mod 18446744073709551616)))
               }))"

section \<open>Typed memory\<close>

text \<open>\<open>mem_new\<close> at the address \<open>m\<close>; \<open>d\<close> is the address behind the structure.\<close>

definition mem_new :: "nat \<Rightarrow> nat \<Rightarrow> int \<Rightarrow> mem_store \<Rightarrow> mem_store" where
  "mem_new m d len st =
     (let n = to_size len in
      if n \<noteq> 0 then
        (st\<lparr>mheap := write_bytes (mheap st) d (replicate n 0)\<rparr>)
          \<lparr>mbufs := (mbufs st)(m := \<lparr>mb_data = Some d, mb_len = wrap32 (int n), mb_offset = 0, mb_flags = MEM_TCHAR OR MEM_UDATA\<rparr>)\<rparr>
      else st\<lparr>mbufs := (mbufs st)(m := \<lparr>mb_data = None, mb_len = 0, mb_offset = 0, mb_flags = MEM_TCHAR\<rparr>)\<rparr>)"

text \<open>\<open>mem_type\<close>: the number of the option in \<open>type_names\<close>, or the name of the type.\<close>

definition mem_type :: "nat \<Rightarrow> nat option \<Rightarrow> mem_store \<Rightarrow> mem_store \<times> string option" where
  "mem_type m arg st =
     (case arg of
        Some k \<Rightarrow> (mb_upd m (\<lambda>b. b\<lparr>mb_flags := (mb_flags b AND NOT MEM_TYPE_MASK) OR type_flags ! k\<rparr>) st, None)
      | None \<Rightarrow> (st, Some (type_names ! unat (drop_bit MEM_TYPE_SHIFT (memtype (mbufs st m))))))"

definition mem_typesize :: "nat \<Rightarrow> mem_store \<Rightarrow> int" where
  "mem_typesize m st = memtypesize (mbufs st m)"

definition mem_alloc :: "mem_env \<Rightarrow> nat \<Rightarrow> int option \<Rightarrow> bool \<Rightarrow> mem_store \<Rightarrow> mem_store \<times> bool" where
  "mem_alloc env m num zerofill st =
     (let len = (case num of Some n \<Rightarrow> n | None \<Rightarrow> BUFF_INITIALSIZE);
          st1 = mb_upd m (\<lambda>b. b\<lparr>mb_flags := set_flag (mb_flags b) MEM_ALLOC, mb_len := len, mb_offset := 0, mb_data := None\<rparr>) st
      in case mv_malloc env st (to_size len) of
           None \<Rightarrow> (st1, False)
         | Some (h, p) \<Rightarrow>
             (mb_upd m (\<lambda>b. b\<lparr>mb_data := Some p\<rparr>)
                (st1\<lparr>mheap := (if zerofill then write_bytes h p (replicate (to_size len) 0) else h)\<rparr>), True))"

definition mem_realloc :: "mem_env \<Rightarrow> nat \<Rightarrow> int \<Rightarrow> mem_store \<Rightarrow> mem_store \<times> bool" where
  "mem_realloc env m len st =
     (case mv_realloc env st (mb_data (mbufs st m)) (to_size len) of
        None \<Rightarrow> (st, False)
      | Some (h, p) \<Rightarrow> (mb_upd m (\<lambda>b. b\<lparr>mb_data := Some p, mb_len := len\<rparr>) (st\<lparr>mheap := h\<rparr>), True))"

definition mem_reserve :: "mem_env \<Rightarrow> nat \<Rightarrow> int \<Rightarrow> mem_store \<Rightarrow> (mem_store \<times> bool) option" where
  "mem_reserve env m len st = membuf_addlstring env m None (to_size len) st"

text \<open>
  \<open>mem_map\<close> in the POSIX build: \<open>fd\<close> is -1 for an anonymous mapping; the protection string selects
  reading and writing. \<open>False\<close>: an error is returned.
\<close>

definition map_prot :: "string option \<Rightarrow> bool \<times> bool" where
  "map_prot protstr =
     (case protstr of
        Some (c # cs) \<Rightarrow>
          if c = CHR ''w'' then (False, True)
          else (True, case cs of d # _ \<Rightarrow> d = CHR ''w'' | [] \<Rightarrow> False)
      | _ \<Rightarrow> (True, False))"

definition mem_map :: "mem_env \<Rightarrow> nat \<Rightarrow> int \<Rightarrow> string option \<Rightarrow> int \<Rightarrow> nat \<Rightarrow> bool \<Rightarrow> mem_store \<Rightarrow> mem_store \<times> bool" where
  "mem_map env m fd protstr off len is_private st =
     (let len' = (if len = 0 then
                    (if fd = -1 then None
                     else map_option (\<lambda>sz. min (nat ((int sz - off) mod 18446744073709551616)) 18446744073709551615)
                            (mv_fstat env fd))
                  else Some len)
      in case len' of
           None \<Rightarrow> (st, False)
         | Some n \<Rightarrow>
             (case mv_mmap env n (fst (map_prot protstr)) (snd (map_prot protstr)) is_private fd off of
                None \<Rightarrow> (st, False)
              | Some p \<Rightarrow>
                  (mb_upd m (\<lambda>b. b\<lparr>mb_flags := set_flag (mb_flags b) MEM_MAP, mb_len := wrap32 (int n), mb_data := Some p\<rparr>) st, True)))"

definition mem_sync :: "mem_env \<Rightarrow> nat \<Rightarrow> mem_store \<Rightarrow> bool option" where
  "mem_sync env m st =
     do { p \<leftarrow> mb_data (mbufs st m); Some (mv_msync env p (mb_len (mbufs st m))) }"

definition mem_memcpy :: "nat \<Rightarrow> nat \<Rightarrow> int \<Rightarrow> mem_store \<Rightarrow> mem_store option" where
  "mem_memcpy m src len st =
     do {
       d \<leftarrow> mb_data (mbufs st m);
       s \<leftarrow> mb_data (mbufs st src);
       Some (st\<lparr>mheap := write_bytes (mheap st) d (read_bytes (mheap st) s (to_size len))\<rparr>)
     }"

definition mem_memset :: "nat \<Rightarrow> int \<Rightarrow> int \<Rightarrow> mem_store \<Rightarrow> mem_store option" where
  "mem_memset m ch len st =
     do {
       d \<leftarrow> mb_data (mbufs st m);
       Some (st\<lparr>mheap := write_bytes (mheap st) d (replicate (to_size len) (word_of_int ch))\<rparr>)
     }"

definition mem_length :: "nat \<Rightarrow> int option \<Rightarrow> mem_store \<Rightarrow> mem_store \<times> (lua_error + int option)" where
  "mem_length m arg st =
     (case arg of
        None \<Rightarrow> (st, Inr (Some (mb_len (mbufs st m))))
      | Some n \<Rightarrow>
          if flag_on (mb_flags (mbufs st m)) MEM_MAP then (st, Inl (ArgError 1 ''membuf is mapped''))
          else (mb_upd m (\<lambda>b. b\<lparr>mb_len := wrap32 n\<rparr>) st, Inr None))"

text \<open>
  An address as the pointer arithmetic of the source computes it: \<open>memtypesize\<close> is unsigned, so
  that the product is an \<open>unsigned int\<close> and is never negative.
\<close>

definition elem_ptr :: "membuf \<Rightarrow> int \<Rightarrow> ptr" where
  "elem_ptr mb off =
     map_option (\<lambda>d. d + nat ((memtypesize mb * off) mod 4294967296)) (mb_data mb)"

definition mem_getptr :: "nat \<Rightarrow> int \<Rightarrow> mem_store \<Rightarrow> ptr" where
  "mem_getptr m off st = elem_ptr (mbufs st m) off"

definition mem_setptr :: "nat \<Rightarrow> ptr \<Rightarrow> int \<Rightarrow> mem_store \<Rightarrow> mem_store \<times> bool" where
  "mem_setptr m p off st =
     (if memisptr (mbufs st m) then (mb_upd m (\<lambda>b. b\<lparr>mb_data := p, mb_offset := off\<rparr>) st, True) else (st, False))"

definition mem_call :: "nat \<Rightarrow> int \<Rightarrow> nat option \<Rightarrow> mem_store \<Rightarrow> mem_store \<times> bool" where
  "mem_call m off target st =
     (let p = elem_ptr (mbufs st m) off;
          t = (case target of Some x \<Rightarrow> x | None \<Rightarrow> m)
      in if memisptr (mbufs st t) then (mb_upd t (\<lambda>b. b\<lparr>mb_data := p\<rparr>) st, True) else (st, False))"

text \<open>The bytes of an integer of \<open>k\<close> bytes, and its value as a signed or unsigned integer.\<close>

definition int_bytes :: "nat \<Rightarrow> int \<Rightarrow> byte list" where
  "int_bytes k z = le_bytes k (nat (z mod 256 ^ k))"

definition int_value :: "bool \<Rightarrow> byte list \<Rightarrow> int" where
  "int_value sg bs =
     (let v = int (le_val bs)
      in if sg \<and> 2 * v \<ge> 256 ^ length bs then v - 256 ^ length bs else v)"

text \<open>Signedness of the integer types; \<open>None\<close> for the others.\<close>

definition int_type :: "u32 \<Rightarrow> bool option" where
  "int_type ty =
     (if ty \<in> {MEM_TCHAR, MEM_TSHORT, MEM_TINT, MEM_TLONG} then Some True
      else if ty \<in> {MEM_TUCHAR, MEM_TUSHORT, MEM_TUINT, MEM_TULONG} then Some False
      else None)"

definition elem_addr :: "membuf \<Rightarrow> int \<Rightarrow> ptr" where
  "elem_addr mb off = map_option (\<lambda>d. nat (int d + memlen (memtype mb) off)) (mb_data mb)"

text \<open>\<open>mem_index\<close> with a number.\<close>

definition mem_index :: "mem_env \<Rightarrow> nat \<Rightarrow> int \<Rightarrow> mem_store \<Rightarrow> lua_value option" where
  "mem_index env m off st =
     do {
       let mb = mbufs st m;
       let ty = memtype mb;
       let k = unat (ty AND MEM_SIZE_MASK);
       p \<leftarrow> elem_addr mb off;
       Some (case int_type ty of
               Some sg \<Rightarrow> LNumber (mv_num env (int_value sg (read_bytes (mheap st) p k)))
             | None \<Rightarrow>
                 if ty = MEM_TFLOAT then LNumber (mv_of_float env (read_bytes (mheap st) p k))
                 else if ty = MEM_TBITSTRING then
                   LBool (bit (mheap st (p - 1)) (nat (off mod 8)))
                 else LNumber (word_of_nat (le_val (read_bytes (mheap st) p k))))
     }"

text \<open>\<open>mem_newindex\<close>, by the type of the value.\<close>

definition mem_newindex :: "mem_env \<Rightarrow> nat \<Rightarrow> int \<Rightarrow> lua_value \<Rightarrow> mem_store \<Rightarrow> (mem_store \<times> (lua_error + unit)) option" where
  "mem_newindex env m off v st =
     do {
       let mb = mbufs st m;
       let ty = memtype mb;
       let k = unat (ty AND MEM_SIZE_MASK);
       let put = (\<lambda>p bs. Some (st\<lparr>mheap := write_bytes (mheap st) p bs\<rparr>, Inr ()));
       (case v of
          LNumber x \<Rightarrow>
            if ty = MEM_TBITSTRING then Some (st, Inl (ArgError 3 ''boolean expected''))
            else do {
              p \<leftarrow> elem_addr mb off;
              put p (case int_type ty of
                       Some _ \<Rightarrow> int_bytes k (mv_trunc env x)
                     | None \<Rightarrow> if ty = MEM_TFLOAT then mv_to_float env x else le_bytes k (unat x))
            }
        | LBool b \<Rightarrow>
            if ty \<noteq> MEM_TBITSTRING then Some (st, Inl (ArgError 1 ''bitstring expected''))
            else do {
              p \<leftarrow> elem_addr mb off;
              put (p - 1) [if b then set_bit (nat (off mod 8)) (mheap st (p - 1))
                           else unset_bit (nat (off mod 8)) (mheap st (p - 1))]
            }
        | LString s \<Rightarrow> do { p \<leftarrow> elem_addr mb off; put p s }
        | _ \<Rightarrow> Some (st, Inl (ArgError 3 ''membuf value expected'')))
     }"

section \<open>Lemmas: growth\<close>

lemma to_size_nat [simp]: "to_size (int n) = n mod 18446744073709551616"
  by (simp add: to_size_def nat_mod_distrib)

lemma to_size_0 [simp]: "to_size 0 = 0"
  by (simp add: to_size_def)

lemma to_size_id: "0 \<le> x \<Longrightarrow> x < 18446744073709551616 \<Longrightarrow> to_size x = nat x"
  by (simp add: to_size_def)

lemma membuf_grow_spec:
  assumes "0 < len" and "len \<le> newlen" and "newlen < 4611686018427387904"
  shows "\<exists>l. membuf_grow len newlen = Some l \<and> newlen < l \<and> l \<le> 2 * newlen"
  using assms
proof (induction "newlen - len" arbitrary: len rule: less_induct)
  case less
  then have m: "(len * 2) mod 18446744073709551616 = len * 2" by simp
  show ?case
  proof (cases "len * 2 \<le> newlen")
    case True
    then show ?thesis
      using less.hyps [of "len * 2"] less.prems m by (subst membuf_grow.simps) (simp add: Let_def)
  next
    case False
    then show ?thesis using less.prems m by (subst membuf_grow.simps) (simp add: Let_def)
  qed
qed

text \<open>Doubling nothing gives nothing: the loop does not end for a buffer of length 0.\<close>

lemma membuf_grow_0: "membuf_grow 0 newlen = None"
proof -
  have "len \<noteq> 0" if "membuf_grow len newlen = Some l" for len newlen l
    using that
  proof (rule membuf_grow.raw_induct [where P = "\<lambda>len newlen l. len \<noteq> 0", rotated])
    fix f :: "nat \<Rightarrow> nat \<Rightarrow> nat option" and len newlen l :: nat
    assume IH: "\<And>len newlen l. f len newlen = Some l \<Longrightarrow> len \<noteq> 0"
      and eq: "(let len' = len * 2 mod 18446744073709551616 in if len' \<le> newlen then f len' newlen else Some len') = Some l"
    show "len \<noteq> 0"
    proof
      assume "len = 0"
      with eq have "f 0 newlen = Some l" by simp
      with IH [of 0 newlen l] show False by simp
    qed
  qed
  then show ?thesis by (cases "membuf_grow 0 newlen") auto
qed

section \<open>The bytes a buffer holds\<close>

text \<open>
  The buffer \<open>m\<close> is allocated, has no stream and holds the bytes \<open>bs\<close>, with room for one more. The
  bound keeps doubled lengths within \<open>int\<close>.
\<close>

definition mb_holds :: "mem_store \<Rightarrow> nat \<Rightarrow> byte list \<Rightarrow> bool" where
  "mb_holds st m bs \<longleftrightarrow>
     (let mb = mbufs st m in
      \<not> flag_on (mb_flags mb) MEM_ISTREAM \<and> \<not> flag_on (mb_flags mb) MEM_OSTREAM \<and> flag_on (mb_flags mb) MEM_ALLOC \<and>
      mb_offset mb = int (length bs) \<and> int (length bs) < mb_len mb \<and> mb_len mb < 1073741824 \<and>
      (\<exists>d. mb_data mb = Some d \<and> read_bytes (mheap st) d (length bs) = bs))"

text \<open>\<open>realloc\<close> keeps the bytes of the block that grows.\<close>

definition realloc_ok :: "mem_env \<Rightarrow> bool" where
  "realloc_ok env \<longleftrightarrow>
     (\<forall>st d len h p k. mv_realloc env st (Some d) len = Some (h, p) \<longrightarrow>
        (\<exists>m. mb_data (mbufs st m) = Some d \<and> int k \<le> mb_len (mbufs st m)) \<longrightarrow> k \<le> len \<longrightarrow>
        read_bytes h p k = read_bytes (mheap st) d k)"

lemma mb_upd_simps [simp]:
  "mbufs (mb_upd m f st) = (mbufs st)(m := f (mbufs st m))" "mheap (mb_upd m f st) = mheap st"
  by (simp_all add: mb_upd_def)

lemma mb_holdsD:
  assumes "mb_holds st m bs"
  obtains d where "mb_data (mbufs st m) = Some d" "read_bytes (mheap st) d (length bs) = bs"
    "mb_offset (mbufs st m) = int (length bs)" "int (length bs) < mb_len (mbufs st m)" "mb_len (mbufs st m) < 1073741824"
    "\<not> flag_on (mb_flags (mbufs st m)) MEM_ISTREAM" "\<not> flag_on (mb_flags (mbufs st m)) MEM_OSTREAM"
    "flag_on (mb_flags (mbufs st m)) MEM_ALLOC"
  using assms by (auto simp: mb_holds_def Let_def)

lemma read_write_append:
  assumes "read_bytes h d n = bs" and "n = length bs"
  shows "read_bytes (write_bytes h (d + n) s) d (n + length s) = bs @ s"
  using assms by (simp add: read_bytes_add read_write_disjoint)

text \<open>Storing the bytes behind those the buffer holds.\<close>

lemma membuf_store_holds:
  assumes h: "mb_holds st m bs" and fit: "int (length bs + length s) < mb_len (mbufs st m)"
  shows "\<exists>st'. membuf_store m (Some s) (int (length bs)) st = Some st' \<and> mb_holds st' m (bs @ s)"
proof -
  obtain d where d: "mb_data (mbufs st m) = Some d" "read_bytes (mheap st) d (length bs) = bs"
    "mb_offset (mbufs st m) = int (length bs)" "mb_len (mbufs st m) < 1073741824"
    "\<not> flag_on (mb_flags (mbufs st m)) MEM_ISTREAM" "\<not> flag_on (mb_flags (mbufs st m)) MEM_OSTREAM"
    "flag_on (mb_flags (mbufs st m)) MEM_ALLOC"
    using h by (elim mb_holdsD)
  have a: "nat (int d + int (length bs)) = d + length bs" by simp
  have w: "wrap32 (int (length bs) + int (length s)) = int (length bs) + int (length s)"
    using fit d(4) by (intro wrap32_id) (simp add: in_int32_def)
  show ?thesis
    using d fit read_write_append [OF d(2) refl, of s]
    by (simp add: membuf_store_def mb_holds_def w a Let_def)
qed

text \<open>
  \<open>need\<close> bytes do not fit the block of the buffer, and \<open>realloc\<close> refuses a block with room for
  them (of at most twice the size).
\<close>

definition no_room :: "mem_env \<Rightarrow> nat \<Rightarrow> nat \<Rightarrow> mem_store \<Rightarrow> bool" where
  "no_room env m need st \<longleftrightarrow> mb_len (mbufs st m) \<le> int need \<and>
     (\<exists>n. need < n \<and> n \<le> 2 * need \<and> mv_realloc env st (mb_data (mbufs st m)) n = None)"

lemma membuf_enlarge_holds:
  assumes h: "mb_holds st m bs" and ok: "realloc_ok env"
    and n: "nat (mb_len (mbufs st m)) \<le> newlen" "newlen < 536870912"
  shows "membuf_enlarge env m True (nat (mb_len (mbufs st m))) newlen st = Some None \<and> no_room env m newlen st \<or>
    (\<exists>st'. membuf_enlarge env m True (nat (mb_len (mbufs st m))) newlen st = Some (Some st') \<and>
       mb_holds st' m bs \<and> int newlen < mb_len (mbufs st' m) \<and> mb_len (mbufs st' m) \<le> 2 * int newlen)"
proof -
  obtain d where d: "mb_data (mbufs st m) = Some d" "read_bytes (mheap st) d (length bs) = bs"
    "mb_offset (mbufs st m) = int (length bs)" "int (length bs) < mb_len (mbufs st m)" "mb_len (mbufs st m) < 1073741824"
    "\<not> flag_on (mb_flags (mbufs st m)) MEM_ISTREAM" "\<not> flag_on (mb_flags (mbufs st m)) MEM_OSTREAM"
    "flag_on (mb_flags (mbufs st m)) MEM_ALLOC"
    using h by (elim mb_holdsD)
  obtain l where l: "membuf_grow (nat (mb_len (mbufs st m))) newlen = Some l" "newlen < l" "l \<le> 2 * newlen"
    using membuf_grow_spec [of "nat (mb_len (mbufs st m))" newlen] d(4) n by auto
  have w: "wrap32 (int l) = int l" using l(3) n(2) by (intro wrap32_id) (simp add: in_int32_def)
  show ?thesis
  proof (cases "mv_realloc env st (Some d) l")
    case None
    then show ?thesis using l d(1) n(1) by (auto simp: membuf_enlarge_def no_room_def)
  next
    case (Some r)
    then obtain h' p where r: "mv_realloc env st (Some d) l = Some (h', p)" by (cases r) auto
    have "length bs \<le> l" using d(4) n(1) l(2) by linarith
    moreover have "int (length bs) \<le> mb_len (mbufs st m)" using d(4) by simp
    ultimately have "read_bytes h' p (length bs) = bs"
      using ok r d(1,2) unfolding realloc_ok_def by metis
    then show ?thesis
      using l d n r by (auto simp: membuf_enlarge_def w mb_holds_def Let_def)
  qed
qed

lemma membuf_addlstring_holds:
  assumes h: "mb_holds st m bs" and ok: "realloc_ok env" and n: "length bs + length s < 536870912"
  shows "membuf_addlstring env m (Some s) (length s) st = Some (st, False) \<and>
      no_room env m (length bs + length s) st \<or>
    (\<exists>st'. membuf_addlstring env m (Some s) (length s) st = Some (st', True) \<and> mb_holds st' m (bs @ s))"
proof -
  obtain d where d: "mb_offset (mbufs st m) = int (length bs)" "int (length bs) < mb_len (mbufs st m)"
    "mb_len (mbufs st m) < 1073741824" "\<not> flag_on (mb_flags (mbufs st m)) MEM_OSTREAM"
    "flag_on (mb_flags (mbufs st m)) MEM_ALLOC"
    using h by (elim mb_holdsD)
  have l: "to_size (mb_len (mbufs st m)) = nat (mb_len (mbufs st m))" using d(2,3) by (intro to_size_id) auto
  have nl: "(length bs + length s) mod 18446744073709551616 = length bs + length s" using n by simp
  show ?thesis
  proof (cases "nat (mb_len (mbufs st m)) \<le> length bs + length s")
    case False
    then have "int (length bs + length s) < mb_len (mbufs st m)" by simp
    from membuf_store_holds [OF h this] show ?thesis
      using False by (auto simp: membuf_addlstring_def Let_def nl l d(1))
  next
    case True
    from membuf_enlarge_holds [OF h ok True n] show ?thesis
    proof (elim disjE exE conjE)
      assume "membuf_enlarge env m True (nat (mb_len (mbufs st m))) (length bs + length s) st = Some None"
        "no_room env m (length bs + length s) st"
      then show ?thesis using True d by (simp add: membuf_addlstring_def Let_def nl l)
    next
      fix st' assume e: "membuf_enlarge env m True (nat (mb_len (mbufs st m))) (length bs + length s) st = Some (Some st')"
        "mb_holds st' m bs" "int (length bs + length s) < mb_len (mbufs st' m)"
      from membuf_store_holds [OF e(2,3)] show ?thesis
        using e(1) True d by (auto simp: membuf_addlstring_def Let_def nl l)
    qed
  qed
qed

lemma read_move_down: "read_bytes (move_down p l n h) p n = read_bytes h (p + l) n"
  by (simp add: move_down_def)

text \<open>Taking the first \<open>k\<close> bytes.\<close>

lemma mb_holds_drop:
  assumes h: "mb_holds st m bs" and d: "mb_data (mbufs st m) = Some p" and k: "k \<le> length bs"
  shows "mb_holds (mb_upd m (\<lambda>b. b\<lparr>mb_offset := int (length bs - k)\<rparr>)
     (if length bs - k \<noteq> 0 then st\<lparr>mheap := move_down p k (length bs - k) (mheap st)\<rparr> else st)) m (drop k bs)"
proof -
  have "read_bytes (mheap st) p (length bs) = bs" using h d by (elim mb_holdsD) simp
  then have "read_bytes (mheap st) (p + k) (length bs - k) = drop k bs"
    by (metis read_bytes_drop)
  then show ?thesis using h d by (auto simp: mb_holds_def Let_def read_move_down)
qed

lemma length_small: "mb_holds st m bs \<Longrightarrow> length bs < 1073741824"
  by (elim mb_holdsD) simp

lemma membuf_read_bytes_holds:
  assumes h: "mb_holds st m bs"
  shows "\<exists>st'. membuf_read_bytes env m n st =
      Some (st', if n = 0 \<or> bs = [] then LNil else LString (take n bs)) \<and> mb_holds st' m (drop n bs)"
proof -
  obtain d where d: "mb_data (mbufs st m) = Some d" "read_bytes (mheap st) d (length bs) = bs"
    "mb_offset (mbufs st m) = int (length bs)" "\<not> flag_on (mb_flags (mbufs st m)) MEM_ISTREAM"
    using h by (elim mb_holdsD)
  have s: "to_size (int (length bs)) = length bs" "length bs mod 18446744073709551616 = length bs"
    using length_small [OF h] by simp_all
  show ?thesis
  proof (cases "n = 0 \<or> bs = []")
    case True
    then show ?thesis using h d by (auto simp: membuf_read_bytes_def Let_def)
  next
    case False
    define k where "k = min n (length bs)"
    have k: "k \<noteq> 0" "k \<le> length bs" "take n bs = take k bs" "drop n bs = drop k bs"
      using False by (auto simp: k_def min_def)
    have w: "wrap32 (int (length bs) - int k) = int (length bs - k)"
      using length_small [OF h] k(2) by (subst wrap32_id) (simp_all add: in_int32_def of_nat_diff)
    have m: "to_size (int (length bs) - int k) = length bs - k"
      using length_small [OF h] k(2) by (subst to_size_id) auto
    have "take k bs = read_bytes (mheap st) d k" using d(2) k(2) read_bytes_take by metis
    then show ?thesis
      using mb_holds_drop [OF h d(1) k(2)] False k(1,3,4) d
      by (simp add: membuf_read_bytes_def Let_def s k_def [symmetric] w m split: if_splits)
  qed
qed

lemma read_line_holds:
  assumes h: "mb_holds st m (line @ newline # rest)" and nl: "newline \<notin> set line"
  shows "\<exists>st'. read_line env m st = Some (st', Some (LString line)) \<and> mb_holds st' m rest"
proof -
  let ?bs = "line @ newline # rest" and ?k = "Suc (length line)"
  obtain d where d: "mb_data (mbufs st m) = Some d" "read_bytes (mheap st) d (length ?bs) = ?bs"
    "mb_offset (mbufs st m) = int (length ?bs)"
    using h by (elim mb_holdsD)
  have sz: "to_size (mb_offset (mbufs st m)) = length ?bs"
    unfolding d(3) to_size_nat using length_small [OF h] by (simp only: mod_less)
  have tw: "takeWhile (\<lambda>b. b \<noteq> newline) ?bs = line" using nl by (induction line) auto
  have r: "length ?bs - (length line + 1) = length rest" "length ?bs - ?k = length rest" by simp_all
  have w: "wrap32 (int (length rest)) = int (length rest)"
    using length_small [OF h] by (intro wrap32_id) (simp add: in_int32_def)
  have hd': "mb_holds (mb_upd m (\<lambda>b. b\<lparr>mb_offset := int (length rest)\<rparr>)
     (if length rest \<noteq> 0 then st\<lparr>mheap := move_down d ?k (length rest) (mheap st)\<rparr> else st)) m rest"
    using mb_holds_drop [OF h d(1), of ?k] unfolding r by simp
  let ?st = "mb_upd m (\<lambda>b. b\<lparr>mb_offset := int (length rest)\<rparr>)
     (if length rest \<noteq> 0 then st\<lparr>mheap := move_down d ?k (length rest) (mheap st)\<rparr> else st)"
  have "read_line env m st = Some (?st, Some (LString line))"
    unfolding read_line_def Let_def sz using d(1)
    by (simp add: d(2) [unfolded length_append list.size, simplified] tw w)
  with hd' show ?thesis by blast
qed

section \<open>Lemmas: typed access\<close>

text \<open>The values of the integer types of \<open>k\<close> bytes.\<close>

definition int_range :: "bool \<Rightarrow> nat \<Rightarrow> int \<Rightarrow> bool" where
  "int_range sg k z \<longleftrightarrow> (if sg then - (256 ^ k) \<le> 2 * z \<and> 2 * z < 256 ^ k else 0 \<le> z \<and> z < 256 ^ k)"

lemma int_value_bytes:
  assumes "int_range sg k z"
  shows "int_value sg (int_bytes k z) = z"
proof -
  have p: "(0::int) < 256 ^ k" by simp
  have b: "nat (z mod 256 ^ k) < 256 ^ k"
  proof -
    have "z mod 256 ^ k < 256 ^ k" by (rule pos_mod_bound [OF p])
    then have "nat (z mod 256 ^ k) < nat (256 ^ k)" using p by (subst nat_less_eq_zless) auto
    then show ?thesis by (simp add: nat_power_eq)
  qed
  have v: "int (le_val (int_bytes k z)) = z mod 256 ^ k"
    unfolding int_bytes_def using b by (simp del: nat_less_numeral_power_cancel_iff)
  have l: "length (int_bytes k z) = k" by (simp add: int_bytes_def)
  show ?thesis
  proof (cases "0 \<le> z")
    case True
    then have "z < 256 ^ k" using assms p by (auto simp: int_range_def split: if_splits)
    then have "z mod 256 ^ k = z" using True by simp
    then show ?thesis using assms True unfolding int_value_def v l Let_def
      by (auto simp: int_range_def)
  next
    case False
    then have s: sg "- (256 ^ k) \<le> 2 * z" using assms by (auto simp: int_range_def split: if_splits)
    have "z mod 256 ^ k = (z + 256 ^ k) mod 256 ^ k" by simp
    also have "\<dots> = z + 256 ^ k" using False s(2) by (intro mod_pos_pos_trivial) auto
    finally have "z mod 256 ^ k = z + 256 ^ k" .
    then show ?thesis using s unfolding int_value_def v l Let_def by simp
  qed
qed

lemma elem_addr_upd [simp]: "mbufs (st\<lparr>mheap := h\<rparr>) = mbufs st"
  by simp

text \<open>Two elements of \<open>k\<close> bytes at different indices do not overlap.\<close>

lemma elem_disjoint:
  assumes "off \<noteq> off'" and "0 \<le> int d + off * int k" "0 \<le> int d + off' * int k"
  shows "nat (int d + off' * int k) + k \<le> nat (int d + off * int k) \<or>
    nat (int d + off * int k) + k \<le> nat (int d + off' * int k)"
proof (cases "off < off'")
  case True
  then have "(off + 1) * int k \<le> off' * int k" by (intro mult_right_mono) auto
  then have "off * int k + int k \<le> off' * int k" by (simp add: algebra_simps)
  with assms(2,3) show ?thesis by linarith
next
  case False
  with assms(1) have "(off' + 1) * int k \<le> off * int k" by (intro mult_right_mono) auto
  then have "off' * int k + int k \<le> off * int k" by (simp add: algebra_simps)
  with assms(2,3) show ?thesis by linarith
qed

text \<open>The index and the distance of the element from the start are \<open>int\<close>s.\<close>

definition index_ok :: "u32 \<Rightarrow> int \<Rightarrow> bool" where
  "index_ok ty off \<longleftrightarrow> in_int32 off \<and> in_int32 (off * int (unat (ty AND MEM_SIZE_MASK)))"

lemma int_type_memlen:
  assumes "int_type ty = Some sg"
  shows "index_ok ty off \<Longrightarrow> memlen ty off = off * int (unat (ty AND MEM_SIZE_MASK))" "ty \<noteq> MEM_TBITSTRING"
  using assms by (auto simp: int_type_def memlen_def index_ok_def mem_type_defs split: if_splits)

text \<open>A run of writes.\<close>

lemma membuf_write_spec:
  assumes "mb_holds st m bs" and "realloc_ok env" and "length bs + length (concat ss) < 536870912"
  shows "\<exists>st' k. membuf_write env m ss st = Some (st', k = length ss) \<and> k \<le> length ss \<and>
    mb_holds st' m (bs @ concat (take k ss)) \<and>
    (k < length ss \<longrightarrow> no_room env m (length (bs @ concat (take (Suc k) ss))) st')"
  using assms
proof (induction ss arbitrary: st bs)
  case Nil
  then show ?case by auto
next
  case (Cons s ss)
  show ?case
  proof (cases "s = []")
    case True
    with Cons.IH [OF Cons.prems(1,2)] Cons.prems(3) obtain st' k where
      "membuf_write env m ss st = Some (st', k = length ss)" "k \<le> length ss" "mb_holds st' m (bs @ concat (take k ss))"
      "k < length ss \<longrightarrow> no_room env m (length (bs @ concat (take (Suc k) ss))) st'"
      by auto
    with True show ?thesis by (intro exI [of _ st'] exI [of _ "Suc k"]) simp
  next
    case False
    from membuf_addlstring_holds [OF Cons.prems(1,2), of s] Cons.prems(3)
    consider "membuf_addlstring env m (Some s) (length s) st = Some (st, False)" "no_room env m (length bs + length s) st"
      | st1 where "membuf_addlstring env m (Some s) (length s) st = Some (st1, True)" "mb_holds st1 m (bs @ s)"
      by auto
    then show ?thesis
    proof cases
      case 1
      with False Cons.prems(1) show ?thesis by (intro exI [of _ st] exI [of _ 0]) simp
    next
      case (2 st1)
      with Cons.IH [OF 2(2) Cons.prems(2)] Cons.prems(3) obtain st' k where
        "membuf_write env m ss st1 = Some (st', k = length ss)" "k \<le> length ss" "mb_holds st' m ((bs @ s) @ concat (take k ss))"
        "k < length ss \<longrightarrow> no_room env m (length ((bs @ s) @ concat (take (Suc k) ss))) st'"
        by auto
      with 2(1) False show ?thesis by (intro exI [of _ st'] exI [of _ "Suc k"]) (simp add: add.assoc)
    qed
  qed
qed

lemma mem_index_int:
  assumes d: "mb_data (mbufs st m) = Some d" and ty: "memtype (mbufs st m) = ty" and sg: "int_type ty = Some sg"
    and z: "int_range sg (unat (ty AND MEM_SIZE_MASK)) (mv_trunc env x)"
    and ok: "index_ok ty off" and a: "0 \<le> int d + memlen ty off"
  shows "\<exists>st'. mem_newindex env m off (LNumber x) st = Some (st', Inr ()) \<and>
    mem_index env m off st' = Some (LNumber (mv_num env (mv_trunc env x))) \<and>
    (\<forall>off'. off' \<noteq> off \<longrightarrow> index_ok ty off' \<longrightarrow> 0 \<le> int d + memlen ty off' \<longrightarrow>
       mem_index env m off' st' = mem_index env m off' st)"
proof -
  define k where "k = unat (ty AND MEM_SIZE_MASK)"
  note ml = int_type_memlen(1) [OF sg, folded k_def]
  let ?p = "\<lambda>off. nat (int d + off * int k)"
  have addr: "elem_addr (mbufs st m) o' = Some (?p o')" if "index_ok ty o'" for o'
    using ml [OF that] by (simp add: elem_addr_def d ty)
  let ?bs = "int_bytes k (mv_trunc env x)"
  have l: "length ?bs = k" by (simp add: int_bytes_def)
  let ?st = "st\<lparr>mheap := write_bytes (mheap st) (?p off) ?bs\<rparr>"
  have w: "mem_newindex env m off (LNumber x) st = Some (?st, Inr ())"
    using int_type_memlen(2) [OF sg] by (simp add: mem_newindex_def Let_def ty sg addr [OF ok] k_def [symmetric])
  have idx: "mem_index env m o' s = Some (LNumber (mv_num env (int_value sg (read_bytes (mheap s) (?p o') k))))"
    if "mbufs s = mbufs st" "index_ok ty o'" for o' s
    using addr [of o'] that(2) by (simp add: mem_index_def Let_def that ty sg k_def [symmetric])
  have "mem_index env m off ?st = Some (LNumber (mv_num env (mv_trunc env x)))"
    using idx [of ?st off] ok int_value_bytes [OF z [folded k_def]] l by simp
  moreover have "mem_index env m o' ?st = mem_index env m o' st"
    if "o' \<noteq> off" "index_ok ty o'" "0 \<le> int d + memlen ty o'" for o'
  proof -
    have "?p o' + k \<le> ?p off \<or> ?p off + k \<le> ?p o'"
      using elem_disjoint [of off o' d k] that a ml [OF ok] ml [OF that(2)] by auto
    then show ?thesis using idx [of ?st o'] idx [of st o'] l that(2) by (simp add: read_write_disjoint)
  qed
  ultimately show ?thesis using w by blast
qed

lemma mem_index_bit:
  assumes d: "mb_data (mbufs st m) = Some d" and ty: "memtype (mbufs st m) = ty" and b: "ty = MEM_TBITSTRING"
    and a: "0 < int d + memlen ty off"
  shows "\<exists>st'. mem_newindex env m off (LBool v) st = Some (st', Inr ()) \<and> mem_index env m off st' = Some (LBool v) \<and>
    (\<forall>off'. off' \<noteq> off \<longrightarrow> 0 < int d + memlen ty off' \<longrightarrow> mem_index env m off' st' = mem_index env m off' st)"
proof -
  let ?p = "\<lambda>off. nat (int d + off div 8)" and ?i = "\<lambda>off :: int. nat (off mod 8)"
  have addr: "elem_addr (mbufs st m) o' = Some (nat (int d + memlen ty o'))" for o'
    by (simp add: elem_addr_def d ty)
  have p: "nat (int d + memlen ty o') - 1 = ?p o'" if "0 < int d + memlen ty o'" for o'
    using that by (simp add: memlen_def b)
  have i8: "?i o' < 8" for o' by simp
  let ?x = "mheap st (?p off)"
  let ?b = "if v then set_bit (?i off) ?x else unset_bit (?i off) ?x"
  let ?st = "st\<lparr>mheap := write_bytes (mheap st) (?p off) [?b]\<rparr>"
  have w: "mem_newindex env m off (LBool v) st = Some (?st, Inr ())"
    using p [OF a] by (simp add: mem_newindex_def Let_def ty addr b [symmetric])
  have nt: "int_type ty = None" "ty \<noteq> MEM_TFLOAT" by (simp_all add: b int_type_def mem_type_defs)
  have idx: "mem_index env m o' s = Some (LBool (bit (mheap s (?p o')) (?i o')))"
    if "mbufs s = mbufs st" "0 < int d + memlen ty o'" for o' s
    using p [OF that(2)] addr [of o'] by (simp add: mem_index_def Let_def that(1) ty nt b [symmetric])
  have bits: "bit ?b n = (if n = ?i off then v else bit ?x n)" if "n < 8" for n
    using that i8 [of off] by (auto simp: bit_set_bit_iff bit_unset_bit_iff)
  have hb: "mheap ?st (?p off) = ?b" by (simp add: write_bytes_def)
  have "mem_index env m off ?st = Some (LBool v)"
    using idx [of ?st off] a bits [OF i8, of off] unfolding hb by simp
  moreover have "mem_index env m o' ?st = mem_index env m o' st"
    if "o' \<noteq> off" "0 < int d + memlen ty o'" for o'
  proof (cases "?p o' = ?p off")
    case False
    then have "mheap ?st (?p o') = mheap st (?p o')" by (auto simp: write_bytes_def)
    then show ?thesis using idx [of ?st o'] idx [of st o'] that by simp
  next
    case True
    have "o' div 8 = off div 8" using True that(2) a by (simp add: memlen_def b eq_nat_nat_iff)
    then have "?i o' \<noteq> ?i off" using that(1) by (metis div_mult_mod_eq eq_nat_nat_iff pos_mod_sign zero_less_numeral)
    then have "bit ?b (?i o') = bit ?x (?i o')" using bits [OF i8, of o'] by (simp only: if_False)
    moreover have "mheap ?st (?p o') = ?b" unfolding True by (rule hb)
    ultimately have "bit (mheap ?st (?p o')) (?i o') = bit (mheap st (?p o')) (?i o')" by (simp only: True)
    then show ?thesis using idx [of ?st o'] idx [of st o'] that by simp
  qed
  ultimately show ?thesis using w by blast
qed

section \<open>Properties\<close>

text \<open>
  Claim C18: writing to an allocated buffer without streams always ends and appends (as long as
  the bytes stay below 512 MB): the buffer then holds its bytes followed by the written strings,
  in order. The call reports failure only when a string does not fit the block and \<open>realloc\<close>
  has refused a larger one (\<open>no_room\<close>); the strings written before it are then kept.
\<close>

theorem membuf_write_appends:
  assumes "mb_holds st m bs" and "realloc_ok env" and "length bs + length (concat ss) < 536870912"
  shows "\<exists>st' k. membuf_write env m ss st = Some (st', k = length ss) \<and> k \<le> length ss \<and>
    mb_holds st' m (bs @ concat (take k ss)) \<and>
    (k < length ss \<longrightarrow> no_room env m (length (bs @ concat (take (Suc k) ss))) st')"
  by (rule membuf_write_spec [OF assms])

text \<open>A buffer of 8 bytes at the address 100, and memory that grows in place.\<close>

definition mem_demo_env :: mem_env where
  "mem_demo_env = \<lparr>mv_malloc = (\<lambda>st _. Some (mheap st, 1000)), mv_realloc = (\<lambda>st p _. map_option (\<lambda>d. (mheap st, d)) p),
     mv_write = (\<lambda>_ _ st. (st, False)), mv_read = (\<lambda>_ _ _ _ st. (st, LNil)), mv_bufio = (\<lambda>_. False),
     mv_num = word_of_int, mv_trunc = sint, mv_of_float = (\<lambda>_. 0), mv_to_float = (\<lambda>_. [0, 0, 0, 0]),
     mv_fstat = (\<lambda>_. None), mv_mmap = (\<lambda>_ _ _ _ _ _. None), mv_msync = (\<lambda>_ _. True)\<rparr>"

definition mem_demo :: mem_store where
  "mem_demo = \<lparr>mheap = (\<lambda>_. 0), mbufs = (\<lambda>_. \<lparr>mb_data = Some 100, mb_len = 8, mb_offset = 0, mb_flags = 0x20001\<rparr>),
     mb_input = (\<lambda>_. LNil), mb_output = (\<lambda>_. LNil), mfreed = [], munmapped = []\<rparr>"

lemma mem_demo_ok: "mb_holds mem_demo 1 []" "realloc_ok mem_demo_env"
  by (auto simp: mb_holds_def mem_demo_def Let_def flag_on_def mem_flag_defs realloc_ok_def mem_demo_env_def)

theorem membuf_write_appends_witness:
  "\<exists>st'. membuf_write mem_demo_env 1 [[1, 2, 3, 4, 5], [6, 7, 8, 9]] mem_demo = Some (st', True) \<and>
     mb_holds st' 1 [1, 2, 3, 4, 5, 6, 7, 8, 9]"
proof -
  let ?ss = "[[1, 2, 3, 4, 5], [6, 7, 8, 9]] :: byte list list"
  have len: "length ([] :: byte list) + length (concat ?ss) < 536870912" by simp
  from membuf_write_appends [OF mem_demo_ok len] obtain st' k where
    w: "membuf_write mem_demo_env 1 ?ss mem_demo = Some (st', k = length ?ss)" "k \<le> length ?ss"
      "mb_holds st' 1 ([] @ concat (take k ?ss))"
      "k < length ?ss \<longrightarrow> no_room mem_demo_env 1 (length ([] @ concat (take (Suc k) ?ss))) st'" by blast
  have "\<not> no_room mem_demo_env 1 n st'" for n
    using w(3) by (auto simp: no_room_def mem_demo_env_def mb_holds_def Let_def)
  with w(2,4) have "k = length ?ss" by fastforce
  with w(1,3) show ?thesis by simp
qed

text \<open>
  Claim C15: what was written comes back in order: after a write whose bytes start with a line,
  reading a line returns exactly the line, without its newline, and reading the rest returns all
  other bytes and leaves the buffer empty.
\<close>

theorem membuf_line_roundtrip:
  assumes h: "mb_holds st m []" "realloc_ok env" and w: "membuf_write env m ss st = Some (st1, True)"
    and ss: "concat ss = line @ newline # rest" and nl: "newline \<notin> set line" and n: "length (concat ss) < 536870912"
  shows "\<exists>st2 st3. membuf_read env m (ReadMode CHR ''l'') st1 = Some (st2, Inr (Some (LString line))) \<and>
    membuf_read env m (ReadMode CHR ''a'') st2 = Some (st3, Inr (Some (if rest = [] then LNil else LString rest))) \<and>
    mb_holds st2 m rest \<and> mb_holds st3 m []"
proof -
  from membuf_write_spec [OF h, of ss] n w have "mb_holds st1 m (concat ss)" by auto
  then have "mb_holds st1 m (line @ newline # rest)" by (simp only: ss)
  from read_line_holds [OF this nl] obtain st2 where l: "read_line env m st1 = Some (st2, Some (LString line))"
    and h2: "mb_holds st2 m rest" by blast
  from membuf_read_bytes_holds [OF h2, of env 18446744073709551615] obtain st3 where
    a: "membuf_read_bytes env m 18446744073709551615 st2 = Some (st3, if rest = [] then LNil else LString (take 18446744073709551615 rest))"
    "mb_holds st3 m (drop 18446744073709551615 rest)" by auto
  have t: "take 18446744073709551615 rest = rest" "drop 18446744073709551615 rest = []"
    using length_small [OF h2] by simp_all
  show ?thesis using l h2 a unfolding t by (simp add: membuf_read_def)
qed

theorem membuf_line_roundtrip_witness:
  "\<exists>st1 st2. membuf_write mem_demo_env 1 [[65, 66, 10, 67]] mem_demo = Some (st1, True) \<and>
     membuf_read mem_demo_env 1 (ReadMode CHR ''l'') st1 = Some (st2, Inr (Some (LString [65, 66]))) \<and>
     mb_holds st2 1 [67]"
proof -
  have "\<exists>st1. membuf_write mem_demo_env 1 [[65, 66, 10, 67]] mem_demo = Some (st1, True)"
    by (simp add: membuf_addlstring_def Let_def mem_demo_def flag_on_def mem_flag_defs to_size_def membuf_store_def)
  then obtain st1 where w: "membuf_write mem_demo_env 1 [[65, 66, 10, 67]] mem_demo = Some (st1, True)" by blast
  from membuf_line_roundtrip [OF mem_demo_ok w, of "[65, 66]" "[67]"] w show ?thesis
    by (auto simp: newline_def)
qed

text \<open>
  Claim C40: a buffer that was made without a size has the length 0, and a write to it never
  returns: the loop that doubles the length stays at 0.
\<close>

theorem membuf_write_new_hangs:
  assumes "s \<noteq> []" and "length s < 4294967296"
  shows "membuf_write env m (s # ss) (mem_new m d 0 st) = None"
proof -
  have "(length s) mod 18446744073709551616 = length s" using assms(2) by simp
  then show ?thesis
    using assms(1) by (simp add: membuf_addlstring_def mem_new_def Let_def membuf_enlarge_def membuf_grow_0
        flag_on_def MEM_TCHAR_def MEM_OSTREAM_def)
qed

theorem membuf_write_new_hangs_witness: "membuf_write mem_demo_env 1 [[65]] (mem_new 1 0 0 mem_demo) = None"
  using membuf_write_new_hangs [of "[65]" mem_demo_env 1 "[]" 0 mem_demo] by simp

text \<open>
  Claim C19: typed access is a round trip. At every index whose distance from the start of the
  buffer fits an \<open>int\<close> (\<open>index_ok\<close>; beyond it the product of index and element size wraps)
  and that does not lie below address 0, a number in the range of the integer type of the buffer
  is read back after it was stored, and a truth value after it was stored in a bit string; the
  elements at all other such indices keep their values.
\<close>

theorem mem_index_roundtrip:
  assumes d: "mb_data (mbufs st m) = Some d" and ty: "memtype (mbufs st m) = ty" and off: "index_ok ty off"
  shows "(\<forall>sg x. int_type ty = Some sg \<longrightarrow> int_range sg (unat (ty AND MEM_SIZE_MASK)) (mv_trunc env x) \<longrightarrow>
      0 \<le> int d + memlen ty off \<longrightarrow> (\<exists>st'. mem_newindex env m off (LNumber x) st = Some (st', Inr ()) \<and>
        mem_index env m off st' = Some (LNumber (mv_num env (mv_trunc env x))) \<and>
        (\<forall>off'. off' \<noteq> off \<longrightarrow> index_ok ty off' \<longrightarrow> 0 \<le> int d + memlen ty off' \<longrightarrow>
           mem_index env m off' st' = mem_index env m off' st))) \<and>
    (\<forall>b. ty = MEM_TBITSTRING \<longrightarrow> 0 < int d + memlen ty off \<longrightarrow>
      (\<exists>st'. mem_newindex env m off (LBool b) st = Some (st', Inr ()) \<and> mem_index env m off st' = Some (LBool b) \<and>
        (\<forall>off'. off' \<noteq> off \<longrightarrow> index_ok ty off' \<longrightarrow> 0 < int d + memlen ty off' \<longrightarrow>
           mem_index env m off' st' = mem_index env m off' st)))"
  using mem_index_int [OF d ty _ _ off] mem_index_bit [OF d ty] by blast

theorem mem_index_roundtrip_witness:
  "\<exists>st'. mem_newindex mem_demo_env 1 3 (LNumber 5) mem_demo = Some (st', Inr ()) \<and>
     mem_index mem_demo_env 1 3 st' = Some (LNumber 5)"
proof -
  have d: "mb_data (mbufs mem_demo 1) = Some 100" "memtype (mbufs mem_demo 1) = MEM_TCHAR"
    by (simp_all add: mem_demo_def memtype_def mem_type_defs)
  have t: "int_type MEM_TCHAR = Some True" "unat (MEM_TCHAR AND MEM_SIZE_MASK) = 1" "mv_trunc mem_demo_env 5 = 5"
    "mv_num mem_demo_env 5 = 5" "0 \<le> int 100 + memlen MEM_TCHAR 3"
    "index_ok MEM_TCHAR 3"
    by (simp_all add: int_type_def mem_type_defs memlen_def mem_demo_env_def index_ok_def in_int32_def)
  from mem_index_roundtrip [OF d t(6), of mem_demo_env, THEN conjunct1, rule_format, OF t(1) _ t(5), of 5] t
  show ?thesis by (auto simp: int_range_def)
qed

end
