(* ===== verification/Thread.thy ===== *)
theory Thread
  imports Thread_Sync
begin

text \<open>
  Threads and the VM lock, src/src/thread/sys_thread.c in the pthread build: the data of threads and
  of Lua states (VMs), entering and leaving a VM, suspension, creation and end of threads,
  interruption and waiting. The pthread calls, the Lua interpreter and what other threads do while
  a thread waits for a lock or a condition are the functions of a record \<open>thread_env\<close>. The thread
  that calls an operation is its argument \<open>self\<close>, the value of \<open>sys_thread_get\<close>.
\<close>

section \<open>State\<close>

text \<open>A thread. \<open>td_vm\<close> is the VM it belongs to; the first thread of a VM has the address of the VM.\<close>

record sys_thread =
  td_L :: ptr
  td_vm :: nat
  td_reftd :: ptr
  td_tid :: nat
  td_exit_status :: int
  td_suspended :: bool
  td_flags :: nat
  td_sched_ctx :: ptr

record sys_vmthread =
  vm_nref :: nat
  vm_cpu :: int
  vm_stack_size :: nat

text \<open>
  Threads and VMs by address. \<open>vm_lock\<close> is the thread that holds the lock of a VM, \<open>th_table\<close> the
  table of threads of each VM (it keeps their objects from being collected), \<open>broadcasts\<close> counts
  the broadcasts of the condition of a thread and \<open>vm_closed\<close> lists the states that were closed;
  \<open>vm_libs\<close> are the standard libraries that were opened in a VM.
  \<open>ctx_sched\<close> is the scheduler of a context and \<open>sched_cur\<close> the running context of a scheduler.
\<close>

record thread_store =
  tds :: "nat \<Rightarrow> sys_thread"
  vmtds :: "nat \<Rightarrow> sys_vmthread"
  vm_lock :: "nat \<Rightarrow> ptr"
  th_table :: "nat \<Rightarrow> nat set"
  broadcasts :: "nat \<Rightarrow> nat"
  vm_closed :: "nat list"
  vm_libs :: "nat \<Rightarrow> string list"
  ctx_sched :: "nat \<Rightarrow> nat"
  sched_cur :: "nat \<Rightarrow> ptr"
  tls_index :: bool
  eintr_value :: lua_value

text \<open>
  \<open>th_lock\<close> is the wait for the lock of a VM, \<open>th_wait k\<close> the \<open>k\<close>-th wait on the condition of a thread,
  with the lock released; both give the state in which the thread goes on. \<open>th_cond_new\<close>,
  \<open>th_critsect_new\<close>, \<open>th_create\<close> (the thread number) and \<open>th_key\<close> are the pthread calls;
  \<open>th_newstate\<close> and \<open>th_newthread\<close> give a new Lua state or coroutine, \<open>th_newudata\<close> the block of a new
  userdata; \<open>th_load\<close> loads the code of a new VM and \<open>th_xdup\<close> copies a shared object to it.
\<close>

record thread_env =
  th_lock :: "nat \<Rightarrow> thread_store \<Rightarrow> thread_store"
  th_wait :: "nat \<Rightarrow> nat \<Rightarrow> int \<Rightarrow> thread_store \<Rightarrow> thread_store \<times> int"
  th_cond_new :: "nat \<Rightarrow> bool"
  th_critsect_new :: "nat \<Rightarrow> bool"
  th_create :: "nat \<Rightarrow> nat option"
  th_key :: bool
  th_newstate :: "thread_store \<Rightarrow> nat option"
  th_newthread :: "thread_store \<Rightarrow> nat option"
  th_newudata :: "thread_store \<Rightarrow> nat"
  th_load :: "byte list \<Rightarrow> bool"
  th_xdup :: "nat \<Rightarrow> lua_value option"

definition td_upd :: "nat \<Rightarrow> (sys_thread \<Rightarrow> sys_thread) \<Rightarrow> thread_store \<Rightarrow> thread_store" where
  "td_upd td f st = st\<lparr>tds := (tds st)(td := f (tds st td))\<rparr>"

definition vm_upd :: "nat \<Rightarrow> (sys_vmthread \<Rightarrow> sys_vmthread) \<Rightarrow> thread_store \<Rightarrow> thread_store" where
  "vm_upd vm f st = st\<lparr>vmtds := (vmtds st)(vm := f (vmtds st vm))\<rparr>"

definition broadcast :: "nat \<Rightarrow> thread_store \<Rightarrow> thread_store" where
  "broadcast td st = st\<lparr>broadcasts := (broadcasts st)(td := Suc (broadcasts st td))\<rparr>"

definition thread_getvm :: "thread_store \<Rightarrow> nat \<Rightarrow> nat" where
  "thread_getvm st td = td_vm (tds st td)"

definition thread_isvm :: "thread_store \<Rightarrow> nat \<Rightarrow> bool" where
  "thread_isvm st td \<longleftrightarrow> td = thread_getvm st td"

definition thread_unfake :: "thread_store \<Rightarrow> nat \<Rightarrow> ptr" where
  "thread_unfake st td =
     (if \<not> thread_isvm st td \<and> td_reftd (tds st td) \<noteq> Some (thread_getvm st td)
      then td_reftd (tds st td) else Some td)"

section \<open>Entering and leaving a VM\<close>

definition sys_vm2_postenter :: "nat \<Rightarrow> thread_store \<Rightarrow> thread_store" where
  "sys_vm2_postenter td st =
     (case td_sched_ctx (tds st td) of
        None \<Rightarrow> st
      | Some c \<Rightarrow> st\<lparr>sched_cur := (sched_cur st)(ctx_sched st c := Some c)\<rparr>)"

definition sys_vm2_preleave :: "nat \<Rightarrow> thread_store \<Rightarrow> thread_store" where
  "sys_vm2_preleave td st =
     (case td_sched_ctx (tds st td) of
        None \<Rightarrow> st
      | Some c \<Rightarrow> st\<lparr>sched_cur := (sched_cur st)(ctx_sched st c := None)\<rparr>)"

text \<open>The mutex of the VM of a thread.\<close>

definition vm_acquire :: "thread_env \<Rightarrow> nat \<Rightarrow> thread_store \<Rightarrow> thread_store" where
  "vm_acquire env td st =
     (let st1 = th_lock env td st in st1\<lparr>vm_lock := (vm_lock st1)(thread_getvm st1 td := Some td)\<rparr>)"

definition vm_release :: "nat \<Rightarrow> thread_store \<Rightarrow> thread_store" where
  "vm_release td st = st\<lparr>vm_lock := (vm_lock st)(thread_getvm st td := None)\<rparr>"

definition sys_vm2_enter :: "thread_env \<Rightarrow> nat \<Rightarrow> thread_store \<Rightarrow> thread_store" where
  "sys_vm2_enter env td st = sys_vm2_postenter td (vm_acquire env td st)"

definition sys_vm2_leave :: "nat \<Rightarrow> thread_store \<Rightarrow> thread_store" where
  "sys_vm2_leave td st = vm_release td (sys_vm2_preleave td st)"

text \<open>\<open>thread_cond_wait_vm\<close>: the wait on the condition of \<open>td\<close> releases the lock of its VM.\<close>

definition thread_cond_wait_vm :: "thread_env \<Rightarrow> nat \<Rightarrow> nat \<Rightarrow> int \<Rightarrow> thread_store \<Rightarrow> thread_store \<times> int" where
  "thread_cond_wait_vm env k td timeout st =
     (case th_wait env k td timeout (sys_vm2_preleave td st) of (st1, res) \<Rightarrow>
        (sys_vm2_postenter td st1, cond_wait_res res))"

partial_function (option) thread_waitvm :: "thread_env \<Rightarrow> nat \<Rightarrow> nat \<Rightarrow> int \<Rightarrow> thread_store \<Rightarrow>
    (thread_store \<times> int) option" where
  "thread_waitvm env k vm timeout st =
     (if vm_nref (vmtds st vm) \<noteq> 0 then
        (case thread_cond_wait_vm env k vm timeout st of (st1, res) \<Rightarrow>
           if res = 0 then thread_waitvm env (Suc k) vm timeout st1 else Some (st1, res))
      else Some (st, 0))"

section \<open>The end of a thread\<close>

definition sys_thread_del :: "nat \<Rightarrow> thread_store \<Rightarrow> thread_store" where
  "sys_thread_del td st =
     st\<lparr>th_table := (th_table st)(thread_getvm st td := th_table st (thread_getvm st td) - {td})\<rparr>"

text \<open>\<open>thread_done\<close>, the finaliser: the thread is joined with the lock released.\<close>

definition thread_done :: "thread_env \<Rightarrow> nat \<Rightarrow> thread_store \<Rightarrow> thread_store" where
  "thread_done env td st =
     (if td_L (tds st td) = None then st
      else
        (let st1 = (if thread_isvm st td then vm_release td st else sys_vm2_enter env td (sys_vm2_leave td st))
         in td_upd td (\<lambda>t. t\<lparr>td_L := None\<rparr>) st1))"

text \<open>\<open>lua_close\<close> on the state of a VM: the finaliser of its first thread runs.\<close>

definition vm_close :: "thread_env \<Rightarrow> nat \<Rightarrow> thread_store \<Rightarrow> thread_store" where
  "vm_close env vm st = (thread_done env vm st)\<lparr>vm_closed := vm # vm_closed st\<rparr>"

text \<open>The first part of \<open>thread_exit\<close>: the flags and the status, which is the value on the stack
  unless the thread was killed.\<close>

definition thread_exit_mark :: "nat \<Rightarrow> int \<Rightarrow> thread_store \<Rightarrow> thread_store" where
  "thread_exit_mark td status st =
     td_upd td (\<lambda>t. if td_flags t \<noteq> SYS_THREAD_KILLED
                    then t\<lparr>td_sched_ctx := None, td_flags := SYS_THREAD_KILLED, td_exit_status := status\<rparr>
                    else t\<lparr>td_sched_ctx := None\<rparr>) st"

text \<open>The reference to the parent (or to the fake thread in the parent's VM) is dropped.\<close>

definition thread_exit_unref :: "thread_env \<Rightarrow> bool \<Rightarrow> int \<Rightarrow> nat \<Rightarrow> thread_store \<Rightarrow> thread_store" where
  "thread_exit_unref env is_vm res reftd st =
     (let vmref = thread_getvm st reftd;
          st1 = sys_vm2_enter env reftd st;
          st2 = (if is_vm
                 then sys_thread_del reftd (broadcast reftd
                        (td_upd reftd (\<lambda>t. t\<lparr>td_flags := SYS_THREAD_KILLED, td_exit_status := res\<rparr>) st1))
                 else st1);
          n = u32_sub (vm_nref (vmtds st2 vmref)) 1;
          st3 = vm_upd vmref (\<lambda>v. v\<lparr>vm_nref := n\<rparr>) st2;
          st4 = (if n = 0 then broadcast vmref st3 else st3)
      in sys_vm2_leave reftd st4)"

text \<open>\<open>thread_exit\<close>, up to \<open>pthread_exit\<close>, which ends the calling thread.\<close>

definition thread_exit :: "thread_env \<Rightarrow> nat \<Rightarrow> int \<Rightarrow> thread_store \<Rightarrow> thread_store option" where
  "thread_exit env td status st =
     (let reftd = td_reftd (tds st td);
          is_vm = thread_isvm st td;
          st1 = thread_exit_mark td status st;
          res = td_exit_status (tds st1 td)
      in do {
        st2 \<leftarrow> (if is_vm then do {
                  (st2, _) \<leftarrow> thread_waitvm env 0 (thread_getvm st1 td) TIMEOUT_INFINITE st1;
                  Some (vm_close env (thread_getvm st2 td) st2)
                }
                else Some (sys_vm2_leave (thread_getvm st1 td) (sys_thread_del td (broadcast td st1))));
        Some (case reftd of None \<Rightarrow> st2 | Some r \<Rightarrow> thread_exit_unref env is_vm res r st2)
      })"

text \<open>\<open>sys_thread_check\<close> with its effects, on a thread \<open>td\<close> by a caller: the check of theory
  \<open>Thread_Sync\<close> decides, and \<open>ThreadExit\<close> means that the calling thread has ended.\<close>

definition thread_check :: "thread_env \<Rightarrow> nat \<Rightarrow> int \<Rightarrow> thread_store \<Rightarrow> (thread_store \<times> check_result) option" where
  "thread_check env td status st =
     (case sys_thread_check (td_flags (tds st td)) of (fl, r) \<Rightarrow>
        let st1 = td_upd td (\<lambda>t. t\<lparr>td_flags := fl\<rparr>) st
        in if r = ThreadExit then do { st2 \<leftarrow> thread_exit env td status st1; Some (st2, r) }
           else Some (st1, r))"

definition sys_thread_switch :: "thread_env \<Rightarrow> nat \<Rightarrow> thread_store \<Rightarrow> thread_store" where
  "sys_thread_switch env td st = sys_vm2_enter env td (sys_vm2_leave td st)"

definition sys_vm_enter :: "thread_env \<Rightarrow> ptr \<Rightarrow> int \<Rightarrow> thread_store \<Rightarrow> (thread_store \<times> check_result) option" where
  "sys_vm_enter env self status st =
     (case (if tls_index st then self else None) of
        None \<Rightarrow> Some (st, Continue)
      | Some td \<Rightarrow>
          (let st1 = sys_vm2_enter env td st
           in if td_flags (tds st1 td) \<noteq> 0 then thread_check env td status st1 else Some (st1, Continue)))"

definition sys_vm_leave :: "ptr \<Rightarrow> thread_store \<Rightarrow> thread_store" where
  "sys_vm_leave self st =
     (case (if tls_index st then self else None) of None \<Rightarrow> st | Some td \<Rightarrow> sys_vm2_leave td st)"

section \<open>Suspension\<close>

partial_function (option) thread_suspend_loop :: "thread_env \<Rightarrow> nat \<Rightarrow> nat \<Rightarrow> int \<Rightarrow> thread_store \<Rightarrow>
    (thread_store \<times> int) option" where
  "thread_suspend_loop env k td timeout st =
     (case thread_cond_wait_vm env k td timeout st of (st1, res) \<Rightarrow>
        if td_suspended (tds st1 td) \<and> res = 0 then thread_suspend_loop env (Suc k) td timeout st1
        else Some (st1, res))"

definition sys_thread_suspend :: "thread_env \<Rightarrow> nat \<Rightarrow> int \<Rightarrow> thread_store \<Rightarrow> (thread_store \<times> int) option" where
  "sys_thread_suspend env td timeout st =
     thread_suspend_loop env 0 td timeout (td_upd td (\<lambda>t. t\<lparr>td_suspended := True\<rparr>) st)"

definition sys_thread_resume :: "nat \<Rightarrow> thread_store \<Rightarrow> thread_store" where
  "sys_thread_resume td st = broadcast td (td_upd td (\<lambda>t. t\<lparr>td_suspended := False\<rparr>) st)"

text \<open>\<open>sys_eintr\<close>: whether an interrupted call (\<open>errno\<close> is EINTR) is to be repeated.\<close>

definition sys_eintr :: "bool \<Rightarrow> ptr \<Rightarrow> thread_store \<Rightarrow> bool" where
  "sys_eintr is_eintr self st \<longleftrightarrow>
     is_eintr \<and> \<not> (case self of None \<Rightarrow> False | Some td \<Rightarrow> td_flags (tds st td) \<noteq> 0)"

text \<open>\<open>thread_suspend_wrap\<close>: \<open>Some True\<close> resumed, \<open>Some False\<close> timed out, \<open>None\<close> inside an error.\<close>

definition wait_result :: "int \<Rightarrow> bool option" where
  "wait_result res = (if res \<ge> 0 then Some (res \<noteq> 1) else None)"

definition thread_suspend_wrap :: "thread_env \<Rightarrow> nat \<Rightarrow> int option \<Rightarrow> thread_store \<Rightarrow> (thread_store \<times> bool option) option" where
  "thread_suspend_wrap env td timeout st =
     do {
       (st1, res) \<leftarrow> sys_thread_suspend env td (case timeout of None \<Rightarrow> TIMEOUT_INFINITE | Some ms \<Rightarrow> ms) st;
       Some (st1, wait_result res)
     }"

section \<open>New threads and VMs\<close>

definition td0 :: sys_thread where
  "td0 = \<lparr>td_L = None, td_vm = 0, td_reftd = None, td_tid = 0, td_exit_status = 0, td_suspended = False,
     td_flags = 0, td_sched_ctx = None\<rparr>"

definition thread_settable :: "nat \<Rightarrow> thread_store \<Rightarrow> thread_store" where
  "thread_settable td st =
     st\<lparr>th_table := (th_table st)(thread_getvm st td := insert td (th_table st (thread_getvm st td)))\<rparr>"

text \<open>The standard libraries of Lua 5.3; those whose bit is not in \<open>loadlibs\<close> are only preloaded.\<close>

definition stdlib_names :: "string list" where
  "stdlib_names = [''table'', ''io'', ''os'', ''string'', ''math'', ''debug'', ''coroutine'', ''bit32'']"

definition thread_openlibs :: "32 word \<Rightarrow> string list" where
  "thread_openlibs loadlibs =
     map snd (filter (\<lambda>(i, name). bit loadlibs i) (enumerate 0 stdlib_names))"

text \<open>\<open>thread_newvm\<close>: the data of a VM, in an existing state (\<open>in_state\<close>) or in a new one, where it
  opens the libraries.\<close>

definition thread_newvm :: "thread_env \<Rightarrow> bool \<Rightarrow> ptr \<Rightarrow> 32 word \<Rightarrow> thread_store \<Rightarrow> thread_store \<times> nat option" where
  "thread_newvm env in_state reftd loadlibs st =
     (case (if in_state then th_newthread env st else th_newstate env st) of
        None \<Rightarrow> (st, None)
      | Some nl \<Rightarrow>
          (let vm = th_newudata env st;
               st0 = (if in_state then st else st\<lparr>vm_libs := (vm_libs st)(vm := thread_openlibs loadlibs)\<rparr>);
               st1 = td_upd vm (\<lambda>_. td0\<lparr>td_L := Some nl, td_vm := vm, td_reftd := reftd\<rparr>) st0;
               st2 = vm_upd vm (\<lambda>_. case reftd of
                        None \<Rightarrow> \<lparr>vm_nref = 0, vm_cpu = 0, vm_stack_size = 0\<rparr>
                      | Some r \<Rightarrow> (vmtds st (thread_getvm st r))\<lparr>vm_nref := 0\<rparr>) st1
           in if th_critsect_new env vm \<and> th_cond_new env vm then (thread_settable vm st2, Some vm)
              else (st2, None)))"

text \<open>\<open>sys_thread_new\<close>: a thread of the VM of \<open>vmtd\<close>, or its fake thread for the new VM \<open>vmtd2\<close>.\<close>

definition sys_thread_new :: "thread_env \<Rightarrow> nat \<Rightarrow> nat option \<Rightarrow> thread_store \<Rightarrow> thread_store \<times> nat option" where
  "sys_thread_new env vmtd vmtd2 st =
     (let vmref = thread_getvm st vmtd in
      case (if vmtd2 \<noteq> None then Some (td_L (tds st vmref)) else map_option Some (th_newthread env st)) of
        None \<Rightarrow> (st, None)
      | Some nl \<Rightarrow>
          (let td = th_newudata env st;
               ref = (case vmtd2 of None \<Rightarrow> Some vmref | Some v \<Rightarrow> Some v);
               st1 = td_upd td (\<lambda>_. td0\<lparr>td_L := nl, td_vm := vmref, td_reftd := ref\<rparr>) st;
               st2 = vm_upd vmref (\<lambda>v. v\<lparr>vm_nref := u32_add (vm_nref v) 1\<rparr>) st1
           in if th_cond_new env td then (thread_settable td st2, Some td) else (st2, None)))"

text \<open>\<open>sys_thread_create\<close>: 0 when the thread runs.\<close>

definition sys_thread_create :: "thread_env \<Rightarrow> nat \<Rightarrow> thread_store \<Rightarrow> thread_store \<times> int" where
  "sys_thread_create env td st =
     (case th_create env td of
        None \<Rightarrow> (st, -1)
      | Some tid \<Rightarrow> (td_upd td (\<lambda>t. t\<lparr>td_tid := tid\<rparr>) st, 0))"

text \<open>\<open>thread_run\<close> with its first argument: the new thread, or \<open>None\<close> inside for an error. The stack of the
  new thread is assumed to have room for the arguments.\<close>

definition thread_run :: "thread_env \<Rightarrow> ptr \<Rightarrow> lua_value \<Rightarrow> thread_store \<Rightarrow> thread_store \<times> (lua_error + nat option)" where
  "thread_run env self func st =
     (case self of
        None \<Rightarrow> (st, Inl (ArgError 0 ''Threading not initialized''))
      | Some vmtd \<Rightarrow>
          if lua_type func \<noteq> 6 then (st, Inl (ArgError 1 ''function expected'')) else
          (case sys_thread_new env vmtd None st of
             (st1, None) \<Rightarrow> (st1, Inr None)
           | (st1, Some td) \<Rightarrow>
               (case sys_thread_create env td st1 of (st2, res) \<Rightarrow>
                  if res = 0 then (st2, Inr (Some td)) else (sys_thread_del td st2, Inr None))))"

text \<open>The arguments of a new VM: plain values are copied, shared objects duplicated.\<close>

fun runvm_args :: "thread_env \<Rightarrow> nat \<Rightarrow> lua_value list \<Rightarrow> lua_error + lua_value list" where
  "runvm_args env i [] = Inr []"
| "runvm_args env i (v # vs) =
     (let r = (case v of
                 LUserdata u \<Rightarrow>
                   (case th_xdup env u of
                      None \<Rightarrow> Inl (ArgError i ''shareable object expected'')
                    | Some w \<Rightarrow> Inr w)
               | LTable _ \<Rightarrow> Inl (ArgError i ''primitive type expected'')
               | LFunction _ \<Rightarrow> Inl (ArgError i ''primitive type expected'')
               | LThread _ \<Rightarrow> Inl (ArgError i ''primitive type expected'')
               | _ \<Rightarrow> Inr v)
      in case r of
           Inl e \<Rightarrow> Inl e
         | Inr w \<Rightarrow> (case runvm_args env (Suc i) vs of Inl e \<Rightarrow> Inl e | Inr ws \<Rightarrow> Inr (w # ws)))"

text \<open>The loop over the names in the options: a name that is missing or empty ends it.\<close>

definition lib_index :: "string \<Rightarrow> nat option" where
  "lib_index name = find (\<lambda>i. stdlib_names ! i = name) [0..<length stdlib_names]"

fun runvm_libs :: "string list \<Rightarrow> 32 word \<Rightarrow> 32 word \<Rightarrow> lua_error + 32 word" where
  "runvm_libs [] libs loadlibs = Inr (if libs \<noteq> 0 then libs else loadlibs)"
| "runvm_libs (name # names) libs loadlibs =
     (if name = [] then Inr (if libs \<noteq> 0 then libs else 0)
      else (case lib_index name of
              None \<Rightarrow> Inl (ArgError 0 ''invalid option'')
            | Some i \<Rightarrow> runvm_libs names (or libs (push_bit i 1)) loadlibs))"

text \<open>\<open>thread_runvm\<close>: the options are the names of libraries, up to the first entry that is no string, and
  the CPU, if any. The stack of the new state is assumed to have room for the arguments.\<close>

definition thread_runvm :: "thread_env \<Rightarrow> ptr \<Rightarrow> (string list \<times> int option) option \<Rightarrow> byte list \<Rightarrow> lua_value list \<Rightarrow> thread_store \<Rightarrow>
    thread_store \<times> (lua_error + (nat \<times> lua_value list) option)" where
  "thread_runvm env self options path args st =
     (case self of
        None \<Rightarrow> (st, Inl (ArgError 0 ''Threading not initialized''))
      | Some vmtd \<Rightarrow>
          (case (case options of None \<Rightarrow> Inr (- 1) | Some (names, _) \<Rightarrow> runvm_libs names 0 (- 1)) of
             Inl e \<Rightarrow> (st, Inl e)
           | Inr loadlibs \<Rightarrow>
          (case thread_newvm env False (Some vmtd) loadlibs st of
             (st1, None) \<Rightarrow> (st1, Inr None)
           | (st1, Some td) \<Rightarrow>
               (case sys_thread_new env vmtd (Some td) st1 of
                  (st2, None) \<Rightarrow> (st2, Inr None)
                | (st2, Some faketd) \<Rightarrow>
                    (let st3 = (case options of Some (_, Some c) \<Rightarrow> vm_upd td (\<lambda>v. v\<lparr>vm_cpu := c\<rparr>) st2 | _ \<Rightarrow> st2)
                     in if \<not> th_load env path then (vm_close env td st3, Inl Raised)
                        else (case runvm_args env 3 args of
                            Inl e \<Rightarrow> (st3, Inl e)
                          | Inr vs \<Rightarrow>
                              (case sys_thread_create env td st3 of (st4, res) \<Rightarrow>
                                 if res = 0
                                 then (td_upd faketd (\<lambda>t. t\<lparr>td_tid := td_tid (tds st4 td)\<rparr>) st4, Inr (Some (faketd, vs)))
                                 else (vm_close env td st4, Inr None))))))))"

text \<open>\<open>thread_init\<close>: the VM of the calling thread, entered.\<close>

definition thread_init :: "thread_env \<Rightarrow> ptr \<Rightarrow> nat \<Rightarrow> thread_store \<Rightarrow> thread_store \<times> nat option" where
  "thread_init env self stack_size st =
     (if \<not> tls_index st \<and> \<not> th_key env then (st, None)
      else
        (let st1 = st\<lparr>tls_index := True\<rparr> in
         case self of
           Some td \<Rightarrow> (vm_upd (thread_getvm st1 td) (\<lambda>v. v\<lparr>vm_stack_size := stack_size\<rparr>) st1, Some td)
         | None \<Rightarrow>
             (case thread_newvm env True None 0 st1 of
                (st2, None) \<Rightarrow> (st2, None)
              | (st2, Some td) \<Rightarrow>
                  (let st3 = sys_vm2_enter env td st2
                   in (vm_upd (thread_getvm st3 td) (\<lambda>v. v\<lparr>vm_stack_size := stack_size\<rparr>) st3, Some td)))))"

text \<open>\<open>thread_start\<close>: the function runs (\<open>body\<close>) and the thread ends with the status it leaves; an
  error aborts the process.\<close>

definition thread_start :: "thread_env \<Rightarrow> (thread_store \<Rightarrow> thread_store \<times> int option) \<Rightarrow> nat \<Rightarrow> thread_store \<Rightarrow>
    thread_store option" where
  "thread_start env body td st =
     (case body (sys_vm2_enter env td st) of
        (st1, None) \<Rightarrow> None
      | (st1, Some status) \<Rightarrow> thread_exit env td status st1)"

section \<open>Interruption, termination and waiting\<close>

text \<open>The thread and whether it is the first of its VM.\<close>

definition thread_self :: "ptr \<Rightarrow> thread_store \<Rightarrow> lua_error + nat \<times> bool" where
  "thread_self self st =
     (case self of
        None \<Rightarrow> Inl (ArgError 0 ''Threading not initialized'')
      | Some td \<Rightarrow> Inr (td, thread_isvm st td))"

definition thread_interrupt_error :: "lua_value \<Rightarrow> thread_store \<Rightarrow> thread_store \<times> lua_value" where
  "thread_interrupt_error v st = (if v = LNil then st else st\<lparr>eintr_value := v\<rparr>, eintr_value st)"

definition thread_interrupted :: "nat \<Rightarrow> thread_store \<Rightarrow> bool option" where
  "thread_interrupted td st =
     do { t \<leftarrow> thread_unfake st td; Some (td_flags (tds st t) = SYS_THREAD_INTERRUPT) }"

text \<open>The second component tells how the calling thread goes on; another thread is interrupted by a
  signal.\<close>

definition thread_set_interrupt :: "thread_env \<Rightarrow> ptr \<Rightarrow> nat \<Rightarrow> bool \<Rightarrow> int \<Rightarrow> thread_store \<Rightarrow>
    (thread_store \<times> check_result) option" where
  "thread_set_interrupt env self td recover status st =
     do {
       t \<leftarrow> thread_unfake st td;
       if recover then
         Some (td_upd t (\<lambda>r. r\<lparr>td_flags := td_flags r - (if (td_flags r div SYS_THREAD_INTERRUPT) mod 2 = 1
                                    then SYS_THREAD_INTERRUPT else 0)\<rparr>) st, Continue)
       else do {
         let st1 = td_upd t (\<lambda>r. r\<lparr>td_flags := SYS_THREAD_INTERRUPT\<rparr>) st;
         if self = Some t then thread_check env t status st1 else Some (st1, Continue)
       }
     }"

definition thread_set_terminate :: "thread_env \<Rightarrow> ptr \<Rightarrow> nat \<Rightarrow> int \<Rightarrow> int \<Rightarrow> thread_store \<Rightarrow>
    (thread_store \<times> check_result) option" where
  "thread_set_terminate env self td exit_status status st =
     do {
       t \<leftarrow> thread_unfake st td;
       let st1 = td_upd t (\<lambda>r. r\<lparr>td_exit_status := exit_status, td_flags := SYS_THREAD_TERMINATE\<rparr>) st;
       if self = Some t then do { st2 \<leftarrow> thread_exit env t status st1; Some (st2, ThreadExit) }
       else Some (st1, Continue)
     }"

text \<open>The loop of \<open>thread_wait\<close>: it checks the flags of the thread it waits for.\<close>

partial_function (option) thread_wait_loop :: "thread_env \<Rightarrow> nat \<Rightarrow> nat \<Rightarrow> int \<Rightarrow> int \<Rightarrow> thread_store \<Rightarrow>
    (thread_store \<times> (check_result + int)) option" where
  "thread_wait_loop env k td timeout status st =
     (case thread_cond_wait_vm env k td timeout st of (st1, res) \<Rightarrow>
        do {
          (st2, c) \<leftarrow> thread_check env td status st1;
          (if c \<noteq> Continue then Some (st2, Inl c)
           else if td_flags (tds st2 td) \<noteq> SYS_THREAD_KILLED \<and> res = 0
             then thread_wait_loop env (Suc k) td timeout status st2
           else Some (st2, Inr res))
        })"

text \<open>What \<open>thread_wait\<close> returns; \<open>WaitLeft\<close>: the calling thread exits or an error is raised.\<close>

datatype wait_ret = WaitNoWorkers | WaitStatus int | WaitTimedOut | WaitError | WaitLeft check_result

definition thread_wait :: "thread_env \<Rightarrow> nat \<Rightarrow> int option \<Rightarrow> int \<Rightarrow> thread_store \<Rightarrow> (thread_store \<times> wait_ret) option" where
  "thread_wait env td timeout status st =
     (let ms = (case timeout of None \<Rightarrow> TIMEOUT_INFINITE | Some t \<Rightarrow> t);
          ret = (\<lambda>st res. if res = 1 then WaitTimedOut else if res \<ge> 0 then WaitStatus (td_exit_status (tds st td))
                          else WaitError)
      in if thread_isvm st td then do {
           (st1, res) \<leftarrow> thread_waitvm env 0 (thread_getvm st td) ms st;
           Some (st1, if res = 0 then WaitNoWorkers else ret st1 res)
         }
         else if td_flags (tds st td) = SYS_THREAD_KILLED then Some (st, WaitStatus (td_exit_status (tds st td)))
         else do {
           (st1, r) \<leftarrow> thread_wait_loop env 0 td ms status st;
           Some (st1, case r of Inl c \<Rightarrow> WaitLeft c | Inr res \<Rightarrow> ret st1 res)
         })"

definition thread_switch_wrap :: "thread_env \<Rightarrow> ptr \<Rightarrow> int \<Rightarrow> thread_store \<Rightarrow> (thread_store \<times> check_result) option" where
  "thread_switch_wrap env self status st =
     (case self of
        None \<Rightarrow> Some (st, Continue)
      | Some td \<Rightarrow> thread_check env td status (sys_thread_switch env td st))"

definition thread_yield :: "thread_env \<Rightarrow> ptr \<Rightarrow> int \<Rightarrow> thread_store \<Rightarrow> (thread_store \<times> check_result) option" where
  "thread_yield env self status st = sys_vm_enter env self status (sys_vm_leave self st)"

text \<open>\<open>sys_thread_sleep\<close>: \<open>nanosleep k req\<close> gives what remains of the request and whether the call was
  interrupted; it is repeated with the rest unless the thread has a flag.\<close>

definition sleep_request :: "int \<Rightarrow> int \<times> int" where
  "sleep_request ms = (c_div ms 1000, c_mod ms 1000 * 1000000)"

partial_function (option) thread_sleep_loop ::
  "(nat \<Rightarrow> int \<times> int \<Rightarrow> (int \<times> int) \<times> bool) \<Rightarrow> nat \<Rightarrow> bool \<Rightarrow> ptr \<Rightarrow> int \<times> int \<Rightarrow> thread_store \<Rightarrow> nat option" where
  "thread_sleep_loop nanosleep k not_intr self req st =
     (case nanosleep k req of (rem, intr) \<Rightarrow>
        if sys_eintr intr self st \<and> not_intr then thread_sleep_loop nanosleep (Suc k) not_intr self rem st
        else Some k)"

definition sys_thread_sleep ::
  "(nat \<Rightarrow> int \<times> int \<Rightarrow> (int \<times> int) \<times> bool) \<Rightarrow> int \<Rightarrow> bool \<Rightarrow> ptr \<Rightarrow> thread_store \<Rightarrow> nat option" where
  "sys_thread_sleep nanosleep ms not_intr self st = thread_sleep_loop nanosleep 0 not_intr self (sleep_request ms) st"

text \<open>\<open>thread_sleep\<close>: the sleep with the lock released; \<open>others\<close> is what happens meanwhile.\<close>

definition thread_sleep :: "thread_env \<Rightarrow> (nat \<Rightarrow> int \<times> int \<Rightarrow> (int \<times> int) \<times> bool) \<Rightarrow>
    (thread_store \<Rightarrow> thread_store) \<Rightarrow> ptr \<Rightarrow> int \<Rightarrow> bool \<Rightarrow> int \<Rightarrow> thread_store \<Rightarrow> (thread_store \<times> check_result) option" where
  "thread_sleep env nanosleep others self msec not_intr status st =
     (let st1 = others (sys_vm_leave self st) in do {
        _ \<leftarrow> sys_thread_sleep nanosleep msec not_intr self st1;
        sys_vm_enter env self status st1
      })"

section \<open>Properties\<close>

lemma store_upd_simps [simp]:
  "tds (td_upd td f st) = (tds st)(td := f (tds st td))" "vmtds (td_upd td f st) = vmtds st"
  "th_table (td_upd td f st) = th_table st" "broadcasts (td_upd td f st) = broadcasts st"
  "tds (vm_upd vm g st) = tds st" "vmtds (vm_upd vm g st) = (vmtds st)(vm := g (vmtds st vm))"
  "th_table (vm_upd vm g st) = th_table st" "broadcasts (vm_upd vm g st) = broadcasts st"
  "tds (broadcast td st) = tds st" "vmtds (broadcast td st) = vmtds st" "th_table (broadcast td st) = th_table st"
  "broadcasts (broadcast td st) = (broadcasts st)(td := Suc (broadcasts st td))"
  "tds (sys_thread_del td st) = tds st" "vmtds (sys_thread_del td st) = vmtds st"
  "broadcasts (sys_thread_del td st) = broadcasts st"
  by (simp_all add: td_upd_def vm_upd_def broadcast_def sys_thread_del_def)

lemma vm_switch_simps [simp]:
  "tds (sys_vm2_postenter td st) = tds st" "vmtds (sys_vm2_postenter td st) = vmtds st"
  "th_table (sys_vm2_postenter td st) = th_table st" "broadcasts (sys_vm2_postenter td st) = broadcasts st"
  "tds (sys_vm2_preleave td st) = tds st" "vmtds (sys_vm2_preleave td st) = vmtds st"
  "th_table (sys_vm2_preleave td st) = th_table st" "broadcasts (sys_vm2_preleave td st) = broadcasts st"
  "tds (sys_vm2_leave td st) = tds st" "vmtds (sys_vm2_leave td st) = vmtds st"
  "th_table (sys_vm2_leave td st) = th_table st" "broadcasts (sys_vm2_leave td st) = broadcasts st"
  by (simp_all add: sys_vm2_postenter_def sys_vm2_preleave_def sys_vm2_leave_def vm_release_def split: option.split)

text \<open>While a thread waits for the lock, the other threads leave the data of threads alone.\<close>

definition lock_quiet :: "thread_env \<Rightarrow> bool" where
  "lock_quiet env \<longleftrightarrow> (\<forall>t s. tds (th_lock env t s) = tds s \<and> vmtds (th_lock env t s) = vmtds s \<and>
     th_table (th_lock env t s) = th_table s \<and> broadcasts (th_lock env t s) = broadcasts s)"

lemma sys_vm2_enter_simps:
  assumes "lock_quiet env"
  shows "tds (sys_vm2_enter env td st) = tds st" "vmtds (sys_vm2_enter env td st) = vmtds st"
    "th_table (sys_vm2_enter env td st) = th_table st" "broadcasts (sys_vm2_enter env td st) = broadcasts st"
  using assms by (simp_all add: sys_vm2_enter_def vm_acquire_def lock_quiet_def Let_def)

text \<open>
  Claim C11: the life of a thread is balanced: \<open>thread_run\<close> counts the new thread in its VM and keeps
  its object in the table of threads; when the thread ends, \<open>thread_exit\<close> records its status, wakes the
  threads that wait for it, takes it out of the table and out of the count, and wakes the VM when it
  was the last one. A wait for the thread then returns its status.
\<close>

theorem thread_life_balanced:
  assumes run: "thread_run env (Some self) func st = (st1, Inr (Some td))" and vm: "vm = td_vm (tds st self)"
    and new: "td \<noteq> vm" and n: "vm_nref (vmtds st vm) < 4294967295" and lock: "lock_quiet env"
    and later: "tds st2 td = tds st1 td" "td_vm (tds st2 vm) = vm" "0 < vm_nref (vmtds st2 vm)" "vm_nref (vmtds st2 vm) < 4294967296"
  shows "vm_nref (vmtds st1 vm) = Suc (vm_nref (vmtds st vm)) \<and> td \<in> th_table st1 vm \<and>
    (\<exists>st3. thread_exit env td status st2 = Some st3 \<and> vm_nref (vmtds st3 vm) = vm_nref (vmtds st2 vm) - 1 \<and>
       td \<notin> th_table st3 vm \<and> broadcasts st2 td < broadcasts st3 td \<and>
       (vm_nref (vmtds st3 vm) = 0 \<longrightarrow> broadcasts st2 vm < broadcasts st3 vm) \<and>
       thread_wait env td timeout s st3 = Some (st3, WaitStatus status))"
proof -
  obtain nl where nt: "th_newthread env st = Some nl" "th_newudata env st = td" "lua_type func = 6" and c: "th_cond_new env td" "th_create env td \<noteq> None"
    using run by (auto simp: thread_run_def sys_thread_new_def sys_thread_create_def Let_def
        split: option.splits if_splits)
  then obtain tid where tid: "th_create env td = Some tid" by auto
  have t1: "tds st1 td = td0\<lparr>td_L := Some nl, td_vm := vm, td_reftd := Some vm, td_tid := tid\<rparr>"
    and r1: "vm_nref (vmtds st1 vm) = Suc (vm_nref (vmtds st vm))" "td \<in> th_table st1 vm"
    using run n by (auto simp: thread_run_def sys_thread_new_def sys_thread_create_def Let_def nt c tid vm [symmetric]
        thread_getvm_def thread_settable_def u32_add_def)
  let ?m = "thread_exit_mark td status st2"
  have m: "tds ?m = (tds st2)(td := (tds st1 td)\<lparr>td_sched_ctx := None, td_flags := SYS_THREAD_KILLED, td_exit_status := status\<rparr>)"
    "vmtds ?m = vmtds st2" "th_table ?m = th_table st2" "broadcasts ?m = broadcasts st2"
    using t1 by (simp_all add: thread_exit_mark_def later(1) td0_def SYS_THREAD_KILLED_def)
  let ?l = "sys_vm2_leave vm (sys_thread_del td (broadcast td ?m))"
  have g: "thread_getvm ?m td = vm" "thread_getvm ?l vm = vm" "\<not> thread_isvm st2 td"
    using t1 later new by (auto simp: thread_getvm_def thread_isvm_def m)
  let ?u = "thread_exit_unref env False status vm ?l"
  have ex: "thread_exit env td status st2 = Some ?u"
    using g t1 later(1) m(1) by (simp add: thread_exit_def Let_def)
  have u: "vm_nref (vmtds ?u vm) = vm_nref (vmtds st2 vm) - 1" "tds ?u = tds ?m" "th_table ?u vm = th_table st2 vm - {td}"
    "broadcasts ?u td = Suc (broadcasts st2 td)"
    "vm_nref (vmtds ?u vm) = 0 \<longrightarrow> broadcasts ?u vm = Suc (broadcasts st2 vm)"
    using later(3,4) new g(2) m t1
    by (auto simp: thread_exit_unref_def Let_def sys_vm2_enter_simps [OF lock] sys_thread_del_def thread_getvm_def)
  have "thread_wait env td timeout s ?u = Some (?u, WaitStatus status)"
    using u(2) m(1) t1 new by (simp add: thread_wait_def thread_isvm_def thread_getvm_def Let_def)
  with r1 ex u show ?thesis by auto
qed

definition demo_env :: "bool \<Rightarrow> thread_env" where
  "demo_env can_create = \<lparr>th_lock = (\<lambda>_ s. s), th_wait = (\<lambda>k td ms s. (s, ETIMEDOUT)), th_cond_new = (\<lambda>_. True),
     th_critsect_new = (\<lambda>_. True), th_create = (\<lambda>td. if can_create then Some (td + 1000) else None), th_key = True,
     th_newstate = (\<lambda>_. Some 50), th_newthread = (\<lambda>_. Some 51),
     th_newudata = (\<lambda>s. if th_table s 20 = {} then 20 else 30), th_load = (\<lambda>_. True), th_xdup = (\<lambda>u. Some (LLight u))\<rparr>"

definition demo_store :: thread_store where
  "demo_store = \<lparr>tds = (\<lambda>_. td0)(10 := td0\<lparr>td_L := Some 5, td_vm := 10\<rparr>),
     vmtds = (\<lambda>_. \<lparr>vm_nref = 0, vm_cpu = 0, vm_stack_size = 65536\<rparr>), vm_lock = (\<lambda>_. None)(10 := Some 10),
     th_table = (\<lambda>_. {})(10 := {10}), broadcasts = (\<lambda>_. 0), vm_closed = [], vm_libs = (\<lambda>_. []),
     ctx_sched = (\<lambda>_. 0), sched_cur = (\<lambda>_. None), tls_index = True, eintr_value = LLight 1\<rparr>"

lemmas demo_thread_defs = demo_env_def demo_store_def thread_run_def sys_thread_new_def sys_thread_create_def
  thread_newvm_def thread_runvm_def thread_getvm_def thread_settable_def td0_def u32_add_def

lemma demo_lock_quiet: "lock_quiet (demo_env b)"
  by (simp add: lock_quiet_def demo_env_def)

lemma demo_run:
  "\<exists>st1. thread_run (demo_env True) (Some 10) (LFunction 1) demo_store = (st1, Inr (Some 20)) \<and>
     tds st1 20 = td0\<lparr>td_L := Some 51, td_vm := 10, td_reftd := Some 10, td_tid := 1020\<rparr> \<and> td_vm (tds st1 10) = 10 \<and>
     vm_nref (vmtds st1 10) = 1"
  by (simp add: demo_thread_defs)

theorem thread_life_balanced_witness:
  "\<exists>st1 st3. thread_run (demo_env True) (Some 10) (LFunction 1) demo_store = (st1, Inr (Some 20)) \<and>
     thread_exit (demo_env True) 20 7 st1 = Some st3 \<and> vm_nref (vmtds st3 10) = 0 \<and> 20 \<notin> th_table st3 10 \<and>
     thread_wait (demo_env True) 20 None 0 st3 = Some (st3, WaitStatus 7)"
proof -
  obtain st1 where r: "thread_run (demo_env True) (Some 10) (LFunction 1) demo_store = (st1, Inr (Some 20))"
    and t: "td_vm (tds st1 10) = 10" "vm_nref (vmtds st1 10) = 1" using demo_run by auto
  have v: "10 = td_vm (tds demo_store 10)" "vm_nref (vmtds demo_store 10) < 4294967295"
    by (simp_all add: demo_store_def)
  show ?thesis
    using thread_life_balanced [OF r v(1) _ v(2) demo_lock_quiet refl t(1), of 7 None 0] r t by auto
qed

lemma thread_waitvm_idle: "vm_nref (vmtds st vm) = 0 \<Longrightarrow> thread_waitvm env k vm timeout st = Some (st, 0)"
  by (subst thread_waitvm.simps) simp

lemma vm_close_simps:
  assumes "td_vm (tds st vm) = vm"
  shows "tds (vm_close env vm st) = (tds st)(vm := (tds st vm)\<lparr>td_L := None\<rparr>)" "vmtds (vm_close env vm st) = vmtds st"
    "th_table (vm_close env vm st) = th_table st" "broadcasts (vm_close env vm st) = broadcasts st"
  using assms by (auto simp: vm_close_def thread_done_def thread_isvm_def thread_getvm_def vm_release_def)

lemma thread_settable_simps [simp]: "tds (thread_settable td st) = tds st" "vmtds (thread_settable td st) = vmtds st"
  by (simp_all add: thread_settable_def)

lemma thread_newvm_tds:
  assumes "thread_newvm env in_state reftd loadlibs st = (st1, Some vm)"
  shows "\<exists>nl. tds st1 = (tds st)(vm := td0\<lparr>td_L := Some nl, td_vm := vm, td_reftd := reftd\<rparr>)"
  using assms by (auto simp: thread_newvm_def Let_def split: option.splits if_splits)

lemma sys_thread_new_tds:
  assumes "sys_thread_new env vmtd (Some v) st = (st1, Some td)"
  shows "\<exists>L. tds st1 = (tds st)(td := td0\<lparr>td_L := L, td_vm := thread_getvm st vmtd, td_reftd := Some v\<rparr>)"
  using assms by (auto simp: sys_thread_new_def Let_def split: option.splits if_splits)

lemma sys_thread_create_tds:
  assumes "sys_thread_create env td st = (st1, 0)"
  shows "\<exists>tid. tds st1 = (tds st)(td := (tds st td)\<lparr>td_tid := tid\<rparr>)"
  using assms by (auto simp: sys_thread_create_def split: option.splits)

lemma thread_runvm_started:
  assumes "thread_runvm env (Some self) options path args st = (st1, Inr (Some (fake, vs)))"
  obtains stA loadlibs td stB stC stD where "thread_newvm env False (Some self) loadlibs st = (stA, Some td)"
    "sys_thread_new env self (Some td) stA = (stB, Some fake)" "tds stC = tds stB"
    "sys_thread_create env td stC = (stD, 0)" "tds st1 = (tds stD)(fake := (tds stD fake)\<lparr>td_tid := td_tid (tds stD td)\<rparr>)"
  using assms by (auto simp: thread_runvm_def Let_def split: sum.splits option.splits if_splits prod.splits) (metis store_upd_simps(5))

lemma thread_runvm_refs:
  assumes "thread_runvm env (Some self) options path args st = (st1, Inr (Some (fake, vs)))"
    "td_reftd (tds st1 fake) = Some td" "fake \<noteq> td"
  shows "td_vm (tds st1 td) = td \<and> td_reftd (tds st1 td) = Some self \<and> td_flags (tds st1 td) = 0"
proof -
  from assms(1) obtain stA loadlibs t stB stC stD where r: "thread_newvm env False (Some self) loadlibs st = (stA, Some t)"
    "sys_thread_new env self (Some t) stA = (stB, Some fake)" "tds stC = tds stB"
    "sys_thread_create env t stC = (stD, 0)" "tds st1 = (tds stD)(fake := (tds stD fake)\<lparr>td_tid := td_tid (tds stD t)\<rparr>)"
    by (rule thread_runvm_started)
  show ?thesis
    using thread_newvm_tds [OF r(1)] sys_thread_new_tds [OF r(2)] sys_thread_create_tds [OF r(4)] r(3,5) assms(2,3)
    by (auto simp: td0_def split: if_splits)
qed

text \<open>
  Claim C34: the thread of a new VM refers to the thread that called \<open>thread_runvm\<close>, and only its
  stand-in in the calling VM refers to it. When the new VM ends without workers of its own,
  \<open>thread_exit\<close> therefore marks the calling thread as killed, gives it the status and removes its object
  from the table, while the stand-in, the value that \<open>thread_runvm\<close> returned, is neither marked nor
  woken. The count of the calling VM is decremented.
\<close>

theorem thread_runvm_end_marks_caller:
  assumes run: "thread_runvm env (Some self) options path args st = (st1, Inr (Some (fake, vs)))"
    and td: "td_reftd (tds st1 fake) = Some td" and new: "distinct [self, td, fake]"
    and lock: "lock_quiet env" and later: "tds st2 td = tds st1 td" "td_vm (tds st2 self) = vm" "vm \<noteq> td"
    and idle: "vm_nref (vmtds st2 td) = 0" and count: "0 < vm_nref (vmtds st2 vm)" "vm_nref (vmtds st2 vm) < 4294967296"
  shows "\<exists>st3. thread_exit env td status st2 = Some st3 \<and> td_flags (tds st3 self) = SYS_THREAD_KILLED \<and>
    td_exit_status (tds st3 self) = status \<and> self \<notin> th_table st3 vm \<and> tds st3 fake = tds st2 fake \<and>
    broadcasts st3 fake \<le> broadcasts st2 fake + (if fake = vm then 1 else 0) \<and>
    vm_nref (vmtds st3 vm) = vm_nref (vmtds st2 vm) - 1"
proof -
  have t1: "td_vm (tds st1 td) = td \<and> td_reftd (tds st1 td) = Some self \<and> td_flags (tds st1 td) = 0"
    using thread_runvm_refs [OF run td] new by auto
  let ?m = "thread_exit_mark td status st2"
  have m: "tds ?m = (tds st2)(td := (tds st1 td)\<lparr>td_sched_ctx := None, td_flags := SYS_THREAD_KILLED, td_exit_status := status\<rparr>)"
    "vmtds ?m = vmtds st2" "th_table ?m = th_table st2" "broadcasts ?m = broadcasts st2"
    using t1 later(1) by (simp_all add: thread_exit_mark_def SYS_THREAD_KILLED_def)
  let ?c = "vm_close env td ?m"
  have c: "tds ?c = (tds ?m)(td := (tds ?m td)\<lparr>td_L := None\<rparr>)" "vmtds ?c = vmtds st2"
    "th_table ?c = th_table st2" "broadcasts ?c = broadcasts st2"
    using m t1 by (simp_all add: vm_close_simps)
  let ?u = "thread_exit_unref env True status self ?c"
  have ex: "thread_exit env td status st2 = Some ?u"
    using t1 later(1) m idle
    by (simp add: thread_exit_def Let_def thread_isvm_def thread_getvm_def thread_waitvm_idle)
  have g: "thread_getvm ?c self = vm" using c(1) m(1) later(2) new by (simp add: thread_getvm_def)
  have u: "tds ?u = (tds ?c)(self := (tds ?c self)\<lparr>td_flags := SYS_THREAD_KILLED, td_exit_status := status\<rparr>)"
    "vm_nref (vmtds ?u vm) = vm_nref (vmtds st2 vm) - 1" "self \<notin> th_table ?u vm"
    "broadcasts ?u fake \<le> broadcasts st2 fake + (if fake = vm then 1 else 0)"
    using g count c new
    by (auto simp: thread_exit_unref_def Let_def sys_vm2_enter_simps [OF lock] sys_thread_del_def thread_getvm_def)
  show ?thesis
    using ex u c(1) m(1) new by (intro exI [of _ ?u]) auto
qed

lemma demo_runvm:
  "\<exists>st1. thread_runvm (demo_env True) (Some 10) (Some ([''io''], Some 2)) [] [LUserdata 4] demo_store = (st1, Inr (Some (30, [LLight 4]))) \<and>
     td_reftd (tds st1 30) = Some 20 \<and> td_vm (tds st1 10) = 10 \<and> vm_nref (vmtds st1 20) = 0 \<and> vm_nref (vmtds st1 10) = 1"
  by (simp add: demo_thread_defs lib_index_def stdlib_names_def)

theorem thread_runvm_end_marks_caller_witness:
  "\<exists>st1 st3. thread_runvm (demo_env True) (Some 10) (Some ([''io''], Some 2)) [] [LUserdata 4] demo_store
       = (st1, Inr (Some (30, [LLight 4]))) \<and>
     thread_exit (demo_env True) 20 7 st1 = Some st3 \<and> td_flags (tds st3 10) = SYS_THREAD_KILLED \<and>
     10 \<notin> th_table st3 10 \<and> td_flags (tds st3 30) = td_flags (tds st1 30)"
proof -
  obtain st1 where r: "thread_runvm (demo_env True) (Some 10) (Some ([''io''], Some 2)) [] [LUserdata 4] demo_store
       = (st1, Inr (Some (30, [LLight 4])))"
    and t: "td_reftd (tds st1 30) = Some 20" "td_vm (tds st1 10) = 10" "vm_nref (vmtds st1 20) = 0" "vm_nref (vmtds st1 10) = 1"
    using demo_runvm by auto
  show ?thesis
    using thread_runvm_end_marks_caller [OF r t(1) _ demo_lock_quiet refl t(2) _ t(3), of 7] r t by auto
qed

lemma thread_exit_worker:
  assumes "\<not> thread_isvm st td"
  shows "\<exists>st1. thread_exit env td status st = Some st1"
  using assms by (simp add: thread_exit_def Let_def)

text \<open>
  A wait for a thread checks the flags of that thread, not those of the waiting one. Once the
  first wait on its condition returns, for whatever reason, a pending interrupt of the awaited thread
  raises its error in the waiting thread, and a pending termination ends the waiting thread; the awaited
  thread is marked as killed in the state where its end begins. With no flag, a wait that times out
  reports it.
\<close>

lemma thread_wait_checks_awaited:
  assumes vm: "\<not> thread_isvm st td" and alive: "td_flags (tds st td) \<noteq> SYS_THREAD_KILLED"
    and wait: "th_wait env 0 td (case timeout of None \<Rightarrow> TIMEOUT_INFINITE | Some t \<Rightarrow> t) (sys_vm2_preleave td st) = (st1, res)"
    and vm1: "\<not> thread_isvm st1 td"
  shows "(td_flags (tds st1 td) = SYS_THREAD_INTERRUPT \<longrightarrow>
            (\<exists>st2. thread_wait env td timeout status st = Some (st2, WaitLeft InterruptError) \<and> tds st2 = tds st1)) \<and>
    (td_flags (tds st1 td) = SYS_THREAD_TERMINATE \<longrightarrow>
       (\<exists>st2. thread_wait env td timeout status st = Some (st2, WaitLeft ThreadExit) \<and>
          thread_exit env td status
            (td_upd td (\<lambda>t. t\<lparr>td_flags := SYS_THREAD_KILLED\<rparr>) (sys_vm2_postenter td st1)) = Some st2)) \<and>
    (td_flags (tds st1 td) = 0 \<and> res = ETIMEDOUT \<longrightarrow>
       (\<exists>st2. thread_wait env td timeout status st = Some (st2, WaitTimedOut) \<and> tds st2 = tds st1))"
proof -
  let ?p = "sys_vm2_postenter td st1"
  have w: "thread_wait env td timeout status st =
    (do { (st2, r) \<leftarrow> thread_wait_loop env 0 td (case timeout of None \<Rightarrow> TIMEOUT_INFINITE | Some t \<Rightarrow> t) status st;
         Some (st2, case r of Inl c \<Rightarrow> WaitLeft c | Inr res \<Rightarrow>
           if res = 1 then WaitTimedOut else if res \<ge> 0 then WaitStatus (td_exit_status (tds st2 td)) else WaitError) })"
    using vm alive by (simp add: thread_wait_def Let_def)
  have c: "thread_cond_wait_vm env 0 td (case timeout of None \<Rightarrow> TIMEOUT_INFINITE | Some t \<Rightarrow> t) st = (?p, cond_wait_res res)"
    using wait by (simp add: thread_cond_wait_vm_def)
  let ?k = "td_upd td (\<lambda>t. t\<lparr>td_flags := SYS_THREAD_KILLED\<rparr>) ?p"
  obtain st2 where ex: "thread_exit env td status ?k = Some st2"
    using thread_exit_worker [of ?k td env status] vm1 by (auto simp: thread_isvm_def thread_getvm_def)
  note loop = thread_wait_loop.simps [of env 0 td _ status st]
  have "td_flags (tds st1 td) = SYS_THREAD_INTERRUPT \<Longrightarrow> \<exists>s2. thread_check env td status ?p = Some (s2, InterruptError) \<and> tds s2 = tds st1"
    by (auto simp: thread_check_def sys_thread_check_def SYS_THREAD_TERMINATE_def SYS_THREAD_INTERRUPT_def Let_def)
  moreover have "td_flags (tds st1 td) = SYS_THREAD_TERMINATE \<Longrightarrow> thread_check env td status ?p = Some (st2, ThreadExit)"
    using ex by (simp add: thread_check_def sys_thread_check_def Let_def)
  moreover have "td_flags (tds st1 td) = 0 \<Longrightarrow> \<exists>s2. thread_check env td status ?p = Some (s2, Continue) \<and> tds s2 = tds st1"
    by (auto simp: thread_check_def sys_thread_check_def SYS_THREAD_TERMINATE_def SYS_THREAD_INTERRUPT_def Let_def)
  ultimately show ?thesis
    using ex unfolding w loop c by (auto simp: cond_wait_res_def ETIMEDOUT_def)
qed

lemma thread_wait_checks_awaited_witness:
  "\<exists>st st2. thread_set_terminate (demo_env True) (Some 10) 20 3 0 (fst (thread_run (demo_env True) (Some 10) (LFunction 1) demo_store))
       = Some (st, Continue) \<and>
     thread_wait (demo_env True) 20 (Some 100) 0 st = Some (st2, WaitLeft ThreadExit)"
proof -
  obtain st1 where r: "thread_run (demo_env True) (Some 10) (LFunction 1) demo_store = (st1, Inr (Some 20))"
    and t: "tds st1 20 = td0\<lparr>td_L := Some 51, td_vm := 10, td_reftd := Some 10, td_tid := 1020\<rparr>" using demo_run by auto
  let ?st = "td_upd 20 (\<lambda>r. r\<lparr>td_exit_status := 3, td_flags := SYS_THREAD_TERMINATE\<rparr>) st1"
  have s: "thread_set_terminate (demo_env True) (Some 10) 20 3 0 st1 = Some (?st, Continue)"
    using t by (simp add: thread_set_terminate_def thread_unfake_def thread_isvm_def thread_getvm_def)
  have f: "\<not> thread_isvm ?st 20" "td_flags (tds ?st 20) = SYS_THREAD_TERMINATE" "SYS_THREAD_TERMINATE \<noteq> SYS_THREAD_KILLED"
    using t by (simp_all add: thread_isvm_def thread_getvm_def SYS_THREAD_TERMINATE_def SYS_THREAD_KILLED_def)
  have p: "sys_vm2_preleave 20 ?st = ?st" using t by (simp add: sys_vm2_preleave_def td0_def)
  have w: "th_wait (demo_env True) 0 20 (case Some 100 of None \<Rightarrow> TIMEOUT_INFINITE | Some t \<Rightarrow> t) (sys_vm2_preleave 20 ?st)
      = (?st, ETIMEDOUT)"
    unfolding p by (simp add: demo_env_def)
  show ?thesis
    using thread_wait_checks_awaited [OF f(1) _ w f(1), of 0] f(2,3) s r by auto
qed

section \<open>Suspension and failed creation\<close>

text \<open>A suspended thread goes on only when it was resumed, or with the result of a wait that timed out or failed.\<close>

lemma thread_suspend_loop_result:
  assumes "thread_suspend_loop env k td timeout st = Some r"
  shows "td_suspended (tds (fst r) td) \<longrightarrow> snd r \<noteq> 0"
proof (rule thread_suspend_loop.raw_induct
    [where P = "\<lambda>env k td timeout st r. td_suspended (tds (fst r) td) \<longrightarrow> snd r \<noteq> 0", OF _ assms])
  fix f env k td timeout st r
  assume IH: "\<And>env k td timeout st r. f env k td timeout st = Some r \<Longrightarrow> td_suspended (tds (fst r) td) \<longrightarrow> snd r \<noteq> 0"
    and eq: "(case thread_cond_wait_vm env k td timeout st of (st1, res) \<Rightarrow>
        if td_suspended (tds st1 td) \<and> res = 0 then f env (Suc k) td timeout st1 else Some (st1, res)) = Some r"
  then show "td_suspended (tds (fst r) td) \<longrightarrow> snd r \<noteq> 0"
    by (cases "thread_cond_wait_vm env k td timeout st"; cases r) (fastforce split: if_splits)
qed

lemma sys_thread_suspend_resumed:
  assumes "sys_thread_suspend env td timeout st = Some (st1, 0)"
  shows "\<not> td_suspended (tds st1 td)"
  using thread_suspend_loop_result [OF assms [unfolded sys_thread_suspend_def]] by auto

text \<open>A wait that wakes up after \<open>sys_thread_resume\<close> ends the suspension.\<close>

lemma sys_thread_suspend_wakes:
  assumes "th_wait env 0 td timeout (sys_vm2_preleave td (td_upd td (\<lambda>t. t\<lparr>td_suspended := True\<rparr>) st)) = (sys_thread_resume td st1, res)"
  shows "\<exists>st2. sys_thread_suspend env td timeout st = Some (st2, cond_wait_res res) \<and> \<not> td_suspended (tds st2 td)"
  using assms unfolding sys_thread_suspend_def
  by (subst thread_suspend_loop.simps) (simp add: thread_cond_wait_vm_def sys_thread_resume_def)

text \<open>When a thread cannot be created, it is taken out of the table again but stays counted in its VM: a
  later wait for the workers of the VM does not see the count it had before.\<close>

lemma thread_run_failure_leaks:
  assumes run: "thread_run env (Some self) func st = (st1, Inr None)" and new: "th_newthread env st \<noteq> None"
    and vm: "vm = td_vm (tds st self)" and n: "vm_nref (vmtds st vm) < 4294967295"
  shows "vm_nref (vmtds st1 vm) = Suc (vm_nref (vmtds st vm))"
  using assms by (auto simp: thread_run_def sys_thread_new_def sys_thread_create_def Let_def thread_getvm_def u32_add_def
      split: option.splits if_splits prod.splits)

end
