(* ===== verification/Backend.thy ===== *)
theory Backend
  imports Evq "HOL-Library.Multiset"
begin

text \<open>
  What the poll and the select backends share (src/src/event/poll.c and select.c): an event queue keeps
  its events in an array from slot 1 on, an event knows its slot, and a deleted event is replaced by
  the last one. The state of such a backend is the event store together with a table. The locale is
  what the loop over the ready descriptors relies on; it says that a deletion acts on the event store
  as that of the epoll backend and disturbs no slot behind the one of the deleted event.
\<close>

section \<open>Activation\<close>

text \<open>The body of both loops: an event that is not active is flagged, deleted if it is one-shot or its
  timeout restarted, and pushed on the ready list.\<close>

definition tab_activate ::
  "(nat \<Rightarrow> evq_store \<times> 't \<Rightarrow> ((evq_store \<times> 't) \<times> int) option) \<Rightarrow> nat \<Rightarrow> ptr \<Rightarrow> int \<Rightarrow> evq_store \<times> 't
     \<Rightarrow> ((evq_store \<times> 't) \<times> ptr) option" where
  "tab_activate del ev rdy now st =
     (case st of (w, tb) \<Rightarrow>
        if flag_on (ev_flags (events w ev)) EVENT_ACTIVE then Some (st, rdy)
        else do {
          let w1 = ev_upd ev (\<lambda>e. e\<lparr>ev_flags := set_flag (ev_flags e) EVENT_ACTIVE\<rparr>) w;
          let e1 = events w1 ev;
          (w2, tb2) \<leftarrow> (if flag_on (ev_flags e1) EVENT_ONESHOT then map_option fst (del ev (w1, tb))
                       else if ev_tq e1 \<noteq> None \<and> \<not> flag_on (ev_flags e1) EVENT_TIMEOUT_MANUAL
                         then map_option (\<lambda>w. (w, tb)) (timeout_reset ev now w1)
                       else Some (w1, tb));
          Some ((ev_upd ev (\<lambda>e. e\<lparr>next_ready := rdy\<rparr>) w2, tb2), Some ev)
        })"

text \<open>Array accesses.\<close>

definition arr_get :: "'a list \<Rightarrow> nat \<Rightarrow> 'a option" where
  "arr_get xs i = (if i < length xs then Some (xs ! i) else None)"

definition arr_set :: "'a list \<Rightarrow> nat \<Rightarrow> 'a \<Rightarrow> 'a list option" where
  "arr_set xs i x = (if i < length xs then Some (xs[i := x]) else None)"

section \<open>The table as a list\<close>

text \<open>Slot \<open>k + 1\<close> holds the \<open>k\<close>-th event, which knows the slot.\<close>

definition slots_hold :: "(nat \<Rightarrow> nat) \<Rightarrow> (nat \<Rightarrow> nat) \<Rightarrow> nat list \<Rightarrow> bool" where
  "slots_hold slot index es \<longleftrightarrow> distinct es \<and> (\<forall>k < length es. slot (Suc k) = es ! k \<and> index (es ! k) = Suc k)"

text \<open>Deletion: the last element takes the place of the deleted one.\<close>

definition swap_remove :: "nat \<Rightarrow> 'a list \<Rightarrow> 'a list" where
  "swap_remove k xs = (if Suc k < length xs then (butlast xs)[k := last xs] else butlast xs)"

lemma length_swap_remove [simp]: "length (swap_remove k xs) = length xs - 1"
  by (simp add: swap_remove_def)

lemma nth_swap_remove:
  "j < length xs - 1 \<Longrightarrow> swap_remove k xs ! j = (if j = k then last xs else xs ! j)"
  by (auto simp: swap_remove_def nth_list_update nth_butlast)

lemma mset_butlast: "xs \<noteq> [] \<Longrightarrow> mset xs = add_mset (last xs) (mset (butlast xs))"
  by (induction xs rule: rev_induct) auto

lemma mset_swap_remove:
  assumes "k < length xs"
  shows "mset (swap_remove k xs) = mset xs - {#xs ! k#}"
proof -
  have m: "mset xs = add_mset (last xs) (mset (butlast xs))" by (rule mset_butlast) (use assms in auto)
  show ?thesis
  proof (cases "Suc k < length xs")
    case True
    then have c: "xs ! k \<in># mset (butlast xs)" using nth_mem [of k "butlast xs"] by (simp add: nth_butlast)
    have "add_mset (last xs) (mset (butlast xs) - {#xs ! k#}) = add_mset (last xs) (mset (butlast xs)) - {#xs ! k#}"
      by (metis c add_mset_commute add_mset_remove_trivial insert_DiffM)
    with True m show ?thesis by (simp add: swap_remove_def mset_update nth_butlast)
  next
    case False
    with assms have "k = length xs - 1" "xs \<noteq> []" by auto
    then have "xs ! k = last xs" by (simp add: last_conv_nth)
    with False m show ?thesis by (simp add: swap_remove_def)
  qed
qed

lemma set_swap_remove:
  assumes "distinct xs" "k < length xs"
  shows "set (swap_remove k xs) = set xs - {xs ! k}" "distinct (swap_remove k xs)"
proof -
  have m: "mset (swap_remove k xs) = mset (remove1 (xs ! k) xs)" using mset_swap_remove [OF assms(2)] by simp
  show "set (swap_remove k xs) = set xs - {xs ! k}"
    using mset_eq_setD [OF m] assms(1) by (simp add: set_remove1_eq)
  show "distinct (swap_remove k xs)"
    using mset_eq_imp_distinct_iff [OF m] assms(1) by simp
qed

text \<open>Writing the last event to the slot of the deleted one gives the table of the shorter list.\<close>

lemma slots_hold_remove:
  assumes h: "slots_hold slot index es" and ev: "ev \<in> set es"
    and slot': "\<And>i. i \<noteq> index ev \<Longrightarrow> slot' i = slot i"
    and index': "\<And>e. e \<noteq> last es \<Longrightarrow> index' e = index e"
    and moved: "index ev < length es \<Longrightarrow> slot' (index ev) = last es \<and> index' (last es) = index ev"
    and same: "\<not> index ev < length es \<Longrightarrow> index' = index"
  shows "slots_hold slot' index' (swap_remove (index ev - 1) es) \<and> set (swap_remove (index ev - 1) es) = set es - {ev} \<and>
    (\<forall>e \<in> set es. index' e \<le> index e)"
proof -
  from ev obtain k where k: "k < length es" "es ! k = ev" by (auto simp: in_set_conv_nth)
  have d: "distinct es" and i: "\<And>j. j < length es \<Longrightarrow> slot (Suc j) = es ! j \<and> index (es ! j) = Suc j"
    using h by (auto simp: slots_hold_def)
  have ix: "index ev = Suc k" using i [OF k(1)] k(2) by simp
  have "es \<noteq> []" "0 < length es" using k(1) by auto
  then have l: "last es = es ! (length es - 1)" "index (last es) = length es"
    using i [of "length es - 1"] by (simp_all add: last_conv_nth)
  have s: "set (swap_remove k es) = set es - {ev}" "distinct (swap_remove k es)"
    using set_swap_remove [OF d k(1)] k(2) by auto
  have "slot' (Suc j) = swap_remove k es ! j \<and> index' (swap_remove k es ! j) = Suc j" if j: "j < length es - 1" for j
  proof (cases "j = k")
    case True
    with j have "index ev < length es" using ix by simp
    with moved True ix j show ?thesis by (simp add: nth_swap_remove)
  next
    case False
    have "es ! j \<noteq> last es" using j d l(1) by (simp add: nth_eq_iff_index_eq)
    with False j i [of j] slot' [of "Suc j"] index' [of "es ! j"] ix show ?thesis by (simp add: nth_swap_remove)
  qed
  moreover have "index' e \<le> index e" if "e \<in> set es" for e
  proof (cases "e = last es \<and> index ev < length es")
    case True
    then show ?thesis using moved l(2) by simp
  next
    case False
    then show ?thesis using index' [of e] same by (cases "e = last es") auto
  qed
  ultimately show ?thesis using s ix by (simp add: slots_hold_def)
qed

lemma slots_index:
  assumes "slots_hold slot index es" "ev \<in> set es"
  shows "0 < index ev" "index ev \<le> length es" "slot (index ev) = ev" "es ! (index ev - 1) = ev"
  using assms by (auto simp: slots_hold_def in_set_conv_nth)

lemma slots_last:
  assumes "slots_hold slot index es" "es \<noteq> []"
  shows "slot (length es) = last es" "index (last es) = length es"
  using assms by (auto simp: slots_hold_def last_conv_nth) (metis Suc_pred diff_less length_greater_0_conv zero_less_one One_nat_def)+

section \<open>Deletion\<close>

text \<open>The part of \<open>evq_del\<close> on the event store, for a plain event of a queue without epoll descriptors.\<close>

definition plain_event :: "evq_store \<Rightarrow> nat \<Rightarrow> nat \<Rightarrow> bool" where
  "plain_event w q e \<longleftrightarrow> ev_evq (events w e) = Some q \<and>
     (\<forall>m \<in> {EVENT_SIGNAL, EVENT_TIMER, EVENT_DIRWATCH}. \<not> flag_on (ev_flags (events w e)) m)"

lemma ep_upd_empty: "ep_set w q = (\<lambda>_. None) \<Longrightarrow> ep_upd q fd None w = w"
  by (simp add: ep_upd_def fun_upd_idem)

lemma evq_del_plain:
  assumes p: "plain_event w q ev" and ep: "ep_set w q = (\<lambda>_. None)" and d: "evq_del os ev True w = Some (w', r)"
  obtains w1 where "(if ev_tq (events w ev) \<noteq> None then timeout_del ev w else Some w) = Some w1"
    "w' = evq_upd q (\<lambda>r. r\<lparr>nevents := u32_sub (nevents r) 1\<rparr>) (ev_upd ev (\<lambda>e. e\<lparr>ev_evq := None\<rparr>) w1)" "r = 0"
proof -
  from p have q: "ev_evq (events w ev) = Some q" by (simp add: plain_event_def)
  from d q obtain w1 where w1: "(if ev_tq (events w ev) \<noteq> None then timeout_del ev w else Some w) = Some w1"
    by (auto simp: evq_del_def Let_def split: bind_splits)
  let ?w3 = "evq_upd q (\<lambda>r. r\<lparr>nevents := u32_sub (nevents r) 1\<rparr>) (ev_upd ev (\<lambda>e. e\<lparr>ev_evq := None\<rparr>) w1)"
  have "ep_set w1 = ep_set w" using w1 timeout_del_ep [of ev w w1] by (auto split: if_splits)
  then have e: "ep_upd q fd None ?w3 = ?w3" for fd using ep by (intro ep_upd_empty) simp
  have "w' = ?w3 \<and> r = 0"
    using d p unfolding evq_del_def q Let_def Option.bind_lunit w1 e by (simp add: plain_event_def)
  with w1 show thesis by (intro that) auto
qed

lemma timer_demo_plain: "plain_event timer_demo 0 9" "ep_set timer_demo q = (\<lambda>_. None)" "ev_flags (events timer_demo 9) = 0"
  "ev_fd (events timer_demo 9) = 0"
  by (simp_all add: plain_event_def timer_demo_def zero_defs)

section \<open>Waiting\<close>

lemma flag_on_or: "flag_on (a OR b) m = (flag_on a m \<or> flag_on b m)"
  by (auto simp: flag_on_bit bit_simps)

text \<open>The time of a wait that reaches the system call.\<close>

definition waits_ms :: "evq_store \<Rightarrow> nat \<Rightarrow> int \<Rightarrow> int \<Rightarrow> bool" where
  "waits_ms w q timeout t1 \<longleftrightarrow> (if timeout = 0 then t1 = 0
     else t1 \<noteq> 0 \<and> timeout_get w (evq_tq (evqs w q)) timeout (evq_now (evqs w q)) = Some t1)"

abbreviation wait_now :: "int \<Rightarrow> int \<Rightarrow> int" where
  "wait_now time t1 \<equiv> (if t1 \<noteq> TIMEOUT_INFINITE then time else t1)"

lemma evq_wait_run:
  assumes "waits_ms w q timeout t1" "epoll t1 w = (w1, EpollReady epevs)" "epevs \<noteq> []"
    "epoll_loop os q (wait_now time t1) epevs (evq_upd q (\<lambda>r. r\<lparr>evq_now := time\<rparr>) w1, ev_ready (evqs w1 q)) = Some (w3, rdy)"
  shows "evq_wait os epoll time q timeout w = Some (if rdy = None then w3 else evq_upd q (\<lambda>r. r\<lparr>ev_ready := rdy\<rparr>) w3, 0)"
proof -
  have "(if timeout \<noteq> 0 then timeout_get w (evq_tq (evqs w q)) timeout (evq_now (evqs w q)) else Some 0) = Some t1"
    "\<not> (timeout \<noteq> 0 \<and> t1 = 0)" using assms(1) by (auto simp: waits_ms_def split: if_splits)
  then show ?thesis using assms(2-4) by (auto simp: evq_wait_def Let_def)
qed

lemma epoll_loop_active:
  assumes "evq_good w q rs" "epevs_ok w q epevs" "epoll_loop os q now epevs (w, hdp rs None) = Some (w', rdy)"
    "(r, Some e) \<in> set epevs"
  shows "ev_active w' e"
proof -
  from epoll_loop_spec [OF assms(1,2), of os now] obtain w2 ns where
    "epoll_loop os q now epevs (w, hdp rs None) = Some (w2, hdp (ns @ rs) None)"
    "\<forall>e. Some e \<in> snd ` set epevs \<longrightarrow> ev_active w2 e" by blast
  with assms(3,4) show ?thesis by force
qed

text \<open>The interruption is handled before the loop, like the first report of epoll.\<close>

lemma interrupt_sim:
  assumes good: "evq_good w q rs" and sig: "b \<Longrightarrow> sigs_known w q"
  shows "\<exists>w3 ns. (if b then signal_process_interrupt os q (hdp rs None) now w else Some (w, hdp rs None)) = Some (w3, hdp (ns @ rs) None) \<and>
      evq_good w3 q (ns @ rs) \<and> evq_step q ns w w3 \<and>
      (\<forall>epevs. epoll_loop os q now ((if b then [(EPOLLIN, None)] else []) @ epevs) (w, hdp rs None)
         = epoll_loop os q now epevs (w3, hdp (ns @ rs) None))"
proof (cases b)
  case False
  then show ?thesis using good evq_step_refl [of q w] by (intro exI [of _ w] exI [of _ "[]"]) simp
next
  case True
  from signal_process_interrupt_spec [OF good sig [OF True], of os now] obtain w3 ns where
    s: "signal_process_interrupt os q (hdp rs None) now w = Some (w3, hdp (ns @ rs) None)"
    "evq_good w3 q (ns @ rs)" "evq_step q ns w w3" by blast
  have "epoll_process os q now (EPOLLIN, None) (w, hdp rs None) = Some (w3, hdp (ns @ rs) None)"
    using s(1) by (simp add: epoll_process_def EPOLLIN_def)
  with s True show ?thesis by (intro exI [of _ w3] exI [of _ ns]) simp
qed

section \<open>The interface\<close>

text \<open>The slots from \<open>i\<close> on that the loop has still to visit.\<close>

definition pending :: "(nat \<Rightarrow> nat) \<Rightarrow> (nat \<Rightarrow> nat) \<Rightarrow> nat list \<Rightarrow> nat \<Rightarrow> nat list \<Rightarrow> bool" where
  "pending slot index es i xs \<longleftrightarrow> distinct xs \<and>
     (\<forall>k < length xs. slot (i + k) = xs ! k \<and> index (xs ! k) \<le> i + k \<and> xs ! k \<in> set es)"

lemma pending_hd: "pending slot index es i (x # xs) \<Longrightarrow> slot i = x \<and> x \<in> set es \<and> x \<notin> set xs"
  by (force simp: pending_def)

lemma pending_all: "slots_hold slot index es \<Longrightarrow> pending slot index es 1 es"
  by (auto simp: slots_hold_def pending_def)

lemma pending_skip: "pending slot index es i (x # xs) \<Longrightarrow> pending slot index es (Suc i) xs"
  by (force simp: pending_def)

lemma pending_step:
  assumes p: "pending slot index es i (x # xs)" and es: "set es - {x} \<subseteq> set es'"
    and slot': "\<And>j. j \<noteq> index x \<Longrightarrow> slot' j = slot j" and index': "\<And>e. e \<in> set es \<Longrightarrow> index' e \<le> index e"
  shows "pending slot' index' es' (Suc i) xs"
  unfolding pending_def
proof (intro conjI allI impI)
  show "distinct xs" using p by (simp add: pending_def)
  fix k assume k: "k < length xs"
  have d: "distinct (x # xs)" and all: "\<And>j. j < length (x # xs) \<Longrightarrow> slot (i + j) = (x # xs) ! j \<and>
      index ((x # xs) ! j) \<le> i + j \<and> (x # xs) ! j \<in> set es" using p by (auto simp: pending_def)
  have a: "slot (Suc i + k) = xs ! k" "index (xs ! k) \<le> Suc i + k" "xs ! k \<in> set es"
    using all [of "Suc k"] k by auto
  have ix: "index x \<le> i" using all [of 0] by simp
  show "slot' (Suc i + k) = xs ! k" using slot' [of "Suc i + k"] ix a(1) by simp
  show "index' (xs ! k) \<le> Suc i + k" using index' [OF a(3)] a(2) by simp
  show "xs ! k \<in> set es'" using es a(3) d k by auto
qed

text \<open>Events that are active or plain stay so along a step.\<close>

lemma evq_step_plain:
  assumes "evq_step q ns w w'" and "ev_active w e \<or> plain_event w q e"
  shows "ev_active w' e \<or> plain_event w' q e"
proof (cases "ev_active w' e")
  case False
  then have "e \<notin> set ns" "\<not> ev_active w e" using assms(1) by (auto simp: evq_step_def)
  with assms show ?thesis by (simp add: evq_step_def plain_event_def)
qed simp

text \<open>
  The operations of a backend: deletion, the list of events in the table of a queue, the slots of the
  array with the data of each slot, the slot that an event knows, and what a deletion leaves alone.
\<close>

locale table_backend =
  fixes base :: "'o \<Rightarrow> evq_os"
    and del :: "'o \<Rightarrow> nat \<Rightarrow> evq_store \<times> 't \<Rightarrow> ((evq_store \<times> 't) \<times> int) option"
    and table :: "'t \<Rightarrow> nat \<Rightarrow> nat list \<Rightarrow> bool"
    and slot :: "'t \<Rightarrow> nat \<Rightarrow> nat \<Rightarrow> nat"
    and index :: "'t \<Rightarrow> nat \<Rightarrow> nat"
    and fd_fits :: "int \<Rightarrow> bool"
    and slot_data :: "'t \<Rightarrow> nat \<Rightarrow> nat \<Rightarrow> 'd"
    and frame :: "'t \<Rightarrow> nat \<Rightarrow> 'f"
  assumes table_slots: "table tb q es \<Longrightarrow> slots_hold (slot tb q) (index tb) es"
    and del_plain: "\<lbrakk>table tb q es; ev \<in> set es; plain_event w q ev; fd_fits (ev_fd (events w ev)); ep_set w q = (\<lambda>_. None);
      evq_del (base os) ev True w = Some (w', r)\<rbrakk> \<Longrightarrow>
      \<exists>tb' es'. del os ev (w, tb) = Some ((w', tb'), r) \<and> table tb' q es' \<and> set es' = set es - {ev} \<and>
        (\<forall>i. i \<noteq> index tb ev \<longrightarrow> slot tb' q i = slot tb q i \<and> slot_data tb' q i = slot_data tb q i) \<and>
        (\<forall>e \<in> set es. index tb' e \<le> index tb e) \<and> frame tb' q = frame tb q"
begin

text \<open>Activation acts on the store as \<open>evq_activate\<close> and keeps the slots that are still to be visited.\<close>

lemma activate_sim:
  assumes tab: "table tb q es" and p: "pending (slot tb q) (index tb) es i (x # xs)"
    and plain: "ev_active w x \<or> plain_event w q x" and fd: "fd_fits (ev_fd (events w x))" and ep: "ep_set w q = (\<lambda>_. None)"
    and act: "evq_activate (base os) x rdy now w = Some (w', rdy')"
  shows "\<exists>tb' es'. tab_activate (del os) x rdy now (w, tb) = Some ((w', tb'), rdy') \<and> table tb' q es' \<and>
    set es' \<subseteq> set es \<and> pending (slot tb' q) (index tb') es' (Suc i) xs \<and>
    (\<forall>j > i. slot_data tb' q j = slot_data tb q j) \<and> frame tb' q = frame tb q"
proof (cases "ev_active w x")
  case True
  with act tab pending_skip [OF p] show ?thesis by (auto simp: tab_activate_def evq_activate_def)
next
  case False
  let ?w1 = "ev_upd x (\<lambda>e. e\<lparr>ev_flags := set_flag (ev_flags e) EVENT_ACTIVE\<rparr>) w"
  show ?thesis
  proof (cases "flag_on (ev_flags (events ?w1 x)) EVENT_ONESHOT")
    case one: True
    have x: "x \<in> set es" using p by (force simp: pending_def)
    have "plain_event ?w1 q x" using plain False by (simp add: plain_event_def)
    moreover from act False one obtain w2 r where d: "evq_del (base os) x True ?w1 = Some (w2, r)"
      and w': "w' = ev_upd x (\<lambda>e. e\<lparr>next_ready := rdy\<rparr>) w2" "rdy' = Some x"
      by (auto simp: evq_activate_def Let_def split: bind_splits)
    ultimately obtain tb' es' where t: "del os x (?w1, tb) = Some ((w2, tb'), r)" "table tb' q es'"
      "set es' = set es - {x}" "\<forall>i. i \<noteq> index tb x \<longrightarrow> slot tb' q i = slot tb q i \<and> slot_data tb' q i = slot_data tb q i"
      "\<forall>e \<in> set es. index tb' e \<le> index tb e" "frame tb' q = frame tb q"
      using del_plain [OF tab x, of ?w1 os w2 r] fd ep by auto
    have "pending (slot tb' q) (index tb') es' (Suc i) xs"
      by (rule pending_step [OF p]) (use t in auto)
    moreover have "index tb x \<le> i" using p by (force simp: pending_def)
    ultimately show ?thesis using t False one w' by (intro exI [of _ tb'] exI [of _ es']) (simp add: tab_activate_def)
  next
    case False': False
    with act False tab pending_skip [OF p] show ?thesis
      by (intro exI [of _ tb] exI [of _ es]) (auto simp: tab_activate_def evq_activate_def Let_def split: bind_splits if_splits)
  qed
qed

text \<open>An event with a report is handled as by the loop of the epoll backend.\<close>

lemma process_sim:
  assumes tab: "table tb q es" and p: "pending (slot tb q) (index tb) es i (x # xs)" and r: "r \<noteq> 0"
    and plain: "ev_active w x \<or> plain_event w q x" and fd: "fd_fits (ev_fd (events w x))"
    and ep: "ep_set w q = (\<lambda>_. None)" and good: "evq_good w q rs"
  shows "\<exists>w' tb' es' ns. tab_activate (del os) x (hdp rs None) now
      (ev_upd x (\<lambda>e. e\<lparr>ev_flags := ev_flags e OR epoll_res r (ev_flags e)\<rparr>) w, tb) = Some ((w', tb'), hdp (ns @ rs) None) \<and>
    epoll_process (base os) q now (r, Some x) (w, hdp rs None) = Some (w', hdp (ns @ rs) None) \<and>
    table tb' q es' \<and> set es' \<subseteq> set es \<and> pending (slot tb' q) (index tb') es' (Suc i) xs \<and>
    (\<forall>j > i. slot_data tb' q j = slot_data tb q j) \<and> frame tb' q = frame tb q \<and>
    evq_good w' q (ns @ rs) \<and> evq_step q ns w w' \<and> ev_active w' x"
proof -
  define w1 where "w1 = ev_upd x (\<lambda>e. e\<lparr>ev_flags := ev_flags e OR epoll_res r (ev_flags e)\<rparr>) w"
  have "epevs_ok w q [(r, Some x)]" using r plain by (auto simp: epevs_ok_def plain_event_def)
  from epoll_process_spec [OF good this, of "base os" now] obtain w' ns where
    e: "epoll_process (base os) q now (r, Some x) (w, hdp rs None) = Some (w', hdp (ns @ rs) None)"
    "evq_good w' q (ns @ rs)" "evq_step q ns w w'" "ev_active w' x" by blast
  have act: "evq_activate (base os) x (hdp rs None) now w1 = Some (w', hdp (ns @ rs) None)"
    using e(1) r by (simp add: epoll_process_def w1_def)
  have f: "flag_on (ev_flags (events w1 x)) m = flag_on (ev_flags (events w x)) m"
    if "m \<in> {EVENT_ACTIVE, EVENT_PID, EVENT_SIGNAL, EVENT_TIMER, EVENT_DIRWATCH, EVENT_READ, EVENT_WRITE}" for m
    using epoll_res_flags [OF that] by (simp add: w1_def)
  have "ev_active w1 x \<or> plain_event w1 q x" using plain f by (auto simp: plain_event_def w1_def)
  moreover have "ep_set w1 q = (\<lambda>_. None)" "fd_fits (ev_fd (events w1 x))" using ep fd by (simp_all add: w1_def)
  ultimately obtain tb' es' where "tab_activate (del os) x (hdp rs None) now (w1, tb) = Some ((w', tb'), hdp (ns @ rs) None)"
    "table tb' q es'" "set es' \<subseteq> set es" "pending (slot tb' q) (index tb') es' (Suc i) xs"
    "\<forall>j > i. slot_data tb' q j = slot_data tb q j" "frame tb' q = frame tb q"
    using activate_sim [OF tab p _ _ _ act] by blast
  with e show ?thesis unfolding w1_def by blast
qed

end

end
