(* ===== verification/Poll.thy ===== *)
theory Poll
  imports Backend
begin

text \<open>
  The poll backend of the event queue, src/src/event/poll.c. Its two arrays are lists as long as the
  block they stand in, with the address of the block: an access outside, or through a pointer to a
  block that \<open>realloc\<close> has moved, is \<open>None\<close>. The descriptors of the signal pipe are part of the
  table; the byte in the pipe is the field \<open>sig_pending\<close> of the queue. Timers and signals are those of
  theory \<open>Evq\<close>: the deletion of a timer or signal event does not touch the table.
\<close>

section \<open>The table\<close>

record pollfd =
  pfd :: int
  pfd_events :: u32
  pfd_revents :: u32

record poll_queue =
  npolls :: nat
  max_polls :: nat
  events_at :: nat
  pevents :: "nat list"
  fdset_at :: nat
  fdset :: "pollfd list"
  psig_fd :: "int \<times> int"

text \<open>The queues, the field \<open>index\<close> of the events, and the blocks that were freed.\<close>

record poll_tab =
  polls :: "nat \<Rightarrow> poll_queue"
  ev_index :: "nat \<Rightarrow> nat"
  freed :: "nat list"

text \<open>The system: \<open>p_malloc k\<close> is the \<open>k\<close>-th allocation of \<open>evq_init\<close>.\<close>

record poll_os =
  p_os :: evq_os
  p_malloc :: "nat \<Rightarrow> nat \<Rightarrow> nat option"
  p_realloc :: "nat \<Rightarrow> nat \<Rightarrow> nat option"
  p_pipe :: "(int \<times> int) option"
  p_nonblock :: "int \<Rightarrow> bool"

type_synonym poll_state = "evq_store \<times> poll_tab"

definition NEVENT :: nat where "NEVENT = 64"

definition POLLIN :: u32 where "POLLIN = 0x1"
definition POLLOUT :: u32 where "POLLOUT = 0x4"
definition POLLERR :: u32 where "POLLERR = 0x8"
definition POLLHUP :: u32 where "POLLHUP = 0x10"
definition POLLNVAL :: u32 where "POLLNVAL = 0x20"
definition POLLFD_READ :: u32 where "POLLFD_READ = POLLIN OR POLLERR OR POLLHUP OR POLLNVAL"
definition POLLFD_WRITE :: u32 where "POLLFD_WRITE = POLLOUT OR POLLERR OR POLLHUP OR POLLNVAL"

lemmas poll_defs = POLLIN_def POLLOUT_def POLLERR_def POLLHUP_def POLLNVAL_def POLLFD_READ_def POLLFD_WRITE_def

definition pollfd0 :: pollfd where "pollfd0 = \<lparr>pfd = 0, pfd_events = 0, pfd_revents = 0\<rparr>"

definition pq_upd :: "nat \<Rightarrow> (poll_queue \<Rightarrow> poll_queue) \<Rightarrow> poll_tab \<Rightarrow> poll_tab" where
  "pq_upd q f tb = tb\<lparr>polls := (polls tb)(q := f (polls tb q))\<rparr>"

lemma pq_upd_simps [simp]:
  "polls (pq_upd q f tb) = (polls tb)(q := f (polls tb q))" "ev_index (pq_upd q f tb) = ev_index tb"
  by (simp_all add: pq_upd_def)

text \<open>The contents of a block after \<open>realloc\<close> to \<open>n\<close> elements.\<close>

definition resize :: "nat \<Rightarrow> 'a \<Rightarrow> 'a list \<Rightarrow> 'a list" where
  "resize n x xs = take n xs @ replicate (n - length xs) x"

section \<open>Operations\<close>

definition poll_done :: "nat \<Rightarrow> poll_state \<Rightarrow> poll_state" where
  "poll_done q st =
     (case st of (w, tb) \<Rightarrow>
        (fd_close (snd (psig_fd (polls tb q))) (fd_close (fst (psig_fd (polls tb q))) w),
         tb\<lparr>freed := events_at (polls tb q) # fdset_at (polls tb q) # freed tb\<rparr>))"

definition poll_init :: "poll_os \<Rightarrow> int \<Rightarrow> nat \<Rightarrow> poll_state \<Rightarrow> (poll_state \<times> int) option" where
  "poll_init os time q st =
     (case st of (w, tb) \<Rightarrow>
        case p_malloc os 0 (NEVENT * 8) of
          None \<Rightarrow> Some (st, -1)
        | Some a \<Rightarrow>
            (case p_malloc os 1 (NEVENT * 8) of
               None \<Rightarrow> Some ((w, tb\<lparr>freed := a # freed tb\<rparr>), -1)
             | Some b \<Rightarrow>
                 (let tb1 = pq_upd q (\<lambda>p. p\<lparr>events_at := a, pevents := replicate NEVENT 0, fdset_at := b,
                        fdset := replicate NEVENT pollfd0, psig_fd := (-1, -1)\<rparr>) tb
                  in case p_pipe os of
                       None \<Rightarrow> Some (poll_done q (w, tb1), -1)
                     | Some (r, s) \<Rightarrow>
                         (let tb2 = pq_upd q (\<lambda>p. p\<lparr>psig_fd := (r, s)\<rparr>) tb1
                          in if \<not> p_nonblock os r then Some (poll_done q (w, tb2), -1)
                             else do {
                               fs \<leftarrow> arr_set (fdset (polls tb2 q)) 0 \<lparr>pfd = r, pfd_events = POLLIN, pfd_revents = 0\<rparr>;
                               Some ((evq_upd q (\<lambda>r. r\<lparr>evq_now := time\<rparr>) w,
                                 pq_upd q (\<lambda>p. p\<lparr>fdset := fs, npolls := u32_add (npolls p) 1, max_polls := NEVENT\<rparr>) tb2), 0)
                             }))))"

text \<open>The growth in \<open>evq_add\<close>; \<open>False\<close> when memory is short.\<close>

definition poll_grow :: "poll_os \<Rightarrow> nat \<Rightarrow> poll_tab \<Rightarrow> poll_tab \<times> bool" where
  "poll_grow os q tb =
     (let p = polls tb q; n = u32_mul 2 (max_polls p) in
      case p_realloc os (events_at p) (n * 8) of
        None \<Rightarrow> (tb, False)
      | Some a \<Rightarrow>
          (let tb1 = pq_upd q (\<lambda>p. p\<lparr>events_at := a, pevents := resize n 0 (pevents p)\<rparr>) tb in
           case p_realloc os (fdset_at p) (n * 8) of
             None \<Rightarrow> (tb1, False)
           | Some b \<Rightarrow>
               (pq_upd q (\<lambda>p. p\<lparr>fdset_at := b, fdset := resize n pollfd0 (fdset p), max_polls := n\<rparr>) tb1, True)))"

definition poll_mask :: "u32 \<Rightarrow> u32" where
  "poll_mask fl = (if flag_on fl EVENT_READ then POLLIN else POLLOUT)"

definition poll_add :: "poll_os \<Rightarrow> nat \<Rightarrow> nat \<Rightarrow> poll_state \<Rightarrow> (poll_state \<times> int) option" where
  "poll_add os q ev st =
     (case st of (w, tb) \<Rightarrow>
        let w1 = ev_upd ev (\<lambda>e. e\<lparr>ev_evq := Some q\<rparr>) w;
            fl = ev_flags (events w1 ev)
        in if flag_on fl EVENT_SIGNAL then (case signal_add (p_os os) q ev w1 of (w2, r) \<Rightarrow> Some ((w2, tb), r))
           else
             (let np = npolls (polls tb q) in
              case (if np \<ge> max_polls (polls tb q) then poll_grow os q tb else (tb, True)) of
                (tb1, False) \<Rightarrow> Some ((w1, tb1), -1)
              | (tb1, True) \<Rightarrow> do {
                  fs \<leftarrow> arr_set (fdset (polls tb1 q)) np
                         \<lparr>pfd = ev_fd (events w1 ev), pfd_events = poll_mask fl, pfd_revents = 0\<rparr>;
                  es \<leftarrow> arr_set (pevents (polls tb1 q)) np ev;
                  let tb2 = pq_upd q (\<lambda>p. p\<lparr>fdset := fs, pevents := es, npolls := u32_add np 1\<rparr>) tb1;
                  Some ((evq_upd q (\<lambda>r. r\<lparr>nevents := u32_add (nevents r) 1\<rparr>) w1,
                         tb2\<lparr>ev_index := (ev_index tb2)(ev := np)\<rparr>), 0)
                }))"

definition poll_add_dirwatch :: int where
  "poll_add_dirwatch = -1"

text \<open>The part of \<open>evq_del\<close> on the table: the last event moves to the free slot.\<close>

definition poll_unslot :: "nat \<Rightarrow> nat \<Rightarrow> poll_tab \<Rightarrow> poll_tab option" where
  "poll_unslot q ev tb =
     (let np = u32_sub (npolls (polls tb q)) 1;
          tb1 = pq_upd q (\<lambda>p. p\<lparr>npolls := np\<rparr>) tb;
          i = ev_index tb1 ev
      in if i < np then do {
           e \<leftarrow> arr_get (pevents (polls tb1 q)) np;
           es \<leftarrow> arr_set (pevents (polls tb1 q)) i e;
           f \<leftarrow> arr_get (fdset (polls tb1 q)) np;
           fs \<leftarrow> arr_set (fdset (polls tb1 q)) i f;
           let tb2 = pq_upd q (\<lambda>p. p\<lparr>pevents := es, fdset := fs\<rparr>) tb1;
           Some (tb2\<lparr>ev_index := (ev_index tb2)(e := i)\<rparr>)
         }
         else Some tb1)"

text \<open>The arrays shrink when three quarters of them are unused; each \<open>realloc\<close> may fail.\<close>

definition poll_shrink :: "poll_os \<Rightarrow> nat \<Rightarrow> poll_tab \<Rightarrow> poll_tab" where
  "poll_shrink os q tb =
     (let p = polls tb q in
      if npolls p > NEVENT div 2 \<and> npolls p \<le> max_polls p div 4 then
        (let n = max_polls p div 2;
             tb1 = pq_upd q (\<lambda>p. p\<lparr>max_polls := n\<rparr>) tb;
             tb2 = (case p_realloc os (events_at p) (n * 8) of
                      None \<Rightarrow> tb1
                    | Some a \<Rightarrow> pq_upd q (\<lambda>p. p\<lparr>events_at := a, pevents := resize n 0 (pevents p)\<rparr>) tb1)
         in case p_realloc os (fdset_at p) (n * 8) of
              None \<Rightarrow> tb2
            | Some b \<Rightarrow> pq_upd q (\<lambda>p. p\<lparr>fdset_at := b, fdset := resize n pollfd0 (fdset p)\<rparr>) tb2)
      else tb)"

definition poll_del :: "poll_os \<Rightarrow> nat \<Rightarrow> poll_state \<Rightarrow> (poll_state \<times> int) option" where
  "poll_del os ev st =
     (case st of (w, tb) \<Rightarrow> do {
        q \<leftarrow> ev_evq (events w ev);
        let fl = ev_flags (events w ev);
        w1 \<leftarrow> (if ev_tq (events w ev) \<noteq> None then timeout_del ev w else Some w);
        let w2 = ev_upd ev (\<lambda>e. e\<lparr>ev_evq := None\<rparr>) w1;
        let w3 = evq_upd q (\<lambda>r. r\<lparr>nevents := u32_sub (nevents r) 1\<rparr>) w2;
        (if flag_on fl EVENT_TIMER then Some ((w3, tb), 0)
         else if flag_on fl EVENT_SIGNAL then map_option (\<lambda>(w4, r). ((w4, tb), r)) (signal_del (p_os os) ev w3)
         else do { tb1 \<leftarrow> poll_unslot q ev tb; Some ((w3, poll_shrink os q tb1), 0) })
      })"

definition poll_modify :: "nat \<Rightarrow> u32 \<Rightarrow> poll_state \<Rightarrow> (poll_state \<times> int) option" where
  "poll_modify ev fl st =
     (case st of (w, tb) \<Rightarrow> do {
        q \<leftarrow> ev_evq (events w ev);
        f \<leftarrow> arr_get (fdset (polls tb q)) (ev_index tb ev);
        fs \<leftarrow> arr_set (fdset (polls tb q)) (ev_index tb ev) (f\<lparr>pfd_events := poll_mask fl\<rparr>);
        Some ((w, pq_upd q (\<lambda>p. p\<lparr>fdset := fs\<rparr>) tb), 0)
      })"

section \<open>Waiting\<close>

definition poll_res :: "u32 \<Rightarrow> u32 \<Rightarrow> u32" where
  "poll_res revents fl =
     (let res = (if flag_on revents POLLHUP then EVENT_EOF_RES else 0)
      in if flag_on revents POLLFD_READ \<and> flag_on fl EVENT_READ then res OR EVENT_READ_RES
         else if flag_on revents POLLFD_WRITE \<and> flag_on fl EVENT_WRITE then res OR EVENT_WRITE_RES
         else res)"

text \<open>The arrays through the local pointers of \<open>evq_wait\<close>, which \<open>realloc\<close> may have made invalid.\<close>

definition fdset_of :: "nat \<Rightarrow> nat \<Rightarrow> poll_tab \<Rightarrow> pollfd list option" where
  "fdset_of q a tb = (if fdset_at (polls tb q) = a then Some (fdset (polls tb q)) else None)"

definition events_of :: "nat \<Rightarrow> nat \<Rightarrow> poll_tab \<Rightarrow> nat list option" where
  "events_of q a tb = (if events_at (polls tb q) = a then Some (pevents (polls tb q)) else None)"

definition clear_revents :: "nat \<Rightarrow> nat \<Rightarrow> poll_tab \<Rightarrow> poll_tab" where
  "clear_revents q i tb =
     pq_upd q (\<lambda>p. p\<lparr>fdset := (fdset p)[i := (fdset p ! i)\<lparr>pfd_revents := 0\<rparr>]\<rparr>) tb"

text \<open>The loop over the slots, while \<open>nready\<close> is not 0; \<open>evp\<close> and \<open>fdp\<close> are the local pointers.\<close>

fun poll_loop :: "poll_os \<Rightarrow> nat \<Rightarrow> nat \<Rightarrow> nat \<Rightarrow> int \<Rightarrow> nat list \<Rightarrow> nat \<Rightarrow> poll_state \<times> ptr \<Rightarrow> (poll_state \<times> ptr) option" where
  "poll_loop os q evp fdp now [] nready st = Some st"
| "poll_loop os q evp fdp now (i # is) nready ((w, tb), rdy) =
     (if nready = 0 then Some ((w, tb), rdy)
      else do {
        fs \<leftarrow> fdset_of q fdp tb;
        f \<leftarrow> arr_get fs i;
        (if pfd_revents f = 0 then poll_loop os q evp fdp now is nready ((w, tb), rdy)
         else do {
           let tb1 = clear_revents q i tb;
           es \<leftarrow> events_of q evp tb1;
           ev \<leftarrow> arr_get es i;
           let w1 = ev_upd ev (\<lambda>e. e\<lparr>ev_flags := ev_flags e OR poll_res (pfd_revents f) (ev_flags e)\<rparr>) w;
           st1 \<leftarrow> tab_activate (poll_del os) ev rdy now (w1, tb1);
           poll_loop os q evp fdp now is (nready - 1) st1
         })
      })"

text \<open>What \<open>poll\<close> returns: an error (interrupted or not), or the \<open>revents\<close> of the descriptors.\<close>

datatype poll_result = PollError bool | PollReady "u32 list"

definition store_revents :: "nat \<Rightarrow> u32 list \<Rightarrow> poll_tab \<Rightarrow> poll_tab" where
  "store_revents q rv tb =
     pq_upd q (\<lambda>p. p\<lparr>fdset := map (\<lambda>(f, r). f\<lparr>pfd_revents := r\<rparr>) (zip (fdset p) rv) @ drop (length rv) (fdset p)\<rparr>) tb"

text \<open>\<open>evq_wait\<close>: \<open>poll t st\<close> is the call of \<open>poll\<close> with what other threads do meanwhile.\<close>

definition poll_wait :: "poll_os \<Rightarrow> (int \<Rightarrow> poll_state \<Rightarrow> poll_state \<times> poll_result) \<Rightarrow> int \<Rightarrow> nat \<Rightarrow> int \<Rightarrow> poll_state
    \<Rightarrow> (poll_state \<times> int) option" where
  "poll_wait os poll time q timeout st =
     (case st of (w, tb) \<Rightarrow> do {
        let evp = events_at (polls tb q);
        let fdp = fdset_at (polls tb q);
        let np = npolls (polls tb q);
        timeout1 \<leftarrow> (if timeout \<noteq> 0 then timeout_get w (evq_tq (evqs w q)) timeout (evq_now (evqs w q)) else Some 0);
        (if timeout \<noteq> 0 \<and> timeout1 = 0 then do {
           (w1, rdy) \<leftarrow> timeout_process (evq_tq (evqs w q)) None (evq_now (evqs w q)) w;
           Some ((evq_upd q (\<lambda>r. r\<lparr>ev_ready := rdy\<rparr>) w1, tb), 0)
         }
         else
           (case poll timeout1 st of ((w1, tb1), result) \<Rightarrow>
              let w2 = evq_upd q (\<lambda>r. r\<lparr>evq_now := time\<rparr>) w1
              in case result of
                   PollError intr \<Rightarrow> Some ((w2, tb1), if intr then 0 else -1)
                 | PollReady rv \<Rightarrow>
                     let rdy = ev_ready (evqs w2 q);
                         nready = length (filter (\<lambda>r. r \<noteq> 0) rv)
                     in if timeout1 \<noteq> TIMEOUT_INFINITE \<and> nready = 0 then
                          (if evq_tq (evqs w2 q) \<noteq> None then do {
                             (w3, rdy1) \<leftarrow> timeout_process (evq_tq (evqs w2 q)) rdy time w2;
                             Some (if rdy1 \<noteq> rdy then ((evq_upd q (\<lambda>r. r\<lparr>ev_ready := rdy1\<rparr>) w3, tb1), 0)
                                   else ((w3, tb1), SYS_ERR_TIMEOUT))
                           }
                           else Some ((w2, tb1), SYS_ERR_TIMEOUT))
                        else do {
                          let now = (if timeout1 \<noteq> TIMEOUT_INFINITE then time else timeout1);
                          let tb2 = store_revents q rv tb1;
                          fs \<leftarrow> fdset_of q fdp tb2;
                          f \<leftarrow> arr_get fs 0;
                          (w3, tb3, rdy3, n3) \<leftarrow> (if flag_on (pfd_revents f) POLLIN then do {
                               (w3, rdy3) \<leftarrow> signal_process_interrupt (p_os os) q rdy now w2;
                               Some (w3, clear_revents q 0 tb2, rdy3, nready - 1)
                             } else Some (w2, tb2, rdy, nready));
                          ((w4, tb4), rdy4) \<leftarrow> poll_loop os q evp fdp now [1..<np] n3 ((w3, tb3), rdy3);
                          Some ((if rdy4 = None then w4 else evq_upd q (\<lambda>r. r\<lparr>ev_ready := rdy4\<rparr>) w4, tb4), 0)
                        }))
      })"

section \<open>The table invariant\<close>

text \<open>The table of a queue holds the events \<open>es\<close>, inside both blocks.\<close>

definition poll_table :: "poll_tab \<Rightarrow> nat \<Rightarrow> nat list \<Rightarrow> bool" where
  "poll_table tb q es \<longleftrightarrow>
     (let p = polls tb q in
      npolls p = Suc (length es) \<and> npolls p \<le> max_polls p \<and> max_polls p < 2147483648 \<and>
      max_polls p \<le> length (pevents p) \<and> max_polls p \<le> length (fdset p) \<and>
      slots_hold (\<lambda>i. pevents p ! i) (ev_index tb) es)"

lemma poll_tableD:
  assumes "poll_table tb q es"
  shows "npolls (polls tb q) = Suc (length es)" "Suc (length es) \<le> max_polls (polls tb q)"
    "max_polls (polls tb q) < 2147483648" "max_polls (polls tb q) \<le> length (pevents (polls tb q))"
    "max_polls (polls tb q) \<le> length (fdset (polls tb q))"
    "slots_hold (\<lambda>i. pevents (polls tb q) ! i) (ev_index tb) es"
  using assms by (auto simp: poll_table_def Let_def)

text \<open>Removing an event from its slot.\<close>

lemma poll_unslot_spec:
  assumes tab: "poll_table tb q es" and ev: "ev \<in> set es"
  defines "i \<equiv> ev_index tb ev"
  shows "\<exists>tb'. poll_unslot q ev tb = Some tb' \<and> poll_table tb' q (swap_remove (i - 1) es) \<and>
    set (swap_remove (i - 1) es) = set es - {ev} \<and> max_polls (polls tb' q) = max_polls (polls tb q) \<and>
    (\<forall>j. j \<noteq> i \<longrightarrow> pevents (polls tb' q) ! j = pevents (polls tb q) ! j \<and> fdset (polls tb' q) ! j = fdset (polls tb q) ! j) \<and>
    (i < length es \<longrightarrow> fdset (polls tb' q) ! i = fdset (polls tb q) ! length es) \<and>
    (\<forall>e \<in> set es. ev_index tb' e \<le> ev_index tb e) \<and>
    events_at (polls tb' q) = events_at (polls tb q) \<and> fdset_at (polls tb' q) = fdset_at (polls tb q) \<and>
    length (fdset (polls tb' q)) = length (fdset (polls tb q))"
proof -
  note t = poll_tableD [OF tab]
  note s = slots_index [OF t(6) ev, folded i_def]
  have ne: "es \<noteq> []" using ev by auto
  note l = slots_last [OF t(6) ne]
  have np: "u32_sub (npolls (polls tb q)) 1 = length es" using t(1-3) by simp
  let ?p = "polls tb q"
  let ?tb = "if i < length es
     then tb\<lparr>polls := (polls tb)(q := ?p\<lparr>npolls := length es, pevents := (pevents ?p)[i := last es],
            fdset := (fdset ?p)[i := fdset ?p ! length es]\<rparr>), ev_index := (ev_index tb)(last es := i)\<rparr>
     else pq_upd q (\<lambda>p. p\<lparr>npolls := length es\<rparr>) tb"
  have len: "length es < length (pevents ?p)" "length es < length (fdset ?p)" using t by auto
  have run: "poll_unslot q ev tb = Some ?tb"
    using np len s l by (simp add: poll_unslot_def Let_def i_def [symmetric] arr_get_def arr_set_def pq_upd_def)
  have "slots_hold (\<lambda>j. pevents (polls ?tb q) ! j) (ev_index ?tb) (swap_remove (i - 1) es) \<and>
      set (swap_remove (i - 1) es) = set es - {ev} \<and> (\<forall>e \<in> set es. ev_index ?tb e \<le> ev_index tb e)"
    unfolding i_def by (rule slots_hold_remove [OF t(6) ev]) (use len s l in \<open>auto simp: i_def\<close>)
  then have sh: "slots_hold (\<lambda>j. pevents (polls ?tb q) ! j) (ev_index ?tb) (swap_remove (i - 1) es)"
    "set (swap_remove (i - 1) es) = set es - {ev}" "\<forall>e \<in> set es. ev_index ?tb e \<le> ev_index tb e" by blast+
  have "poll_table ?tb q (swap_remove (i - 1) es)"
    unfolding poll_table_def Let_def using sh(1) t ne by auto
  then show ?thesis using run sh(2,3) len by (intro exI [of _ ?tb]) auto
qed

lemma poll_shrink_small: "max_polls (polls tb q) \<le> 128 \<Longrightarrow> poll_shrink os q tb = tb"
  by (auto simp: poll_shrink_def Let_def NEVENT_def)

text \<open>A queue with at most 128 slots never shrinks: its deletions satisfy the interface of the backends.\<close>

interpretation pb: table_backend p_os poll_del "\<lambda>tb q es. poll_table tb q es \<and> max_polls (polls tb q) \<le> 128"
  "\<lambda>tb q i. pevents (polls tb q) ! i" ev_index "\<lambda>_. True" "\<lambda>tb q i. fdset (polls tb q) ! i"
  "\<lambda>tb q. (events_at (polls tb q), fdset_at (polls tb q), max_polls (polls tb q))"
proof (unfold_locales, goal_cases)
  case (1 tb q es)
  then show ?case using poll_tableD(6) by blast
next
  case (2 tb q es ev w os w' r)
  then have tab: "poll_table tb q es" and m: "max_polls (polls tb q) \<le> 128" by auto
  from 2(3) have q: "ev_evq (events w ev) = Some q" by (simp add: plain_event_def)
  obtain w1 where w1: "(if ev_tq (events w ev) \<noteq> None then timeout_del ev w else Some w) = Some w1"
    "w' = evq_upd q (\<lambda>r. r\<lparr>nevents := u32_sub (nevents r) 1\<rparr>) (ev_upd ev (\<lambda>e. e\<lparr>ev_evq := None\<rparr>) w1)" "r = 0"
    using evq_del_plain [OF 2(3,5,6)] .
  obtain tb' where t: "poll_unslot q ev tb = Some tb'" "poll_table tb' q (swap_remove (ev_index tb ev - 1) es)"
    "set (swap_remove (ev_index tb ev - 1) es) = set es - {ev}" "max_polls (polls tb' q) = max_polls (polls tb q)"
    "\<forall>j. j \<noteq> ev_index tb ev \<longrightarrow> pevents (polls tb' q) ! j = pevents (polls tb q) ! j \<and>
       fdset (polls tb' q) ! j = fdset (polls tb q) ! j"
    "\<forall>e \<in> set es. ev_index tb' e \<le> ev_index tb e"
    "events_at (polls tb' q) = events_at (polls tb q)" "fdset_at (polls tb' q) = fdset_at (polls tb q)"
    using poll_unslot_spec [OF tab 2(2)] by blast
  have "poll_del os ev (w, tb) = Some ((w', tb'), r)"
    using 2(3) t(1,4) m w1 unfolding poll_del_def prod.case q Let_def Option.bind_lunit w1(1)
    by (simp add: plain_event_def poll_shrink_small)
  with t m show ?case
    by (intro exI [of _ tb'] exI [of _ "swap_remove (ev_index tb ev - 1) es"]) auto
qed

section \<open>The loop over the ready descriptors\<close>

text \<open>The bits of epoll for those of poll: an invalid descriptor counts as an error.\<close>

definition epoll_bits :: "u32 \<Rightarrow> u32" where
  "epoll_bits r = (if flag_on r POLLNVAL then r OR EPOLLERR else r)"

text \<open>The bits that \<open>poll\<close> may report.\<close>

definition poll_reported :: "u32 \<Rightarrow> bool" where
  "poll_reported r \<longleftrightarrow> r AND 0x3D = r"

lemma flag_on_reported: "poll_reported r \<Longrightarrow> flag_on r m = flag_on r (0x3D AND m)"
  unfolding poll_reported_def flag_on_def by (metis and.assoc)

lemma poll_res_epoll:
  assumes "poll_reported r"
  shows "poll_res r fl = epoll_res (epoll_bits r) fl"
proof -
  have h: "flag_on r EPOLLFD_HUP = flag_on r POLLHUP"
    using flag_on_reported [OF assms, of EPOLLFD_HUP]
    by (simp add: EPOLLFD_HUP_def EPOLLRDHUP_def EPOLLHUP_def poll_defs)
  have "0x3D AND EPOLLFD_READ = POLLIN OR POLLERR OR POLLHUP" "0x3D AND EPOLLFD_WRITE = POLLOUT OR POLLERR OR POLLHUP"
    by (simp_all add: EPOLLFD_READ_def EPOLLFD_WRITE_def EPOLLFD_HUP_def EPOLLRDHUP_def EPOLLHUP_def EPOLLIN_def EPOLLOUT_def
        EPOLLERR_def poll_defs)
  then have rd: "flag_on r EPOLLFD_READ = flag_on r (POLLIN OR POLLERR OR POLLHUP)"
    and wr: "flag_on r EPOLLFD_WRITE = flag_on r (POLLOUT OR POLLERR OR POLLHUP)"
    using flag_on_reported [OF assms] by metis+
  have or: "flag_on r (a OR b) = (flag_on r a \<or> flag_on r b)" for a b
    by (auto simp: flag_on_bit bit_simps)
  have e: "flag_on EPOLLERR EPOLLFD_READ" "flag_on EPOLLERR EPOLLFD_WRITE" "\<not> flag_on EPOLLERR EPOLLFD_HUP"
    by (simp_all add: EPOLLFD_READ_def EPOLLFD_WRITE_def EPOLLFD_HUP_def EPOLLRDHUP_def EPOLLHUP_def EPOLLIN_def EPOLLOUT_def
        EPOLLERR_def flag_on_def)
  show ?thesis
    by (auto simp: poll_res_def epoll_res_def epoll_bits_def Let_def flag_on_or h rd wr e POLLFD_READ_def POLLFD_WRITE_def or)
qed

lemma epoll_bits_0 [simp]: "poll_reported r \<Longrightarrow> epoll_bits r = 0 \<longleftrightarrow> r = 0"
  by (auto simp: epoll_bits_def EPOLLERR_def flag_on_def or_eq_0_iff)

text \<open>What epoll would report for the \<open>revents\<close> of a list of events.\<close>

definition poll_epevs :: "nat list \<Rightarrow> u32 list \<Rightarrow> (u32 \<times> ptr) list" where
  "poll_epevs xs rs = map (\<lambda>(x, r). (epoll_bits r, Some x)) (filter (\<lambda>(x, r). r \<noteq> 0) (zip xs rs))"

lemma poll_epevs_simps [simp]:
  "poll_epevs [] [] = []"
  "poll_epevs (x # xs) (r # rs) = (if r = 0 then poll_epevs xs rs else (epoll_bits r, Some x) # poll_epevs xs rs)"
  by (simp_all add: poll_epevs_def)

lemma poll_epevs_none: "length rs = length xs \<Longrightarrow> filter (\<lambda>r. r \<noteq> 0) rs = [] \<Longrightarrow> poll_epevs xs rs = []"
  by (induction xs rs rule: list_induct2') (auto split: if_splits)

text \<open>Clearing the \<open>revents\<close> of a slot leaves the table alone.\<close>

lemma clear_revents_simps [simp]:
  "pevents (polls (clear_revents q i tb) q) = pevents (polls tb q)" "npolls (polls (clear_revents q i tb) q) = npolls (polls tb q)"
  "max_polls (polls (clear_revents q i tb) q) = max_polls (polls tb q)" "ev_index (clear_revents q i tb) = ev_index tb"
  "events_at (polls (clear_revents q i tb) q) = events_at (polls tb q)"
  "fdset_at (polls (clear_revents q i tb) q) = fdset_at (polls tb q)"
  "length (fdset (polls (clear_revents q i tb) q)) = length (fdset (polls tb q))"
  "j \<noteq> i \<Longrightarrow> fdset (polls (clear_revents q i tb) q) ! j = fdset (polls tb q) ! j"
  by (simp_all add: clear_revents_def)

lemma clear_revents_table [simp]: "poll_table (clear_revents q i tb) q es = poll_table tb q es"
  by (simp add: poll_table_def Let_def)

text \<open>One slot with a report.\<close>

lemma poll_slot_sim:
  assumes tab: "poll_table tb q es" "max_polls (polls tb q) \<le> 128"
    and pend: "pending (\<lambda>i. pevents (polls tb q) ! i) (ev_index tb) es i (x # xs)"
    and r: "r \<noteq> 0" "poll_reported r" and plain: "ev_active w x \<or> plain_event w q x" and ep: "ep_set w q = (\<lambda>_. None)"
    and good: "evq_good w q rs"
  defines "w1 \<equiv> ev_upd x (\<lambda>e. e\<lparr>ev_flags := ev_flags e OR poll_res r (ev_flags e)\<rparr>) w"
  shows "\<exists>w' tb' es' ns. tab_activate (poll_del os) x (hdp rs None) now (w1, clear_revents q i tb) = Some ((w', tb'), hdp (ns @ rs) None) \<and>
    epoll_process (p_os os) q now (epoll_bits r, Some x) (w, hdp rs None) = Some (w', hdp (ns @ rs) None) \<and>
    poll_table tb' q es' \<and> max_polls (polls tb' q) = max_polls (polls tb q) \<and> set es' \<subseteq> set es \<and>
    events_at (polls tb' q) = events_at (polls tb q) \<and> fdset_at (polls tb' q) = fdset_at (polls tb q) \<and>
    (\<forall>j > i. fdset (polls tb' q) ! j = fdset (polls tb q) ! j) \<and>
    pending (\<lambda>i. pevents (polls tb' q) ! i) (ev_index tb') es' (Suc i) xs \<and>
    evq_good w' q (ns @ rs) \<and> evq_step q ns w w' \<and> ev_active w' x"
proof -
  have "poll_table (clear_revents q i tb) q es \<and> max_polls (polls (clear_revents q i tb) q) \<le> 128"
    using tab by simp
  moreover have "pending (\<lambda>j. pevents (polls (clear_revents q i tb) q) ! j) (ev_index (clear_revents q i tb)) es i (x # xs)"
    using pend by simp
  moreover have "epoll_bits r \<noteq> 0" using r by simp
  ultimately show ?thesis
    using pb.process_sim [of "clear_revents q i tb" q es i x xs "epoll_bits r" w rs os now] plain ep good
    unfolding w1_def poll_res_epoll [OF r(2)] by auto
qed

text \<open>
  The loop visits every reported event once, although deletions move events to other slots: it does to
  the store what the loop of the epoll backend does with the same events.
\<close>

lemma poll_loop_sim:
  assumes "poll_table tb q es" "max_polls (polls tb q) \<le> 128"
    and "pending (\<lambda>i. pevents (polls tb q) ! i) (ev_index tb) es i xs" and "i + length xs \<le> max_polls (polls tb q)"
    and "length rs = length xs" "\<forall>k < length xs. pfd_revents (fdset (polls tb q) ! (i + k)) = rs ! k"
    and "\<forall>r \<in> set rs. poll_reported r" "length (filter (\<lambda>r. r \<noteq> 0) rs) \<le> nready"
    and "\<forall>x \<in> set xs. ev_active w x \<or> plain_event w q x" "ep_set w q = (\<lambda>_. None)" "evq_good w q rdy"
    and "events_at (polls tb q) = evp" "fdset_at (polls tb q) = fdp"
  shows "\<exists>w' tb' es' ns.
    poll_loop os q evp fdp now [i..<i + length xs] nready ((w, tb), hdp rdy None) = Some ((w', tb'), hdp (ns @ rdy) None) \<and>
    epoll_loop (p_os os) q now (poll_epevs xs rs) (w, hdp rdy None) = Some (w', hdp (ns @ rdy) None) \<and>
    poll_table tb' q es' \<and> max_polls (polls tb' q) = max_polls (polls tb q) \<and> set es' \<subseteq> set es \<and>
    evq_good w' q (ns @ rdy) \<and> evq_step q ns w w'"
  using assms
proof (induction xs arbitrary: i rs w tb es rdy nready)
  case Nil
  then show ?case using evq_step_refl [of q w]
    by (intro exI [of _ w] exI [of _ tb] exI [of _ es] exI [of _ "[]"]) simp
next
  case (Cons x xs)
  then obtain r rs' where rs: "rs = r # rs'" by (cases rs) auto
  have "[i..<i + length (x # xs)] = i # [Suc i..<i + length (x # xs)]" by (rule upt_conv_Cons) simp
  then have up: "[i..<i + length (x # xs)] = i # [Suc i..<Suc i + length xs]" by simp
  have rr: "pfd_revents (fdset (polls tb q) ! i) = r" using Cons.prems(6) rs by force
  have rest: "length rs' = length xs" "\<forall>k < length xs. pfd_revents (fdset (polls tb q) ! (Suc i + k)) = rs' ! k"
    "\<forall>r \<in> set rs'. poll_reported r" using Cons.prems(5-7) rs by auto
  have bnd: "i < length (fdset (polls tb q))" "i < length (pevents (polls tb q))" "Suc i + length xs \<le> max_polls (polls tb q)"
    using Cons.prems(1,4) by (auto simp: poll_table_def Let_def)
  show ?case
  proof (cases "nready = 0")
    case True
    then have "poll_epevs (x # xs) rs = []" using Cons.prems(5,8) by (intro poll_epevs_none) auto
    with True show ?thesis using Cons.prems evq_step_refl [of q w] unfolding up
      by (intro exI [of _ w] exI [of _ tb] exI [of _ es] exI [of _ "[]"]) simp
  next
    case False
    note loop = bnd False Cons.prems(12,13)
    show ?thesis
    proof (cases "r = 0")
      case True
      have "poll_loop os q evp fdp now [i..<i + length (x # xs)] nready ((w, tb), hdp rdy None)
          = poll_loop os q evp fdp now [Suc i..<Suc i + length xs] nready ((w, tb), hdp rdy None)"
        unfolding up using loop rr True by (simp add: fdset_of_def arr_get_def)
      moreover have "poll_epevs (x # xs) rs = poll_epevs xs rs'" using rs True by simp
      ultimately show ?thesis
        using Cons.IH [OF Cons.prems(1,2) pending_skip [OF Cons.prems(3)] bnd(3) rest(1) rest(2) rest(3), of nready w rdy]
          Cons.prems(8-13) rs True by simp
    next
      case nz: False
      have pr: "poll_reported r" using Cons.prems(7) rs by simp
      have px: "ev_active w x \<or> plain_event w q x" using Cons.prems(9) by simp
      from poll_slot_sim [OF Cons.prems(1-3) nz pr px Cons.prems(10,11), of os now] obtain w1 tb1 es1 ns where
        s: "tab_activate (poll_del os) x (hdp rdy None) now
              (ev_upd x (\<lambda>e. e\<lparr>ev_flags := ev_flags e OR poll_res r (ev_flags e)\<rparr>) w, clear_revents q i tb)
            = Some ((w1, tb1), hdp (ns @ rdy) None)"
          "epoll_process (p_os os) q now (epoll_bits r, Some x) (w, hdp rdy None) = Some (w1, hdp (ns @ rdy) None)"
          "poll_table tb1 q es1" "max_polls (polls tb1 q) = max_polls (polls tb q)" "set es1 \<subseteq> set es"
          "events_at (polls tb1 q) = events_at (polls tb q)" "fdset_at (polls tb1 q) = fdset_at (polls tb q)"
          "\<forall>j > i. fdset (polls tb1 q) ! j = fdset (polls tb q) ! j"
          "pending (\<lambda>i. pevents (polls tb1 q) ! i) (ev_index tb1) es1 (Suc i) xs"
          "evq_good w1 q (ns @ rdy)" "evq_step q ns w w1" by blast
      have run: "poll_loop os q evp fdp now [i..<i + length (x # xs)] nready ((w, tb), hdp rdy None)
          = poll_loop os q evp fdp now [Suc i..<Suc i + length xs] (nready - 1) ((w1, tb1), hdp (ns @ rdy) None)"
        unfolding up using loop rr nz s(1) pending_hd [OF Cons.prems(3)]
        by (simp add: fdset_of_def events_of_def arr_get_def)
      have "\<forall>e \<in> set xs. ev_active w1 e \<or> plain_event w1 q e"
        using evq_step_plain [OF s(11)] Cons.prems(9) by simp
      moreover have "ep_set w1 q = (\<lambda>_. None)" using s(11) Cons.prems(10) by (simp add: evq_step_def)
      moreover have "length (filter (\<lambda>r. r \<noteq> 0) rs') \<le> nready - 1" using Cons.prems(8) rs nz by simp
      moreover have "\<forall>k < length xs. pfd_revents (fdset (polls tb1 q) ! (Suc i + k)) = rs' ! k" using rest(2) s(8) by simp
      ultimately obtain w' tb' es' ms where
        "poll_loop os q evp fdp now [Suc i..<Suc i + length xs] (nready - 1) ((w1, tb1), hdp (ns @ rdy) None) = Some ((w', tb'), hdp (ms @ ns @ rdy) None)"
        "epoll_loop (p_os os) q now (poll_epevs xs rs') (w1, hdp (ns @ rdy) None) = Some (w', hdp (ms @ ns @ rdy) None)"
        "poll_table tb' q es'" "max_polls (polls tb' q) = max_polls (polls tb1 q)" "set es' \<subseteq> set es1"
        "evq_good w' q (ms @ ns @ rdy)" "evq_step q ms w1 w'"
        using Cons.IH [of tb1 es1 "Suc i" rs' "nready - 1" w1 "ns @ rdy"] s(3,4,6,7,9,10) bnd(3) rest(1,3) Cons.prems(2,12,13)
        by auto
      with run s(2,4,5) rs nz evq_step_trans [OF s(11), of ms w'] show ?thesis
        by (intro exI [of _ w'] exI [of _ tb'] exI [of _ es'] exI [of _ "ms @ ns"]) auto
    qed
  qed
qed

section \<open>Waiting, compared with the epoll backend\<close>

lemma store_revents_simps [simp]:
  "pevents (polls (store_revents q rv tb) q) = pevents (polls tb q)" "npolls (polls (store_revents q rv tb) q) = npolls (polls tb q)"
  "max_polls (polls (store_revents q rv tb) q) = max_polls (polls tb q)" "ev_index (store_revents q rv tb) = ev_index tb"
  "events_at (polls (store_revents q rv tb) q) = events_at (polls tb q)"
  "fdset_at (polls (store_revents q rv tb) q) = fdset_at (polls tb q)"
  by (simp_all add: store_revents_def)

lemma store_revents_fdset:
  assumes "length rv \<le> length (fdset (polls tb q))"
  shows "length (fdset (polls (store_revents q rv tb) q)) = length (fdset (polls tb q))"
    "j < length rv \<Longrightarrow> fdset (polls (store_revents q rv tb) q) ! j = (fdset (polls tb q) ! j)\<lparr>pfd_revents := rv ! j\<rparr>"
  using assms by (auto simp: store_revents_def nth_append)

lemma store_revents_table:
  "length rv \<le> length (fdset (polls tb q)) \<Longrightarrow> poll_table (store_revents q rv tb) q es = poll_table tb q es"
  by (simp add: poll_table_def Let_def store_revents_fdset)

lemma poll_wait_run:
  assumes "waits_ms w q timeout t1" "poll t1 (w, tb) = ((w1, tb1), PollReady rv)" "filter (\<lambda>r. r \<noteq> 0) rv \<noteq> []"
    and "fdset_of q (fdset_at (polls tb q)) (store_revents q rv tb1) = Some fs" "arr_get fs 0 = Some f"
    and "(if flag_on (pfd_revents f) POLLIN
          then map_option (\<lambda>(w3, rdy3). (w3, clear_revents q 0 (store_revents q rv tb1), rdy3, length (filter (\<lambda>r. r \<noteq> 0) rv) - 1))
            (signal_process_interrupt (p_os os) q (ev_ready (evqs w1 q)) (wait_now time t1) (evq_upd q (\<lambda>r. r\<lparr>evq_now := time\<rparr>) w1))
          else Some (evq_upd q (\<lambda>r. r\<lparr>evq_now := time\<rparr>) w1, store_revents q rv tb1, ev_ready (evqs w1 q), length (filter (\<lambda>r. r \<noteq> 0) rv)))
         = Some (w3, tb3, rdy3, n3)"
    and "poll_loop os q (events_at (polls tb q)) (fdset_at (polls tb q)) (wait_now time t1) [1..<npolls (polls tb q)] n3 ((w3, tb3), rdy3)
         = Some ((w4, tb4), rdy4)"
  shows "poll_wait os poll time q timeout (w, tb) = Some ((if rdy4 = None then w4 else evq_upd q (\<lambda>r. r\<lparr>ev_ready := rdy4\<rparr>) w4, tb4), 0)"
proof -
  have t: "(if timeout \<noteq> 0 then timeout_get w (evq_tq (evqs w q)) timeout (evq_now (evqs w q)) else Some 0) = Some t1"
    "\<not> (timeout \<noteq> 0 \<and> t1 = 0)" using assms(1) by (auto simp: waits_ms_def split: if_splits)
  have n: "length (filter (\<lambda>r. r \<noteq> 0) rv) \<noteq> 0" using assms(3) by simp
  show ?thesis
    using t(2) n assms(2,4-7)
    by (auto simp: poll_wait_def Let_def t(1) map_option_case split: if_splits option.splits)
qed

text \<open>What epoll reports for the \<open>revents\<close> of all descriptors: the interruption first.\<close>

definition poll_reports :: "nat list \<Rightarrow> u32 list \<Rightarrow> (u32 \<times> ptr) list" where
  "poll_reports es rv = (if hd rv = 0 then [] else [(EPOLLIN, None)]) @ poll_epevs es (tl rv)"

lemma poll_epevs_some: "length rs = length xs \<Longrightarrow> poll_epevs xs rs = [] \<longleftrightarrow> filter (\<lambda>r. r \<noteq> 0) rs = []"
  by (induction xs rs rule: list_induct2') (auto split: if_splits)

lemma poll_epevs_mem:
  "length rs = length xs \<Longrightarrow> k < length xs \<Longrightarrow> rs ! k \<noteq> 0 \<Longrightarrow> (epoll_bits (rs ! k), Some (xs ! k)) \<in> set (poll_epevs xs rs)"
  by (induction xs rs arbitrary: k rule: list_induct2') (auto simp: nth_Cons' split: if_splits)

lemma poll_epevs_ok:
  assumes "length rs = length xs" "distinct xs" "\<forall>r \<in> set rs. poll_reported r" "\<forall>x \<in> set xs. ev_active w x \<or> plain_event w q x"
  shows "epevs_ok w q (poll_epevs xs rs)"
proof -
  have "distinct (map snd (poll_epevs xs rs)) \<and> snd ` set (poll_epevs xs rs) \<subseteq> Some ` set xs \<and>
    (\<forall>r p. (r, p) \<in> set (poll_epevs xs rs) \<longrightarrow> r \<noteq> 0)"
    using assms(1-3) by (induction xs rs rule: list_induct2') (auto split: if_splits)
  then show ?thesis using assms(4) unfolding epevs_ok_def plain_event_def by (force simp: image_subset_iff)
qed

text \<open>The interruption is handled before the loop, like the first report of epoll.\<close>

lemma poll_interrupt_sim:
  assumes good: "evq_good w q rs" and sig: "r0 \<noteq> 0 \<Longrightarrow> sigs_known w q" and r0: "r0 \<in> {0, POLLIN}"
    and m_def: "m = (if r0 = 0 then n else Suc n)"
  shows "\<exists>w3 tb3 n3 ns. (if flag_on r0 POLLIN
          then map_option (\<lambda>(w3, rdy3). (w3, clear_revents q 0 tb, rdy3, m - 1)) (signal_process_interrupt (p_os os) q (hdp rs None) now w)
          else Some (w, tb, hdp rs None, m)) = Some (w3, tb3, hdp (ns @ rs) None, n3) \<and>
      evq_good w3 q (ns @ rs) \<and> evq_step q ns w w3 \<and>
      (\<forall>epevs. epoll_loop (p_os os) q now ((if r0 = 0 then [] else [(EPOLLIN, None)]) @ epevs) (w, hdp rs None)
         = epoll_loop (p_os os) q now epevs (w3, hdp (ns @ rs) None)) \<and>
      n3 = n \<and> tb3 \<in> {tb, clear_revents q 0 tb}"
proof -
  have f: "flag_on r0 POLLIN \<longleftrightarrow> r0 \<noteq> 0" using r0 by (auto simp: poll_defs flag_on_def)
  from interrupt_sim [OF good, of "r0 \<noteq> 0" "p_os os" now] sig obtain w3 ns where
    s: "(if r0 \<noteq> 0 then signal_process_interrupt (p_os os) q (hdp rs None) now w else Some (w, hdp rs None)) = Some (w3, hdp (ns @ rs) None)"
    "evq_good w3 q (ns @ rs)" "evq_step q ns w w3"
    "\<forall>epevs. epoll_loop (p_os os) q now ((if r0 \<noteq> 0 then [(EPOLLIN, None)] else []) @ epevs) (w, hdp rs None)
       = epoll_loop (p_os os) q now epevs (w3, hdp (ns @ rs) None)" by blast
  show ?thesis using s f m_def
    by (intro exI [of _ w3] exI [of _ "if r0 = 0 then tb else clear_revents q 0 tb"] exI [of _ n] exI [of _ ns]) (auto split: if_splits)
qed

text \<open>A queue of \<open>n\<close> events from address 9 on, in \<open>m\<close> slots.\<close>

definition poll_demo :: "nat \<Rightarrow> nat \<Rightarrow> u32 \<Rightarrow> poll_tab" where
  "poll_demo n m r = \<lparr>polls = (\<lambda>_. \<lparr>npolls = Suc n, max_polls = m, events_at = 1000,
       pevents = 0 # [9..<9 + n] @ replicate (m - Suc n) 0, fdset_at = 2000,
       fdset = replicate m \<lparr>pfd = 0, pfd_events = POLLOUT, pfd_revents = r\<rparr>, psig_fd = (3, 4)\<rparr>),
     ev_index = (\<lambda>e. e - 8), freed = []\<rparr>"

definition poll_os_demo :: poll_os where
  "poll_os_demo = \<lparr>p_os = os_demo, p_malloc = (\<lambda>k n. Some (1000 * Suc k)), p_realloc = (\<lambda>a n. Some (Suc a)),
     p_pipe = Some (3, 4), p_nonblock = (\<lambda>_. True)\<rparr>"

lemma poll_demo_table: "Suc n \<le> m \<Longrightarrow> m < 2147483648 \<Longrightarrow> poll_table (poll_demo n m r) q [9..<9 + n]"
  by (simp add: poll_table_def poll_demo_def slots_hold_def Let_def nth_append)

text \<open>
  Claim C7: the poll backend does what the epoll backend does. When \<open>poll\<close> has reported \<open>revents\<close> for the
  descriptors of a queue of at most 128 slots, \<open>evq_wait\<close> of poll.c returns, leaves the event store exactly
  as \<open>evq_wait\<close> of epoll.c leaves it for the same reports, keeps a table of its events, and every reported
  event is active afterwards, although one-shot events are deleted, and others moved to their
  slots, while the loop runs. In a larger table a deletion may move the arrays under the loop, see
  \<open>poll_shrink_dangles\<close>.
\<close>

theorem poll_wait_as_epoll:
  assumes ms: "waits_ms w q timeout t1" and poll: "poll t1 (w, tb) = ((w1, tb1), PollReady rv)"
    and rv: "length rv = Suc (length es)" "\<forall>r \<in> set rv. poll_reported r" "hd rv \<in> {0, POLLIN}" "\<exists>r \<in> set rv. r \<noteq> 0"
    and tab: "poll_table tb1 q es" "max_polls (polls tb1 q) \<le> 128" "npolls (polls tb1 q) = npolls (polls tb q)"
      "events_at (polls tb1 q) = events_at (polls tb q)" "fdset_at (polls tb1 q) = fdset_at (polls tb q)"
    and ev: "\<forall>e \<in> set es. plain_event w1 q e" and ep: "ep_set w1 q = (\<lambda>_. None)"
    and good: "evq_good w1 q rs" "ev_ready (evqs w1 q) = hdp rs None" and sig: "hd rv \<noteq> 0 \<longrightarrow> sigs_known w1 q"
  shows "\<exists>w' tb' es'. poll_wait os poll time q timeout (w, tb) = Some ((w', tb'), 0) \<and>
    evq_wait (p_os os) (\<lambda>_ _. (w1, EpollReady (poll_reports es rv))) time q timeout w = Some (w', 0) \<and>
    poll_table tb' q es' \<and> set es' \<subseteq> set es \<and> (\<forall>k < length es. rv ! Suc k \<noteq> 0 \<longrightarrow> ev_active w' (es ! k))"
proof -
  obtain r0 rs0 where rvc: "rv = r0 # rs0" using rv(1) by (cases rv) auto
  note t = poll_tableD [OF tab(1)]
  let ?now = "wait_now time t1" and ?w2 = "evq_upd q (\<lambda>r. r\<lparr>evq_now := time\<rparr>) w1" and ?n = "length (filter (\<lambda>r. r \<noteq> 0) rv)"
  let ?tb2 = "store_revents q rv tb1"
  have len: "length rv \<le> length (fdset (polls tb1 q))" using rv(1) t by simp
  note fd = store_revents_fdset [OF len]
  have g2: "evq_good ?w2 q rs" "evq_step q [] w1 ?w2"
    using evq_good_evq [OF good(1), of "\<lambda>r. r\<lparr>evq_now := time\<rparr>"] by simp_all
  have rdy2: "ev_ready (evqs ?w2 q) = hdp rs None" using good(2) by simp
  have fs: "fdset_of q (fdset_at (polls tb q)) ?tb2 = Some (fdset (polls ?tb2 q))"
    "arr_get (fdset (polls ?tb2 q)) 0 = Some (fdset (polls ?tb2 q) ! 0)" "pfd_revents (fdset (polls ?tb2 q) ! 0) = r0"
    using tab(5) fd rv(1) t rvc by (auto simp: fdset_of_def arr_get_def)
  have sg: "r0 \<noteq> 0 \<Longrightarrow> sigs_known ?w2 q" using sig rvc by (simp add: sigs_known_def)
  have r0: "r0 \<in> {0, POLLIN}" and nn: "?n = (if r0 = 0 then length (filter (\<lambda>r. r \<noteq> 0) rs0) else Suc (length (filter (\<lambda>r. r \<noteq> 0) rs0)))"
    using rv(3) rvc by auto
  from poll_interrupt_sim [OF g2(1) sg r0 nn, of ?tb2 os ?now]
  obtain w3 tb3 n3 ns where i: "(if flag_on r0 POLLIN
          then map_option (\<lambda>(w3, rdy3). (w3, clear_revents q 0 ?tb2, rdy3, ?n - 1)) (signal_process_interrupt (p_os os) q (hdp rs None) ?now ?w2)
          else Some (?w2, ?tb2, hdp rs None, ?n)) = Some (w3, tb3, hdp (ns @ rs) None, n3)"
    "evq_good w3 q (ns @ rs)" and st2: "evq_step q ns ?w2 w3" and i':
    "\<And>epevs. epoll_loop (p_os os) q ?now ((if r0 = 0 then [] else [(EPOLLIN, None)]) @ epevs) (?w2, hdp rs None)
         = epoll_loop (p_os os) q ?now epevs (w3, hdp (ns @ rs) None)"
    "n3 = length (filter (\<lambda>r. r \<noteq> 0) rs0)" "tb3 \<in> {?tb2, clear_revents q 0 ?tb2}" by blast
  have st: "evq_step q ns w1 w3" using evq_step_trans [OF g2(2) st2] by simp
  have t3: "poll_table tb3 q es" "max_polls (polls tb3 q) = max_polls (polls tb1 q)" "events_at (polls tb3 q) = events_at (polls tb q)"
    "fdset_at (polls tb3 q) = fdset_at (polls tb q)"
    using i'(3) tab store_revents_table [OF len] by auto
  have r3: "\<forall>k < length es. pfd_revents (fdset (polls tb3 q) ! (1 + k)) = rs0 ! k"
    using i'(3) fd(2) rv(1) rvc by auto
  have pe: "\<forall>x \<in> set es. ev_active w3 x \<or> plain_event w3 q x" using ev evq_step_plain [OF st] by blast
  have ep3: "ep_set w3 q = (\<lambda>_. None)" using st ep by (simp add: evq_step_def)
  have l0: "length rs0 = length es" "\<forall>r \<in> set rs0. poll_reported r" using rv(1,2) rvc by auto
  have m3: "max_polls (polls tb3 q) \<le> 128" using t3(2) tab(2) by simp
  have le3: "1 + length es \<le> max_polls (polls tb3 q)" using t3(2) t(2) by simp
  have n3: "length (filter (\<lambda>r. r \<noteq> 0) rs0) \<le> n3" using i'(2) by simp
  from poll_loop_sim [OF t3(1) m3 pending_all [OF poll_tableD(6) [OF t3(1)]] le3 l0(1) r3 l0(2) n3 pe ep3 i(2) t3(3,4), of os ?now]
  obtain w4 tb4 es' ms where l: "poll_loop os q (events_at (polls tb q)) (fdset_at (polls tb q)) ?now [1..<1 + length es] n3 ((w3, tb3), hdp (ns @ rs) None)
      = Some ((w4, tb4), hdp (ms @ ns @ rs) None)"
    "epoll_loop (p_os os) q ?now (poll_epevs es rs0) (w3, hdp (ns @ rs) None) = Some (w4, hdp (ms @ ns @ rs) None)"
    "poll_table tb4 q es'" "set es' \<subseteq> set es" by blast
  let ?w' = "if hdp (ms @ ns @ rs) None = None then w4 else evq_upd q (\<lambda>r. r\<lparr>ev_ready := hdp (ms @ ns @ rs) None\<rparr>) w4"
  have nz: "filter (\<lambda>r. r \<noteq> 0) rv \<noteq> []" using rv(4) by (simp add: filter_empty_conv)
  have np: "[1..<npolls (polls tb q)] = [1..<1 + length es]" using tab(3) t(1) by simp
  have p: "poll_wait os poll time q timeout (w, tb) = Some ((?w', tb4), 0)"
    by (rule poll_wait_run [where poll = poll, OF ms poll nz fs(1,2)]) (use i(1) l(1) good(2) np in \<open>simp_all only: fs(3)\<close>)
  have ne: "poll_reports es rv \<noteq> []" using nz poll_epevs_some [OF l0(1)] rvc by (auto simp: poll_reports_def)
  have e: "evq_wait (p_os os) (\<lambda>_ _. (w1, EpollReady (poll_reports es rv))) time q timeout w = Some (?w', 0)"
    by (rule evq_wait_run [where epoll = "\<lambda>_ _. (w1, EpollReady (poll_reports es rv))", OF ms refl ne]) (use i'(1) [of "poll_epevs es rs0"] l(2) good(2) rvc in \<open>simp add: poll_reports_def\<close>)
  have "ev_active w4 (es ! k)" if k: "k < length es" "rv ! Suc k \<noteq> 0" for k
    using epoll_loop_active [OF i(2) poll_epevs_ok [OF l0(1) _ l0(2) pe] l(2) poll_epevs_mem [OF l0(1) k(1)]] k(2) rvc
      poll_tableD(6) [OF tab(1)] by (simp add: slots_hold_def)
  then have "\<forall>k < length es. rv ! Suc k \<noteq> 0 \<longrightarrow> ev_active ?w' (es ! k)" by simp
  with p e l(3,4) show ?thesis by blast
qed

theorem poll_wait_as_epoll_witness:
  "\<exists>w' tb' es'. poll_wait poll_os_demo (\<lambda>t st. (st, PollReady [0, POLLIN])) 40 0 0 (timer_demo, poll_demo 1 64 0) = Some ((w', tb'), 0) \<and>
     evq_wait os_demo (\<lambda>_ _. (timer_demo, EpollReady (poll_reports [9] [0, POLLIN]))) 40 0 0 timer_demo = Some (w', 0) \<and>
     poll_table tb' 0 es' \<and> ev_active w' 9"
proof -
  have t: "poll_table (poll_demo 1 64 0) 0 [9]" using poll_demo_table [of 1 64 0 0] by simp
  have p: "p_os poll_os_demo = os_demo" by (simp add: poll_os_demo_def)
  have "\<exists>w' tb' es'. poll_wait poll_os_demo (\<lambda>t st. (st, PollReady [0, POLLIN])) 40 0 0 (timer_demo, poll_demo 1 64 0) = Some ((w', tb'), 0) \<and>
     evq_wait (p_os poll_os_demo) (\<lambda>_ _. (timer_demo, EpollReady (poll_reports [9] [0, POLLIN]))) 40 0 0 timer_demo = Some (w', 0) \<and>
     poll_table tb' 0 es' \<and> set es' \<subseteq> set [9] \<and> (\<forall>k < length [9 :: nat]. [0, POLLIN] ! Suc k \<noteq> 0 \<longrightarrow> ev_active w' ([9] ! k))"
    by (rule poll_wait_as_epoll [where ?t1.0 = 0 and rs = "[]" and ?w1.0 = timer_demo and ?tb1.0 = "poll_demo 1 64 0"])
      (use t timer_demo_good timer_demo_event(4) timer_demo_plain in
        \<open>simp_all add: waits_ms_def poll_reported_def POLLIN_def poll_demo_def\<close>)
  then show ?thesis unfolding p by (auto simp: POLLIN_def)
qed

section \<open>Registration\<close>

text \<open>The entries of the table carry the descriptors and the direction of their events.\<close>

definition poll_registered :: "evq_store \<Rightarrow> poll_tab \<Rightarrow> nat \<Rightarrow> nat list \<Rightarrow> bool" where
  "poll_registered w tb q es \<longleftrightarrow> poll_table tb q es \<and>
     (\<forall>k < length es. pfd (fdset (polls tb q) ! Suc k) = ev_fd (events w (es ! k)) \<and>
        pfd_events (fdset (polls tb q) ! Suc k) = poll_mask (ev_flags (events w (es ! k))))"

lemma length_resize [simp]: "length (resize n x xs) = n"
  by (simp add: resize_def)

lemma nth_resize: "j < n \<Longrightarrow> j < length xs \<Longrightarrow> resize n x xs ! j = xs ! j"
  by (simp add: resize_def nth_append)

lemma slots_hold_cong:
  assumes "slots_hold slot index es" "\<And>i. 0 < i \<Longrightarrow> i \<le> length es \<Longrightarrow> slot' i = slot i" "\<And>e. e \<in> set es \<Longrightarrow> index' e = index e"
  shows "slots_hold slot' index' es"
  using assms by (auto simp: slots_hold_def Suc_le_eq)

text \<open>Growing and shrinking keep the table, up to the new sizes.\<close>

lemma poll_shrink_table:
  assumes tab: "poll_table tb q es"
  shows "poll_table (poll_shrink os q tb) q es \<and> (\<forall>j \<le> length es. fdset (polls (poll_shrink os q tb) q) ! j = fdset (polls tb q) ! j)"
proof (cases "npolls (polls tb q) > NEVENT div 2 \<and> npolls (polls tb q) \<le> max_polls (polls tb q) div 4")
  case False
  then show ?thesis using tab by (auto simp: poll_shrink_def Let_def)
next
  case True
  note t = poll_tableD [OF tab]
  let ?n = "max_polls (polls tb q) div 2"
  have n: "Suc (length es) \<le> ?n" "?n < 2147483648" "?n \<le> length (pevents (polls tb q))" "?n \<le> length (fdset (polls tb q))"
    using True t by auto
  have s: "polls (poll_shrink os q tb) q = (polls tb q)\<lparr>max_polls := ?n,
       events_at := (case p_realloc os (events_at (polls tb q)) (?n * 8) of None \<Rightarrow> events_at (polls tb q) | Some a \<Rightarrow> a),
       pevents := (case p_realloc os (events_at (polls tb q)) (?n * 8) of None \<Rightarrow> pevents (polls tb q) | Some a \<Rightarrow> resize ?n 0 (pevents (polls tb q))),
       fdset_at := (case p_realloc os (fdset_at (polls tb q)) (?n * 8) of None \<Rightarrow> fdset_at (polls tb q) | Some a \<Rightarrow> a),
       fdset := (case p_realloc os (fdset_at (polls tb q)) (?n * 8) of None \<Rightarrow> fdset (polls tb q) | Some a \<Rightarrow> resize ?n pollfd0 (fdset (polls tb q)))\<rparr>"
    "ev_index (poll_shrink os q tb) = ev_index tb"
    using True by (auto simp: poll_shrink_def Let_def split: option.split)
  have "slots_hold (\<lambda>i. pevents (polls (poll_shrink os q tb) q) ! i) (ev_index (poll_shrink os q tb)) es"
    by (rule slots_hold_cong [OF t(6)]) (use n in \<open>auto simp: s nth_resize split: option.split\<close>)
  then show ?thesis using n t(1) unfolding poll_table_def Let_def by (auto simp: s nth_resize split: option.split)
qed

lemma poll_grow_table:
  assumes tab: "poll_table tb q es" and max: "max_polls (polls tb q) < 1073741824"
  shows "\<exists>tb' ok. poll_grow os q tb = (tb', ok) \<and> poll_table tb' q es \<and> (ok \<longrightarrow> max_polls (polls tb' q) = 2 * max_polls (polls tb q)) \<and>
    (\<forall>j \<le> length es. fdset (polls tb' q) ! j = fdset (polls tb q) ! j) \<and>
    (\<not> ok \<longrightarrow> (\<exists>a. p_realloc os a (2 * max_polls (polls tb q) * 8) = None))"
proof -
  note t = poll_tableD [OF tab]
  let ?n = "2 * max_polls (polls tb q)"
  have n: "u32_mul 2 (max_polls (polls tb q)) = ?n" using max by simp
  have sh: "slots_hold (\<lambda>i. resize ?n 0 (pevents (polls tb q)) ! i) (ev_index tb) es"
    by (rule slots_hold_cong [OF t(6)]) (use t in \<open>auto simp: nth_resize\<close>)
  have f: "resize ?n pollfd0 (fdset (polls tb q)) ! j = fdset (polls tb q) ! j" if "j \<le> length es" for j
    by (rule nth_resize) (use that t in auto)
  show ?thesis
    using t sh f max unfolding poll_grow_def Let_def n poll_table_def
    by (auto split: option.split)
qed

lemma poll_add_registers:
  assumes reg: "poll_registered w tb q es" and new: "ev \<notin> set es" and sg: "\<not> flag_on (ev_flags (events w ev)) EVENT_SIGNAL"
    and max: "max_polls (polls tb q) < 1073741824"
  shows "\<exists>w' tb' r. poll_add os q ev (w, tb) = Some ((w', tb'), r) \<and> r \<in> {0, -1} \<and>
    poll_registered w' tb' q (if r = 0 then es @ [ev] else es) \<and> ev_evq (events w' ev) = Some q \<and>
    (r \<noteq> 0 \<longrightarrow> (\<exists>a. p_realloc os a (2 * max_polls (polls tb q) * 8) = None))"
proof -
  from reg have tab: "poll_table tb q es" by (simp add: poll_registered_def)
  note t = poll_tableD [OF tab]
  define w1 where "w1 = ev_upd ev (\<lambda>e. e\<lparr>ev_evq := Some q\<rparr>) w"
  have w1: "ev_flags (events w1 e) = ev_flags (events w e)" "ev_fd (events w1 e) = ev_fd (events w e)" for e by (simp_all add: w1_def)
  obtain tb1 ok where g: "(if npolls (polls tb q) \<ge> max_polls (polls tb q) then poll_grow os q tb else (tb, True)) = (tb1, ok)"
    by (metis surj_pair)
  have g1: "poll_table tb1 q es" "ok \<longrightarrow> Suc (length es) < max_polls (polls tb1 q)"
    "\<forall>j \<le> length es. fdset (polls tb1 q) ! j = fdset (polls tb q) ! j"
    "\<not> ok \<longrightarrow> (\<exists>a. p_realloc os a (2 * max_polls (polls tb q) * 8) = None)"
    using g poll_grow_table [OF tab max, of os] tab t by (auto split: if_splits)
  note t1 = poll_tableD [OF g1(1)]
  show ?thesis
  proof (cases ok)
    case False
    have "poll_add os q ev (w, tb) = Some ((w1, tb1), -1)"
      using sg g False w1 by (simp add: poll_add_def Let_def w1_def)
    moreover have "poll_registered w1 tb1 q es" using reg g1(1,3) w1 by (simp add: poll_registered_def Suc_le_eq)
    ultimately show ?thesis using g1(4) False by (auto simp: w1_def)
  next
    case True
    let ?n = "Suc (length es)"
    let ?f = "\<lparr>pfd = ev_fd (events w1 ev), pfd_events = poll_mask (ev_flags (events w1 ev)), pfd_revents = 0\<rparr>"
    let ?tb = "(pq_upd q (\<lambda>p. p\<lparr>fdset := (fdset p)[?n := ?f], pevents := (pevents p)[?n := ev], npolls := Suc ?n\<rparr>) tb1)
        \<lparr>ev_index := (ev_index tb1)(ev := ?n)\<rparr>"
    let ?w = "evq_upd q (\<lambda>r. r\<lparr>nevents := u32_add (nevents r) 1\<rparr>) w1"
    have b: "?n < length (fdset (polls tb1 q))" "?n < length (pevents (polls tb1 q))" "u32_add ?n 1 = Suc ?n"
      "npolls (polls tb q) = ?n" using g1(2) True t1 t(1) by auto
    have run: "poll_add os q ev (w, tb) = Some ((?w, ?tb), 0)"
      using sg g True b w1 by (simp add: poll_add_def Let_def w1_def [symmetric] arr_set_def pq_upd_def)
    have "slots_hold (\<lambda>i. pevents (polls ?tb q) ! i) (ev_index ?tb) (es @ [ev])"
      using t1(6) new b(2) by (auto simp: slots_hold_def nth_append less_Suc_eq dest: nth_mem)
    then have "poll_table ?tb q (es @ [ev])"
      using t1 g1(2) True unfolding poll_table_def Let_def by simp
    then have "poll_registered ?w ?tb q (es @ [ev])"
      using reg g1(3) b(1) w1 unfolding poll_registered_def by (auto simp: nth_append less_Suc_eq)
    with run show ?thesis
      by (intro exI [of _ ?w] exI [of _ ?tb] exI [of _ "0 :: int"]) (simp add: w1_def)
  qed
qed

lemma poll_del_run:
  assumes tab: "poll_table tb q es" and ev: "ev \<in> set es" and plain: "plain_event w q ev" and ep: "ep_set w q = (\<lambda>_. None)"
    and d: "evq_del (p_os os) ev True w = Some (w', r)"
  obtains tb1 where "poll_unslot q ev tb = Some tb1" "poll_del os ev (w, tb) = Some ((w', poll_shrink os q tb1), 0)"
proof -
  from plain have q: "ev_evq (events w ev) = Some q" by (simp add: plain_event_def)
  obtain w1 where w1: "(if ev_tq (events w ev) \<noteq> None then timeout_del ev w else Some w) = Some w1"
    "w' = evq_upd q (\<lambda>r. r\<lparr>nevents := u32_sub (nevents r) 1\<rparr>) (ev_upd ev (\<lambda>e. e\<lparr>ev_evq := None\<rparr>) w1)" "r = 0"
    using evq_del_plain [OF plain ep d] .
  obtain tb1 where u: "poll_unslot q ev tb = Some tb1" using poll_unslot_spec [OF tab ev] by blast
  have "poll_del os ev (w, tb) = Some ((w', poll_shrink os q tb1), 0)"
    using plain w1 u unfolding poll_del_def prod.case q Let_def Option.bind_lunit w1(1) by (simp add: plain_event_def)
  with u show thesis by (rule that)
qed

lemma poll_del_unregisters:
  assumes reg: "poll_registered w tb q es" and ev: "ev \<in> set es" and plain: "plain_event w q ev" and ep: "ep_set w q = (\<lambda>_. None)"
    and inv: "evq_inv w q qs fs rs" "sig_ok w q"
  shows "\<exists>w' tb' es'. poll_del os ev (w, tb) = Some ((w', tb'), 0) \<and> poll_registered w' tb' q es' \<and>
    mset es' = mset es - {#ev#} \<and> event_deleted w' ev"
proof -
  from reg have tab: "poll_table tb q es" by (simp add: poll_registered_def)
  from plain have q: "ev_evq (events w ev) = Some q" by (simp add: plain_event_def)
  note t = poll_tableD [OF tab]
  note s = slots_index [OF t(6) ev]
  from evq_del_spec [OF inv(1) q inv(2), of "p_os os" True] obtain w' r where
    d: "evq_del (p_os os) ev True w = Some (w', r)" "event_deleted w' ev"
    "\<forall>e. ev_flags (events w' e) = ev_flags (events w e) \<and> ev_fd (events w' e) = ev_fd (events w e)" by blast
  obtain tb1 where u: "poll_unslot q ev tb = Some tb1" "poll_del os ev (w, tb) = Some ((w', poll_shrink os q tb1), 0)"
    using poll_del_run [OF tab ev plain ep d(1)] .
  let ?i = "ev_index tb ev" and ?es = "swap_remove (ev_index tb ev - 1) es"
  from poll_unslot_spec [OF tab ev] u(1) have p: "poll_table tb1 q ?es"
    "\<forall>j. j \<noteq> ?i \<longrightarrow> fdset (polls tb1 q) ! j = fdset (polls tb q) ! j"
    "?i < length es \<longrightarrow> fdset (polls tb1 q) ! ?i = fdset (polls tb q) ! length es" by auto
  have sh: "poll_table (poll_shrink os q tb1) q ?es"
    "\<forall>j \<le> length ?es. fdset (polls (poll_shrink os q tb1) q) ! j = fdset (polls tb1 q) ! j"
    using poll_shrink_table [OF p(1), of os] by auto
  have ne: "es \<noteq> []" "Suc (length es - Suc 0) = length es" using length_pos_if_in_set [OF ev] by auto
  have e: "pfd (fdset (polls tb q) ! Suc k) = ev_fd (events w (es ! k)) \<and>
      pfd_events (fdset (polls tb q) ! Suc k) = poll_mask (ev_flags (events w (es ! k)))" if "k < length es" for k
    using reg that by (simp add: poll_registered_def)
  have "pfd (fdset (polls (poll_shrink os q tb1) q) ! Suc k) = ev_fd (events w' (?es ! k)) \<and>
      pfd_events (fdset (polls (poll_shrink os q tb1) q) ! Suc k) = poll_mask (ev_flags (events w' (?es ! k)))"
    if k: "k < length ?es" for k
  proof (cases "Suc k = ?i")
    case True
    then have "fdset (polls tb1 q) ! Suc k = fdset (polls tb q) ! Suc (length es - 1)" "?es ! k = es ! (length es - 1)"
      using k p(3) s(2) ne by (auto simp: nth_swap_remove last_conv_nth)
    moreover have "length es - 1 < length es" using k by simp
    ultimately show ?thesis using e [of "length es - 1"] sh(2) k d(3) by (simp add: Suc_le_eq)
  next
    case False
    then have "?es ! k = es ! k" "fdset (polls tb1 q) ! Suc k = fdset (polls tb q) ! Suc k"
      using k p(2) s(1) by (auto simp: nth_swap_remove)
    with e [of k] sh(2) k d(3) show ?thesis by (simp add: Suc_le_eq)
  qed
  moreover have "mset ?es = mset es - {#ev#}" using mset_swap_remove [of "?i - 1" es] s by simp
  ultimately show ?thesis using u(2) sh(1) d(2) by (auto simp: poll_registered_def)
qed

text \<open>
  Claim C22: the table of the poll backend always holds exactly the registered events, each in the slot it
  knows, with its descriptor and direction, and inside the allocated arrays: \<open>evq_add\<close> appends the
  event, growing the arrays when they are full, or fails without harm when memory is short;
  \<open>evq_del\<close> of any event removes exactly this one, moving the last event to its slot and shrinking
  the arrays if they are sparse.
\<close>

theorem poll_table_kept:
  assumes "poll_registered w tb q es" and "evq_inv w q qs fs rs" "sig_ok w q" "ep_set w q = (\<lambda>_. None)"
    and "max_polls (polls tb q) < 1073741824"
  shows "(ev \<notin> set es \<and> \<not> flag_on (ev_flags (events w ev)) EVENT_SIGNAL \<longrightarrow>
      (\<exists>w' tb' r. poll_add os q ev (w, tb) = Some ((w', tb'), r) \<and> r \<in> {0, -1} \<and>
         poll_registered w' tb' q (if r = 0 then es @ [ev] else es) \<and> ev_evq (events w' ev) = Some q \<and>
         (r \<noteq> 0 \<longrightarrow> (\<exists>a. p_realloc os a (2 * max_polls (polls tb q) * 8) = None)))) \<and>
    (ev \<in> set es \<and> plain_event w q ev \<longrightarrow>
      (\<exists>w' tb' es'. poll_del os ev (w, tb) = Some ((w', tb'), 0) \<and> poll_registered w' tb' q es' \<and>
         mset es' = mset es - {#ev#} \<and> event_deleted w' ev))"
  using poll_add_registers [OF assms(1), of ev os] poll_del_unregisters [OF assms(1) _ _ assms(4,2,3), of ev os] assms(5) by blast

theorem poll_table_kept_witness:
  "\<exists>w' tb'. poll_del poll_os_demo 9 (timer_demo, poll_demo 1 64 0) = Some ((w', tb'), 0) \<and> poll_registered w' tb' 0 [] \<and> event_deleted w' 9"
proof -
  have "poll_table (poll_demo 1 64 0) 0 [9]" using poll_demo_table [of 1 64 0 0] by simp
  then have reg: "poll_registered timer_demo (poll_demo 1 64 0) 0 [9]"
    using timer_demo_plain by (simp add: poll_registered_def poll_demo_def poll_mask_def)
  have m: "max_polls (polls (poll_demo 1 64 0) 0) < 1073741824" by (simp add: poll_demo_def)
  show ?thesis
    using poll_table_kept [OF reg timer_demo_inv timer_demo_sig timer_demo_plain(2) m, of 9 poll_os_demo] timer_demo_plain(1) by auto
qed

text \<open>
  Claim C31: the loop of \<open>evq_wait\<close> keeps the addresses of the arrays in local variables, and the deletion
  of a one-shot event may move them: when more than 32 other events remain and they fill at most a
  quarter of the slots, the arrays are reallocated, and if the block of the descriptors moves, the loop,
  with another descriptor to report, reads freed memory.
\<close>

theorem poll_shrink_dangles:
  assumes tab: "poll_table tb q es" and x: "x \<in> set es" "ev_index tb x = i" and rev: "pfd_revents (fdset (polls tb q) ! i) = r" "r \<noteq> 0"
    and plain: "plain_event w q x" "\<not> ev_active w x" "flag_on (ev_flags (events w x)) EVENT_ONESHOT"
    and r: "poll_reported r" and ep: "ep_set w q = (\<lambda>_. None)" and good: "evq_good w q rs"
    and sparse: "NEVENT div 2 < length es" "length es \<le> max_polls (polls tb q) div 4"
    and move: "p_realloc os (fdset_at (polls tb q)) (max_polls (polls tb q) div 2 * 8) = Some b" "b \<noteq> fdset_at (polls tb q)"
    and more: "2 \<le> nready"
  shows "\<exists>w' tb'. tab_activate (poll_del os) x (hdp rs None) now
      (ev_upd x (\<lambda>e. e\<lparr>ev_flags := ev_flags e OR poll_res r (ev_flags e)\<rparr>) w, clear_revents q i tb) = Some ((w', tb'), Some x) \<and>
    fdset_at (polls tb' q) = b \<and>
    poll_loop os q (events_at (polls tb q)) (fdset_at (polls tb q)) now (i # j # is) nready ((w, tb), hdp rs None) = None"
proof -
  note t = poll_tableD [OF tab]
  note s = slots_index [OF t(6) x(1), unfolded x(2)]
  let ?w1 = "ev_upd x (\<lambda>e. e\<lparr>ev_flags := ev_flags e OR epoll_res (epoll_bits r) (ev_flags e)\<rparr>) w"
  let ?w2 = "ev_upd x (\<lambda>e. e\<lparr>ev_flags := set_flag (ev_flags e) EVENT_ACTIVE\<rparr>) ?w1"
  let ?c = "clear_revents q i tb"
  have w1: "ev_upd x (\<lambda>e. e\<lparr>ev_flags := ev_flags e OR poll_res r (ev_flags e)\<rparr>) w = ?w1" by (simp add: poll_res_epoll [OF r])
  have f: "flag_on (ev_flags (events ?w1 x)) m = flag_on (ev_flags (events w x)) m"
    if "m \<in> {EVENT_ACTIVE, EVENT_PID, EVENT_SIGNAL, EVENT_TIMER, EVENT_DIRWATCH, EVENT_READ, EVENT_WRITE}" for m
    using epoll_res_flags [OF that] by simp
  have one: "flag_on (ev_flags (events ?w1 x)) EVENT_ONESHOT" using plain(3) by (simp add: flag_on_or)
  have pl: "plain_event ?w2 q x" "\<not> ev_active ?w1 x" using plain(1,2) f by (auto simp: plain_event_def)
  have "evq_good ?w1 q rs" using evq_good_flags [OF good, of "\<lambda>f. f OR epoll_res (epoll_bits r) f" x] epoll_res_flags by simp
  then have "\<exists>w'. evq_activate (p_os os) x (hdp rs None) now ?w1 = Some (w', Some x)"
    using evq_activate_good [of ?w1 q rs x "p_os os" now] pl(2) plain(1) by (auto simp: plain_event_def)
  then obtain w2 res where d: "evq_del (p_os os) x True ?w2 = Some (w2, res)"
    using pl(2) one by (auto simp: evq_activate_def Let_def split: bind_splits)
  have ct: "poll_table ?c q es" using tab by simp
  have ep2: "ep_set ?w2 q = (\<lambda>_. None)" using ep by simp
  obtain tb1 where u: "poll_unslot q x ?c = Some tb1" "poll_del os x (?w2, ?c) = Some ((w2, poll_shrink os q tb1), 0)"
    using poll_del_run [OF ct x(1) pl(1) ep2 d] .
  have len: "Suc (length es - Suc 0) = length es" using sparse(1) by simp
  from poll_unslot_spec [OF ct x(1)] u(1) have "npolls (polls tb1 q) = length es" "max_polls (polls tb1 q) = max_polls (polls tb q)"
    "fdset_at (polls tb1 q) = fdset_at (polls tb q)"
    using len by (auto simp: poll_table_def Let_def)
  then have b: "fdset_at (polls (poll_shrink os q tb1) q) = b"
    using sparse move(1) by (simp add: poll_shrink_def Let_def)
  let ?w' = "ev_upd x (\<lambda>e. e\<lparr>next_ready := hdp rs None\<rparr>) w2"
  have act: "tab_activate (poll_del os) x (hdp rs None) now (?w1, ?c) = Some ((?w', poll_shrink os q tb1), Some x)"
    using pl(2) one u(2) by (simp add: tab_activate_def)
  have bnd: "i < length (fdset (polls tb q))" "i < length (pevents (polls tb q))" using s(2) t by auto
  have "poll_loop os q (events_at (polls tb q)) (fdset_at (polls tb q)) now (i # j # is) nready ((w, tb), hdp rs None)
      = poll_loop os q (events_at (polls tb q)) (fdset_at (polls tb q)) now (j # is) (nready - 1) ((?w', poll_shrink os q tb1), Some x)"
    using rev more bnd s(3) act w1 by (simp add: fdset_of_def events_of_def arr_get_def)
  then have "poll_loop os q (events_at (polls tb q)) (fdset_at (polls tb q)) now (i # j # is) nready ((w, tb), hdp rs None) = None"
    using more b move(2) by (simp add: fdset_of_def)
  with act b show ?thesis unfolding w1 by blast
qed

definition shot_demo :: evq_store where
  "shot_demo = evq_store0\<lparr>events := (\<lambda>_. event0\<lparr>ev_flags := EVENT_ONESHOT, ev_evq := Some 0\<rparr>)\<rparr>"

lemma shot_demo_event: "plain_event shot_demo 0 9" "\<not> ev_active shot_demo 9" "flag_on (ev_flags (events shot_demo 9)) EVENT_ONESHOT"
  "\<not> flag_on (ev_flags (events shot_demo e)) EVENT_SIGNAL" "ep_set shot_demo q = (\<lambda>_. None)"
  by (simp_all add: plain_event_def shot_demo_def zero_defs event_flag_defs flag_on_def)

lemma shot_demo_good: "evq_good shot_demo 0 []"
proof -
  have "evq_inv shot_demo 0 [] [] []"
    by (simp add: evq_inv_def evq_timers_def tq_complete_def shot_demo_def zero_defs)
  moreover have "sig_list shot_demo i []" for i by (simp add: sig_list_def shot_demo_def zero_defs)
  then have "sig_ok shot_demo 0" using shot_demo_event(4) unfolding sig_ok_def sig_event_ok_def by blast
  ultimately show ?thesis by (auto simp: evq_good_def)
qed

theorem poll_shrink_dangles_witness:
  "poll_loop poll_os_demo 0 1000 2000 40 [1, 2] 2 ((shot_demo, poll_demo 33 132 POLLIN), None) = None"
proof -
  let ?tb = "poll_demo 33 132 POLLIN"
  have tab: "poll_table ?tb 0 [9..<9 + 33]" by (rule poll_demo_table) simp_all
  have "\<exists>w' tb'. tab_activate (poll_del poll_os_demo) 9 (hdp [] None) 40
      (ev_upd 9 (\<lambda>e. e\<lparr>ev_flags := ev_flags e OR poll_res POLLIN (ev_flags e)\<rparr>) shot_demo, clear_revents 0 1 ?tb) = Some ((w', tb'), Some 9) \<and>
    fdset_at (polls tb' 0) = 2001 \<and>
    poll_loop poll_os_demo 0 (events_at (polls ?tb 0)) (fdset_at (polls ?tb 0)) 40 (1 # 2 # []) 2 ((shot_demo, ?tb), hdp [] None) = None"
    by (rule poll_shrink_dangles [OF tab])
      (use shot_demo_good shot_demo_event in \<open>simp_all add: poll_demo_def poll_os_demo_def POLLIN_def poll_reported_def NEVENT_def\<close>)
  moreover have "events_at (polls ?tb 0) = 1000" "fdset_at (polls ?tb 0) = 2000" by (simp_all add: poll_demo_def)
  ultimately show ?thesis by (auto simp del: poll_loop.simps)
qed

end
