(* ===== verification/Select.thy ===== *)
theory Select
  imports Backend
begin

text \<open>
  The select backend of the event queue, src/src/event/select.c. Its array of events has a fixed size and
  lies in the queue; a set of descriptors is a set of numbers below \<open>FD_SETSIZE\<close>, and an access with
  another number is \<open>None\<close>. Timers and signals are those of theory \<open>Evq\<close>.
\<close>

section \<open>The table\<close>

definition FD_SETSIZE :: nat where "FD_SETSIZE = 1024"

record select_queue =
  s_npolls :: nat
  max_fd :: int
  s_events :: "nat list"
  readset :: "int set"
  writeset :: "int set"
  s_sig_fd :: "int \<times> int"

text \<open>The queues and the field \<open>index\<close> of the events.\<close>

record select_tab =
  sels :: "nat \<Rightarrow> select_queue"
  s_index :: "nat \<Rightarrow> nat"

record select_os =
  s_os :: evq_os
  s_pipe :: "(int \<times> int) option"
  s_nonblock :: "int \<Rightarrow> bool"

type_synonym select_state = "evq_store \<times> select_tab"

definition sq_upd :: "nat \<Rightarrow> (select_queue \<Rightarrow> select_queue) \<Rightarrow> select_tab \<Rightarrow> select_tab" where
  "sq_upd q f tb = tb\<lparr>sels := (sels tb)(q := f (sels tb q))\<rparr>"

lemma sq_upd_simps [simp]:
  "sels (sq_upd q f tb) = (sels tb)(q := f (sels tb q))" "s_index (sq_upd q f tb) = s_index tb"
  by (simp_all add: sq_upd_def)

text \<open>\<open>FD_SET\<close>, \<open>FD_CLR\<close>.\<close>

definition fd_ok :: "int \<Rightarrow> bool" where
  "fd_ok fd \<longleftrightarrow> 0 \<le> fd \<and> fd < int FD_SETSIZE"

definition fd_set :: "int \<Rightarrow> int set \<Rightarrow> int set option" where
  "fd_set fd S = (if fd_ok fd then Some (insert fd S) else None)"

definition fd_clr :: "int \<Rightarrow> int set \<Rightarrow> int set option" where
  "fd_clr fd S = (if fd_ok fd then Some (S - {fd}) else None)"

text \<open>Both choose the set by the direction in the flags.\<close>

definition sets_add :: "u32 \<Rightarrow> int \<Rightarrow> select_queue \<Rightarrow> select_queue option" where
  "sets_add fl fd p =
     (if flag_on fl EVENT_READ then do { S \<leftarrow> fd_set fd (readset p); Some (p\<lparr>readset := S\<rparr>) }
      else do { S \<leftarrow> fd_set fd (writeset p); Some (p\<lparr>writeset := S\<rparr>) })"

definition sets_del :: "u32 \<Rightarrow> int \<Rightarrow> select_queue \<Rightarrow> select_queue option" where
  "sets_del fl fd p =
     (if flag_on fl EVENT_READ then do { S \<leftarrow> fd_clr fd (readset p); Some (p\<lparr>readset := S\<rparr>) }
      else do { S \<leftarrow> fd_clr fd (writeset p); Some (p\<lparr>writeset := S\<rparr>) })"

section \<open>Operations\<close>

definition select_done :: "nat \<Rightarrow> select_state \<Rightarrow> select_state" where
  "select_done q st =
     (case st of (w, tb) \<Rightarrow>
        (fd_close (snd (s_sig_fd (sels tb q))) (fd_close (fst (s_sig_fd (sels tb q))) w), tb))"

definition select_init :: "select_os \<Rightarrow> int \<Rightarrow> nat \<Rightarrow> select_state \<Rightarrow> (select_state \<times> int) option" where
  "select_init os time q st =
     (case st of (w, tb) \<Rightarrow>
        let tb0 = sq_upd q (\<lambda>p. p\<lparr>s_sig_fd := (-1, -1)\<rparr>) tb
        in case s_pipe os of
             None \<Rightarrow> Some (select_done q (w, tb0), -1)
           | Some (r, s) \<Rightarrow>
               (let tb1 = sq_upd q (\<lambda>p. p\<lparr>s_sig_fd := (r, s)\<rparr>) tb0
                in if \<not> s_nonblock os r then Some (select_done q (w, tb1), -1)
                   else do {
                     S \<leftarrow> fd_set r (readset (sels tb1 q));
                     Some ((evq_upd q (\<lambda>r. r\<lparr>evq_now := time\<rparr>) w,
                       sq_upd q (\<lambda>p. p\<lparr>readset := S, max_fd := r, s_npolls := u32_add (s_npolls p) 1\<rparr>) tb1), 0)
                   }))"

definition select_add :: "select_os \<Rightarrow> nat \<Rightarrow> nat \<Rightarrow> select_state \<Rightarrow> (select_state \<times> int) option" where
  "select_add os q ev st =
     (case st of (w, tb) \<Rightarrow>
        let w1 = ev_upd ev (\<lambda>e. e\<lparr>ev_evq := Some q\<rparr>) w;
            fl = ev_flags (events w1 ev);
            fd = ev_fd (events w1 ev);
            np = s_npolls (sels tb q)
        in if flag_on fl EVENT_SIGNAL then (case signal_add (s_os os) q ev w1 of (w2, r) \<Rightarrow> Some ((w2, tb), r))
           else if np \<ge> FD_SETSIZE then Some ((w1, tb), -1)
           else do {
             p1 \<leftarrow> sets_add fl fd (sels tb q);
             let p2 = (if max_fd p1 \<noteq> -1 \<and> max_fd p1 < fd then p1\<lparr>max_fd := fd\<rparr> else p1);
             es \<leftarrow> arr_set (s_events p2) np ev;
             let tb1 = sq_upd q (\<lambda>_. p2\<lparr>s_events := es, s_npolls := u32_add np 1\<rparr>) tb;
             Some ((evq_upd q (\<lambda>r. r\<lparr>nevents := u32_add (nevents r) 1\<rparr>) w1, tb1\<lparr>s_index := (s_index tb1)(ev := np)\<rparr>), 0)
           })"

definition select_add_dirwatch :: int where
  "select_add_dirwatch = -1"

text \<open>The part of \<open>evq_del\<close> on the array.\<close>

definition select_unslot :: "nat \<Rightarrow> nat \<Rightarrow> select_tab \<Rightarrow> select_tab option" where
  "select_unslot q ev tb =
     (let np = u32_sub (s_npolls (sels tb q)) 1;
          tb1 = sq_upd q (\<lambda>p. p\<lparr>s_npolls := np\<rparr>) tb;
          i = s_index tb1 ev
      in if i < np then do {
           e \<leftarrow> arr_get (s_events (sels tb1 q)) np;
           es \<leftarrow> arr_set (s_events (sels tb1 q)) i e;
           let tb2 = sq_upd q (\<lambda>p. p\<lparr>s_events := es\<rparr>) tb1;
           Some (tb2\<lparr>s_index := (s_index tb2)(e := i)\<rparr>)
         }
         else Some tb1)"

definition select_del :: "select_os \<Rightarrow> nat \<Rightarrow> select_state \<Rightarrow> (select_state \<times> int) option" where
  "select_del os ev st =
     (case st of (w, tb) \<Rightarrow> do {
        q \<leftarrow> ev_evq (events w ev);
        let fl = ev_flags (events w ev);
        w1 \<leftarrow> (if ev_tq (events w ev) \<noteq> None then timeout_del ev w else Some w);
        let w2 = ev_upd ev (\<lambda>e. e\<lparr>ev_evq := None\<rparr>) w1;
        let w3 = evq_upd q (\<lambda>r. r\<lparr>nevents := u32_sub (nevents r) 1\<rparr>) w2;
        (if flag_on fl EVENT_TIMER then Some ((w3, tb), 0)
         else if flag_on fl EVENT_SIGNAL then map_option (\<lambda>(w4, r). ((w4, tb), r)) (signal_del (s_os os) ev w3)
         else do {
           let fd = ev_fd (events w3 ev);
           p1 \<leftarrow> sets_del fl fd (sels tb q);
           let p2 = (if max_fd p1 = fd then p1\<lparr>max_fd := -1\<rparr> else p1);
           tb1 \<leftarrow> select_unslot q ev (sq_upd q (\<lambda>_. p2) tb);
           Some ((w3, tb1), 0)
         })
      })"

definition select_modify :: "nat \<Rightarrow> u32 \<Rightarrow> select_state \<Rightarrow> (select_state \<times> int) option" where
  "select_modify ev fl st =
     (case st of (w, tb) \<Rightarrow> do {
        q \<leftarrow> ev_evq (events w ev);
        p1 \<leftarrow> sets_del (ev_flags (events w ev)) (ev_fd (events w ev)) (sels tb q);
        p2 \<leftarrow> sets_add fl (ev_fd (events w ev)) p1;
        Some ((w, sq_upd q (\<lambda>_. p2) tb), 0)
      })"

section \<open>Waiting\<close>

text \<open>The largest descriptor; when it is not known, that of the events.\<close>

definition select_max_fd :: "evq_store \<Rightarrow> select_queue \<Rightarrow> int option" where
  "select_max_fd w p =
     (if max_fd p = -1 then
        fold (\<lambda>i m. do { m \<leftarrow> m; ev \<leftarrow> arr_get (s_events p) i;
                         Some (if m < ev_fd (events w ev) then ev_fd (events w ev) else m) })
          [1..<s_npolls p] (Some (-1))
      else Some (max_fd p))"

definition select_res :: "int set \<Rightarrow> int set \<Rightarrow> event \<Rightarrow> u32" where
  "select_res R W e =
     (if flag_on (ev_flags e) EVENT_READ \<and> ev_fd e \<in> R then EVENT_READ_RES
      else if flag_on (ev_flags e) EVENT_WRITE \<and> ev_fd e \<in> W then EVENT_WRITE_RES
      else 0)"

fun select_loop :: "select_os \<Rightarrow> nat \<Rightarrow> int set \<Rightarrow> int set \<Rightarrow> int \<Rightarrow> nat list \<Rightarrow> nat \<Rightarrow> select_state \<times> ptr
    \<Rightarrow> (select_state \<times> ptr) option" where
  "select_loop os q R W now [] nready st = Some st"
| "select_loop os q R W now (i # is) nready ((w, tb), rdy) =
     (if nready = 0 then Some ((w, tb), rdy)
      else do {
        ev \<leftarrow> arr_get (s_events (sels tb q)) i;
        let res = select_res R W (events w ev);
        (if res = 0 then select_loop os q R W now is nready ((w, tb), rdy)
         else do {
           let w1 = ev_upd ev (\<lambda>e. e\<lparr>ev_flags := ev_flags e OR res\<rparr>) w;
           st1 \<leftarrow> tab_activate (select_del os) ev rdy now (w1, tb);
           select_loop os q R W now is (nready - 1) st1
         })
      })"

text \<open>What \<open>select\<close> returns: an error (interrupted or not), or the number of ready descriptors and the
  sets it leaves.\<close>

datatype select_result = SelectError bool | SelectReady nat "int set" "int set"

text \<open>
  \<open>evq_wait\<close>: \<open>select nfds R W t st\<close> is the call of \<open>select\<close> (an infinite timeout is a null
  \<open>timeval\<close>) with what other threads do meanwhile.
\<close>

definition select_wait :: "select_os \<Rightarrow> (int \<Rightarrow> int set \<Rightarrow> int set \<Rightarrow> int \<Rightarrow> select_state \<Rightarrow> select_state \<times> select_result)
    \<Rightarrow> int \<Rightarrow> nat \<Rightarrow> int \<Rightarrow> select_state \<Rightarrow> (select_state \<times> int) option" where
  "select_wait os select time q timeout st =
     (case st of (w, tb) \<Rightarrow> do {
        let np = s_npolls (sels tb q);
        timeout1 \<leftarrow> (if timeout \<noteq> 0 then timeout_get w (evq_tq (evqs w q)) timeout (evq_now (evqs w q)) else Some 0);
        (if timeout \<noteq> 0 \<and> timeout1 = 0 then do {
           (w1, rdy) \<leftarrow> timeout_process (evq_tq (evqs w q)) None (evq_now (evqs w q)) w;
           Some ((evq_upd q (\<lambda>r. r\<lparr>ev_ready := rdy\<rparr>) w1, tb), 0)
         }
         else do {
           m \<leftarrow> select_max_fd w (sels tb q);
           let tb0 = sq_upd q (\<lambda>p. p\<lparr>max_fd := m\<rparr>) tb;
           (case select (m + 1) (readset (sels tb q)) (writeset (sels tb q)) timeout1 (w, tb0) of ((w1, tb1), result) \<Rightarrow>
              let w2 = evq_upd q (\<lambda>r. r\<lparr>evq_now := time\<rparr>) w1
              in case result of
                   SelectError intr \<Rightarrow> Some ((w2, tb1), if intr then 0 else -1)
                 | SelectReady nready R W \<Rightarrow>
                     let rdy = ev_ready (evqs w2 q)
                     in if timeout1 \<noteq> TIMEOUT_INFINITE \<and> nready = 0 then
                          (if evq_tq (evqs w2 q) \<noteq> None then do {
                             (w3, rdy1) \<leftarrow> timeout_process (evq_tq (evqs w2 q)) rdy time w2;
                             Some (if rdy1 \<noteq> rdy then ((evq_upd q (\<lambda>r. r\<lparr>ev_ready := rdy1\<rparr>) w3, tb1), 0)
                                   else ((w3, tb1), SYS_ERR_TIMEOUT))
                           }
                           else Some ((w2, tb1), SYS_ERR_TIMEOUT))
                        else do {
                          let now = (if timeout1 \<noteq> TIMEOUT_INFINITE then time else timeout1);
                          (w3, rdy3, n3) \<leftarrow> (if fst (s_sig_fd (sels tb1 q)) \<in> R then do {
                               (w3, rdy3) \<leftarrow> signal_process_interrupt (s_os os) q rdy now w2;
                               Some (w3, rdy3, nready - 1)
                             } else Some (w2, rdy, nready));
                          ((w4, tb4), rdy4) \<leftarrow> select_loop os q R W now [1..<np] n3 ((w3, tb1), rdy3);
                          Some ((if rdy4 = None then w4 else evq_upd q (\<lambda>r. r\<lparr>ev_ready := rdy4\<rparr>) w4, tb4), 0)
                        })
         })
      })"

section \<open>The table invariant\<close>

lemma timeout_del_fd: "timeout_del ev w = Some w' \<Longrightarrow> ev_fd (events w' e) = ev_fd (events w e)"
  by (auto simp: timeout_del_def timeout_del_queue_def levq_timeout_map_def Let_def split: option.splits bind_splits if_splits)

definition select_table :: "select_tab \<Rightarrow> nat \<Rightarrow> nat list \<Rightarrow> bool" where
  "select_table tb q es \<longleftrightarrow>
     s_npolls (sels tb q) = Suc (length es) \<and> Suc (length es) \<le> FD_SETSIZE \<and> length (s_events (sels tb q)) = FD_SETSIZE \<and>
     slots_hold (\<lambda>i. s_events (sels tb q) ! i) (s_index tb) es"

lemma select_tableD:
  assumes "select_table tb q es"
  shows "s_npolls (sels tb q) = Suc (length es)" "Suc (length es) \<le> FD_SETSIZE" "length (s_events (sels tb q)) = FD_SETSIZE"
    "slots_hold (\<lambda>i. s_events (sels tb q) ! i) (s_index tb) es"
  using assms by (auto simp: select_table_def)

lemma select_unslot_spec:
  assumes tab: "select_table tb q es" and ev: "ev \<in> set es"
  defines "i \<equiv> s_index tb ev"
  shows "\<exists>tb'. select_unslot q ev tb = Some tb' \<and> select_table tb' q (swap_remove (i - 1) es) \<and>
    set (swap_remove (i - 1) es) = set es - {ev} \<and>
    (\<forall>j. j \<noteq> i \<longrightarrow> s_events (sels tb' q) ! j = s_events (sels tb q) ! j) \<and> (\<forall>e \<in> set es. s_index tb' e \<le> s_index tb e) \<and>
    (\<exists>n es'. sels tb' q = (sels tb q)\<lparr>s_npolls := n, s_events := es'\<rparr>)"
proof -
  note t = select_tableD [OF tab]
  note s = slots_index [OF t(4) ev, folded i_def]
  have ne: "es \<noteq> []" using ev by auto
  note l = slots_last [OF t(4) ne]
  have np: "u32_sub (s_npolls (sels tb q)) 1 = length es" using t(1,2) by (simp add: FD_SETSIZE_def)
  let ?p = "sels tb q"
  let ?tb = "if i < length es
     then tb\<lparr>sels := (sels tb)(q := ?p\<lparr>s_npolls := length es, s_events := (s_events ?p)[i := last es]\<rparr>),
             s_index := (s_index tb)(last es := i)\<rparr>
     else sq_upd q (\<lambda>p. p\<lparr>s_npolls := length es\<rparr>) tb"
  have len: "length es < length (s_events ?p)" using t by simp
  have run: "select_unslot q ev tb = Some ?tb"
    using np len s l by (simp add: select_unslot_def Let_def i_def [symmetric] arr_get_def arr_set_def sq_upd_def)
  have "slots_hold (\<lambda>j. s_events (sels ?tb q) ! j) (s_index ?tb) (swap_remove (i - 1) es) \<and>
      set (swap_remove (i - 1) es) = set es - {ev} \<and> (\<forall>e \<in> set es. s_index ?tb e \<le> s_index tb e)"
    unfolding i_def by (rule slots_hold_remove [OF t(4) ev]) (use len s l in \<open>auto simp: i_def\<close>)
  then have sh: "slots_hold (\<lambda>j. s_events (sels ?tb q) ! j) (s_index ?tb) (swap_remove (i - 1) es)"
    "set (swap_remove (i - 1) es) = set es - {ev}" "\<forall>e \<in> set es. s_index ?tb e \<le> s_index tb e" by blast+
  have "select_table ?tb q (swap_remove (i - 1) es)"
    unfolding select_table_def using sh(1) t ne by auto
  moreover have "\<exists>n es'. sels ?tb q = ?p\<lparr>s_npolls := n, s_events := es'\<rparr>"
    by (rule exI [of _ "length es"], rule exI [of _ "if i < length es then (s_events ?p)[i := last es] else s_events ?p"]) simp
  ultimately show ?thesis using run sh(2,3) by (intro exI [of _ ?tb]) auto
qed

lemma sets_del_spec:
  assumes "fd_ok fd"
  shows "\<exists>R W. sets_del fl fd p = Some (p\<lparr>readset := R, writeset := W\<rparr>)"
proof -
  let ?R = "if flag_on fl EVENT_READ then readset p - {fd} else readset p"
  let ?W = "if flag_on fl EVENT_READ then writeset p else writeset p - {fd}"
  have "sets_del fl fd p = Some (p\<lparr>readset := ?R, writeset := ?W\<rparr>)"
    using assms by (cases p) (simp add: sets_del_def fd_clr_def)
  then show ?thesis by blast
qed

text \<open>Deletion: the event leaves its slot and its set; the largest descriptor may become unknown.\<close>

lemma select_del_run:
  assumes tab: "select_table tb q es" and ev: "ev \<in> set es" and plain: "plain_event w q ev" and fd: "fd_ok (ev_fd (events w ev))"
    and ep: "ep_set w q = (\<lambda>_. None)" and d: "evq_del (s_os os) ev True w = Some (w', r)"
  shows "\<exists>tb'. select_del os ev (w, tb) = Some ((w', tb'), r) \<and> select_table tb' q (swap_remove (s_index tb ev - 1) es) \<and>
    set (swap_remove (s_index tb ev - 1) es) = set es - {ev} \<and>
    (\<forall>i. i \<noteq> s_index tb ev \<longrightarrow> s_events (sels tb' q) ! i = s_events (sels tb q) ! i) \<and> (\<forall>e \<in> set es. s_index tb' e \<le> s_index tb e) \<and>
    s_sig_fd (sels tb' q) = s_sig_fd (sels tb q) \<and>
    max_fd (sels tb' q) = (if max_fd (sels tb q) = ev_fd (events w ev) then -1 else max_fd (sels tb q))"
proof -
  from plain have q: "ev_evq (events w ev) = Some q" by (simp add: plain_event_def)
  obtain w1 where w1: "(if ev_tq (events w ev) \<noteq> None then timeout_del ev w else Some w) = Some w1"
    "w' = evq_upd q (\<lambda>r. r\<lparr>nevents := u32_sub (nevents r) 1\<rparr>) (ev_upd ev (\<lambda>e. e\<lparr>ev_evq := None\<rparr>) w1)" "r = 0"
    using evq_del_plain [OF plain ep d] .
  have fd1: "ev_fd (events w1 ev) = ev_fd (events w ev)"
    using w1(1) timeout_del_fd [of ev w w1 ev] by (auto split: if_splits)
  obtain R W where p1: "sets_del (ev_flags (events w ev)) (ev_fd (events w ev)) (sels tb q) = Some ((sels tb q)\<lparr>readset := R, writeset := W\<rparr>)"
    using sets_del_spec [OF fd] by blast
  define p2 where "p2 = (sels tb q)\<lparr>readset := R, writeset := W,
     max_fd := (if max_fd (sels tb q) = ev_fd (events w ev) then -1 else max_fd (sels tb q))\<rparr>"
  let ?tb1 = "sq_upd q (\<lambda>_. p2) tb"
  have t1: "select_table ?tb1 q es" using tab by (simp add: select_table_def p2_def)
  from select_unslot_spec [OF t1 ev] obtain tb' n es' where u: "select_unslot q ev ?tb1 = Some tb'"
    "select_table tb' q (swap_remove (s_index tb ev - 1) es)" "set (swap_remove (s_index tb ev - 1) es) = set es - {ev}"
    "\<forall>j. j \<noteq> s_index tb ev \<longrightarrow> s_events (sels tb' q) ! j = s_events (sels ?tb1 q) ! j"
    "\<forall>e \<in> set es. s_index tb' e \<le> s_index tb e" "sels tb' q = (sels ?tb1 q)\<lparr>s_npolls := n, s_events := es'\<rparr>"
    by auto
  have p2: "p2 = (if max_fd ((sels tb q)\<lparr>readset := R, writeset := W\<rparr>) = ev_fd (events w ev)
      then (sels tb q)\<lparr>readset := R, writeset := W, max_fd := -1\<rparr> else (sels tb q)\<lparr>readset := R, writeset := W\<rparr>)"
    by (simp add: p2_def)
  have "select_del os ev (w, tb) = Some ((w', tb'), r)"
    using plain w1(2,3) u(1) unfolding p2 select_del_def prod.case q Let_def Option.bind_lunit w1(1)
    by (simp add: plain_event_def fd1 p1)
  moreover have "s_sig_fd (sels tb' q) = s_sig_fd (sels tb q)"
    "max_fd (sels tb' q) = (if max_fd (sels tb q) = ev_fd (events w ev) then -1 else max_fd (sels tb q))"
    "s_events (sels ?tb1 q) = s_events (sels tb q)" unfolding u(6) by (simp_all add: p2_def)
  ultimately show ?thesis using u(2-5) by (intro exI [of _ tb']) simp
qed

interpretation sb: table_backend s_os select_del select_table "\<lambda>tb q i. s_events (sels tb q) ! i" s_index fd_ok
  "\<lambda>_ _ _. ()" "\<lambda>tb q. s_sig_fd (sels tb q)"
proof (unfold_locales, goal_cases)
  case (1 tb q es)
  then show ?case by (rule select_tableD(4))
next
  case (2 tb q es ev w os w' r)
  from select_del_run [OF this] show ?case by blast
qed

section \<open>Waiting, compared with the epoll backend\<close>

text \<open>What epoll reports for an event.\<close>

definition select_bits :: "int set \<Rightarrow> int set \<Rightarrow> event \<Rightarrow> u32" where
  "select_bits R W e =
     (if flag_on (ev_flags e) EVENT_READ \<and> ev_fd e \<in> R then EPOLLIN
      else if flag_on (ev_flags e) EVENT_WRITE \<and> ev_fd e \<in> W then EPOLLOUT
      else 0)"

definition select_epevs :: "int set \<Rightarrow> int set \<Rightarrow> evq_store \<Rightarrow> nat list \<Rightarrow> (u32 \<times> ptr) list" where
  "select_epevs R W w xs = map (\<lambda>x. (select_bits R W (events w x), Some x)) (filter (\<lambda>x. select_bits R W (events w x) \<noteq> 0) xs)"

lemma select_res_epoll:
  "select_bits R W e \<noteq> 0 \<Longrightarrow> select_res R W e = epoll_res (select_bits R W e) (ev_flags e)"
  "select_bits R W e = 0 \<longleftrightarrow> select_res R W e = 0"
  by (auto simp: select_bits_def select_res_def epoll_res_def Let_def EPOLLIN_def EPOLLOUT_def EPOLLFD_HUP_def EPOLLRDHUP_def
      EPOLLHUP_def EPOLLFD_READ_def EPOLLFD_WRITE_def EPOLLERR_def EVENT_READ_RES_def EVENT_WRITE_RES_def flag_on_def split: if_splits)

lemma evq_step_bits: "evq_step q ns w w' \<Longrightarrow> select_bits R W (events w' x) = select_bits R W (events w x)"
  by (simp add: evq_step_def select_bits_def)

lemma evq_step_epevs: "evq_step q ns w w' \<Longrightarrow> select_epevs R W w' xs = select_epevs R W w xs"
  by (simp add: select_epevs_def evq_step_bits)

lemma select_epevs_Cons [simp]:
  "select_epevs R W w [] = []"
  "select_epevs R W w (x # xs) = (if select_bits R W (events w x) = 0 then select_epevs R W w xs
     else (select_bits R W (events w x), Some x) # select_epevs R W w xs)"
  by (simp_all add: select_epevs_def)

lemma select_epevs_ok:
  assumes "distinct xs" "\<forall>x \<in> set xs. ev_active w x \<or> plain_event w q x"
  shows "epevs_ok w q (select_epevs R W w xs)"
  using assms by (auto simp: epevs_ok_def select_epevs_def plain_event_def distinct_map inj_on_def)

text \<open>The loop does what the loop of the epoll backend does with the same events.\<close>

lemma select_loop_sim:
  assumes "select_table tb q es" and "pending (\<lambda>i. s_events (sels tb q) ! i) (s_index tb) es i xs" and "i + length xs \<le> FD_SETSIZE"
    and "length (select_epevs R W w xs) \<le> nready"
    and "\<forall>x \<in> set xs. (ev_active w x \<or> plain_event w q x) \<and> fd_ok (ev_fd (events w x))" "ep_set w q = (\<lambda>_. None)" "evq_good w q rdy"
  shows "\<exists>w' tb' es' ns.
    select_loop os q R W now [i..<i + length xs] nready ((w, tb), hdp rdy None) = Some ((w', tb'), hdp (ns @ rdy) None) \<and>
    epoll_loop (s_os os) q now (select_epevs R W w xs) (w, hdp rdy None) = Some (w', hdp (ns @ rdy) None) \<and>
    select_table tb' q es' \<and> set es' \<subseteq> set es"
  using assms
proof (induction xs arbitrary: i w tb es rdy nready)
  case Nil
  then show ?case by (intro exI [of _ w] exI [of _ tb] exI [of _ es] exI [of _ "[]"]) simp
next
  case (Cons x xs)
  have "[i..<i + length (x # xs)] = i # [Suc i..<i + length (x # xs)]" by (rule upt_conv_Cons) simp
  then have up: "[i..<i + length (x # xs)] = i # [Suc i..<Suc i + length xs]" by simp
  have get: "arr_get (s_events (sels tb q)) i = Some x"
    using Cons.prems(1,3) pending_hd [OF Cons.prems(2)] by (simp add: arr_get_def select_table_def)
  have px: "ev_active w x \<or> plain_event w q x" "fd_ok (ev_fd (events w x))" using Cons.prems(5) by auto
  have len: "Suc i + length xs \<le> FD_SETSIZE" using Cons.prems(3) by simp
  consider (stop) "nready = 0" | (skip) "nready \<noteq> 0" "select_bits R W (events w x) = 0" | (hit) "nready \<noteq> 0" "select_bits R W (events w x) \<noteq> 0"
    by blast
  then show ?case
  proof cases
    case stop
    then have "select_epevs R W w (x # xs) = []" using Cons.prems(4) by (simp del: select_epevs_Cons)
    with stop Cons.prems(1) show ?thesis unfolding up
      by (intro exI [of _ w] exI [of _ tb] exI [of _ es] exI [of _ "[]"]) simp
  next
    case skip
    have "select_loop os q R W now [i..<i + length (x # xs)] nready ((w, tb), hdp rdy None)
        = select_loop os q R W now [Suc i..<Suc i + length xs] nready ((w, tb), hdp rdy None)"
      unfolding up using skip get select_res_epoll(2) [of R W "events w x"] by simp
    with skip Cons.IH [OF Cons.prems(1) pending_skip [OF Cons.prems(2)] len, of w nready rdy] Cons.prems(4-7) show ?thesis by simp
  next
    case hit
    from sb.process_sim [OF Cons.prems(1,2) hit(2) px Cons.prems(6,7), of os now] obtain w1 tb1 es1 ns where
      s: "tab_activate (select_del os) x (hdp rdy None) now
            (ev_upd x (\<lambda>e. e\<lparr>ev_flags := ev_flags e OR epoll_res (select_bits R W (events w x)) (ev_flags e)\<rparr>) w, tb)
          = Some ((w1, tb1), hdp (ns @ rdy) None)"
        "epoll_process (s_os os) q now (select_bits R W (events w x), Some x) (w, hdp rdy None) = Some (w1, hdp (ns @ rdy) None)"
        "select_table tb1 q es1" "set es1 \<subseteq> set es"
        "pending (\<lambda>i. s_events (sels tb1 q) ! i) (s_index tb1) es1 (Suc i) xs" "evq_good w1 q (ns @ rdy)" "evq_step q ns w w1" by blast
    have up1: "ev_upd x (\<lambda>e. e\<lparr>ev_flags := ev_flags e OR select_res R W (events w x)\<rparr>) w
        = ev_upd x (\<lambda>e. e\<lparr>ev_flags := ev_flags e OR epoll_res (select_bits R W (events w x)) (ev_flags e)\<rparr>) w"
      by (simp add: ev_upd_def select_res_epoll(1) [OF hit(2)])
    have run: "select_loop os q R W now [i..<i + length (x # xs)] nready ((w, tb), hdp rdy None)
        = select_loop os q R W now [Suc i..<Suc i + length xs] (nready - 1) ((w1, tb1), hdp (ns @ rdy) None)"
      unfolding up using hit get select_res_epoll(2) [of R W "events w x"] s(1) up1 by simp
    have "\<forall>e \<in> set xs. (ev_active w1 e \<or> plain_event w1 q e) \<and> fd_ok (ev_fd (events w1 e))"
      using evq_step_plain [OF s(7)] Cons.prems(5) s(7) by (simp add: evq_step_def)
    moreover have "ep_set w1 q = (\<lambda>_. None)" using s(7) Cons.prems(6) by (simp add: evq_step_def)
    moreover have "length (select_epevs R W w1 xs) \<le> nready - 1" using Cons.prems(4) hit evq_step_epevs [OF s(7)] by simp
    ultimately obtain w' tb' es' ms where
      "select_loop os q R W now [Suc i..<Suc i + length xs] (nready - 1) ((w1, tb1), hdp (ns @ rdy) None) = Some ((w', tb'), hdp (ms @ ns @ rdy) None)"
      "epoll_loop (s_os os) q now (select_epevs R W w1 xs) (w1, hdp (ns @ rdy) None) = Some (w', hdp (ms @ ns @ rdy) None)"
      "select_table tb' q es'" "set es' \<subseteq> set es1"
      using Cons.IH [OF s(3,5) len, of w1 "nready - 1" "ns @ rdy"] s(6) by blast
    with run s(2,4) hit evq_step_epevs [OF s(7), of R W xs] show ?thesis
      by (intro exI [of _ w'] exI [of _ tb'] exI [of _ es'] exI [of _ "ms @ ns"]) auto
  qed
qed

text \<open>The largest descriptor of the events, when it is computed anew.\<close>

lemma max_fold:
  fixes a :: int
  assumes "\<forall>i \<in> set is. arr_get xs i = Some (g i)"
  shows "\<exists>m. fold (\<lambda>i m. do { m \<leftarrow> m; ev \<leftarrow> arr_get xs i; Some (if m < f ev then f ev else m) }) is (Some a) = Some m \<and>
    a \<le> m \<and> (\<forall>i \<in> set is. f (g i) \<le> m) \<and> (m = a \<or> m \<in> (\<lambda>i. f (g i)) ` set is)"
  using assms
proof (induction "is" arbitrary: a)
  case (Cons i "is")
  let ?a = "if a < f (g i) then f (g i) else a"
  from Cons.IH [of ?a] Cons.prems obtain m where
    "fold (\<lambda>i m. do { m \<leftarrow> m; ev \<leftarrow> arr_get xs i; Some (if m < f ev then f ev else m) }) is (Some ?a) = Some m"
    "?a \<le> m" "\<forall>i \<in> set is. f (g i) \<le> m" "m = ?a \<or> m \<in> (\<lambda>i. f (g i)) ` set is" by auto
  with Cons.prems show ?case by (intro exI [of _ m]) (auto split: if_splits)
qed simp

lemma select_max_fd_spec:
  assumes tab: "select_table tb q es"
  shows "\<exists>m. select_max_fd w (sels tb q) = Some m \<and>
    (if max_fd (sels tb q) = -1 then (\<forall>e \<in> set es. ev_fd (events w e) \<le> m) \<and> m \<in> insert (-1) ((\<lambda>e. ev_fd (events w e)) ` set es)
     else m = max_fd (sels tb q))"
proof (cases "max_fd (sels tb q) = -1")
  case True
  note t = select_tableD [OF tab]
  have "\<forall>i \<in> set [1..<Suc (length es)]. arr_get (s_events (sels tb q)) i = Some (es ! (i - 1))"
  proof
    fix i assume "i \<in> set [1..<Suc (length es)]"
    then have "1 \<le> i" "i < Suc (length es)" by (auto simp del: upt_Suc)
    then obtain k where "i = Suc k" "k < length es" by (cases i) auto
    with t show "arr_get (s_events (sels tb q)) i = Some (es ! (i - 1))" by (simp add: arr_get_def slots_hold_def)
  qed
  from max_fold [OF this, of "\<lambda>e. ev_fd (events w e)" "-1"] obtain m where
    m: "select_max_fd w (sels tb q) = Some m" "\<forall>i \<in> set [1..<Suc (length es)]. ev_fd (events w (es ! (i - 1))) \<le> m"
    "m = -1 \<or> m \<in> (\<lambda>i. ev_fd (events w (es ! (i - 1)))) ` set [1..<Suc (length es)]"
    using True t(1) unfolding select_max_fd_def by auto
  have "ev_fd (events w e) \<le> m" if "e \<in> set es" for e
  proof -
    from that obtain k where "k < length es" "es ! k = e" by (auto simp: in_set_conv_nth)
    with m(2) [rule_format, of "Suc k"] show ?thesis by (auto simp del: upt_Suc)
  qed
  moreover have "m \<in> insert (-1) ((\<lambda>e. ev_fd (events w e)) ` set es)" using m(3) by auto
  ultimately show ?thesis using m(1) True by auto
qed (simp add: select_max_fd_def)

text \<open>What epoll reports for the sets that \<open>select\<close> leaves.\<close>

definition select_reports :: "int \<Rightarrow> int set \<Rightarrow> int set \<Rightarrow> evq_store \<Rightarrow> nat list \<Rightarrow> (u32 \<times> ptr) list" where
  "select_reports sfd R W w es = (if sfd \<in> R then [(EPOLLIN, None)] else []) @ select_epevs R W w es"

lemma select_wait_run:
  assumes "waits_ms w q timeout t1" "select_max_fd w (sels tb q) = Some m" "nready \<noteq> 0"
    "select (m + 1) (readset (sels tb q)) (writeset (sels tb q)) t1 (w, sq_upd q (\<lambda>p. p\<lparr>max_fd := m\<rparr>) tb) = ((w1, tb1), SelectReady nready R W)"
    "(if fst (s_sig_fd (sels tb1 q)) \<in> R
      then signal_process_interrupt (s_os os) q (ev_ready (evqs w1 q)) (wait_now time t1) (evq_upd q (\<lambda>r. r\<lparr>evq_now := time\<rparr>) w1)
      else Some (evq_upd q (\<lambda>r. r\<lparr>evq_now := time\<rparr>) w1, ev_ready (evqs w1 q))) = Some (w3, rdy3)"
    "select_loop os q R W (wait_now time t1) [1..<s_npolls (sels tb q)]
       (if fst (s_sig_fd (sels tb1 q)) \<in> R then nready - 1 else nready) ((w3, tb1), rdy3) = Some ((w4, tb4), rdy4)"
  shows "select_wait os select time q timeout (w, tb) = Some ((if rdy4 = None then w4 else evq_upd q (\<lambda>r. r\<lparr>ev_ready := rdy4\<rparr>) w4, tb4), 0)"
proof -
  have t: "(if timeout \<noteq> 0 then timeout_get w (evq_tq (evqs w q)) timeout (evq_now (evqs w q)) else Some 0) = Some t1"
    "\<not> (timeout \<noteq> 0 \<and> t1 = 0)" using assms(1) by (auto simp: waits_ms_def split: if_splits)
  show ?thesis
    using t(2) assms(2-6) by (auto simp: select_wait_def Let_def t(1) split: if_splits)
qed

definition select_demo :: select_tab where
  "select_demo = \<lparr>sels = (\<lambda>_. \<lparr>s_npolls = 2, max_fd = 9, s_events = 0 # 9 # replicate 1022 0, readset = {5}, writeset = {0},
     s_sig_fd = (5, 6)\<rparr>), s_index = (\<lambda>e. e - 8)\<rparr>"

definition select_os_demo :: select_os where
  "select_os_demo = \<lparr>s_os = os_demo, s_pipe = Some (5, 6), s_nonblock = (\<lambda>_. True)\<rparr>"

lemma select_demo_table: "select_table select_demo q [9]" "select_max_fd w (sels select_demo q) = Some 9"
  "max_fd (sels select_demo q) = 9" "s_sig_fd (sels select_demo q) = (5, 6)"
  by (simp_all add: select_table_def select_demo_def slots_hold_def FD_SETSIZE_def select_max_fd_def)

text \<open>
  Claim C8: the select backend does what the epoll backend does. When \<open>select\<close> has left the sets \<open>R\<close> and
  \<open>W\<close>, \<open>evq_wait\<close> of select.c returns, leaves the event store exactly as \<open>evq_wait\<close> of epoll.c leaves it for
  the same reports, keeps a table of its events, and every event whose descriptor is in the set of its
  direction is active afterwards.
\<close>

theorem select_wait_as_epoll:
  assumes ms: "waits_ms w q timeout t1" and mx: "select_max_fd w (sels tb q) = Some m"
    and sel: "select (m + 1) (readset (sels tb q)) (writeset (sels tb q)) t1 (w, sq_upd q (\<lambda>p. p\<lparr>max_fd := m\<rparr>) tb)
      = ((w1, tb1), SelectReady nready R W)"
    and tab: "select_table tb q es0" "select_table tb1 q es" "length es = length es0" and sfd: "sfd = fst (s_sig_fd (sels tb1 q))"
    and rep: "select_reports sfd R W w1 es \<noteq> []" "length (select_reports sfd R W w1 es) \<le> nready"
    and ev: "\<forall>e \<in> set es. plain_event w1 q e \<and> fd_ok (ev_fd (events w1 e))" and ep: "ep_set w1 q = (\<lambda>_. None)"
    and good: "evq_good w1 q rs" "ev_ready (evqs w1 q) = hdp rs None" and sig: "sfd \<in> R \<longrightarrow> sigs_known w1 q"
  shows "\<exists>w' tb' es'. select_wait os select time q timeout (w, tb) = Some ((w', tb'), 0) \<and>
    evq_wait (s_os os) (\<lambda>_ _. (w1, EpollReady (select_reports sfd R W w1 es))) time q timeout w = Some (w', 0) \<and>
    select_table tb' q es' \<and> set es' \<subseteq> set es \<and> (\<forall>e \<in> set es. select_bits R W (events w1 e) \<noteq> 0 \<longrightarrow> ev_active w' e)"
proof -
  let ?now = "wait_now time t1" and ?w2 = "evq_upd q (\<lambda>r. r\<lparr>evq_now := time\<rparr>) w1"
  have g2: "evq_good ?w2 q rs" "evq_step q [] w1 ?w2"
    using evq_good_evq [OF good(1), of "\<lambda>r. r\<lparr>evq_now := time\<rparr>"] by simp_all
  have sg: "sfd \<in> R \<Longrightarrow> sigs_known ?w2 q" using sig by (simp add: sigs_known_def)
  from interrupt_sim [OF g2(1), of "sfd \<in> R" "s_os os" ?now] sg obtain w3 ns where
    i: "(if sfd \<in> R then signal_process_interrupt (s_os os) q (hdp rs None) ?now ?w2 else Some (?w2, hdp rs None)) = Some (w3, hdp (ns @ rs) None)"
    "evq_good w3 q (ns @ rs)" "evq_step q ns ?w2 w3"
    "\<And>epevs. epoll_loop (s_os os) q ?now ((if sfd \<in> R then [(EPOLLIN, None)] else []) @ epevs) (?w2, hdp rs None)
       = epoll_loop (s_os os) q ?now epevs (w3, hdp (ns @ rs) None)" by blast
  have st: "evq_step q ns w1 w3" using evq_step_trans [OF g2(2) i(3)] by simp
  let ?n = "if sfd \<in> R then nready - 1 else nready"
  have ev3: "\<forall>x \<in> set es. (ev_active w3 x \<or> plain_event w3 q x) \<and> fd_ok (ev_fd (events w3 x))"
    using ev evq_step_plain [OF st] st by (simp add: evq_step_def)
  have ep3: "ep_set w3 q = (\<lambda>_. None)" using st ep by (simp add: evq_step_def)
  have n3: "length (select_epevs R W w3 es) \<le> ?n" using rep(2) evq_step_epevs [OF st] by (auto simp: select_reports_def)
  note t = select_tableD [OF tab(2)]
  have l1: "1 + length es \<le> FD_SETSIZE" using t(2) by simp
  from select_loop_sim [OF tab(2) pending_all [OF t(4)] l1 n3 ev3 ep3 i(2), of os ?now] obtain w4 tb4 es' ks where
    l: "select_loop os q R W ?now [1..<1 + length es] ?n ((w3, tb1), hdp (ns @ rs) None) = Some ((w4, tb4), hdp (ks @ ns @ rs) None)"
    "epoll_loop (s_os os) q ?now (select_epevs R W w3 es) (w3, hdp (ns @ rs) None) = Some (w4, hdp (ks @ ns @ rs) None)"
    "select_table tb4 q es'" "set es' \<subseteq> set es" by blast
  let ?w' = "if hdp (ks @ ns @ rs) None = None then w4 else evq_upd q (\<lambda>r. r\<lparr>ev_ready := hdp (ks @ ns @ rs) None\<rparr>) w4"
  have np: "[1..<s_npolls (sels tb q)] = [1..<1 + length es]" using select_tableD(1) [OF tab(1)] tab(3) by simp
  have "nready \<noteq> 0" using rep by (cases "select_reports sfd R W w1 es") auto
  have p: "select_wait os select time q timeout (w, tb) = Some ((?w', tb4), 0)"
    by (rule select_wait_run [where select = select, OF ms mx \<open>nready \<noteq> 0\<close> sel, of os time w3 "hdp (ns @ rs) None"])
      (use i(1) l(1) in \<open>simp_all only: good(2) np sfd [symmetric]\<close>)
  have e: "evq_wait (s_os os) (\<lambda>_ _. (w1, EpollReady (select_reports sfd R W w1 es))) time q timeout w = Some (?w', 0)"
    by (rule evq_wait_run [where epoll = "\<lambda>_ _. (w1, EpollReady (select_reports sfd R W w1 es))", OF ms refl rep(1)])
      (use i(4) [of "select_epevs R W w1 es"] l(2) good(2) evq_step_epevs [OF st] in \<open>simp add: select_reports_def\<close>)
  have "ev_active w4 x" if "x \<in> set es" "select_bits R W (events w1 x) \<noteq> 0" for x
  proof -
    have "(select_bits R W (events w3 x), Some x) \<in> set (select_epevs R W w3 es)"
      using that evq_step_bits [OF st] by (force simp: select_epevs_def)
    moreover have "epevs_ok w3 q (select_epevs R W w3 es)"
      by (rule select_epevs_ok) (use t(4) ev3 in \<open>auto simp: slots_hold_def\<close>)
    ultimately show ?thesis using epoll_loop_active [OF i(2) _ l(2)] by blast
  qed
  then have "\<forall>x \<in> set es. select_bits R W (events w1 x) \<noteq> 0 \<longrightarrow> ev_active ?w' x" by simp
  with p e l(3,4) show ?thesis by blast
qed

text \<open>A store with an event 9 that waits for writing.\<close>

definition write_demo :: "int \<Rightarrow> evq_store" where
  "write_demo fd = ev_upd 9 (\<lambda>e. e\<lparr>ev_fd := fd, ev_flags := EVENT_WRITE\<rparr>) timer_demo"

lemma write_demo_inv: "evq_inv (write_demo fd) 0 [(7, 100, [5, 6])] [8] []" "sig_ok (write_demo fd) 0"
proof -
  show "evq_inv (write_demo fd) 0 [(7, 100, [5, 6])] [8] []"
    by (rule evq_inv_frame [OF timer_demo_inv]) (auto simp: write_demo_def)
  have "\<not> flag_on (ev_flags (events (write_demo fd) e)) EVENT_SIGNAL" for e
    by (simp add: write_demo_def timer_demo_def zero_defs event_flag_defs flag_on_def)
  moreover have "sig_list (write_demo fd) i []" for i by (simp add: sig_list_def write_demo_def timer_demo_def zero_defs)
  ultimately show "sig_ok (write_demo fd) 0" unfolding sig_ok_def sig_event_ok_def by blast
qed

lemma write_demo_event:
  "plain_event (write_demo fd) 0 9" "ev_fd (events (write_demo fd) 9) = fd" "ep_set (write_demo fd) q = (\<lambda>_. None)"
  "ev_ready (evqs (write_demo fd) 0) = None" "evq_good (write_demo fd) 0 []"
  "fd \<in> W \<Longrightarrow> select_bits R W (events (write_demo fd) 9) = EPOLLOUT"
  using write_demo_inv
  by (auto simp: plain_event_def write_demo_def timer_demo_def zero_defs event_flag_defs flag_on_def select_bits_def evq_good_def)

theorem select_wait_as_epoll_witness:
  "\<exists>w' tb' es'. select_wait select_os_demo (\<lambda>n R W t st. (st, SelectReady 1 {} {0})) 40 0 0 (write_demo 0, select_demo) = Some ((w', tb'), 0) \<and>
     evq_wait os_demo (\<lambda>_ _. (write_demo 0, EpollReady (select_reports 5 {} {0} (write_demo 0) [9]))) 40 0 0 (write_demo 0) = Some (w', 0) \<and>
     select_table tb' 0 es' \<and> ev_active w' 9"
proof -
  let ?tb = "sq_upd 0 (\<lambda>p. p\<lparr>max_fd := 9\<rparr>) select_demo" and ?sel = "\<lambda>n R W t (st :: select_state). (st, SelectReady 1 {} {0})"
  have b: "select_bits {} {0} (events (write_demo 0) 9) = EPOLLOUT" by (rule write_demo_event(6)) simp
  have t: "select_table ?tb 0 [9]" "fst (s_sig_fd (sels ?tb 0)) = 5"
    using select_demo_table(1,4) [of 0] by (simp_all add: select_table_def)
  have "\<exists>w' tb' es'. select_wait select_os_demo ?sel 40 0 0 (write_demo 0, select_demo) = Some ((w', tb'), 0) \<and>
     evq_wait (s_os select_os_demo) (\<lambda>_ _. (write_demo 0, EpollReady (select_reports 5 {} {0} (write_demo 0) [9]))) 40 0 0 (write_demo 0) = Some (w', 0) \<and>
     select_table tb' 0 es' \<and> set es' \<subseteq> set [9] \<and>
     (\<forall>e \<in> set [9]. select_bits {} {0} (events (write_demo 0) e) \<noteq> 0 \<longrightarrow> ev_active w' e)"
    by (rule select_wait_as_epoll [where ?t1.0 = 0 and m = 9 and ?tb1.0 = ?tb and ?es0.0 = "[9]" and nready = 1 and rs = "[]"])
      (use t select_demo_table b write_demo_event in
        \<open>simp_all add: waits_ms_def select_reports_def EPOLLOUT_def fd_ok_def FD_SETSIZE_def\<close>)
  then show ?thesis using b by (auto simp: select_os_demo_def EPOLLOUT_def)
qed

text \<open>
  Claim C32: when the event with the largest descriptor is deleted, the next \<open>evq_wait\<close> computes the largest
  descriptor from the remaining events alone. If the descriptor of the signal pipe is larger than theirs, the
  number of descriptors given to \<open>select\<close> leaves it out: signals and interruptions no longer end the wait.
\<close>

theorem select_forgets_signals:
  assumes tab: "select_table tb q es" and ev: "ev \<in> set es" and plain: "plain_event w q ev"
    and fd: "fd_ok (ev_fd (events w ev))" "max_fd (sels tb q) = ev_fd (events w ev)"
    and low: "\<forall>e \<in> set es - {ev}. ev_fd (events w e) < fst (s_sig_fd (sels tb q))" "0 \<le> fst (s_sig_fd (sels tb q))"
    and ep: "ep_set w q = (\<lambda>_. None)" and inv: "evq_inv w q qs fs rs" "sig_ok w q"
  shows "\<exists>w' tb' m. select_del os ev (w, tb) = Some ((w', tb'), 0) \<and> s_sig_fd (sels tb' q) = s_sig_fd (sels tb q) \<and>
    select_max_fd w' (sels tb' q) = Some m \<and> m + 1 \<le> fst (s_sig_fd (sels tb' q))"
proof -
  from plain have q: "ev_evq (events w ev) = Some q" by (simp add: plain_event_def)
  from evq_del_spec [OF inv(1) q inv(2), of "s_os os" True] obtain w' r where
    d: "evq_del (s_os os) ev True w = Some (w', r)" "\<forall>e. ev_fd (events w' e) = ev_fd (events w e)" by blast
  have "r = 0" by (rule evq_del_plain [OF plain ep d(1)])
  from select_del_run [OF tab ev plain fd(1) ep d(1)] obtain tb' where
    s: "select_del os ev (w, tb) = Some ((w', tb'), r)" "select_table tb' q (swap_remove (s_index tb ev - 1) es)"
    "set (swap_remove (s_index tb ev - 1) es) = set es - {ev}" "s_sig_fd (sels tb' q) = s_sig_fd (sels tb q)"
    "max_fd (sels tb' q) = -1" using fd(2) by auto
  from select_max_fd_spec [OF s(2), of w', unfolded s(3,5)] obtain m where
    m: "select_max_fd w' (sels tb' q) = Some m" "m \<in> insert (-1) ((\<lambda>e. ev_fd (events w' e)) ` (set es - {ev}))" by auto
  from m(2) have "m < fst (s_sig_fd (sels tb q))" using low d(2) by (elim insertE imageE) simp_all
  with m(1) s(1,4) \<open>r = 0\<close> show ?thesis by (auto simp: zless_imp_add1_zle)
qed

theorem select_forgets_signals_witness:
  "\<exists>w' tb' m. select_del select_os_demo 9 (write_demo 9, select_demo) = Some ((w', tb'), 0) \<and>
     select_max_fd w' (sels tb' 0) = Some m \<and> m + 1 \<le> 5"
proof -
  have f: "fd_ok (ev_fd (events (write_demo 9) 9))" "max_fd (sels select_demo 0) = ev_fd (events (write_demo 9) 9)"
    "\<forall>e \<in> set [9] - {9}. ev_fd (events (write_demo 9) e) < fst (s_sig_fd (sels select_demo 0))" "0 \<le> fst (s_sig_fd (sels select_demo 0))"
    using write_demo_event(2) [of 9] select_demo_table(3,4) by (simp_all add: fd_ok_def FD_SETSIZE_def)
  show ?thesis
    using select_forgets_signals [OF select_demo_table(1) _ write_demo_event(1) f write_demo_event(3) write_demo_inv, of select_os_demo]
      select_demo_table(4) by auto
qed

end
