(* ===== verification/Io.thy ===== *)
theory Io
  imports Membuf Thread
begin

text \<open>
  Files and sockets, src/src/sys_file.c and src/src/sock/sys_sock.c: the methods that move bytes between a
  descriptor and strings or memory buffers, and the methods that repeat an interrupted system call.
  A system call is a value of \<open>syscall\<close>; what it returns, its \<open>errno\<close> and the bytes it stores are a
  function of the number of calls made before. All calls are recorded in a trace. While a call
  blocks the VM lock is released; other threads may then set the flags of the calling thread, and do
  not touch the buffers of the call.
\<close>

section \<open>System calls\<close>

definition EINTR :: int where "EINTR = 4"
definition EBADF :: int where "EBADF = 9"
definition EAGAIN :: int where "EAGAIN = 11"
definition EWOULDBLOCK :: int where "EWOULDBLOCK = 11"
definition EALREADY :: int where "EALREADY = 114"
definition EINPROGRESS :: int where "EINPROGRESS = 115"

definition SYS_IS_EAGAIN :: "int \<Rightarrow> bool" where
  "SYS_IS_EAGAIN e \<longleftrightarrow> e = EAGAIN \<or> e = EWOULDBLOCK"

definition SYS_BUFSIZE :: nat where "SYS_BUFSIZE = 4096"

datatype syscall =
    SysWrite int "byte list"
  | SysRead int nat
  | SysSend int "byte list" u32 ptr
  | SysRecv int u32 ptr nat
  | SysSendfile int int nat
  | SysClose int
  | SysDup2 int int
  | SysLseek int int int
  | SysFtruncate int int
  | SysSetlk int int int int
  | SysFsync int
  | SysFdatasync int
  | SysGetfl int
  | SysSetfl int u32
  | SysAccept int ptr
  | SysConnect int nat

type_synonym sysret = "int \<times> int \<times> byte list"

text \<open>
  \<open>ie_call k c\<close> is the \<open>k\<close>-th call: the value it returns, \<open>errno\<close> after it and the bytes it stores.
  \<open>ie_self\<close> is \<open>sys_thread_get\<close> and \<open>ie_threads k\<close> the threads after \<open>k\<close> calls.
\<close>

record io_env =
  ie_mem :: mem_env
  ie_call :: "nat \<Rightarrow> syscall \<Rightarrow> sysret"
  ie_self :: ptr
  ie_threads :: "nat \<Rightarrow> thread_store"

record io_state =
  io_mem :: mem_store
  io_trace :: "(syscall \<times> sysret) list"

definition io_call :: "io_env \<Rightarrow> syscall \<Rightarrow> io_state \<Rightarrow> io_state \<times> sysret" where
  "io_call env c s =
     (let r = ie_call env (length (io_trace s)) c in (s\<lparr>io_trace := io_trace s @ [(c, r)]\<rparr>, r))"

definition io_eintr :: "io_env \<Rightarrow> int \<Rightarrow> io_state \<Rightarrow> bool" where
  "io_eintr env e s = sys_eintr (e = EINTR) (ie_self env) (ie_threads env (length (io_trace s)))"

text \<open>
  \<open>do res = call(); while (res == -1 && sys_eintr())\<close>, with the conversion \<open>cv\<close> to the type of the
  variable.
\<close>

partial_function (option) sys_retry :: "(int \<Rightarrow> int) \<Rightarrow> io_env \<Rightarrow> syscall \<Rightarrow> io_state \<Rightarrow> (io_state \<times> sysret) option" where
  "sys_retry cv env c s =
     (case io_call env c s of (s1, r, e, d) \<Rightarrow>
        if cv r = -1 \<and> io_eintr env e s1 then sys_retry cv env c s1 else Some (s1, cv r, e, d))"

text \<open>The check of the flags of the thread when it has the VM again.\<close>

definition io_check :: "io_env \<Rightarrow> io_state \<Rightarrow> check_result" where
  "io_check env s =
     (case ie_self env of
        None \<Rightarrow> Continue
      | Some td \<Rightarrow> snd (sys_thread_check (td_flags (tds (ie_threads env (length (io_trace s))) td))))"

text \<open>
  What a method returns to Lua: the pair of \<open>write\<close>, a string, a number, a boolean, nothing, the object
  itself, or the message of a system error.
\<close>

datatype io_result =
    Written bool int
  | RetString "byte list"
  | RetInt int
  | RetBool bool
  | RetNone
  | RetSelf
  | SysError int

text \<open>The end of a method that released the VM lock: the check may raise an error or end the thread.\<close>

definition io_return :: "io_env \<Rightarrow> io_state \<Rightarrow> io_result \<Rightarrow> io_state \<times> (check_result + io_result)" where
  "io_return env s r = (s, if io_check env s = Continue then Inr r else Inl (io_check env s))"

section \<open>Writing\<close>

text \<open>The bytes a \<open>sys_buffer\<close> points to; NULL may be passed with the size 0.\<close>

definition sb_bytes :: "sys_buffer \<Rightarrow> mem_store \<Rightarrow> byte list option" where
  "sb_bytes sb m =
     (if sb_size sb = 0 then Some [] else map_option (\<lambda>p. read_bytes (mheap m) p (sb_size sb)) (sb_ptr sb))"

fun io_write_loop :: "io_env \<Rightarrow> int \<Rightarrow> buf_arg list \<Rightarrow> int \<Rightarrow> io_state \<Rightarrow>
    (io_state \<times> (check_result + io_result)) option" where
  "io_write_loop env fd [] n s = Some (s, Inr (Written True n))"
| "io_write_loop env fd (a # as) n s =
     (case sys_buffer_read_init a (io_mem s) of
        None \<Rightarrow> io_write_loop env fd as n s
      | Some sb \<Rightarrow> do {
          bs \<leftarrow> sb_bytes sb (io_mem s);
          (s1, nw, e, _) \<leftarrow> sys_retry wrap32 env (SysWrite fd bs) s;
          if io_check env s1 \<noteq> Continue then Some (s1, Inl (io_check env s1))
          else if nw = -1 then
            Some (s1, Inr (if n > 0 \<or> SYS_IS_EAGAIN e then Written False n else SysError e))
          else do {
            m \<leftarrow> sys_buffer_read_next sb (to_size nw) (io_mem s1);
            let s2 = s1\<lparr>io_mem := m\<rparr>;
            if to_size nw < sb_size sb then Some (s2, Inr (Written False (n + nw)))
            else io_write_loop env fd as (n + nw) s2
          }
        })"

definition sys_write :: "io_env \<Rightarrow> int \<Rightarrow> buf_arg list \<Rightarrow> io_state \<Rightarrow> (io_state \<times> (check_result + io_result)) option" where
  "sys_write env fd args s = io_write_loop env fd args 0 s"

definition sock_write :: "io_env \<Rightarrow> int \<Rightarrow> buf_arg list \<Rightarrow> io_state \<Rightarrow> (io_state \<times> (check_result + io_result)) option" where
  "sock_write env sd args s = io_write_loop env sd args 0 s"

text \<open>The options of \<open>send\<close> and \<open>recv\<close>, from the last argument down to the fourth.\<close>

definition send_options :: "(string \<times> u32) list" where
  "send_options = [(''oob'', 0x1), (''dontroute'', 0x4), (''fastopen'', 0x20000000)]"

definition recv_options :: "(string \<times> u32) list" where
  "recv_options = [(''oob'', 0x1), (''peek'', 0x2), (''waitall'', 0x100)]"

fun opt_flags :: "(string \<times> u32) list \<Rightarrow> string list \<Rightarrow> u32 \<Rightarrow> lua_error + u32" where
  "opt_flags tab [] fl = Inr fl"
| "opt_flags tab (x # xs) fl =
     (case map_of tab x of
        None \<Rightarrow> Inl (ArgError (4 + length xs) ''invalid option'')
      | Some f \<Rightarrow> opt_flags tab xs (fl OR f))"

text \<open>
  \<open>to\<close> is the address of the receiver, if there is one; \<open>opts\<close> are the arguments from the fourth on.
  The size of the buffer passes through an \<open>int\<close> on its way to the \<open>size_t\<close> parameter of \<open>send\<close>.
\<close>

definition sock_send :: "io_env \<Rightarrow> int \<Rightarrow> buf_arg \<Rightarrow> ptr \<Rightarrow> string list \<Rightarrow> io_state \<Rightarrow>
    (io_state \<times> (lua_error + check_result + io_result)) option" where
  "sock_send env sd a to opts s =
     (case sys_buffer_read_init a (io_mem s) of
        None \<Rightarrow> Some (s, Inl (ArgError 2 ''buffer expected''))
      | Some sb \<Rightarrow>
          (case opt_flags send_options (rev opts) 0 of
             Inl err \<Rightarrow> Some (s, Inl err)
           | Inr fl \<Rightarrow> do {
               bs \<leftarrow> sb_bytes (sb\<lparr>sb_size := to_size (wrap32 (int (sb_size sb)))\<rparr>) (io_mem s);
               (s1, nw, e, _) \<leftarrow> sys_retry wrap32 env (SysSend sd bs fl to) s;
               if io_check env s1 \<noteq> Continue then Some (s1, Inr (Inl (io_check env s1)))
               else if nw = -1 then
                 Some (s1, Inr (Inr (if SYS_IS_EAGAIN e then Written (0 = sb_size sb) 0 else SysError e)))
               else do {
                 m \<leftarrow> sys_buffer_read_next sb (to_size nw) (io_mem s1);
                 Some (s1\<lparr>io_mem := m\<rparr>, Inr (Inr (Written (to_size nw = sb_size sb) nw)))
               }
             }))"

section \<open>Reading\<close>

definition sb_store :: "ptr \<Rightarrow> byte list \<Rightarrow> io_state \<Rightarrow> io_state option" where
  "sb_store p d s =
     (if d = [] then Some s
      else map_option (\<lambda>a. s\<lparr>io_mem := (io_mem s)\<lparr>mheap := write_bytes (mheap (io_mem s)) a d\<rparr>\<rparr>) p)"

text \<open>
  The loop of \<open>sys_read\<close>, \<open>sock_read\<close> and \<open>sock_recv\<close>. \<open>c rlen\<close> is the system call that reads, \<open>a\<close> the
  address of the local array \<open>buf\<close>. It ends with the variables \<open>n\<close>, \<open>nr\<close>, \<open>errno\<close>, \<open>sb\<close> and \<open>osb\<close>.
\<close>

partial_function (option) io_read_loop :: "io_env \<Rightarrow> (nat \<Rightarrow> syscall) \<Rightarrow> nat \<Rightarrow> nat \<Rightarrow> sys_buffer \<Rightarrow> sys_buffer \<Rightarrow>
    io_state \<Rightarrow> (io_state \<times> nat \<times> int \<times> int \<times> sys_buffer \<times> sys_buffer) option" where
  "io_read_loop env c a n sb osb s =
     do {
       let rlen = (if n \<le> sb_size sb then n else sb_size sb);
       (s1, nr, e, d) \<leftarrow> sys_retry wrap32 env (c rlen) s;
       s2 \<leftarrow> sb_store (sb_ptr sb) d s1;
       if nr = -1 then Some (s2, n, nr, e, sb, osb)
       else (let n' = to_size (int n - nr) in
         if n' \<noteq> 0 \<and> nr = wrap32 (int rlen) then do {
           (m, r) \<leftarrow> sys_buffer_write_next (ie_mem env) sb a osb 0 (io_mem s2);
           (case r of
              None \<Rightarrow> Some (s2\<lparr>io_mem := m\<rparr>, n', nr, e, sb, osb)
            | Some (sb', osb') \<Rightarrow> io_read_loop env c a n' sb' osb' (s2\<lparr>io_mem := m\<rparr>))
         }
         else Some (s2, n', nr, e, sb, osb))
     }"

definition io_read_end :: "io_env \<Rightarrow> nat \<Rightarrow> nat \<Rightarrow> io_state \<times> nat \<times> int \<times> int \<times> sys_buffer \<times> sys_buffer \<Rightarrow>
    (io_state \<times> (check_result + io_result)) option" where
  "io_read_end env len a = (\<lambda>(s, n, nr, e, sb, osb).
     if nr \<le> 0 \<and> len = n then
       Some (io_return env s
         (if nr \<noteq> 0 \<and> SYS_IS_EAGAIN e then RetBool False else if nr = 0 then RetNone else SysError e))
     else do {
       (m, r) \<leftarrow> sys_buffer_write_done sb (Some a) osb (to_size nr) (io_mem s);
       Some (io_return env (s\<lparr>io_mem := m\<rparr>)
         (case r of Some bs \<Rightarrow> RetString bs | None \<Rightarrow> RetInt (int len - int n)))
     })"

text \<open>\<open>count\<close> is the number argument, if it is given.\<close>

definition io_read :: "io_env \<Rightarrow> (nat \<Rightarrow> syscall) \<Rightarrow> buf_arg \<Rightarrow> int option \<Rightarrow> nat \<Rightarrow> io_state \<Rightarrow>
    (io_state \<times> (check_result + io_result)) option" where
  "io_read env c arg count a s =
     (let len = (case count of None \<Rightarrow> 18446744073709551615 | Some n \<Rightarrow> to_size n) in
      case sys_buffer_write_init arg (Some a) SYS_BUFSIZE (io_mem s) of
        Inl _ \<Rightarrow> None
      | Inr sb \<Rightarrow> do {
          r \<leftarrow> io_read_loop env c a len sb \<lparr>sb_ptr = None, sb_size = 0, sb_mb = None\<rparr> s;
          io_read_end env len a r
        })"

definition sys_read :: "io_env \<Rightarrow> int \<Rightarrow> buf_arg \<Rightarrow> int option \<Rightarrow> nat \<Rightarrow> io_state \<Rightarrow>
    (io_state \<times> (check_result + io_result)) option" where
  "sys_read env fd arg count a s = io_read env (SysRead fd) arg count a s"

definition sock_read :: "io_env \<Rightarrow> int \<Rightarrow> buf_arg \<Rightarrow> int option \<Rightarrow> nat \<Rightarrow> io_state \<Rightarrow>
    (io_state \<times> (check_result + io_result)) option" where
  "sock_read env sd arg count a s = io_read env (SysRead sd) arg count a s"

text \<open>The second argument is the count or the buffer. The address that is stored in \<open>from\<close> is not kept.\<close>

definition sock_recv :: "io_env \<Rightarrow> int \<Rightarrow> buf_arg \<Rightarrow> int option \<Rightarrow> ptr \<Rightarrow> string list \<Rightarrow> nat \<Rightarrow> io_state \<Rightarrow>
    (io_state \<times> (lua_error + check_result + io_result)) option" where
  "sock_recv env sd arg count from opts a s =
     (case opt_flags recv_options (rev opts) 0 of
        Inl err \<Rightarrow> Some (s, Inl err)
      | Inr fl \<Rightarrow> map_option (map_prod id Inr) (io_read env (SysRecv sd fl from) arg count a s))"

section \<open>Other methods of files and sockets\<close>

text \<open>A system call whose result 0 is success, with the VM lock released.\<close>

definition io_simple :: "io_env \<Rightarrow> syscall \<Rightarrow> io_state \<Rightarrow> (io_state \<times> (check_result + io_result)) option" where
  "io_simple env c s =
     do {
       (s1, res, e, _) \<leftarrow> sys_retry wrap32 env c s;
       Some (io_return env s1 (if res = 0 then RetSelf else SysError e))
     }"

text \<open>\<open>sys_close\<close> on the descriptor in the object; \<open>std\<close> tells whether it is a standard handle. The
  first component is the descriptor that is left in the object, which an error of the check
  leaves as it was.\<close>

definition sys_close :: "io_env \<Rightarrow> int \<Rightarrow> bool \<Rightarrow> bool \<Rightarrow> io_state \<Rightarrow> (int \<times> io_state \<times> (check_result + io_result)) option" where
  "sys_close env fd std close_std s =
     (if fd = -1 then Some (fd, s, Inr RetNone)
      else if std \<and> \<not> close_std then Some (fd, s, Inr (RetBool False))
      else do {
        (s1, res, _, _) \<leftarrow> sys_retry wrap32 env (SysClose fd) s;
        Some (if io_check env s1 = Continue then -1 else fd, io_return env s1 (RetBool (res = 0)))
      })"

definition sock_close :: "io_env \<Rightarrow> int \<Rightarrow> io_state \<Rightarrow> (int \<times> io_state \<times> (check_result + io_result)) option" where
  "sock_close env sd s =
     (if sd = -1 then Some (sd, s, Inr RetNone)
      else do {
        (s1, res, _, _) \<leftarrow> sys_retry wrap32 env (SysClose sd) s;
        Some (if io_check env s1 = Continue then -1 else sd, io_return env s1 (RetBool (res = 0)))
      })"

definition first_char :: "string \<Rightarrow> char" where
  "first_char str = (case str of [] \<Rightarrow> CHR 0x00 | ch # _ \<Rightarrow> ch)"

text \<open>The VM lock is kept during \<open>dup2\<close>, \<open>lseek\<close> and \<open>fcntl\<close>.\<close>

definition sys_set_std :: "io_env \<Rightarrow> int \<Rightarrow> string \<Rightarrow> io_state \<Rightarrow> (io_state \<times> io_result) option" where
  "sys_set_std env fd stream s =
     do {
       let ch = first_char stream;
       (s1, res, e, _) \<leftarrow> sys_retry wrap32 env
          (SysDup2 fd (if ch = CHR ''i'' then 0 else if ch = CHR ''o'' then 1 else 2)) s;
       Some (s1, if res \<noteq> -1 then RetSelf else SysError e)
     }"

definition sys_seek :: "io_env \<Rightarrow> int \<Rightarrow> int \<Rightarrow> string option \<Rightarrow> io_state \<Rightarrow> io_state \<times> io_result" where
  "sys_seek env fd off whencep s =
     (let whence = (case whencep of
          None \<Rightarrow> 1
        | Some w \<Rightarrow> if first_char w = CHR ''s'' then 0 else if first_char w = CHR ''e'' then 2 else 1)
      in case io_call env (SysLseek fd off whence) s of (s1, r, e, _) \<Rightarrow>
           (s1, if r \<noteq> -1 then RetInt r else SysError e))"

definition sys_set_end :: "io_env \<Rightarrow> int \<Rightarrow> int \<Rightarrow> io_state \<Rightarrow> (io_state \<times> (check_result + io_result)) option" where
  "sys_set_end env fd off s = io_simple env (SysFtruncate fd off) s"

text \<open>\<open>F_RDLCK | F_WRLCK\<close> is \<open>F_WRLCK\<close> (1), and \<open>F_UNLCK\<close> is 2.\<close>

definition sys_lock :: "io_env \<Rightarrow> int \<Rightarrow> int \<Rightarrow> int \<Rightarrow> bool \<Rightarrow> io_state \<Rightarrow> (io_state \<times> (check_result + io_result)) option" where
  "sys_lock env fd off len locking s =
     do {
       (s1, res, e, _) \<leftarrow> sys_retry wrap32 env (SysSetlk fd (if locking then 1 else 2) off len) s;
       Some (io_return env s1 (if res \<noteq> -1 then RetSelf else SysError e))
     }"

definition sys_flush :: "io_env \<Rightarrow> int \<Rightarrow> bool \<Rightarrow> io_state \<Rightarrow> (io_state \<times> (check_result + io_result)) option" where
  "sys_flush env fd data_only s =
     do {
       (s1, res, e) \<leftarrow> (if data_only
          then do { (s', res, e, _) \<leftarrow> sys_retry wrap32 env (SysFdatasync fd) s; Some (s', res, e) }
          else Some (s, -1, 0));
       (s2, res', e') \<leftarrow> (if res \<noteq> 0
          then do { (s', res', e', _) \<leftarrow> sys_retry wrap32 env (SysFsync fd) s1; Some (s', res', e') }
          else Some (s1, res, e));
       Some (io_return env s2 (if res' = 0 then RetSelf else SysError e'))
     }"

definition O_NONBLOCK :: u32 where "O_NONBLOCK = 0x800"

definition sys_nonblocking :: "io_env \<Rightarrow> int \<Rightarrow> bool \<Rightarrow> io_state \<Rightarrow> io_state \<times> io_result" where
  "sys_nonblocking env fd nonblocking s =
     (case io_call env (SysGetfl fd) s of (s1, flags, _, _) \<Rightarrow>
      case io_call env (SysSetfl fd
          (if nonblocking then word_of_int flags OR O_NONBLOCK else word_of_int flags XOR O_NONBLOCK)) s1
      of (s2, r, e, _) \<Rightarrow> (s2, if r = 0 then RetSelf else SysError e))"

text \<open>The loop of \<open>sock_accept\<close>: the result replaces the descriptor that is accepted on.\<close>

partial_function (option) accept_loop :: "io_env \<Rightarrow> int \<Rightarrow> ptr \<Rightarrow> io_state \<Rightarrow> (io_state \<times> int \<times> int) option" where
  "accept_loop env sd from s =
     (case io_call env (SysAccept sd from) s of (s1, r, e, _) \<Rightarrow>
        if r = -1 \<and> io_eintr env e s1 then accept_loop env r from s1 else Some (s1, r, e))"

text \<open>The first component is the descriptor for the second object, when there is one.\<close>

definition sock_accept :: "io_env \<Rightarrow> int \<Rightarrow> ptr \<Rightarrow> io_state \<Rightarrow> (int option \<times> io_state \<times> (check_result + io_result)) option" where
  "sock_accept env sd from s =
     do {
       (s1, r, e) \<leftarrow> accept_loop env sd from s;
       Some (if io_check env s1 = Continue \<and> r \<noteq> -1 then Some r else None,
             io_return env s1 (if r \<noteq> -1 then RetSelf else if SYS_IS_EAGAIN e then RetBool False else SysError e))
     }"

definition sock_connect :: "io_env \<Rightarrow> int \<Rightarrow> nat \<Rightarrow> io_state \<Rightarrow> (io_state \<times> (check_result + io_result)) option" where
  "sock_connect env sd addr s =
     do {
       (s1, res, e, _) \<leftarrow> sys_retry wrap32 env (SysConnect sd addr) s;
       Some (io_return env s1
         (if res = 0 then RetSelf
          else if SYS_IS_EAGAIN e \<or> e = EINPROGRESS \<or> e = EALREADY then RetBool False else SysError e))
     }"

definition sock_sendfile :: "io_env \<Rightarrow> int \<Rightarrow> int \<Rightarrow> int \<Rightarrow> io_state \<Rightarrow> (io_state \<times> (check_result + io_result)) option" where
  "sock_sendfile env sd fd count s =
     do {
       let n = to_size count;
       (s1, res, e, _) \<leftarrow> sys_retry id env (SysSendfile sd fd (if n \<noteq> 0 then n else 18446744073709551615)) s;
       Some (io_return env s1
         (if res \<noteq> -1 then RetInt res else if SYS_IS_EAGAIN e then RetBool False else SysError e))
     }"

section \<open>The contract of the system calls\<close>

text \<open>The descriptor and the number of bytes of a call that transfers bytes; what it offers to write.\<close>

fun transfer :: "syscall \<Rightarrow> (int \<times> nat) option" where
  "transfer (SysWrite fd bs) = Some (fd, length bs)"
| "transfer (SysSend fd bs _ _) = Some (fd, length bs)"
| "transfer (SysRead fd n) = Some (fd, n)"
| "transfer (SysRecv fd _ _ n) = Some (fd, n)"
| "transfer _ = None"

fun call_out :: "syscall \<Rightarrow> byte list" where
  "call_out (SysWrite _ bs) = bs"
| "call_out (SysSend _ bs _ _) = bs"
| "call_out _ = []"

fun call_in :: "syscall \<Rightarrow> bool" where
  "call_in (SysRead _ _) = True"
| "call_in (SysRecv _ _ _ _) = True"
| "call_in _ = False"

text \<open>A transfer fails or moves at most the number of bytes it is given, and fewer than \<open>2 ^ 31\<close>.\<close>

definition io_ok :: "io_env \<Rightarrow> bool" where
  "io_ok env \<longleftrightarrow>
     (\<forall>k c fd n r e d. transfer c = Some (fd, n) \<longrightarrow> ie_call env k c = (r, e, d) \<longrightarrow>
        - 1 \<le> r \<and> r \<le> int n \<and> r \<le> 0x7ffff000 \<and> length d = (if call_in c then nat r else 0))"

text \<open>Signals do not interrupt the calls for ever.\<close>

definition eintr_ends :: "io_env \<Rightarrow> bool" where
  "eintr_ends env \<longleftrightarrow> (\<exists>K. \<forall>k \<ge> K. \<forall>c. fst (snd (ie_call env k c)) \<noteq> EINTR)"

text \<open>The bytes the system took from and delivered to the calls on a descriptor.\<close>

definition on_fd :: "int \<Rightarrow> (syscall \<times> sysret) list \<Rightarrow> (syscall \<times> sysret) list" where
  "on_fd fd tr = filter (\<lambda>(c, _). map_option fst (transfer c) = Some fd) tr"

definition sent :: "int \<Rightarrow> (syscall \<times> sysret) list \<Rightarrow> byte list" where
  "sent fd tr = concat (map (\<lambda>(c, r, _). take (nat r) (call_out c)) (on_fd fd tr))"

definition delivered :: "int \<Rightarrow> (syscall \<times> sysret) list \<Rightarrow> byte list" where
  "delivered fd tr = concat (map (\<lambda>(c, r, e, d). d) (on_fd fd tr))"

text \<open>The last call failed.\<close>

definition io_failed :: "io_state \<Rightarrow> bool" where
  "io_failed s \<longleftrightarrow> io_trace s \<noteq> [] \<and> fst (snd (last (io_trace s))) = - 1"

lemma sent_simps [simp]:
  "sent fd [] = []" "sent fd (tr @ tr') = sent fd tr @ sent fd tr'"
  "transfer c = Some (fd, n) \<Longrightarrow> sent fd [(c, r, e, d)] = take (nat r) (call_out c)"
  by (simp_all add: sent_def on_fd_def)

lemma delivered_simps [simp]:
  "delivered fd [] = []" "delivered fd (tr @ tr') = delivered fd tr @ delivered fd tr'"
  "transfer c = Some (fd, n) \<Longrightarrow> delivered fd [(c, r, e, d)] = d"
  by (simp_all add: delivered_def on_fd_def)

lemma io_okD:
  assumes "io_ok env" and "transfer c = Some (fd, n)" and "ie_call env k c = (r, e, d)"
  shows "- 1 \<le> r" "r \<le> int n" "r \<le> 0x7ffff000" "length d = (if call_in c then nat r else 0)" "wrap32 r = r"
proof -
  show b: "- 1 \<le> r" "r \<le> int n" "r \<le> 0x7ffff000" "length d = (if call_in c then nat r else 0)"
    using assms unfolding io_ok_def by blast+
  show "wrap32 r = r" using b(1,3) by (intro wrap32_id) (simp add: in_int32_def)
qed

text \<open>A repeated call returns; what it repeated had failed with EINTR.\<close>

lemma sys_retry_returns:
  assumes "\<forall>k \<ge> K. \<forall>c. fst (snd (ie_call env k c)) \<noteq> EINTR"
  shows "\<exists>es r e d. sys_retry cv env c s = Some (s\<lparr>io_trace := io_trace s @ map (Pair c) es @ [(c, r, e, d)]\<rparr>, cv r, e, d) \<and>
    (\<forall>x \<in> set es. cv (fst x) = - 1 \<and> (\<exists>k. ie_call env k c = x)) \<and>
    ie_call env (length (io_trace s) + length es) c = (r, e, d)"
proof (induction "K - length (io_trace s)" arbitrary: s rule: less_induct)
  case less
  obtain r e d where c: "ie_call env (length (io_trace s)) c = (r, e, d)" using prod_cases3 .
  define s1 where "s1 = s\<lparr>io_trace := io_trace s @ [(c, r, e, d)]\<rparr>"
  have step: "sys_retry cv env c s =
      (if cv r = - 1 \<and> io_eintr env e s1 then sys_retry cv env c s1 else Some (s1, cv r, e, d))"
    by (subst sys_retry.simps) (simp add: io_call_def c s1_def Let_def)
  show ?case
  proof (cases "cv r = - 1 \<and> io_eintr env e s1")
    case False
    then show ?thesis using step c by (intro exI [of _ "[]"] exI [of _ r] exI [of _ e] exI [of _ d]) (auto simp: s1_def)
  next
    case True
    then have "e = EINTR" by (simp add: io_eintr_def sys_eintr_def)
    then have "length (io_trace s) < K" using assms c by (metis fst_conv linorder_not_less snd_conv)
    then have "K - length (io_trace s1) < K - length (io_trace s)" by (simp add: s1_def)
    from less.hyps [OF this] obtain es r' e' d' where
      IH: "sys_retry cv env c s1 = Some (s1\<lparr>io_trace := io_trace s1 @ map (Pair c) es @ [(c, r', e', d')]\<rparr>, cv r', e', d')"
      "\<forall>x \<in> set es. cv (fst x) = - 1 \<and> (\<exists>k. ie_call env k c = x)"
      "ie_call env (length (io_trace s1) + length es) c = (r', e', d')" by blast
    show ?thesis using step True IH c
      by (intro exI [of _ "(r, e, d) # es"] exI [of _ r'] exI [of _ e'] exI [of _ d']) (auto simp: s1_def)
  qed
qed

lemma sys_retry_transfer:
  assumes ok: "io_ok env" and ends: "eintr_ends env" and c: "transfer c = Some (fd, n)"
  shows "\<exists>s1 r e d. sys_retry wrap32 env c s = Some (s1, r, e, d) \<and> io_mem s1 = io_mem s \<and>
    io_failed s1 = (r = - 1) \<and>
    sent fd (io_trace s1) = sent fd (io_trace s) @ take (nat r) (call_out c) \<and>
    delivered fd (io_trace s1) = delivered fd (io_trace s) @ d \<and>
    - 1 \<le> r \<and> r \<le> int n \<and> r \<le> 0x7ffff000 \<and> length d = (if call_in c then nat r else 0)"
proof -
  obtain K where "\<forall>k \<ge> K. \<forall>c. fst (snd (ie_call env k c)) \<noteq> EINTR" using ends by (auto simp: eintr_ends_def)
  from sys_retry_returns [OF this, of wrap32 c s] obtain es r e d where
    r: "sys_retry wrap32 env c s = Some (s\<lparr>io_trace := io_trace s @ map (Pair c) es @ [(c, r, e, d)]\<rparr>, wrap32 r, e, d)"
    and es: "\<forall>x \<in> set es. wrap32 (fst x) = - 1 \<and> (\<exists>k. ie_call env k c = x)"
    and l: "ie_call env (length (io_trace s) + length es) c = (r, e, d)" by blast
  have f: "fst x = - 1 \<and> snd (snd x) = []" if x: "x \<in> set es" for x
  proof -
    obtain k where "ie_call env k c = (fst x, fst (snd x), snd (snd x))" "wrap32 (fst x) = - 1"
      using es x by (cases x) fastforce
    with io_okD(4,5) [OF ok c this(1)] show ?thesis by (simp split: if_splits)
  qed
  have "sent fd (map (Pair c) es) = []" "delivered fd (map (Pair c) es) = []"
    using f by (fastforce simp: sent_def delivered_def on_fd_def)+
  then show ?thesis
    using r io_okD [OF ok c l] c
    by (intro exI [of _ "s\<lparr>io_trace := io_trace s @ map (Pair c) es @ [(c, r, e, d)]\<rparr>"] exI [of _ r] exI [of _ e] exI [of _ d])
      (simp add: io_failed_def)
qed

section \<open>Lemmas: writing\<close>

text \<open>The bytes of an argument, and where they lie.\<close>

definition arg_span :: "mem_store \<Rightarrow> buf_arg \<Rightarrow> nat \<times> nat" where
  "arg_span m a =
     (case a of
        ArgMembuf b \<Rightarrow> (case mb_data (mbufs m b) of None \<Rightarrow> (0, 0) | Some p \<Rightarrow> (p, nat (mb_offset (mbufs m b))))
      | ArgString p n \<Rightarrow> (p, n)
      | ArgOther \<Rightarrow> (0, 0))"

definition arg_bytes :: "mem_store \<Rightarrow> buf_arg \<Rightarrow> byte list" where
  "arg_bytes m a = read_bytes (mheap m) (fst (arg_span m a)) (snd (arg_span m a))"

definition arg_ok :: "mem_store \<Rightarrow> buf_arg \<Rightarrow> bool" where
  "arg_ok m a \<longleftrightarrow>
     (case a of
        ArgMembuf b \<Rightarrow> mb_data (mbufs m b) \<noteq> None \<and> 0 \<le> mb_offset (mbufs m b) \<and> mb_offset (mbufs m b) < 2147483648
      | _ \<Rightarrow> True)"

text \<open>Two arguments are different buffers with different bytes.\<close>

definition args_apart :: "mem_store \<Rightarrow> buf_arg \<Rightarrow> buf_arg \<Rightarrow> bool" where
  "args_apart m a b \<longleftrightarrow>
     (case (arg_span m a, arg_span m b) of ((p, n), (q, k)) \<Rightarrow> p + n \<le> q \<or> q + k \<le> p) \<and>
     (\<forall>x. a = ArgMembuf x \<longrightarrow> b \<noteq> ArgMembuf x)"

fun args_ok :: "mem_store \<Rightarrow> buf_arg list \<Rightarrow> bool" where
  "args_ok m [] = True"
| "args_ok m (a # as) \<longleftrightarrow> arg_ok m a \<and> (\<forall>b \<in> set as. args_apart m a b) \<and> args_ok m as"

text \<open>A memory buffer has lost its first \<open>k\<close> bytes; a string is as it was.\<close>

definition arg_left :: "mem_store \<Rightarrow> mem_store \<Rightarrow> buf_arg \<Rightarrow> nat \<Rightarrow> bool" where
  "arg_left m m' a k \<longleftrightarrow>
     arg_bytes m' a = (case a of ArgMembuf _ \<Rightarrow> drop k (arg_bytes m a) | _ \<Rightarrow> arg_bytes m a)"

fun args_left :: "mem_store \<Rightarrow> mem_store \<Rightarrow> buf_arg list \<Rightarrow> nat \<Rightarrow> bool" where
  "args_left m m' [] c = True"
| "args_left m m' (a # as) c \<longleftrightarrow> arg_left m m' a c \<and> args_left m m' as (c - length (arg_bytes m a))"

lemma arg_left_0: "arg_bytes m' a = arg_bytes m a \<Longrightarrow> arg_left m m' a 0"
  by (simp add: arg_left_def split: buf_arg.splits)

lemma arg_init_bytes:
  assumes "arg_ok m a" and "sys_buffer_read_init a m = Some sb"
  shows "sb_bytes sb m = Some (arg_bytes m a)" "sb_size sb = length (arg_bytes m a)"
  using assms
  by (auto simp: sys_buffer_read_init_def arg_ok_def sb_bytes_def arg_bytes_def arg_span_def to_size_id
      split: buf_arg.splits option.splits)

lemma arg_init_none: "sys_buffer_read_init a m = None \<Longrightarrow> a = ArgOther"
  by (simp add: sys_buffer_read_init_def split: buf_arg.splits)

text \<open>Taking bytes from an argument leaves the arguments that are apart from it alone.\<close>

lemma read_next_arg:
  assumes ok: "arg_ok m a" and sb: "sys_buffer_read_init a m = Some sb" and k: "k \<le> length (arg_bytes m a)" "k < 2147483648"
  shows "\<exists>m'. sys_buffer_read_next sb k m = Some m' \<and> arg_left m m' a k \<and>
    (\<forall>b. args_apart m a b \<longrightarrow> arg_bytes m' b = arg_bytes m b \<and> arg_span m' b = arg_span m b \<and>
       arg_ok m' b = arg_ok m b \<and> args_apart m' b a)"
proof (cases a)
  case (ArgMembuf x)
  define mb where "mb = mbufs m x"
  obtain p where p: "mb_data mb = Some p" using ok ArgMembuf by (auto simp: arg_ok_def mb_def)
  define n where "n = nat (mb_offset mb)"
  have n: "mb_offset mb = int n" "n < 2147483648" using ok ArgMembuf by (auto simp: arg_ok_def mb_def n_def)
  have sp: "arg_span m a = (p, n)" using p ArgMembuf by (simp add: arg_span_def mb_def n_def)
  have kn: "k \<le> n" using k(1) by (simp add: arg_bytes_def sp)
  define off where "off = n - k"
  have w: "wrap32 (int k) = int k" "wrap32 (int n - int k) = int off" "to_size (int off) = off"
    using kn n(2) k(2) by (auto simp: in_int32_def off_def of_nat_diff to_size_id)
  define m' where "m' = mb_upd x (\<lambda>b. b\<lparr>mb_offset := int off\<rparr>)
    (if off = 0 then m else m\<lparr>mheap := move_down p k off (mheap m)\<rparr>)"
  have step: "sys_buffer_read_next sb k m = Some m'"
    using sb ArgMembuf p n(1) w kn
    by (auto simp: sys_buffer_read_init_def sys_buffer_read_next_def mb_def [symmetric] Let_def m'_def off_def)
  have sp': "arg_span m' a = (p, off)" using p ArgMembuf by (simp add: m'_def arg_span_def mb_def)
  have "arg_bytes m' a = drop k (arg_bytes m a)"
    unfolding arg_bytes_def sp sp' fst_conv snd_conv read_bytes_drop off_def [symmetric]
    by (simp add: m'_def read_move_down)
  then have l: "arg_left m m' a k" using ArgMembuf by (simp add: arg_left_def)
  have "arg_bytes m' b = arg_bytes m b \<and> arg_span m' b = arg_span m b \<and> arg_ok m' b = arg_ok m b \<and> args_apart m' b a"
    if ap: "args_apart m a b" for b
  proof -
    have nb: "b \<noteq> ArgMembuf x" using ap ArgMembuf by (auto simp: args_apart_def)
    have s: "arg_span m' b = arg_span m b" "arg_ok m' b = arg_ok m b"
      using nb by (auto simp: m'_def arg_span_def arg_ok_def split: buf_arg.splits option.splits)
    have d: "p + n \<le> fst (arg_span m b) \<or> fst (arg_span m b) + snd (arg_span m b) \<le> p"
      using ap sp by (simp add: args_apart_def case_prod_beta)
    then have "args_apart m' b a"
      unfolding args_apart_def s sp' case_prod_beta fst_conv snd_conv using nb ArgMembuf by (auto simp: off_def)
    moreover from d have "arg_bytes m' b = arg_bytes m b"
      unfolding arg_bytes_def s using kn
      by (auto simp: m'_def move_down_def off_def intro!: read_write_disjoint)
    ultimately show ?thesis using s by simp
  qed
  with step l show ?thesis by blast
qed (use sb in \<open>auto simp: sys_buffer_read_init_def sys_buffer_read_next_def arg_left_def args_apart_def case_prod_beta\<close>)

lemma args_ok_cong:
  assumes "\<And>b. b \<in> set as \<Longrightarrow> arg_span m' b = arg_span m b \<and> arg_ok m' b = arg_ok m b"
  shows "args_ok m' as = args_ok m as"
  using assms by (induction as) (auto simp: args_apart_def)

lemma args_left_0: "(\<And>b. b \<in> set as \<Longrightarrow> arg_bytes m' b = arg_bytes m b) \<Longrightarrow> args_left m m' as 0"
  by (induction as) (auto intro: arg_left_0)

lemma args_left_cong:
  "(\<And>b. b \<in> set as \<Longrightarrow> arg_bytes m1 b = arg_bytes m b) \<Longrightarrow> args_left m1 m' as c = args_left m m' as c"
  by (induction as arbitrary: c) (auto simp: arg_left_def split: buf_arg.splits)

text \<open>What the loop returns, when it had written \<open>n\<close> bytes before and writes \<open>c\<close> of \<open>tot\<close> bytes.\<close>

definition write_result :: "io_state \<Rightarrow> int \<Rightarrow> nat \<Rightarrow> nat \<Rightarrow> io_result \<Rightarrow> bool" where
  "write_result s n tot c v \<longleftrightarrow>
     (v = Written True (n + int c) \<and> c = tot \<or>
      v = Written False (n + int c) \<and> (c < tot \<or> io_failed s) \<or>
      (\<exists>e. v = SysError e) \<and> n = 0 \<and> c = 0 \<and> io_failed s)"

lemma write_result_add:
  "write_result s (n + int k) tot c v \<Longrightarrow> 0 \<le> n \<Longrightarrow> write_result s n (k + tot) (k + c) v"
  by (auto simp: write_result_def)

text \<open>
  The loop over \<open>as\<close> from \<open>s\<close> ends in \<open>s'\<close> with the result \<open>r\<close>, and \<open>c\<close> bytes were taken in order.
  Bytes that are apart from the arguments do not change.
\<close>

definition wrote :: "io_env \<Rightarrow> int \<Rightarrow> int \<Rightarrow> buf_arg list \<Rightarrow> io_state \<Rightarrow> io_state \<times> (check_result + io_result) \<Rightarrow> nat \<Rightarrow> bool" where
  "wrote env fd n as s = (\<lambda>(s', r) c.
     let bs = concat (map (arg_bytes (io_mem s)) as) in
     c \<le> length bs \<and> sent fd (io_trace s') = sent fd (io_trace s) @ take c bs \<and>
     (\<forall>b. (\<forall>a \<in> set as. args_apart (io_mem s) a b) \<longrightarrow> arg_bytes (io_mem s') b = arg_bytes (io_mem s) b) \<and>
     (case r of
        Inl x \<Rightarrow> x = io_check env s' \<and> x \<noteq> Continue
      | Inr v \<Rightarrow> args_left (io_mem s) (io_mem s') as c \<and> write_result s' n (length bs) c v))"

lemma wrote_skip:
  assumes "arg_bytes (io_mem s) a = []" and "a = ArgOther" and "wrote env fd n as s r c"
  shows "wrote env fd n (a # as) s r c"
proof -
  have "args_left (io_mem s) m' (a # as) c = args_left (io_mem s) m' as c" for m'
    using assms(1,2) by (simp add: arg_left_def arg_bytes_def arg_span_def)
  then show ?thesis
    using assms by (auto simp: wrote_def Let_def case_prod_beta split: sum.splits simp del: args_left.simps)
qed

text \<open>The argument \<open>a\<close> was taken completely, then the others.\<close>

lemma wrote_full:
  assumes s: "sent fd (io_trace s1) = sent fd (io_trace s) @ arg_bytes (io_mem s) a" "0 \<le> n"
    and ap: "\<forall>b \<in> set as. args_apart (io_mem s) a b"
    and m: "arg_left (io_mem s) (io_mem s1) a (length (arg_bytes (io_mem s) a))"
    and o: "\<And>b. args_apart (io_mem s) a b \<Longrightarrow> arg_bytes (io_mem s1) b = arg_bytes (io_mem s) b \<and>
       arg_span (io_mem s1) b = arg_span (io_mem s) b \<and> args_apart (io_mem s1) b a"
    and w: "wrote env fd (n + int (length (arg_bytes (io_mem s) a))) as s1 (s', v) c"
  shows "wrote env fd n (a # as) s (s', v) (length (arg_bytes (io_mem s) a) + c)"
proof -
  let ?A = "arg_bytes (io_mem s) a"
  have as: "arg_bytes (io_mem s1) b = arg_bytes (io_mem s) b" "args_apart (io_mem s1) b a"
    "arg_span (io_mem s1) b = arg_span (io_mem s) b" if "b \<in> set as" for b
    using o ap that by blast+
  have T: "map (arg_bytes (io_mem s1)) as = map (arg_bytes (io_mem s)) as" using as(1) by (intro map_cong refl)
  have al: "args_left (io_mem s1) m' as c = args_left (io_mem s) m' as c" for m'
    using as(1) by (rule args_left_cong)
  have w1: "c \<le> length (concat (map (arg_bytes (io_mem s)) as))"
      "sent fd (io_trace s') = sent fd (io_trace s1) @ take c (concat (map (arg_bytes (io_mem s)) as))"
      "\<forall>b. (\<forall>a \<in> set as. args_apart (io_mem s1) a b) \<longrightarrow> arg_bytes (io_mem s') b = arg_bytes (io_mem s1) b"
      "case v of Inl x \<Rightarrow> x = io_check env s' \<and> x \<noteq> Continue
       | Inr v \<Rightarrow> args_left (io_mem s) (io_mem s') as c \<and>
           write_result s' (n + int (length ?A)) (length (concat (map (arg_bytes (io_mem s)) as))) c v"
    using w unfolding wrote_def Let_def prod.case T al by - (elim conjE, assumption)+
  have "arg_bytes (io_mem s') a = arg_bytes (io_mem s1) a" using as(2) by (intro w1(3) [rule_format])
  then have l: "arg_left (io_mem s) (io_mem s') a (length ?A + c)"
    using m by (auto simp: arg_left_def split: buf_arg.splits)
  have "arg_bytes (io_mem s') b = arg_bytes (io_mem s) b" if b: "\<forall>x \<in> set (a # as). args_apart (io_mem s) x b" for b
  proof -
    have "args_apart (io_mem s1) x b" if "x \<in> set as" for x
      using b o [of b] as(3) [OF that] that unfolding args_apart_def by simp
    then have "arg_bytes (io_mem s') b = arg_bytes (io_mem s1) b" using w1(3) by blast
    also have "\<dots> = arg_bytes (io_mem s) b" using b o [of b] by simp
    finally show ?thesis .
  qed
  note fr = this
  have "case v of Inl x \<Rightarrow> x = io_check env s' \<and> x \<noteq> Continue
       | Inr v \<Rightarrow> args_left (io_mem s) (io_mem s') (a # as) (length ?A + c) \<and>
           write_result s' n (length (concat (map (arg_bytes (io_mem s)) (a # as)))) (length ?A + c) v"
    using w1(4) l write_result_add [OF _ s(2)] by (cases v) simp_all
  then show ?thesis using w1(1,2) s(1) fr unfolding wrote_def Let_def prod.case by simp
qed

text \<open>The call failed, the thread is interrupted, or only a part of \<open>a\<close> was taken.\<close>

lemma wrote_stop:
  assumes "sent fd (io_trace s') = sent fd (io_trace s) @ take k (arg_bytes (io_mem s) a)" "k \<le> length (arg_bytes (io_mem s) a)"
    and "\<And>b. args_apart (io_mem s) a b \<Longrightarrow> arg_bytes (io_mem s') b = arg_bytes (io_mem s) b"
    and "\<forall>b \<in> set as. args_apart (io_mem s) a b"
    and "case r of Inl x \<Rightarrow> x = io_check env s' \<and> x \<noteq> Continue
       | Inr v \<Rightarrow> arg_left (io_mem s) (io_mem s') a k \<and>
           write_result s' n (length (concat (map (arg_bytes (io_mem s)) (a # as)))) k v"
  shows "wrote env fd n (a # as) s (s', r) k"
proof -
  have "args_left (io_mem s) (io_mem s') as (k - length (arg_bytes (io_mem s) a))"
    using assms(2-4) by (auto intro: args_left_0)
  then show ?thesis using assms by (auto simp: wrote_def Let_def split: sum.splits)
qed

lemma io_write_loop_spec:
  assumes ok: "io_ok env" and ends: "eintr_ends env" and "args_ok (io_mem s) as" and "0 \<le> n"
  shows "\<exists>r c. io_write_loop env fd as n s = Some r \<and> wrote env fd n as s r c"
  using assms(3,4)
proof (induction as arbitrary: n s)
  case Nil
  then show ?case by (auto simp: wrote_def write_result_def)
next
  case (Cons a as)
  define m A where "m = io_mem s" and "A = arg_bytes (io_mem s) a"
  have a: "arg_ok m a" "\<forall>b \<in> set as. args_apart m a b" "args_ok m as" using Cons.prems(1) by (auto simp: m_def)
  show ?case
  proof (cases "sys_buffer_read_init a m")
    case None
    with Cons.IH [OF a(3) [unfolded m_def] Cons.prems(2)] wrote_skip [of s a env fd n as] arg_init_none [OF None] show ?thesis
      by (fastforce simp: m_def arg_bytes_def arg_span_def)
  next
    case (Some sb)
    obtain s1 nw e d where r: "sys_retry wrap32 env (SysWrite fd A) s = Some (s1, nw, e, d)" "io_mem s1 = m"
      "io_failed s1 = (nw = - 1)" "sent fd (io_trace s1) = sent fd (io_trace s) @ take (nat nw) A"
      "- 1 \<le> nw" "nw \<le> int (length A)" "nw \<le> 0x7ffff000"
      using sys_retry_transfer [OF ok ends, of "SysWrite fd A" fd "length A" s] by (auto simp: m_def)
    note step = Some [unfolded m_def] arg_init_bytes [OF a(1) Some, unfolded m_def, folded A_def] r(1) r(2) [unfolded m_def]
    show ?thesis
    proof (cases "io_check env s1 \<noteq> Continue \<or> nw = - 1")
      case True
      let ?r = "if io_check env s1 \<noteq> Continue then Inl (io_check env s1)
             else Inr (if n > 0 \<or> SYS_IS_EAGAIN e then Written False n else SysError e)"
      have eq: "io_write_loop env fd (a # as) n s = Some (s1, ?r)" using True step by auto
      have "wrote env fd n (a # as) s (s1, ?r) (nat nw)"
        by (rule wrote_stop)
          (use True a(2) r(2-6) Cons.prems(2) in \<open>auto simp: m_def A_def write_result_def intro: arg_left_0\<close>)
      with eq show ?thesis by blast
    next
      case False
      have nw: "to_size nw = nat nw" "nat nw \<le> length (arg_bytes m a)" "nat nw < 2147483648" "int (nat nw) = nw"
        using False r(5-7) by (auto simp: to_size_id A_def m_def)
      from read_next_arg [OF a(1) Some nw(2,3)] obtain m' where
        m': "sys_buffer_read_next sb (nat nw) m = Some m'" "arg_left m m' a (nat nw)"
        "\<And>b. args_apart m a b \<Longrightarrow> arg_bytes m' b = arg_bytes m b \<and> arg_span m' b = arg_span m b \<and>
          arg_ok m' b = arg_ok m b \<and> args_apart m' b a" by blast
      let ?s = "s1\<lparr>io_mem := m'\<rparr>"
      have eq: "io_write_loop env fd (a # as) n s =
          (if nat nw < length A then Some (?s, Inr (Written False (n + nw))) else io_write_loop env fd as (n + nw) ?s)"
        using step False m'(1) nw(1) by (simp add: m_def)
      show ?thesis
      proof (cases "nat nw < length A")
        case True
        have "wrote env fd n (a # as) s (?s, Inr (Written False (n + nw))) (nat nw)"
          by (rule wrote_stop) (use m' a(2) True r(4) nw(4) in \<open>simp_all add: m_def A_def write_result_def\<close>)
        then show ?thesis using eq True by auto
      next
        case full: False
        have l: "nw = int (length A)" using full r(5,6) False by auto
        have "args_ok (io_mem ?s) as" "0 \<le> n + nw" using a m'(3) args_ok_cong [of as m' m] Cons.prems(2) l by simp_all
        from Cons.IH [OF this] obtain s' v c where v: "io_write_loop env fd as (n + nw) ?s = Some (s', v)"
          "wrote env fd (n + nw) as ?s (s', v) c" by auto
        have "wrote env fd n (a # as) s (s', v) (length A + c)"
          unfolding A_def
          by (rule wrote_full [of _ ?s]) (use m' a(2) r(4) l v(2) Cons.prems(2) in \<open>simp_all add: m_def A_def\<close>)
        then show ?thesis using eq full v(1) by auto
      qed
    qed
  qed
qed

section \<open>Lemmas: the loop that reads\<close>

text \<open>The calls of the loop read from one descriptor.\<close>

definition reads_from :: "(nat \<Rightarrow> syscall) \<Rightarrow> int \<Rightarrow> bool" where
  "reads_from c fd \<longleftrightarrow> (\<forall>k. transfer (c k) = Some (fd, k) \<and> call_in (c k))"

lemma reads_from_simps [simp]: "reads_from (SysRead fd) fd" "reads_from (SysRecv fd fl from) fd"
  by (simp_all add: reads_from_def)

text \<open>One round: the call returns, and the loop goes on only if it filled the space.\<close>

lemma read_round:
  assumes ok: "io_ok env" and ends: "eintr_ends env" and c: "reads_from c fd"
    and sz: "sz \<le> 2147483648" and n: "n < 18446744073709551616"
  shows "\<exists>s1 nr e d. sys_retry wrap32 env (c (if n \<le> sz then n else sz)) s = Some (s1, nr, e, d) \<and> io_mem s1 = io_mem s \<and>
    io_failed s1 = (nr = - 1) \<and> delivered fd (io_trace s1) = delivered fd (io_trace s) @ d \<and>
    (nr = - 1 \<and> d = [] \<or>
     nr = int (length d) \<and> length d \<le> n \<and> length d \<le> sz \<and> to_size (int n - nr) = n - length d \<and>
     (n - length d \<noteq> 0 \<and> nr = wrap32 (int (if n \<le> sz then n else sz)) \<longrightarrow> length d = sz \<and> sz < 2147483648 \<and> sz < n))"
proof -
  define rlen where "rlen = (if n \<le> sz then n else sz)"
  obtain s1 nr e d where r: "sys_retry wrap32 env (c rlen) s = Some (s1, nr, e, d)" "io_mem s1 = io_mem s"
    "io_failed s1 = (nr = - 1)" "delivered fd (io_trace s1) = delivered fd (io_trace s) @ d"
    "- 1 \<le> nr" "nr \<le> int rlen" "nr \<le> 0x7ffff000" "length d = nat nr"
    using sys_retry_transfer [OF ok ends, of "c rlen" fd rlen s] c by (auto simp: reads_from_def)
  have "nr = - 1 \<and> d = [] \<or> nr = int (length d) \<and> length d \<le> n \<and> length d \<le> sz \<and> to_size (int n - nr) = n - length d \<and>
     (n - length d \<noteq> 0 \<and> nr = wrap32 (int rlen) \<longrightarrow> length d = sz \<and> sz < 2147483648 \<and> sz < n)"
  proof (cases "nr = - 1")
    case True
    then show ?thesis using r(8) by simp
  next
    case False
    then have d: "nr = int (length d)" "length d \<le> rlen" using r(5,6,8) by auto
    have "length d = rlen \<and> rlen < 2147483648" if "nr = wrap32 (int rlen)"
    proof (cases "rlen = 2147483648")
      case True
      then show ?thesis using that d(1) by (simp add: wrap32_def)
    next
      case False
      then have "rlen < 2147483648" using sz by (auto simp: rlen_def split: if_splits)
      then show ?thesis using that d(1) by (simp add: in_int32_def)
    qed
    then show ?thesis using d n by (auto simp: rlen_def to_size_id of_nat_diff split: if_splits)
  qed
  with r(1-4) show ?thesis unfolding rlen_def by blast
qed

lemma io_read_loop_step:
  assumes r: "sys_retry wrap32 env (c (if n \<le> sb_size sb then n else sb_size sb)) s = Some (s1, nr, e, d)"
    and s: "sb_store (sb_ptr sb) d s1 = Some s2" and n: "nr \<noteq> - 1 \<Longrightarrow> to_size (int n - nr) = n - length d"
  shows "io_read_loop env c a n sb osb s =
      (if nr = - 1 then Some (s2, n, nr, e, sb, osb)
       else if n - length d \<noteq> 0 \<and> nr = wrap32 (int (if n \<le> sb_size sb then n else sb_size sb)) then do {
         (m, v) \<leftarrow> sys_buffer_write_next (ie_mem env) sb a osb 0 (io_mem s2);
         (case v of
            None \<Rightarrow> Some (s2\<lparr>io_mem := m\<rparr>, n - length d, nr, e, sb, osb)
          | Some (sb', osb') \<Rightarrow> io_read_loop env c a (n - length d) sb' osb' (s2\<lparr>io_mem := m\<rparr>)) }
       else Some (s2, n - length d, nr, e, sb, osb))"
proof (cases "nr = - 1")
  case False
  show ?thesis
    by (subst io_read_loop.simps) (simp only: Let_def r s n [OF False] bind.bind_lunit prod.case False if_False)
qed (subst io_read_loop.simps, simp only: Let_def r s bind.bind_lunit prod.case if_True simp_thms)

text \<open>
  What the loop relies on when it asks for more space. \<open>space m sb osb acc d\<close>: the bytes \<open>acc\<close> of the full
  rounds are in memory and \<open>d\<close> was stored behind them, where \<open>sb\<close> points; \<open>lim\<close> bounds what the space can
  hold.
\<close>

locale read_space =
  fixes space :: "mem_store \<Rightarrow> sys_buffer \<Rightarrow> sys_buffer \<Rightarrow> byte list \<Rightarrow> byte list \<Rightarrow> bool"
    and me :: mem_env and a :: nat and lim :: nat
  assumes space_size: "space m sb osb acc d \<Longrightarrow> 0 < sb_size sb \<and> sb_size sb \<le> 2147483648"
    and space_store: "space (io_mem s) sb osb acc [] \<Longrightarrow> length d \<le> sb_size sb \<Longrightarrow>
      \<exists>s'. sb_store (sb_ptr sb) d s = Some s' \<and> space (io_mem s') sb osb acc d \<and> io_trace s' = io_trace s"
    and space_next: "space m sb osb acc d \<Longrightarrow> length d = sb_size sb \<Longrightarrow> sb_size sb < 2147483648 \<Longrightarrow>
      length acc + length d < lim \<Longrightarrow>
      sys_buffer_write_next me sb a osb 0 m = Some (m, None) \<or>
      (\<exists>m' sb' osb'. sys_buffer_write_next me sb a osb 0 m = Some (m', Some (sb', osb')) \<and> space m' sb' osb' (acc @ d) [])"
    and lim_size: "lim \<le> 18446744073709551616"
begin

text \<open>
  The loop from \<open>s\<close>, with \<open>acc\<close> read before, ended with the given values: the calls delivered \<open>E\<close> in full
  rounds and then \<open>d\<close>.
\<close>

definition filled :: "int \<Rightarrow> nat \<Rightarrow> byte list \<Rightarrow> io_state \<Rightarrow>
    io_state \<times> nat \<times> int \<times> int \<times> sys_buffer \<times> sys_buffer \<Rightarrow> bool" where
  "filled fd n acc s = (\<lambda>(s', n', nr, e, sb, osb). \<exists>E d. space (io_mem s') sb osb (acc @ E) d \<and>
     delivered fd (io_trace s') = delivered fd (io_trace s) @ E @ d \<and> n' + length (E @ d) = n \<and>
     io_failed s' = (nr = - 1) \<and> (if nr = - 1 then d = [] else nr = int (length d)))"

lemma filled_add:
  assumes "filled fd (n - length d) (acc @ d) s1 r" and "delivered fd (io_trace s1) = delivered fd (io_trace s) @ d"
    and "length d \<le> n"
  shows "filled fd n acc s r"
proof -
  obtain s' n' nr e sb osb where r: "r = (s', n', nr, e, sb, osb)" by (rule prod_cases6)
  then obtain E d' where "space (io_mem s') sb osb ((acc @ d) @ E) d'"
    "delivered fd (io_trace s') = delivered fd (io_trace s1) @ E @ d'" "n' + length (E @ d') = n - length d"
    "io_failed s' = (nr = - 1)" "if nr = - 1 then d' = [] else nr = int (length d')"
    using assms(1) by (auto simp: filled_def)
  then show ?thesis using assms(2,3) unfolding r filled_def prod.case
    by (intro exI [of _ "d @ E"] exI [of _ d']) auto
qed

text \<open>One round ends the loop, or fills the space and asks for more.\<close>

lemma io_read_loop_round:
  assumes ok: "io_ok env" and ends: "eintr_ends env" and c: "reads_from c fd" and me: "ie_mem env = me"
    and sp: "space (io_mem s) sb osb acc []" and n: "n < 18446744073709551616"
  shows "\<exists>s2 nr e d. space (io_mem s2) sb osb acc d \<and> length d \<le> n \<and>
    delivered fd (io_trace s2) = delivered fd (io_trace s) @ d \<and> filled fd n acc s (s2, n - length d, nr, e, sb, osb) \<and>
    (io_read_loop env c a n sb osb s = Some (s2, n - length d, nr, e, sb, osb) \<or>
     length d = sb_size sb \<and> sb_size sb < 2147483648 \<and>
     io_read_loop env c a n sb osb s = do {
       (m, v) \<leftarrow> sys_buffer_write_next me sb a osb 0 (io_mem s2);
       (case v of
          None \<Rightarrow> Some (s2\<lparr>io_mem := m\<rparr>, n - length d, nr, e, sb, osb)
        | Some (sb', osb') \<Rightarrow> io_read_loop env c a (n - length d) sb' osb' (s2\<lparr>io_mem := m\<rparr>)) })"
proof -
  note sz = space_size [OF sp]
  obtain s1 nr e d where r: "sys_retry wrap32 env (c (if n \<le> sb_size sb then n else sb_size sb)) s = Some (s1, nr, e, d)"
    "io_mem s1 = io_mem s" "io_failed s1 = (nr = - 1)" "delivered fd (io_trace s1) = delivered fd (io_trace s) @ d"
    and R: "nr = - 1 \<and> d = [] \<or>
     nr = int (length d) \<and> length d \<le> n \<and> length d \<le> sb_size sb \<and> to_size (int n - nr) = n - length d \<and>
     (n - length d \<noteq> 0 \<and> nr = wrap32 (int (if n \<le> sb_size sb then n else sb_size sb)) \<longrightarrow>
        length d = sb_size sb \<and> sb_size sb < 2147483648 \<and> sb_size sb < n)"
    using read_round [OF ok ends c conjunct2 [OF sz] n, of s] by auto
  obtain s2 where s2: "sb_store (sb_ptr sb) d s1 = Some s2" "space (io_mem s2) sb osb acc d"
    "io_trace s2 = io_trace s1"
    using space_store [of s1 sb osb acc d] sp r(2) R by auto
  have "io_failed s2 = (nr = - 1)" using r(3) s2(3) by (simp add: io_failed_def)
  then have f: "filled fd n acc s (s2, n - length d, nr, e, sb, osb)"
    unfolding filled_def prod.case using s2(2,3) r(4) R by (intro exI [of _ "[]"] exI [of _ d]) auto
  have eq: "io_read_loop env c a n sb osb s =
      (if nr = - 1 then Some (s2, n, nr, e, sb, osb)
       else if n - length d \<noteq> 0 \<and> nr = wrap32 (int (if n \<le> sb_size sb then n else sb_size sb)) then do {
         (m, v) \<leftarrow> sys_buffer_write_next me sb a osb 0 (io_mem s2);
         (case v of
            None \<Rightarrow> Some (s2\<lparr>io_mem := m\<rparr>, n - length d, nr, e, sb, osb)
          | Some (sb', osb') \<Rightarrow> io_read_loop env c a (n - length d) sb' osb' (s2\<lparr>io_mem := m\<rparr>)) }
       else Some (s2, n - length d, nr, e, sb, osb))"
    unfolding me [symmetric] by (rule io_read_loop_step [of env c n sb s, OF r(1) s2(1)]) (use R in blast)
  have "length d \<le> n" "delivered fd (io_trace s2) = delivered fd (io_trace s) @ d" using R r(4) s2(3) by auto
  moreover have "io_read_loop env c a n sb osb s = Some (s2, n - length d, nr, e, sb, osb) \<or>
     length d = sb_size sb \<and> sb_size sb < 2147483648 \<and>
     io_read_loop env c a n sb osb s = do {
       (m, v) \<leftarrow> sys_buffer_write_next me sb a osb 0 (io_mem s2);
       (case v of
          None \<Rightarrow> Some (s2\<lparr>io_mem := m\<rparr>, n - length d, nr, e, sb, osb)
        | Some (sb', osb') \<Rightarrow> io_read_loop env c a (n - length d) sb' osb' (s2\<lparr>io_mem := m\<rparr>)) }"
  proof (cases "nr = - 1 \<or> \<not> (n - length d \<noteq> 0 \<and> nr = wrap32 (int (if n \<le> sb_size sb then n else sb_size sb)))")
    case True
    moreover have "nr = - 1 \<Longrightarrow> n - length d = n" using R by fastforce
    ultimately show ?thesis unfolding eq by (intro disjI1) presburger
  next
    case False
    then have F: "nr \<noteq> - 1" "n - length d \<noteq> 0 \<and> nr = wrap32 (int (if n \<le> sb_size sb then n else sb_size sb))" by blast+
    then have "length d = sb_size sb" "sb_size sb < 2147483648" using R by blast+
    moreover have "io_read_loop env c a n sb osb s = do {
       (m, v) \<leftarrow> sys_buffer_write_next me sb a osb 0 (io_mem s2);
       (case v of
          None \<Rightarrow> Some (s2\<lparr>io_mem := m\<rparr>, n - length d, nr, e, sb, osb)
        | Some (sb', osb') \<Rightarrow> io_read_loop env c a (n - length d) sb' osb' (s2\<lparr>io_mem := m\<rparr>)) }"
      unfolding eq if_not_P [OF F(1)] if_P [OF F(2)] ..
    ultimately show ?thesis by (intro disjI2 conjI)
  qed
  ultimately show ?thesis
    by - (rule exI [of _ s2], rule exI [of _ nr], rule exI [of _ e], rule exI [of _ d], intro conjI f s2(2))
qed

lemma io_read_loop_fills:
  assumes ok: "io_ok env" and ends: "eintr_ends env" and c: "reads_from c fd" and me: "ie_mem env = me"
    and "space (io_mem s) sb osb acc []" and "length acc + n < lim"
  shows "\<exists>r. io_read_loop env c a n sb osb s = Some r \<and> filled fd n acc s r"
  using assms(5,6)
proof (induction n arbitrary: sb osb acc s rule: less_induct)
  case (less n)
  have n: "n < 18446744073709551616" using less.prems(2) lim_size by simp
  obtain s2 nr e d where s2: "space (io_mem s2) sb osb acc d" "length d \<le> n"
    "delivered fd (io_trace s2) = delivered fd (io_trace s) @ d"
    and f: "filled fd n acc s (s2, n - length d, nr, e, sb, osb)"
    and eq: "io_read_loop env c a n sb osb s = Some (s2, n - length d, nr, e, sb, osb) \<or>
     length d = sb_size sb \<and> sb_size sb < 2147483648 \<and>
     io_read_loop env c a n sb osb s = do {
       (m, v) \<leftarrow> sys_buffer_write_next me sb a osb 0 (io_mem s2);
       (case v of
          None \<Rightarrow> Some (s2\<lparr>io_mem := m\<rparr>, n - length d, nr, e, sb, osb)
        | Some (sb', osb') \<Rightarrow> io_read_loop env c a (n - length d) sb' osb' (s2\<lparr>io_mem := m\<rparr>)) }"
    using io_read_loop_round [OF ok ends c me less.prems(1) n] by blast
  from eq show ?case
  proof (elim disjE conjE)
    assume d: "length d = sb_size sb" "sb_size sb < 2147483648" and eq: "io_read_loop env c a n sb osb s = do {
       (m, v) \<leftarrow> sys_buffer_write_next me sb a osb 0 (io_mem s2);
       (case v of
          None \<Rightarrow> Some (s2\<lparr>io_mem := m\<rparr>, n - length d, nr, e, sb, osb)
        | Some (sb', osb') \<Rightarrow> io_read_loop env c a (n - length d) sb' osb' (s2\<lparr>io_mem := m\<rparr>)) }"
    have l: "length acc + length d < lim" "n - length d < n" "length (acc @ d) + (n - length d) < lim"
      using s2(2) d(1) space_size [OF s2(1)] less.prems(2) by auto
    from space_next [OF s2(1) d l(1)] show ?thesis
    proof (elim disjE exE conjE)
      fix m sb' osb'
      assume w: "sys_buffer_write_next me sb a osb 0 (io_mem s2) = Some (m, Some (sb', osb'))" "space m sb' osb' (acc @ d) []"
      have "space (io_mem (s2\<lparr>io_mem := m\<rparr>)) sb' osb' (acc @ d) []" using w(2) by simp
      from less.IH [OF l(2) this l(3)] obtain r where
        "io_read_loop env c a (n - length d) sb' osb' (s2\<lparr>io_mem := m\<rparr>) = Some r"
        "filled fd (n - length d) (acc @ d) (s2\<lparr>io_mem := m\<rparr>) r" by blast
      then show ?thesis using filled_add [of fd n d acc "s2\<lparr>io_mem := m\<rparr>" r s] s2(2,3) eq w(1) by simp
    qed (use eq f in simp)
  qed (use f in blast)
qed

end

section \<open>Lemmas: reading a string\<close>

text \<open>The blocks that \<open>malloc\<close> and \<open>realloc\<close> give, with their sizes.\<close>

definition block_of :: "mem_env \<Rightarrow> nat \<Rightarrow> nat \<Rightarrow> bool" where
  "block_of me p n \<longleftrightarrow> (\<exists>m h. mv_malloc me m n = Some (h, p)) \<or> (\<exists>m d h. mv_realloc me m d n = Some (h, p))"

text \<open>
  \<open>malloc\<close> leaves the local array at \<open>a\<close> alone, \<open>realloc\<close> keeps the bytes of a block, and no block lies
  in the array.
\<close>

definition blocks_ok :: "mem_env \<Rightarrow> nat \<Rightarrow> bool" where
  "blocks_ok me a \<longleftrightarrow>
     (\<forall>m n h p. mv_malloc me m n = Some (h, p) \<longrightarrow> read_bytes h a SYS_BUFSIZE = read_bytes (mheap m) a SYS_BUFSIZE) \<and>
     (\<forall>m d k n h p. mv_realloc me m (Some d) n = Some (h, p) \<longrightarrow> block_of me d k \<longrightarrow>
        read_bytes h p (min k n) = read_bytes (mheap m) d (min k n)) \<and>
     (\<forall>p n. block_of me p n \<longrightarrow> p + n \<le> a \<or> a + SYS_BUFSIZE \<le> p)"

text \<open>
  The bytes \<open>acc\<close> of the full rounds and \<open>d\<close> of the last one: in the local array during the first round,
  later in a block that has room for as much as it holds.
\<close>

definition str_at :: "mem_env \<Rightarrow> nat \<Rightarrow> mem_store \<Rightarrow> sys_buffer \<Rightarrow> sys_buffer \<Rightarrow> byte list \<Rightarrow> byte list \<Rightarrow> bool" where
  "str_at me a m sb osb acc d \<longleftrightarrow> sb_mb sb = None \<and>
     (acc = [] \<and> sb_ptr sb = Some a \<and> sb_size sb = SYS_BUFSIZE \<and> read_bytes (mheap m) a (length d) = d \<or>
      acc \<noteq> [] \<and> sb_size sb = length acc \<and> sb_size osb = length acc \<and> (\<exists>k \<le> 19. length acc = SYS_BUFSIZE * 2 ^ k) \<and>
      (\<exists>p. sb_ptr sb = Some (p + length acc) \<and> sb_ptr osb = Some p \<and> block_of me p (2 * length acc) \<and>
         read_bytes (mheap m) p (length (acc @ d)) = acc @ d))"

lemma str_at_size:
  assumes "str_at me a m sb osb acc d"
  shows "0 < sb_size sb" "sb_size sb \<le> 2147483648"
proof -
  consider "sb_size sb = SYS_BUFSIZE" | k where "k \<le> 19" "sb_size sb = SYS_BUFSIZE * 2 ^ k"
    using assms by (auto simp: str_at_def)
  then show "0 < sb_size sb" "sb_size sb \<le> 2147483648"
  proof (atomize (full), cases)
    case 2
    have "(2::nat) ^ k \<le> 2 ^ 19" using 2(1) by (intro power_increasing) auto
    with 2(2) show "0 < sb_size sb \<and> sb_size sb \<le> 2147483648" by (simp add: SYS_BUFSIZE_def)
  qed (simp add: SYS_BUFSIZE_def)
qed

lemma str_at_block:
  assumes "str_at me a m sb osb acc d" and "blocks_ok me a" and "acc \<noteq> []"
  shows "sb_ptr sb \<noteq> Some a"
proof -
  obtain p where p: "sb_ptr sb = Some (p + length acc)" "block_of me p (2 * length acc)"
    using assms(1,3) by (auto simp: str_at_def)
  have "p + 2 * length acc \<le> a \<or> a + SYS_BUFSIZE \<le> p" using assms(2) p(2) by (auto simp: blocks_ok_def)
  moreover have "0 < length acc" using assms(3) by simp
  ultimately show ?thesis using p(1) by auto
qed

text \<open>A call stores its bytes at the place that \<open>sb\<close> points to.\<close>

lemma str_at_store:
  assumes "str_at me a (io_mem s) sb osb acc []"
  shows "\<exists>s'. sb_store (sb_ptr sb) d s = Some s' \<and> str_at me a (io_mem s') sb osb acc d \<and> io_trace s' = io_trace s \<and>
    (d = [] \<longrightarrow> s' = s)"
proof (cases "d = []")
  case True
  then show ?thesis using assms by (simp add: sb_store_def)
next
  case False
  then show ?thesis using assms
    by (auto simp: str_at_def sb_store_def read_bytes_add read_write_disjoint)
qed

lemma str_at_next:
  assumes i: "str_at me a m sb osb acc d" and ok: "blocks_ok me a"
    and d: "length d = sb_size sb" "sb_size sb < 2147483648"
  shows "sys_buffer_write_next me sb a osb 0 m = Some (m, None) \<or>
    (\<exists>m' sb' osb'. sys_buffer_write_next me sb a osb 0 m = Some (m', Some (sb', osb')) \<and> str_at me a m' sb' osb' (acc @ d) [])"
proof (cases "acc = []")
  case True
  then have s: "sb_mb sb = None" "sb_ptr sb = Some a" "sb_size sb = SYS_BUFSIZE" "read_bytes (mheap m) a SYS_BUFSIZE = d"
    using i d by (auto simp: str_at_def)
  show ?thesis
  proof (cases "mv_malloc me m (2 * SYS_BUFSIZE)")
    case (Some r)
    then obtain h p where r: "mv_malloc me m (2 * SYS_BUFSIZE) = Some (h, p)" by (cases r) auto
    have h: "read_bytes h a SYS_BUFSIZE = d" using ok r s(4) unfolding blocks_ok_def by metis
    have "block_of me p (2 * SYS_BUFSIZE)" "d \<noteq> []" using r d s(3) by (auto simp: block_of_def SYS_BUFSIZE_def)
    moreover have "length d = SYS_BUFSIZE * 2 ^ 0" using d(1) s(3) by simp
    ultimately have "str_at me a (m\<lparr>mheap := write_bytes h p d\<rparr>) (sb\<lparr>sb_ptr := Some (p + SYS_BUFSIZE)\<rparr>)
        (osb\<lparr>sb_ptr := Some p, sb_size := SYS_BUFSIZE\<rparr>) d []"
      unfolding str_at_def using s(1,3) by auto
    then show ?thesis using s(1-3) r True h by (simp add: sys_buffer_write_next_def Let_def)
  qed (use s in \<open>simp add: sys_buffer_write_next_def Let_def\<close>)
next
  case False
  then obtain k p where s: "sb_mb sb = None" "sb_size sb = length acc" "sb_size osb = length acc" "k \<le> 19"
    "length acc = SYS_BUFSIZE * 2 ^ k" "sb_ptr osb = Some p" "block_of me p (2 * length acc)"
    "read_bytes (mheap m) p (length (acc @ d)) = acc @ d"
    using i by (auto simp: str_at_def)
  have len: "length (acc @ d) = 2 * length acc" using d s(2) by simp
  have "k \<noteq> 19" using d(2) s(2,5) by (auto simp: SYS_BUFSIZE_def)
  then have k: "Suc k \<le> 19" "2 * length acc = SYS_BUFSIZE * 2 ^ Suc k" using s(4,5) by simp_all
  then have kk: "\<exists>k \<le> 19. 2 * length acc = SYS_BUFSIZE * 2 ^ k" by blast
  note nb = str_at_block [OF i ok False]
  show ?thesis
  proof (cases "mv_realloc me m (Some p) (2 * (2 * length acc))")
    case (Some r)
    then obtain h q where r: "mv_realloc me m (Some p) (2 * (2 * length acc)) = Some (h, q)" by (cases r) auto
    have "read_bytes h q (min (2 * length acc) (2 * (2 * length acc))) =
        read_bytes (mheap m) p (min (2 * length acc) (2 * (2 * length acc)))"
      using ok r s(7) unfolding blocks_ok_def by blast
    then have h: "read_bytes h q (2 * length acc) = acc @ d" using s(8) unfolding len by simp
    have b: "block_of me q (2 * (2 * length acc))" using r by (auto simp: block_of_def)
    have "str_at me a (m\<lparr>mheap := h\<rparr>) (sb\<lparr>sb_size := 2 * length acc, sb_ptr := Some (q + 2 * length acc)\<rparr>)
        (osb\<lparr>sb_ptr := Some q, sb_size := 2 * length acc\<rparr>) (acc @ d) []"
      unfolding str_at_def append_Nil2 len using s(1) h b kk False by simp
    then show ?thesis using s r nb by (simp add: sys_buffer_write_next_def Let_def)
  qed (use s nb in \<open>simp add: sys_buffer_write_next_def Let_def\<close>)
qed

text \<open>The string at the end; the size of the last round is \<open>- 1\<close> when the last call failed.\<close>

lemma str_at_done:
  assumes i: "str_at me a m sb osb acc d" and ok: "blocks_ok me a" and l: "length acc + length d < 18446744073709551616"
  shows "\<exists>m'. sys_buffer_write_done sb (Some a) osb (length d) m = Some (m', Some (acc @ d))"
    and "acc \<noteq> [] \<Longrightarrow> d = [] \<Longrightarrow> \<exists>m'. sys_buffer_write_done sb (Some a) osb 18446744073709551615 m = Some (m', Some (butlast acc))"
proof -
  show "\<exists>m'. sys_buffer_write_done sb (Some a) osb (length d) m = Some (m', Some (acc @ d))"
    using i l str_at_block [OF i ok] by (auto simp: str_at_def sys_buffer_write_done_def)
  assume a: "acc \<noteq> []" "d = []"
  have m: "(length acc + 18446744073709551615) mod 18446744073709551616 = length acc - 1"
  proof -
    have "length acc + 18446744073709551615 = (length acc - 1) + 18446744073709551616" using a(1) by (cases acc) simp_all
    moreover have "length acc - 1 < 18446744073709551616" using l by simp
    ultimately show ?thesis by (metis mod_add_self2 mod_less)
  qed
  have "read_bytes h p (length acc - 1) = butlast acc" if "read_bytes h p (length acc) = acc" for h p
    using that read_bytes_take [of "length acc - 1" "length acc" h p] by (simp add: butlast_conv_take)
  with a show "\<exists>m'. sys_buffer_write_done sb (Some a) osb 18446744073709551615 m = Some (m', Some (butlast acc))"
    using i str_at_block [OF i ok] by (auto simp: str_at_def sys_buffer_write_done_def m)
qed

text \<open>The space for a string fulfils the contract, when memory does.\<close>

definition str_space :: "mem_env \<Rightarrow> nat \<Rightarrow> mem_store \<Rightarrow> sys_buffer \<Rightarrow> sys_buffer \<Rightarrow> byte list \<Rightarrow> byte list \<Rightarrow> bool" where
  "str_space me a m sb osb acc d \<longleftrightarrow> blocks_ok me a \<and> str_at me a m sb osb acc d"

interpretation rs: read_space "str_space me a" me a 18446744073709551616 for me a
proof (unfold_locales, goal_cases)
  case (1 m sb osb acc d)
  then show ?case using str_at_size by (auto simp: str_space_def)
next
  case (2 s sb osb acc d)
  then show ?case using str_at_store [of me a s sb osb acc d] by (auto simp: str_space_def)
next
  case (3 m sb osb acc d)
  then show ?case using str_at_next [of me a m sb osb acc d] by (auto simp: str_space_def)
qed simp

definition read_len :: "int option \<Rightarrow> nat" where
  "read_len count = (case count of None \<Rightarrow> 18446744073709551615 | Some n \<Rightarrow> to_size n)"

lemma read_len_less: "read_len count < 18446744073709551616"
  by (simp add: read_len_def to_size_def nat_less_iff split: option.splits)

lemma io_state_mem [simp]:
  "io_failed (s\<lparr>io_mem := m\<rparr>) = io_failed s" "io_check env (s\<lparr>io_mem := m\<rparr>) = io_check env s"
  by (simp_all add: io_failed_def io_check_def cong: option.case_cong)

text \<open>What a read returns when nothing was delivered.\<close>

definition read_nothing :: "io_state \<Rightarrow> io_result \<Rightarrow> bool" where
  "read_nothing s r \<longleftrightarrow>
     (if io_failed s then r = RetBool False \<or> (\<exists>e. r = SysError e \<and> \<not> SYS_IS_EAGAIN e) else r = RetNone)"

lemma io_read_end_nothing:
  "nr = - 1 \<or> nr = 0 \<Longrightarrow> io_failed s = (nr = - 1) \<Longrightarrow>
   \<exists>r. io_read_end env len a (s, len, nr, e, sb, osb) = Some (io_return env s r) \<and> read_nothing s r"
  by (auto simp: io_read_end_def read_nothing_def)

lemma io_read_string:
  assumes ok: "io_ok env" and ends: "eintr_ends env" and c: "reads_from c fd" and bl: "blocks_ok (ie_mem env) a"
    and arg: "\<forall>b. arg \<noteq> ArgMembuf b"
  shows "\<exists>s' r D. io_read env c arg count a s = Some (io_return env s' r) \<and>
    delivered fd (io_trace s') = delivered fd (io_trace s) @ D \<and> length D \<le> read_len count \<and>
    (if D = [] then read_nothing s' r else r = RetString (if io_failed s' then butlast D else D))"
proof -
  let ?len = "read_len count" and ?sb = "\<lparr>sb_ptr = Some a, sb_size = SYS_BUFSIZE, sb_mb = None\<rparr>"
    and ?osb = "\<lparr>sb_ptr = None, sb_size = 0, sb_mb = None\<rparr>"
  have "str_space (ie_mem env) a (io_mem s) ?sb ?osb [] []" using bl by (simp add: str_space_def str_at_def)
  from rs.io_read_loop_fills [OF ok ends c refl this, of ?len] read_len_less
  obtain s' n' nr e sb osb acc d D where l: "io_read_loop env c a ?len ?sb ?osb s = Some (s', n', nr, e, sb, osb)"
    and i: "str_at (ie_mem env) a (io_mem s') sb osb acc d"
    and D: "acc @ d = D" "delivered fd (io_trace s') = delivered fd (io_trace s) @ D" "n' + length D = ?len"
    and f: "io_failed s' = (nr = - 1)" and nr: "if nr = - 1 then d = [] else nr = int (length d)"
    by (auto simp: str_space_def rs.filled_def)
  have eq: "io_read env c arg count a s = io_read_end env ?len a (s', n', nr, e, sb, osb)"
    using l arg by (cases arg) (simp_all add: io_read_def read_len_def sys_buffer_write_init_def)
  have len: "length acc + length d < 18446744073709551616"
    using D(1,3) read_len_less [of count] by (metis add_lessD1 add.commute length_append)
  show ?thesis
  proof (cases "D = []")
    case True
    then have "n' = ?len" "nr = - 1 \<or> nr = 0" using D(1,3) nr by (auto split: if_splits)
    with io_read_end_nothing [OF this(2) f] True D(2) show ?thesis unfolding eq by fastforce
  next
    case False
    then have n: "n' \<noteq> ?len" using D(3) by (cases D) auto
    obtain m where m: "sys_buffer_write_done sb (Some a) osb (to_size nr) (io_mem s') =
        Some (m, Some (if nr = - 1 then butlast D else D))"
    proof (cases "nr = - 1")
      case True
      then have "to_size nr = 18446744073709551615" "acc \<noteq> []" "d = []" using False D(1) nr by (auto simp: to_size_def)
      with str_at_done(2) [OF i bl len this(2,3)] D(1) True that show ?thesis by auto
    next
      case nf: False
      then have "to_size nr = length d" using nr len by simp
      with str_at_done(1) [OF i bl len] D(1) nf that show ?thesis by auto
    qed
    then have "io_read env c arg count a s = Some (io_return env (s'\<lparr>io_mem := m\<rparr>) (RetString (if nr = - 1 then butlast D else D)))"
      unfolding eq io_read_end_def using n by simp
    then show ?thesis using False D f
      by (intro exI [of _ "s'\<lparr>io_mem := m\<rparr>"] exI [of _ "RetString (if nr = - 1 then butlast D else D)"] exI [of _ D]) simp
  qed
qed

section \<open>Lemmas: reading into a memory buffer\<close>









section \<open>Lemmas: particular calls\<close>

lemma sys_retry_once:
  assumes "ie_call env (length (io_trace s)) c = (r, e, d)" and "cv r \<noteq> - 1 \<or> e \<noteq> EINTR"
  shows "sys_retry cv env c s = Some (s\<lparr>io_trace := io_trace s @ [(c, r, e, d)]\<rparr>, cv r, e, d)"
  using assms by (subst sys_retry.simps) (auto simp: io_call_def Let_def io_eintr_def sys_eintr_def)

section \<open>Properties\<close>

text \<open>
  Claim C12: \<open>write\<close> on a file or a socket always returns when the system's calls behave as documented and
  signals do not interrupt it for ever. The bytes the system took are a prefix of the arguments'
  bytes in order. Unless the check of the thread raises an error, the reported count is the length
  of this prefix, \<open>true\<close> is reported only when everything was written, \<open>false\<close> only when bytes are left or
  the last call failed, an error only when nothing was written, and every memory buffer keeps exactly its bytes that were not taken.
\<close>

theorem sys_write_sends_prefix:
  assumes "io_ok env" and "eintr_ends env" and "args_ok (io_mem s) args"
  shows "\<exists>s' r c. sys_write env fd args s = Some (s', r) \<and> sock_write env fd args s = Some (s', r) \<and>
    c \<le> length (concat (map (arg_bytes (io_mem s)) args)) \<and>
    sent fd (io_trace s') = sent fd (io_trace s) @ take c (concat (map (arg_bytes (io_mem s)) args)) \<and>
    (case r of
       Inl x \<Rightarrow> x = io_check env s' \<and> x \<noteq> Continue
     | Inr v \<Rightarrow> args_left (io_mem s) (io_mem s') args c \<and>
         write_result s' 0 (length (concat (map (arg_bytes (io_mem s)) args))) c v)"
  using io_write_loop_spec [OF assms, of 0 fd]
  by (auto simp: wrote_def Let_def sys_write_def sock_write_def)

text \<open>A system that takes three bytes of a write, delivers two bytes to the first read and then no more.\<close>

definition io_demo_env :: io_env where
  "io_demo_env = \<lparr>ie_mem = mem_demo_env\<lparr>mv_malloc := (\<lambda>m _. Some (mheap m, 8192)), mv_realloc := (\<lambda>m p _. if p = Some 8192 then Some (mheap m, 8192) else None)\<rparr>,
     ie_call = (\<lambda>k c. case c of
        SysWrite fd bs \<Rightarrow> (int (min 3 (length bs)), 0, [])
      | SysSend fd bs fl to \<Rightarrow> (int (min 3 (length bs)), 0, [])
      | SysRead fd n \<Rightarrow> if k = 0 \<and> n \<ge> 2 then (2, 0, [7, 8]) else (0, 0, [])
      | SysRecv fd fl from n \<Rightarrow> (0, 0, [])
      | _ \<Rightarrow> (0, 0, [])),
     ie_self = None, ie_threads = (\<lambda>_. undefined)\<rparr>"

definition io_demo :: io_state where
  "io_demo = \<lparr>io_mem = mem_demo\<lparr>mheap := (\<lambda>i. word_of_nat i), mbufs := (mbufs mem_demo)(1 := (mbufs mem_demo 1)\<lparr>mb_offset := 5\<rparr>)\<rparr>, io_trace = []\<rparr>"

lemma io_demo_ok: "io_ok io_demo_env" "eintr_ends io_demo_env" "blocks_ok (ie_mem io_demo_env) 0"
  "args_ok (io_mem io_demo) [ArgString 200 2, ArgMembuf 1]"
proof -
  show "io_ok io_demo_env" unfolding io_ok_def
  proof (intro allI impI)
    fix k c fd n r e d assume "transfer c = Some (fd, n)" "ie_call io_demo_env k c = (r, e, d)"
    then show "- 1 \<le> r \<and> r \<le> int n \<and> r \<le> 0x7ffff000 \<and> length d = (if call_in c then nat r else 0)"
      by (cases c) (auto simp: io_demo_env_def split: if_splits)
  qed
  show "eintr_ends io_demo_env"
    by (auto simp: eintr_ends_def io_demo_env_def EINTR_def split: syscall.splits)
  show "blocks_ok (ie_mem io_demo_env) 0"
    by (auto simp: blocks_ok_def block_of_def io_demo_env_def SYS_BUFSIZE_def split: if_splits)
  show "args_ok (io_mem io_demo) [ArgString 200 2, ArgMembuf 1]"
    by (simp add: arg_ok_def args_apart_def arg_span_def io_demo_def mem_demo_def)
qed

theorem sys_write_sends_prefix_witness:
  "\<exists>s' r c. sys_write io_demo_env 5 [ArgString 200 2, ArgMembuf 1] io_demo = Some (s', r) \<and>
    sent 5 (io_trace s') = take c [200, 201, 100, 101, 102, 103, 104]"
proof -
  have "concat (map (arg_bytes (io_mem io_demo)) [ArgString 200 2, ArgMembuf 1]) = [200, 201, 100, 101, 102, 103, 104]"
    by (simp add: arg_bytes_def arg_span_def io_demo_def mem_demo_def read_bytes_def upt_rec numeral_eq_Suc)
  then show ?thesis
    using sys_write_sends_prefix [OF io_demo_ok(1,2,4), of 5] by (auto simp: io_demo_def)
qed

text \<open>
  Claim C13: a read that does not go into a memory buffer and whose last call did not fail returns
  exactly the bytes the system delivered, in order and at most as many as asked for, however often
  its space had to grow, also when the space cannot grow. If the last call failed after others had
  delivered bytes, the last of these bytes is missing from the string (see \<open>sys_read_loses_byte\<close>).
  When nothing was delivered the read returns nothing at the end of the file, \<open>false\<close> if the call
  would block and an error otherwise.
\<close>

theorem sys_read_delivers:
  assumes "io_ok env" and "eintr_ends env" and "blocks_ok (ie_mem env) a" and "\<forall>b. arg \<noteq> ArgMembuf b"
  shows "\<exists>s' r D. sys_read env fd arg count a s = Some (io_return env s' r) \<and>
    sock_read env fd arg count a s = Some (io_return env s' r) \<and>
    delivered fd (io_trace s') = delivered fd (io_trace s) @ D \<and> length D \<le> read_len count \<and>
    (if D = [] then read_nothing s' r else r = RetString (if io_failed s' then butlast D else D))"
proof -
  obtain s' r D where r: "io_read env (SysRead fd) arg count a s = Some (io_return env s' r)"
    "delivered fd (io_trace s') = delivered fd (io_trace s) @ D" "length D \<le> read_len count"
    "if D = [] then read_nothing s' r else r = RetString (if io_failed s' then butlast D else D)"
    using io_read_string [OF assms(1,2) reads_from_simps(1) assms(3,4)] by metis
  show ?thesis
    by (rule exI [of _ s'], rule exI [of _ r], rule exI [of _ D]) (use r in \<open>auto simp: sys_read_def sock_read_def\<close>)
qed

theorem sys_read_delivers_witness:
  "\<exists>s' r D. sys_read io_demo_env 5 ArgOther (Some 10) 0 io_demo = Some (io_return io_demo_env s' r) \<and>
     delivered 5 (io_trace s') = D \<and> length D \<le> 10 \<and>
     (if D = [] then read_nothing s' r else r = RetString (if io_failed s' then butlast D else D))"
proof -
  have d: "delivered 5 (io_trace io_demo) = []" "read_len (Some 10) = 10"
    by (simp_all add: io_demo_def read_len_def to_size_def)
  have "\<forall>b. ArgOther \<noteq> ArgMembuf b" by simp
  from sys_read_delivers [OF io_demo_ok(1,2,3) this, of 5 "Some 10" io_demo, unfolded d append_Nil]
  show ?thesis by blast
qed





text \<open>
  Claim C37: what happens otherwise: a socket that does not block has exactly \<open>SYS_BUFSIZE\<close> bytes to read. The
  first call delivers them and the second one fails with EAGAIN. The result \<open>- 1\<close> of the second call is
  then taken for the number of bytes of the last round, and the string is returned without the last
  byte, which is lost.
\<close>

theorem sys_read_loses_byte:
  assumes bl: "blocks_ok (ie_mem env) a" and al: "\<forall>m n. mv_malloc (ie_mem env) m n \<noteq> None"
    and c1: "ie_call env (length (io_trace s)) (SysRead fd SYS_BUFSIZE) = (int SYS_BUFSIZE, e, d)" "length d = SYS_BUFSIZE"
    and c2: "ie_call env (Suc (length (io_trace s))) (SysRead fd SYS_BUFSIZE) = (- 1, EAGAIN, [])"
  shows "\<exists>s'. sys_read env fd ArgOther None a s = Some (io_return env s' (RetString (butlast d))) \<and>
    delivered fd (io_trace s') = delivered fd (io_trace s) @ d"
proof -
  let ?sb = "\<lparr>sb_ptr = Some a, sb_size = SYS_BUFSIZE, sb_mb = None\<rparr>" and ?osb = "\<lparr>sb_ptr = None, sb_size = 0, sb_mb = None\<rparr>"
  let ?c = "SysRead fd" and ?N = "18446744073709551615::nat"
  have ds: "d \<noteq> []" "wrap32 4096 = 4096" using c1(2) by (auto simp: SYS_BUFSIZE_def wrap32_def)
  define s1 where "s1 = s\<lparr>io_trace := io_trace s @ [(?c SYS_BUFSIZE, int SYS_BUFSIZE, e, d)]\<rparr>"
  have r1: "sys_retry wrap32 env (?c (if ?N \<le> sb_size ?sb then ?N else sb_size ?sb)) s = Some (s1, int SYS_BUFSIZE, e, d)"
    using sys_retry_once [of env s "?c SYS_BUFSIZE" "int SYS_BUFSIZE" e d wrap32] c1(1) ds(2) by (simp add: s1_def SYS_BUFSIZE_def)
  have "str_at (ie_mem env) a (io_mem s1) ?sb ?osb [] []" by (simp add: str_at_def)
  from str_at_store [OF this, of d] obtain s2 where s2: "sb_store (sb_ptr ?sb) d s1 = Some s2"
    "str_at (ie_mem env) a (io_mem s2) ?sb ?osb [] d" "io_trace s2 = io_trace s1" by blast
  have "\<not> sys_buffer_write_next (ie_mem env) ?sb a ?osb 0 (io_mem s2) = Some (io_mem s2, None)"
    using al by (auto simp: sys_buffer_write_next_def Let_def split: option.splits)
  with str_at_next [OF s2(2) bl] c1(2) obtain m sb osb where
    w: "sys_buffer_write_next (ie_mem env) ?sb a ?osb 0 (io_mem s2) = Some (m, Some (sb, osb))"
      "str_at (ie_mem env) a m sb osb d []" by (auto simp: SYS_BUFSIZE_def)
  define s3 where "s3 = s2\<lparr>io_mem := m\<rparr>"
  have l1: "io_read_loop env ?c a ?N ?sb ?osb s = io_read_loop env ?c a (?N - length d) sb osb s3"
    using io_read_loop_step [of env ?c ?N ?sb s, OF r1 s2(1), of a ?osb] w(1) c1(2) ds(2)
    by (simp add: SYS_BUFSIZE_def s3_def to_size_id)
  have sz: "sb_size sb = SYS_BUFSIZE" using w(2) ds(1) c1(2) by (simp add: str_at_def)
  define s4 where "s4 = s3\<lparr>io_trace := io_trace s3 @ [(?c SYS_BUFSIZE, - 1, EAGAIN, [])]\<rparr>"
  have "sys_retry wrap32 env (?c (if ?N - length d \<le> sb_size sb then ?N - length d else sb_size sb)) s3 = Some (s4, - 1, EAGAIN, [])"
    using sys_retry_once [of env s3 "?c SYS_BUFSIZE" "- 1" EAGAIN "[]" wrap32] c1(2) c2 sz s2(3)
    by (simp add: s4_def s3_def s1_def SYS_BUFSIZE_def EAGAIN_def EINTR_def in_int32_def)
  then have "io_read_loop env ?c a (?N - length d) sb osb s3 = Some (s4, ?N - length d, - 1, EAGAIN, sb, osb)"
    using io_read_loop_step [of env ?c "?N - length d" sb s3 s4 "- 1" EAGAIN "[]" s4 a osb] by (simp add: sb_store_def)
  moreover have "io_mem s4 = m" by (simp add: s4_def s3_def)
  moreover obtain m' where "sys_buffer_write_done sb (Some a) osb 18446744073709551615 m = Some (m', Some (butlast d))"
    using str_at_done(2) [OF w(2) bl _ ds(1)] c1(2) by (auto simp: SYS_BUFSIZE_def)
  ultimately have "sys_read env fd ArgOther None a s = Some (io_return env (s4\<lparr>io_mem := m'\<rparr>) (RetString (butlast d)))"
    using l1 c1(2) by (simp add: sys_read_def io_read_def sys_buffer_write_init_def io_read_end_def to_size_def SYS_BUFSIZE_def)
  then show ?thesis using s2(3) by (intro exI [of _ "s4\<lparr>io_mem := m'\<rparr>"]) (simp add: s4_def s3_def s1_def delivered_def on_fd_def)
qed

definition io_block_env :: io_env where
  "io_block_env = io_demo_env\<lparr>ie_call := (\<lambda>k c. if k = 0 then (int SYS_BUFSIZE, 0, replicate SYS_BUFSIZE 7) else (- 1, EAGAIN, []))\<rparr>"

theorem sys_read_loses_byte_witness:
  "\<exists>s'. sys_read io_block_env 5 ArgOther None 0 io_demo = Some (s', Inr (RetString (replicate 4095 7)))"
proof -
  have "blocks_ok (ie_mem io_block_env) 0" "\<forall>m n. mv_malloc (ie_mem io_block_env) m n \<noteq> None"
    using io_demo_ok(3) by (simp_all add: io_block_env_def io_demo_env_def)
  from sys_read_loses_byte [OF this, of io_demo 5 0 "replicate SYS_BUFSIZE 7"] show ?thesis
    by (auto simp: io_block_env_def io_demo_def io_demo_env_def io_return_def io_check_def butlast_conv_take SYS_BUFSIZE_def)
qed

text \<open>
  Claim C38: reading into a memory buffer of fixed size. When the system fills the space of the buffer,
  the loop asks for more, which moves the end of the data to the end of the buffer before it
  fails; the bytes of the last call are then added once more. The buffer claims to hold more bytes than
  it has, by as many as were read.
\<close>

theorem sys_read_fixed_overflows:
  assumes b: "mb_data (mbufs (io_mem s) b) = Some p" "0 \<le> mb_offset (mbufs (io_mem s) b)"
      "mb_offset (mbufs (io_mem s) b) < mb_len (mbufs (io_mem s) b)" "mb_len (mbufs (io_mem s) b) < 1073741824"
    and fl: "\<not> flag_on (mb_flags (mbufs (io_mem s) b)) MEM_ALLOC" "\<not> flag_on (mb_flags (mbufs (io_mem s) b)) MEM_OSTREAM"
    and c: "ie_call env (length (io_trace s)) (SysRead fd (length d)) = (int (length d), e, d)"
    and d: "int (length d) = mb_len (mbufs (io_mem s) b) - mb_offset (mbufs (io_mem s) b)"
  shows "\<exists>s'. sys_read env fd (ArgMembuf b) None a s = Some (io_return env s' (RetInt (int (length d)))) \<and>
    mb_len (mbufs (io_mem s') b) = mb_len (mbufs (io_mem s) b) \<and>
    mb_offset (mbufs (io_mem s') b) = mb_len (mbufs (io_mem s) b) + int (length d)"
proof -
  let ?mb = "mbufs (io_mem s) b" and ?c = "SysRead fd" and ?N = "18446744073709551615::nat"
  define off where "off = nat (mb_offset ?mb)"
  have o: "mb_offset ?mb = int off" "mb_len ?mb = int (off + length d)" "off + length d < 1073741824" "d \<noteq> []"
    using b d by (auto simp: off_def)
  define sb where "sb = \<lparr>sb_ptr = Some (p + off), sb_size = length d, sb_mb = Some b\<rparr>"
  let ?osb = "\<lparr>sb_ptr = None, sb_size = 0, sb_mb = None\<rparr>"
  define s1 where "s1 = s\<lparr>io_trace := io_trace s @ [(?c (length d), int (length d), e, d)]\<rparr>"
  have wd: "wrap32 (int (length d)) = int (length d)" using o(3) by (simp add: in_int32_def)
  have r: "sys_retry wrap32 env (?c (if ?N \<le> sb_size sb then ?N else sb_size sb)) s = Some (s1, int (length d), e, d)"
    using sys_retry_once [of env s "?c (length d)" "int (length d)" e d wrap32] c wd o(3) by (simp add: s1_def sb_def)
  define s2 where "s2 = s1\<lparr>io_mem := (io_mem s)\<lparr>mheap := write_bytes (mheap (io_mem s)) (p + off) d\<rparr>\<rparr>"
  have st: "sb_store (sb_ptr sb) d s1 = Some s2" using o(4) by (simp add: sb_store_def sb_def s2_def s1_def)
  define m where "m = mb_upd b (\<lambda>x. x\<lparr>mb_offset := mb_len x\<rparr>) (io_mem s2)"
  obtain k where k: "membuf_grow (off + length d) (off + length d) = Some k"
    using membuf_grow_spec [of "off + length d" "off + length d"] o(3,4) by auto
  have tz: "to_size (int off + int (length d)) = off + length d" using o(3) by (simp add: to_size_id nat_int_add)
  have m2: "mbufs (io_mem s2) = mbufs (io_mem s)" by (simp add: s2_def)
  have "membuf_addlstring (ie_mem env) b None 0 m = Some (m, False)"
    using o k fl tz by (simp add: membuf_addlstring_def membuf_enlarge_def m_def m2 Let_def)
  then have w: "sys_buffer_write_next (ie_mem env) sb a ?osb 0 (io_mem s2) = Some (m, None)"
    by (simp add: sys_buffer_write_next_def sb_def m_def [symmetric] Let_def)
  have l: "io_read_loop env ?c a ?N sb ?osb s = Some (s2\<lparr>io_mem := m\<rparr>, ?N - length d, int (length d), e, sb, ?osb)"
    using io_read_loop_step [of env ?c ?N sb s, OF r st, of a ?osb] w wd o(3) by (simp add: sb_def to_size_id of_nat_diff)
  define m' where "m' = mb_upd b (\<lambda>x. x\<lparr>mb_offset := mb_len ?mb + int (length d)\<rparr>) m"
  have "wrap32 (mb_len ?mb + int (length d)) = mb_len ?mb + int (length d)" using o(2,3) by (simp add: in_int32_def)
  then have "sys_buffer_write_done sb (Some a) ?osb (to_size (int (length d))) m = Some (m', None)"
    using o(3) wd by (simp add: sys_buffer_write_done_def sb_def m'_def m_def m2 mb_upd_def)
  then have "sys_read env fd (ArgMembuf b) None a s = Some (io_return env (s2\<lparr>io_mem := m'\<rparr>) (RetInt (int (length d))))"
    using l b(1) o by (simp add: sys_read_def io_read_def sys_buffer_write_init_def io_read_end_def sb_def nat_int_add of_nat_diff Let_def)
  then show ?thesis by (intro exI [of _ "s2\<lparr>io_mem := m'\<rparr>"]) (simp add: m'_def m_def m2)
qed


definition io_fixed :: io_state where
  "io_fixed = io_demo\<lparr>io_mem := (io_mem io_demo)\<lparr>mbufs := (\<lambda>_. \<lparr>mb_data = Some 100, mb_len = 8, mb_offset = 6, mb_flags = 0x10001\<rparr>)\<rparr>\<rparr>"

theorem sys_read_fixed_overflows_witness:
  "\<exists>s'. sys_read io_demo_env 5 (ArgMembuf 1) None 0 io_fixed = Some (s', Inr (RetInt 2)) \<and>
     mb_len (mbufs (io_mem s') 1) = 8 \<and> mb_offset (mbufs (io_mem s') 1) = 10"
proof -
  have "\<not> flag_on (mb_flags (mbufs (io_mem io_fixed) 1)) MEM_ALLOC" "\<not> flag_on (mb_flags (mbufs (io_mem io_fixed) 1)) MEM_OSTREAM"
    by (simp_all add: io_fixed_def flag_on_def mem_flag_defs)
  moreover have "ie_call io_demo_env (length (io_trace io_fixed)) (SysRead 5 (length [7, 8 :: byte])) = (int (length [7, 8 :: byte]), 0, [7, 8])"
    by (simp add: io_demo_env_def io_fixed_def io_demo_def)
  ultimately show ?thesis
    using sys_read_fixed_overflows [of io_fixed 1 100 io_demo_env 5 "[7, 8]" 0 0]
    by (auto simp: io_fixed_def io_return_def io_check_def io_demo_env_def)
qed

text \<open>
  Claim C39: \<open>sock_accept\<close> keeps the result of a call in the variable of the listening socket. When a
  signal interrupts the first call, the repeated call is made on the descriptor \<open>- 1\<close>, so that the method
  reports a bad descriptor and no connection is accepted.
\<close>

theorem sock_accept_interrupted_fails:
  assumes "ie_call env (length (io_trace s)) (SysAccept sd from) = (- 1, EINTR, d)"
    and "io_eintr env EINTR (s\<lparr>io_trace := io_trace s @ [(SysAccept sd from, - 1, EINTR, d)]\<rparr>)"
    and "\<And>k. ie_call env k (SysAccept (- 1) from) = (- 1, EBADF, [])"
  shows "\<exists>s'. sock_accept env sd from s = Some (None, io_return env s' (SysError EBADF)) \<and>
    io_trace s' = io_trace s @ [(SysAccept sd from, - 1, EINTR, d), (SysAccept (- 1) from, - 1, EBADF, [])]"
proof -
  have e: "\<not> io_eintr env EBADF s'" for s' by (simp add: io_eintr_def sys_eintr_def EBADF_def EINTR_def)
  have "accept_loop env sd from s = Some (s\<lparr>io_trace := io_trace s @
      [(SysAccept sd from, - 1, EINTR, d), (SysAccept (- 1) from, - 1, EBADF, [])]\<rparr>, - 1, EBADF)"
    using assms by (subst accept_loop.simps, simp add: io_call_def Let_def)
      (subst accept_loop.simps, simp add: io_call_def Let_def e)
  then show ?thesis
    by (intro exI [of _ "s\<lparr>io_trace := io_trace s @
        [(SysAccept sd from, - 1, EINTR, d), (SysAccept (- 1) from, - 1, EBADF, [])]\<rparr>"])
      (simp add: sock_accept_def SYS_IS_EAGAIN_def EBADF_def EAGAIN_def EWOULDBLOCK_def)
qed

theorem sock_accept_interrupted_fails_witness:
  "\<exists>s'. sock_accept (io_demo_env\<lparr>ie_call := (\<lambda>k c. if c = SysAccept 3 None then (- 1, EINTR, []) else (- 1, EBADF, []))\<rparr>) 3 None io_demo =
     Some (None, s', Inr (SysError EBADF))"
  using sock_accept_interrupted_fails [of "io_demo_env\<lparr>ie_call := (\<lambda>k c. if c = SysAccept 3 None then (- 1, EINTR, []) else (- 1, EBADF, []))\<rparr>" io_demo 3 None "[]"]
  by (auto simp: io_eintr_def sys_eintr_def io_demo_env_def io_return_def io_check_def)

text \<open>
  Further behaviour of single methods. \<open>send\<close> takes a prefix of its buffer (of less
  than 2 GB) and reports its length.
\<close>

lemma sock_send_takes:
  assumes ok: "io_ok env" and ends: "eintr_ends env" and a: "arg_ok (io_mem s) a" "a \<noteq> ArgOther"
    and small: "length (arg_bytes (io_mem s) a) < 2147483648"
  shows "\<exists>s' r c. sock_send env sd a to [] s = Some (s', Inr r) \<and> c \<le> length (arg_bytes (io_mem s) a) \<and>
    sent sd (io_trace s') = sent sd (io_trace s) @ take c (arg_bytes (io_mem s) a) \<and>
    (\<forall>x. r = Inr x \<longrightarrow> arg_left (io_mem s) (io_mem s') a c \<and>
       (x = Written (c = length (arg_bytes (io_mem s) a)) (int c) \<or> (\<exists>e. x = SysError e) \<and> c = 0))"
proof -
  define A where "A = arg_bytes (io_mem s) a"
  obtain sb where sb: "sys_buffer_read_init a (io_mem s) = Some sb" using a(2) arg_init_none by (cases "sys_buffer_read_init a (io_mem s)") auto
  note i = arg_init_bytes [OF a(1) sb, folded A_def]
  have sz: "to_size (wrap32 (int (length A))) = length A" "sb\<lparr>sb_size := length A\<rparr> = sb"
    using i small by (simp_all add: A_def [symmetric] in_int32_def)
  obtain s1 nw e d where r: "sys_retry wrap32 env (SysSend sd A 0 to) s = Some (s1, nw, e, d)" "io_mem s1 = io_mem s"
    "sent sd (io_trace s1) = sent sd (io_trace s) @ take (nat nw) A" "- 1 \<le> nw" "nw \<le> int (length A)" "nw \<le> 0x7ffff000"
    using sys_retry_transfer [OF ok ends, of "SysSend sd A 0 to" sd "length A" s] by auto
  show ?thesis
  proof (cases "io_check env s1 \<noteq> Continue \<or> nw = - 1")
    case True
    let ?r = "if io_check env s1 \<noteq> Continue then Inl (io_check env s1)
      else Inr (if SYS_IS_EAGAIN e then Written (0 = length A) 0 else SysError e)"
    have "sock_send env sd a to [] s = Some (s1, Inr ?r)" using True sb i r(1) by (auto simp: sock_send_def sz)
    then show ?thesis using True r
      by (intro exI [of _ s1] exI [of _ ?r] exI [of _ "nat nw"]) (auto simp: A_def [symmetric] intro: arg_left_0)
  next
    case False
    have nw: "to_size nw = nat nw" "nat nw \<le> length (arg_bytes (io_mem s) a)" "nat nw < 2147483648" "int (nat nw) = nw"
      using False r(4-6) by (auto simp: to_size_id A_def)
    from read_next_arg [OF a(1) sb nw(2,3)] obtain m where
      m: "sys_buffer_read_next sb (nat nw) (io_mem s) = Some m" "arg_left (io_mem s) m a (nat nw)" by blast
    have "sock_send env sd a to [] s = Some (s1\<lparr>io_mem := m\<rparr>, Inr (Inr (Written (nat nw = length A) nw)))"
      using False sb i r(1,2) m(1) nw(1) by (simp add: sock_send_def sz)
    then show ?thesis using m(2) nw(2,4) r(3)
      by (intro exI [of _ "s1\<lparr>io_mem := m\<rparr>"] exI [of _ "Inr (Written (nat nw = length A) nw)"] exI [of _ "nat nw"])
        (simp add: A_def)
  qed
qed

text \<open>
  Switching a file to blocking mode toggles the flag: a file that is blocking already becomes
  non-blocking.
\<close>

lemma sys_nonblocking_toggles:
  assumes "ie_call env (length (io_trace s)) (SysGetfl fd) = (flags, e, d)" and "\<not> flag_on (word_of_int flags) O_NONBLOCK"
  shows "\<exists>fl r. io_trace (fst (sys_nonblocking env fd False s)) =
      io_trace s @ [(SysGetfl fd, flags, e, d), (SysSetfl fd fl, r)] \<and> flag_on fl O_NONBLOCK"
  using assms
  by (intro exI [of _ "word_of_int flags XOR O_NONBLOCK"]
      exI [of _ "ie_call env (Suc (length (io_trace s))) (SysSetfl fd (word_of_int flags XOR O_NONBLOCK))"])
    (simp add: sys_nonblocking_def io_call_def Let_def case_prod_beta flag_on_def bit.conj_xor_distrib2 O_NONBLOCK_def)

text \<open>
  When the thread was interrupted, \<open>close\<close> raises the error after the descriptor was closed and before
  it is cleared in the object, which then still names a closed descriptor.
\<close>

lemma sys_close_keeps_descriptor:
  assumes "ie_call env (length (io_trace s)) (SysClose fd) = (0, e, d)" and "fd \<noteq> - 1"
    and "io_check env (s\<lparr>io_trace := io_trace s @ [(SysClose fd, 0, e, d)]\<rparr>) = InterruptError"
  shows "sys_close env fd False cs s = Some (fd, s\<lparr>io_trace := io_trace s @ [(SysClose fd, 0, e, d)]\<rparr>, Inl InterruptError)"
  using sys_retry_once [of env s "SysClose fd" 0 e d wrap32] assms
  by (simp add: sys_close_def io_return_def in_int32_def)

end
